(* ===== verification/Prelude.thy ===== *)
theory Prelude
  imports Main "HOL-Library.Word" "HOL-Library.AList"
begin

text \<open>
  Shared vocabulary of the development: bytes and byte strings, the little-endian images that
  \<open>memcpy\<close> of an unsigned integer produces on the supported hosts, positioned reads and writes
  of a regular file, and the generic list and word lemmas that every component theory uses.

  A \<open>std::string\<close>, a \<open>std::vector<uint8_t>\<close> and the contents of a file are all \<open>bytes\<close>.
  \<open>size_t\<close> and \<open>uint64_t\<close> file positions are \<open>nat\<close> (a file is far below \<open>2^63\<close> bytes); the
  32-bit and 64-bit fields that are stored on disk or on the wire keep their width as words.
\<close>

unbundle bit_operations_syntax

named_theorems byte_simps \<open>lengths and round trips of byte encodings\<close>
named_theorems io_simps \<open>behaviour of positioned file reads and writes\<close>

type_synonym byte = "8 word"
type_synonym bytes = "byte list"
type_synonym u32 = "32 word"
type_synonym u64 = "64 word"

section \<open>Lists\<close>

lemma take_take_drop [simp]: "take a xs @ take b (drop a xs) @ drop (b + a) xs = xs"
  by (metis append_take_drop_id drop_drop)

section \<open>Options\<close>

lemma option_eqI: "(\<And>x. a = Some x \<longleftrightarrow> b = Some x) \<Longrightarrow> a = b"
  by (cases a; cases b) auto

section \<open>Little-endian integers\<close>

primrec le_bytes :: "nat \<Rightarrow> nat \<Rightarrow> bytes" where
  "le_bytes 0 x = []"
| "le_bytes (Suc n) x = of_nat x # le_bytes n (x div 256)"

primrec le_val :: "bytes \<Rightarrow> nat" where
  "le_val [] = 0"
| "le_val (b # bs) = unat b + 256 * le_val bs"

lemma length_le_bytes [simp, byte_simps]: "length (le_bytes n x) = n"
  by (induction n arbitrary: x) auto

lemma unat_byte_less [simp]: "unat (b :: byte) < 256"
  using unsigned_less [of b] by simp

lemma unat_u32_less: "unat (w :: u32) < 4294967296"
  using unsigned_less [of w] by simp

lemma unat_u64_less: "unat (w :: u64) < 18446744073709551616"
  using unsigned_less [of w] by simp

lemma unat_byte_of_nat [simp]: "unat (of_nat x :: byte) = x mod 256"
  by (simp add: unat_of_nat)

lemma le_val_le_bytes [byte_simps]: "le_val (le_bytes n x) = x mod 256 ^ n"
proof (induction n arbitrary: x)
  case (Suc n)
  have "x mod 256 + 256 * (x div 256 mod 256 ^ n) = x mod (256 * 256 ^ n)"
    by (simp add: mod_mult2_eq)
  with Suc show ?case by simp
qed simp

lemma le_val_bound: "le_val bs < 256 ^ length bs"
proof (induction bs)
  case (Cons b bs)
  have "le_val bs + 1 \<le> 256 ^ length bs" using Cons by simp
  then have "unat b + 256 * le_val bs < 256 * 256 ^ length bs"
    using unat_byte_less [of b] by linarith
  then show ?case by simp
qed simp

lemma le_bytes_le_val [byte_simps]: "le_bytes (length bs) (le_val bs) = bs"
proof (induction bs)
  case (Cons b bs)
  have "of_nat (unat b + 256 * le_val bs) = b"
    by (simp only: word_unat_eq_iff unat_byte_of_nat) simp
  moreover have "(unat b + 256 * le_val bs) div 256 = le_val bs" by simp
  ultimately show ?case using Cons by simp
qed simp

definition put_u32 :: "u32 \<Rightarrow> bytes" where
  "put_u32 w = le_bytes 4 (unat w)"

definition get_u32 :: "bytes \<Rightarrow> u32" where
  "get_u32 bs = of_nat (le_val (take 4 bs))"

definition put_u64 :: "u64 \<Rightarrow> bytes" where
  "put_u64 w = le_bytes 8 (unat w)"

definition get_u64 :: "bytes \<Rightarrow> u64" where
  "get_u64 bs = of_nat (le_val (take 8 bs))"

lemma length_put_u32 [simp, byte_simps]: "length (put_u32 w) = 4"
  by (simp add: put_u32_def)

lemma length_put_u64 [simp, byte_simps]: "length (put_u64 w) = 8"
  by (simp add: put_u64_def)

lemma get_put_u32 [simp, byte_simps]: "get_u32 (put_u32 w @ bs) = w"
  using unat_u32_less [of w] by (simp add: get_u32_def put_u32_def le_val_le_bytes)

lemma get_put_u64 [simp, byte_simps]: "get_u64 (put_u64 w @ bs) = w"
  using unat_u64_less [of w] by (simp add: get_u64_def put_u64_def le_val_le_bytes)

end
