(* ===== verification/Crc32.thy ===== *)
theory Crc32
  imports Prelude
begin

text \<open>
  \<open>crc32.hpp\<close>: the table-driven CRC-32 with the reflected polynomial \<open>0xEDB88320\<close>. The theory
  relates the table-driven update to the bit-serial definition and derives what the engines rely
  on: the checksum can be fed in chunks, and two messages of the same length that differ in one
  byte never have the same checksum.
\<close>

section \<open>The program\<close>

definition crc32_shift :: "u32 \<Rightarrow> u32" where
  "crc32_shift c = (if c AND 1 \<noteq> 0 then 0xEDB88320 XOR drop_bit 1 c else drop_bit 1 c)"

definition crc32_table_entry :: "nat \<Rightarrow> u32" where
  "crc32_table_entry n = (crc32_shift ^^ 8) (of_nat n)"

definition crc32_table :: "u32 list" where
  "crc32_table = map crc32_table_entry [0..<256]"

definition crc32_step :: "u32 \<Rightarrow> byte \<Rightarrow> u32" where
  "crc32_step crc b = crc32_table ! unat ((crc XOR ucast b) AND 0xFF) XOR drop_bit 8 crc"

definition crc32_update :: "u32 \<Rightarrow> bytes \<Rightarrow> u32" where
  "crc32_update crc data = foldl crc32_step crc data"

definition crc32 :: "bytes \<Rightarrow> u32" where
  "crc32 data = crc32_update 0xFFFFFFFF data XOR 0xFFFFFFFF"

section \<open>Bit-serial reference\<close>

definition crc32_bitwise :: "u32 \<Rightarrow> bytes \<Rightarrow> u32" where
  "crc32_bitwise crc data = foldl (\<lambda>c b. (crc32_shift ^^ 8) (c XOR ucast b)) crc data"

lemma crc32_shift_alt: "crc32_shift c = drop_bit 1 c XOR (if bit c 0 then 0xEDB88320 else 0)"
  by (simp add: crc32_shift_def and_one_eq mod_2_eq_odd bit_0 xor.commute)

lemma crc32_shift_xor: "crc32_shift (a XOR b) = crc32_shift a XOR crc32_shift b"
  by (simp add: crc32_shift_alt drop_bit_xor bit_xor_iff ac_simps)

lemma crc32_shifts_xor: "(crc32_shift ^^ n) (a XOR b) = (crc32_shift ^^ n) a XOR (crc32_shift ^^ n) b"
  by (induction n) (simp_all add: crc32_shift_xor)

lemma bit_word_less: "bit (w :: 'a::len word) n \<Longrightarrow> n < LENGTH('a)"
  by (rule bit_imp_le_length)

lemma crc32_shifts_clear:
  "(\<And>i. i < n \<Longrightarrow> \<not> bit c i) \<Longrightarrow> (crc32_shift ^^ n) c = drop_bit n c"
proof (induction n arbitrary: c)
  case (Suc n)
  have "crc32_shift c = drop_bit 1 c"
    using Suc.prems [of 0] by (simp add: crc32_shift_alt)
  moreover have "(crc32_shift ^^ n) (drop_bit 1 c) = drop_bit n (drop_bit 1 c)"
    by (rule Suc.IH) (use Suc.prems in \<open>simp add: bit_drop_bit_eq\<close>)
  ultimately show ?case by (simp add: funpow_swap1 drop_bit_drop_bit)
qed simp

lemma unat_and_255_less: "unat ((c :: u32) AND 0xFF) < 256"
proof -
  have "c AND 0xFF = take_bit 8 c" by (simp add: take_bit_eq_mask mask_eq_exp_minus_1)
  then show ?thesis by (simp add: unsigned_take_bit_eq) (simp add: take_bit_eq_mod)
qed

lemma crc32_table_nth: "n < 256 \<Longrightarrow> crc32_table ! n = (crc32_shift ^^ 8) (of_nat n)"
  by (simp add: crc32_table_def crc32_table_entry_def)

lemma crc32_step_bitwise: "crc32_step c b = (crc32_shift ^^ 8) (c XOR ucast b)"
proof -
  define x where "x = c XOR (ucast b :: u32)"
  define m where "m = (0xFF :: u32)"
  define lo where "lo = x AND m"
  define hi where "hi = x AND NOT m"
  have x: "x = lo XOR hi"
    by (rule bit_eqI) (auto simp: lo_def hi_def bit_simps)
  have lo_bits: "bit m i \<longleftrightarrow> i < 8" for i
    using bit_mask_iff [where n = i and m = 8 and 'a = "32 word"]
    by (auto simp: m_def mask_eq_exp_minus_1 possible_bit_def)
  have hi_shift: "(crc32_shift ^^ 8) hi = drop_bit 8 hi"
    by (rule crc32_shifts_clear) (auto simp: hi_def bit_simps lo_bits)
  have hi_c: "drop_bit 8 hi = drop_bit 8 c"
    by (rule bit_eqI) (auto simp: hi_def x_def bit_simps lo_bits dest: bit_word_less)
  have "crc32_table ! unat lo = (crc32_shift ^^ 8) lo"
    using unat_and_255_less [of x] by (simp add: crc32_table_nth lo_def m_def)
  then show ?thesis
    by (simp add: crc32_step_def x_def [symmetric] m_def [symmetric] lo_def [symmetric]) (simp add: x crc32_shifts_xor hi_shift hi_c)
qed

lemma crc32_update_append [byte_simps]:
  "crc32_update c (xs @ ys) = crc32_update (crc32_update c xs) ys"
  by (simp add: crc32_update_def)

lemma crc32_update_Nil [simp]: "crc32_update c [] = c"
  by (simp add: crc32_update_def)

lemma crc32_step_code [code]: "crc32_step c b = (crc32_shift ^^ 8) (c XOR ucast b)"
  by (rule crc32_step_bitwise)

lemma crc32_shifts_8:
  "(crc32_shift ^^ 8) c = crc32_shift (crc32_shift (crc32_shift (crc32_shift
     (crc32_shift (crc32_shift (crc32_shift (crc32_shift c)))))))"
  by (simp add: eval_nat_numeral)

text \<open>Rewrite rules with which \<open>simp\<close> computes the checksum of a concrete byte string.\<close>

lemmas crc32_eval = crc32_def crc32_update_def crc32_step_bitwise crc32_shifts_8 crc32_shift_def
  drop_bit_eq_div

section \<open>Injectivity and error detection\<close>

lemma xor_eq_cancel: "(a :: 'a::len word) XOR c = b XOR c \<longleftrightarrow> a = b"
  by (metis xor.assoc xor.right_neutral xor_self_eq)

lemma bit_poly_31: "bit (0xEDB88320 :: u32) 31"
  by simp

lemma crc32_shift_inj: "crc32_shift a = crc32_shift b \<Longrightarrow> a = b"
proof -
  assume eq: "crc32_shift a = crc32_shift b"
  have top: "bit (crc32_shift c) 31 = bit c 0" for c
    by (auto simp: crc32_shift_alt bit_simps bit_poly_31 dest: bit_word_less)
  have low: "bit a 0 = bit b 0" using top [of a] top [of b] eq by simp
  then have "drop_bit 1 a = drop_bit 1 b"
    using eq by (auto simp: crc32_shift_alt xor_eq_cancel split: if_splits)
  then have "bit a (Suc i) = bit b (Suc i)" for i
    by (metis bit_drop_bit_eq comp_apply plus_1_eq_Suc)
  with low have "bit a i = bit b i" for i by (cases i) auto
  then show ?thesis by (auto intro: bit_eqI)
qed

lemma crc32_shifts_inj: "(crc32_shift ^^ n) a = (crc32_shift ^^ n) b \<Longrightarrow> a = b"
  by (induction n) (auto dest: crc32_shift_inj)

lemma crc32_step_inj_crc: "crc32_step c b = crc32_step c' b \<Longrightarrow> c = c'"
  by (auto simp: crc32_step_bitwise xor_eq_cancel dest: crc32_shifts_inj)

lemma ucast_byte_u32_inj: "(ucast (b :: byte) :: u32) = ucast b' \<Longrightarrow> b = b'"
  by (simp add: word_unat_eq_iff unsigned_ucast_eq take_bit_eq_mod less_trans [OF unat_byte_less])

lemma crc32_step_inj_byte: "crc32_step c b = crc32_step c b' \<Longrightarrow> b = b'"
  by (auto simp: crc32_step_bitwise xor.commute [of c] xor_eq_cancel
      dest!: crc32_shifts_inj ucast_byte_u32_inj)

lemma crc32_update_inj_crc: "crc32_update c xs = crc32_update c' xs \<Longrightarrow> c = c'"
  by (induction xs arbitrary: c c') (auto simp: crc32_update_def dest: crc32_step_inj_crc)

lemma crc32_update_byte:
  "crc32_update c (xs @ b # ys) = crc32_update c (xs @ b' # ys) \<Longrightarrow> b = b'"
  by (auto simp: crc32_update_def dest!: crc32_update_inj_crc [unfolded crc32_update_def] crc32_step_inj_byte)

lemma crc32_one_byte: "crc32 (xs @ b # ys) = crc32 (xs @ b' # ys) \<Longrightarrow> b = b'"
  by (auto simp: crc32_def xor_eq_cancel dest: crc32_update_byte)

end
