(* ===== verification/Posix_File.thy ===== *)
theory Posix_File
  imports Prelude
begin

text \<open>
  The POSIX calls on a regular file that the storage engines make. A file is its byte string.
  The outcome of a call that may fail is an explicit argument, so that every error branch of the
  callers is reachable in the model:
  \<^item> a write outcome is \<open>nat option\<close>: \<open>None\<close> is the return value \<open>-1\<close>, \<open>Some n\<close> stores at most
    \<open>n\<close> bytes and returns the number stored (\<open>pwrite\<close> may be short);
  \<^item> a read-fault predicate says at which file offsets \<open>pread\<close> returns \<open>-1\<close>; elsewhere it
    returns the bytes up to the end of the file.
\<close>

type_synonym write_outcome = "nat option"
type_synonym read_faults = "nat \<Rightarrow> bool"

definition write_at :: "bytes \<Rightarrow> nat \<Rightarrow> bytes \<Rightarrow> bytes" where
  "write_at f off bs =
     (if bs = [] then f
      else take off (f @ replicate (off - length f) 0) @ bs @ drop (off + length bs) f)"

definition pwrite :: "write_outcome \<Rightarrow> bytes \<Rightarrow> nat \<Rightarrow> bytes \<Rightarrow> bytes \<times> int" where
  "pwrite oc f off bs =
     (case oc of
        None \<Rightarrow> (f, -1)
      | Some n \<Rightarrow> (write_at f off (take n bs), int (min n (length bs))))"

definition pread :: "read_faults \<Rightarrow> bytes \<Rightarrow> nat \<Rightarrow> nat \<Rightarrow> bytes option" where
  "pread rf f n off = (if rf off then None else Some (take n (drop off f)))"

definition ftruncate :: "bytes \<Rightarrow> nat \<Rightarrow> bytes" where
  "ftruncate f n = take n f @ replicate (n - length f) 0"

abbreviation no_faults :: read_faults where
  "no_faults \<equiv> \<lambda>_. False"

lemma write_at_end [simp, io_simps]: "write_at f (length f) bs = f @ bs"
  by (simp add: write_at_def)

lemma write_at_append [io_simps]: "write_at (f @ t) (length f) bs = f @ bs @ drop (length bs) t"
  by (simp add: write_at_def)

lemma write_at_prefix [io_simps]:
  "off \<le> length f \<Longrightarrow> write_at f off bs = take off f @ bs @ drop (off + length bs) f"
  by (simp add: write_at_def)

lemma take_write_at [simp]: "off \<le> length f \<Longrightarrow> take off (write_at f off bs) = take off f"
  by (simp add: write_at_prefix)

lemma take_le_write_at: "off \<le> length f \<Longrightarrow> n \<le> off \<Longrightarrow> take n (write_at f off bs) = take n f"
  by (simp add: write_at_prefix min_def)

lemma length_write_at: "off \<le> length f \<Longrightarrow> length (write_at f off bs) = max (length f) (off + length bs)"
  by (simp add: write_at_prefix)

lemma ftruncate_le [simp]: "n \<le> length f \<Longrightarrow> ftruncate f n = take n f"
  by (simp add: ftruncate_def)

lemma pread_no_faults [simp]: "pread no_faults f n off = Some (take n (drop off f))"
  by (simp add: pread_def)

text \<open>A read inside a prefix of the file depends on that prefix only.\<close>

lemma take_drop_within:
  "off + n \<le> m \<Longrightarrow> take m f = take m g \<Longrightarrow> take n (drop off f) = take n (drop off g)"
  by (metis add.commute drop_take le_add_diff_inverse min.absorb1 take_drop take_take)

end
