(* ===== verification/Record_Format.thy ===== *)
theory Record_Format
  imports Crc32 Posix_File
begin

text \<open>
  \<open>record_format.hpp\<close>: the on-disk record, \<open>[crc][timestamp][klen][vlen][key][value]\<close>, shared by
  both storage engines. \<open>write_record\<close> is the only routine that serializes a record; the reading
  side (header, bound check, body, checksum) is the sequence of steps that both recovery loops
  start with and is modelled once, as \<open>read_record\<close>, with the rule for the body length as its
  argument because the two engines use different rules.
\<close>

section \<open>The program\<close>

definition HEADER_SIZE :: nat where
  "HEADER_SIZE = 20"

definition TOMBSTONE :: u32 where
  "TOMBSTONE = 0xFFFFFFFF"

definition COMPACTION_BASE :: u32 where
  "COMPACTION_BASE = 0xFFFFFFFE"

definition body_value_len :: "u32 \<Rightarrow> u32" where
  "body_value_len vlen_field =
     (if vlen_field = TOMBSTONE \<or> vlen_field = COMPACTION_BASE then 0 else vlen_field)"

definition encode_header :: "u32 \<Rightarrow> u64 \<Rightarrow> u32 \<Rightarrow> u32 \<Rightarrow> bytes" where
  "encode_header crc ts klen vlen = put_u32 crc @ put_u64 ts @ put_u32 klen @ put_u32 vlen"

definition decode_header :: "bytes \<Rightarrow> u32 \<times> u64 \<times> u32 \<times> u32" where
  "decode_header buf =
     (get_u32 buf, get_u64 (drop 4 buf), get_u32 (drop 12 buf), get_u32 (drop 16 buf))"

definition record_buffer :: "bytes \<Rightarrow> bytes \<Rightarrow> u32 \<Rightarrow> u64 \<Rightarrow> bytes" where
  "record_buffer key value_data vlen_field ts =
     (let klen = (of_nat (length key) :: u32);
          actual_vlen = unat (body_value_len vlen_field);
          body = take (unat klen) key @ take actual_vlen value_data;
          buf = encode_header 0 ts klen vlen_field @ body;
          crc = crc32 (drop 4 buf)
      in put_u32 crc @ drop 4 buf)"

datatype write_result = WriteFailed | Written nat nat

definition write_record ::
  "write_outcome \<Rightarrow> bytes \<Rightarrow> nat \<Rightarrow> bytes \<Rightarrow> bytes \<Rightarrow> u32 \<Rightarrow> u64 \<Rightarrow> bytes \<times> write_result" where
  "write_record oc file offset key value_data vlen_field ts =
     (let buf = record_buffer key value_data vlen_field ts;
          (file', written) = pwrite oc file offset buf
      in if written < 0 \<or> nat written \<noteq> length buf then (file', WriteFailed)
         else (file', Written (offset + HEADER_SIZE + unat (of_nat (length key) :: u32)) (length buf)))"

definition parent_dir :: "string \<Rightarrow> string" where
  "parent_dir path =
     (let tail = takeWhile (\<lambda>c. c \<noteq> CHR ''/'') (rev path);
          slash = length path - length tail - 1
      in if CHR ''/'' \<notin> set path then ''.''
         else if slash = 0 then ''/''
         else take slash path)"

text \<open>\<open>now_ms\<close>, of the number of milliseconds that the system clock counts.\<close>

definition now_ms :: "int \<Rightarrow> u64" where
  "now_ms count = of_int count"

text \<open>
  The common prefix of the two recovery loops: \<open>None\<close> is a \<open>break\<close>, \<open>Some\<close> the fields of a
  record whose checksum matches. \<open>blen\<close> gives the number of value bytes for a length field.
\<close>

definition read_record ::
  "(u32 \<Rightarrow> u32) \<Rightarrow> read_faults \<Rightarrow> bytes \<Rightarrow> nat \<Rightarrow> (u64 \<times> bytes \<times> u32) option" where
  "read_record blen rf file offset =
     (if length file - offset < HEADER_SIZE then None
      else case pread rf file HEADER_SIZE offset of
        None \<Rightarrow> None
      | Some header \<Rightarrow>
          if length header < HEADER_SIZE then None
          else
            (let (crc, ts, klen, vlen) = decode_header header;
                 body_len = unat klen + unat (blen vlen)
             in if body_len > length file - offset - HEADER_SIZE then None
                else case (if body_len = 0 then Some []
                           else pread rf file body_len (offset + HEADER_SIZE)) of
                  None \<Rightarrow> None
                | Some body \<Rightarrow>
                    if length body \<noteq> body_len then None
                    else
                      (let c1 = crc32_update 0xFFFFFFFF (drop 4 header);
                           c2 = (if body = [] then c1 else crc32_update c1 body);
                           recomputed = c2 XOR 0xFFFFFFFF
                       in if recomputed \<noteq> crc then None
                          else Some (ts, take (unat klen) body, vlen))))"

section \<open>Lengths and fields\<close>

lemma length_encode_header [simp, byte_simps]: "length (encode_header crc ts klen vlen) = 20"
  by (simp add: encode_header_def)

lemma length_record_buffer:
  "length key < 2 ^ 32 \<Longrightarrow> unat (body_value_len v) = length value \<Longrightarrow>
   length (record_buffer key value v ts) = HEADER_SIZE + length key + length value"
  by (simp add: record_buffer_def Let_def HEADER_SIZE_def unat_of_nat)

lemma decode_encode_header [byte_simps]:
  "decode_header (encode_header crc ts klen vlen @ bs) = (crc, ts, klen, vlen)"
  by (simp add: decode_header_def encode_header_def)

lemma drop_4_header: "drop 4 (encode_header crc ts klen vlen @ bs) = put_u64 ts @ put_u32 klen @ put_u32 vlen @ bs"
  by (simp add: encode_header_def)

text \<open>A record laid out explicitly.\<close>

definition record_tail :: "u64 \<Rightarrow> u32 \<Rightarrow> u32 \<Rightarrow> bytes \<Rightarrow> bytes" where
  "record_tail ts klen vlen body = put_u64 ts @ put_u32 klen @ put_u32 vlen @ body"

lemma record_buffer_layout:
  assumes "length key < 2 ^ 32" and "unat (body_value_len v) = length value"
  shows "record_buffer key value v ts =
    encode_header (crc32 (record_tail ts (of_nat (length key)) v (key @ value))) ts (of_nat (length key)) v
      @ key @ value"
  using assms
  by (simp add: record_buffer_def Let_def unat_of_nat drop_4_header record_tail_def) (simp add: encode_header_def)

section \<open>Logs of records\<close>

text \<open>
  The abstract content of a log file: a list of records. \<open>rec_bytes\<close> is the byte image of one
  record and \<open>log_bytes\<close> of a whole log; \<open>rec_ok\<close> says that the length fields describe the key
  and the value under the body-length rule \<open>blen\<close>.
\<close>

record log_rec =
  lr_ts :: u64
  lr_key :: bytes
  lr_vlen :: u32
  lr_value :: bytes

definition rec_ok :: "(u32 \<Rightarrow> u32) \<Rightarrow> log_rec \<Rightarrow> bool" where
  "rec_ok blen r \<longleftrightarrow> length (lr_key r) < 2 ^ 32 \<and> unat (blen (lr_vlen r)) = length (lr_value r)"

definition rec_bytes :: "log_rec \<Rightarrow> bytes" where
  "rec_bytes r =
     (let k = of_nat (length (lr_key r)); body = lr_key r @ lr_value r
      in encode_header (crc32 (record_tail (lr_ts r) k (lr_vlen r) body)) (lr_ts r) k (lr_vlen r) @ body)"

definition rec_len :: "log_rec \<Rightarrow> nat" where
  "rec_len r = HEADER_SIZE + length (lr_key r) + length (lr_value r)"

definition log_bytes :: "log_rec list \<Rightarrow> bytes" where
  "log_bytes rs = concat (map rec_bytes rs)"

lemma length_rec_bytes [simp]: "length (rec_bytes r) = rec_len r"
  by (simp add: rec_bytes_def rec_len_def Let_def HEADER_SIZE_def)

lemma rec_len_pos: "HEADER_SIZE \<le> rec_len r"
  by (simp add: rec_len_def)

lemma log_bytes_simps [simp]:
  "log_bytes [] = []"
  "log_bytes (r # rs) = rec_bytes r @ log_bytes rs"
  "log_bytes (rs @ rs') = log_bytes rs @ log_bytes rs'"
  by (simp_all add: log_bytes_def)

lemma record_buffer_rec_bytes:
  "rec_ok body_value_len \<lparr>lr_ts = ts, lr_key = key, lr_vlen = v, lr_value = value\<rparr> \<Longrightarrow>
   record_buffer key value v ts = rec_bytes \<lparr>lr_ts = ts, lr_key = key, lr_vlen = v, lr_value = value\<rparr>"
  by (simp add: rec_ok_def record_buffer_layout rec_bytes_def Let_def)

lemma record_buffer_tombstone:
  "length key < 2 ^ 32 \<Longrightarrow>
   record_buffer key value TOMBSTONE ts = rec_bytes \<lparr>lr_ts = ts, lr_key = key, lr_vlen = TOMBSTONE, lr_value = []\<rparr>"
  using record_buffer_rec_bytes [of ts key TOMBSTONE "[]"]
  by (simp add: rec_ok_def body_value_len_def record_buffer_def Let_def)

lemma write_record_bytes:
  assumes "record_buffer key value v ts = rec_bytes r" and "lr_key r = key" and "length key < 2 ^ 32"
  shows "write_record oc file off key value v ts =
    (case oc of
       None \<Rightarrow> (file, WriteFailed)
     | Some n \<Rightarrow>
         if rec_len r \<le> n
         then (write_at file off (rec_bytes r), Written (off + HEADER_SIZE + length key) (rec_len r))
         else (write_at file off (take n (rec_bytes r)), WriteFailed))"
  using assms by (auto simp: write_record_def pwrite_def Let_def min_def unat_of_nat split: option.split)

section \<open>Parsing one record\<close>

text \<open>
  Without read faults \<open>read_record\<close> is a function of the bytes from the offset on. \<open>parse_record\<close>
  is that function; its properties are the contract the recovery loops rely on.
\<close>

definition parse_record :: "(u32 \<Rightarrow> u32) \<Rightarrow> bytes \<Rightarrow> (u64 \<times> bytes \<times> u32) option" where
  "parse_record blen t =
     (if length t < HEADER_SIZE then None
      else let (crc, ts, klen, vlen) = decode_header t;
               n = unat klen + unat (blen vlen);
               body = take n (drop HEADER_SIZE t)
           in if n > length t - HEADER_SIZE then None
              else if crc32 (record_tail ts klen vlen body) \<noteq> crc then None
              else Some (ts, take (unat klen) body, vlen))"

lemma get_u32_take: "4 \<le> n \<Longrightarrow> get_u32 (take n bs) = get_u32 bs"
  by (simp add: get_u32_def min_def)

lemma get_u64_take: "8 \<le> n \<Longrightarrow> get_u64 (take n bs) = get_u64 bs"
  by (simp add: get_u64_def min_def)

lemma decode_header_take: "20 \<le> n \<Longrightarrow> decode_header (take n t) = decode_header t"
  by (simp add: decode_header_def drop_take get_u32_take get_u64_take)

lemma put_get_u32: "4 \<le> length bs \<Longrightarrow> put_u32 (get_u32 bs) = take 4 bs"
  using le_val_bound [of "take 4 bs"] le_bytes_le_val [of "take 4 bs"]
  by (simp add: put_u32_def get_u32_def unat_of_nat min.absorb2)

lemma put_get_u64: "8 \<le> length bs \<Longrightarrow> put_u64 (get_u64 bs) = take 8 bs"
  using le_val_bound [of "take 8 bs"] le_bytes_le_val [of "take 8 bs"]
  by (simp add: put_u64_def get_u64_def unat_of_nat min.absorb2)

lemma take_drop_join: "take a (drop b xs) @ take c (drop (b + a) xs) = take (a + c) (drop b xs)"
  by (simp add: take_add add.commute)

lemma header_bytes:
  assumes "20 \<le> length t" and "decode_header t = (crc, ts, klen, vlen)"
  shows "encode_header crc ts klen vlen = take 20 t"
    and "put_u64 ts @ put_u32 klen @ put_u32 vlen = take 16 (drop 4 t)"
proof -
  have f: "put_u32 crc = take 4 t" "put_u64 ts = take 8 (drop 4 t)"
    "put_u32 klen = take 4 (drop 12 t)" "put_u32 vlen = take 4 (drop 16 t)"
    using assms by (auto simp: decode_header_def put_get_u32 put_get_u64)
  have a: "take 4 (drop 12 t) @ take 4 (drop 16 t) = take 8 (drop 12 t)"
    using take_drop_join [of 4 12 t 4] by simp
  have b: "take 8 (drop 4 t) @ take 8 (drop 12 t) = take 16 (drop 4 t)"
    using take_drop_join [of 8 4 t 8] by simp
  show "put_u64 ts @ put_u32 klen @ put_u32 vlen = take 16 (drop 4 t)"
    by (simp add: f a b)
  then show "encode_header crc ts klen vlen = take 20 t"
    using take_drop_join [of 4 0 t 16] by (simp add: encode_header_def f)
qed

lemma read_record_parse:
  "read_record blen no_faults file off = parse_record blen (drop off file)"
proof -
  define t where "t = drop off file"
  have len: "length file - off = length t" by (simp add: t_def)
  have body: "take n (drop (off + HEADER_SIZE) file) = take n (drop HEADER_SIZE t)" for n
    by (simp add: t_def add.commute)
  show ?thesis
  proof (cases "length t < HEADER_SIZE")
    case True
    then show ?thesis by (simp add: read_record_def parse_record_def len t_def [symmetric])
  next
    case False
    obtain crc ts klen vlen where d: "decode_header t = (crc, ts, klen, vlen)" by (metis prod_cases4)
    define h where "h = take HEADER_SIZE t"
    have lh: "length h = HEADER_SIZE" using False by (simp add: h_def)
    have d': "decode_header h = (crc, ts, klen, vlen)"
      using d decode_header_take [of 20 t] by (simp add: h_def HEADER_SIZE_def)
    have tail: "put_u64 ts @ put_u32 klen @ put_u32 vlen = drop 4 h"
      using header_bytes(2) [OF _ d] False by (simp add: h_def HEADER_SIZE_def drop_take)
    have c: "crc32_update (crc32_update 0xFFFFFFFF (drop 4 h)) b XOR 0xFFFFFFFF
        = crc32 (record_tail ts klen vlen b)" for b
      by (simp add: crc32_def record_tail_def tail [symmetric] flip: crc32_update_append)
    have c0: "crc32_update 0xFFFFFFFF (drop 4 h) XOR 0xFFFFFFFF
        = crc32 (record_tail ts klen vlen [])"
      using c [of "[]"] by simp
    show ?thesis
      using False
      by (auto simp: read_record_def parse_record_def len t_def [symmetric] h_def [symmetric] d d' lh Let_def body c c0)
  qed
qed

lemma parse_record_header:
  "parse_record blen (encode_header crc ts klen vlen @ rest) =
     (let n = unat klen + unat (blen vlen); body = take n rest
      in if n > length rest \<or> crc32 (record_tail ts klen vlen body) \<noteq> crc then None
         else Some (ts, take (unat klen) body, vlen))"
  by (simp add: parse_record_def HEADER_SIZE_def decode_encode_header Let_def)

text \<open>An intact record is accepted, whatever follows it.\<close>

lemma parse_record_complete:
  "rec_ok blen r \<Longrightarrow> parse_record blen (rec_bytes r @ rest) = Some (lr_ts r, lr_key r, lr_vlen r)"
  by (simp add: rec_ok_def rec_bytes_def Let_def parse_record_header unat_of_nat)

text \<open>A proper prefix of a record (a torn write) is never accepted.\<close>

lemma parse_record_torn:
  assumes "rec_ok blen r" and "n < rec_len r"
  shows "parse_record blen (take n (rec_bytes r)) = None"
proof (cases "n < HEADER_SIZE")
  case False
  then show ?thesis
    using assms
    by (simp add: rec_ok_def rec_bytes_def rec_len_def Let_def parse_record_header unat_of_nat HEADER_SIZE_def)
      (auto simp: min_def)
qed (auto simp: parse_record_def min_def)

lemma parse_record_Nil [simp]: "parse_record blen [] = None"
  by (simp add: parse_record_def HEADER_SIZE_def)

text \<open>Everything that is accepted is the byte image of a record.\<close>

lemma parse_record_sound:
  assumes "parse_record blen t = Some (ts, key, v)"
  obtains r where "rec_ok blen r" and "lr_ts r = ts" and "lr_key r = key" and "lr_vlen r = v"
    and "t = rec_bytes r @ drop (rec_len r) t"
proof -
  obtain crc ts' k v' where d: "decode_header t = (crc, ts', k, v')" by (metis prod_cases4)
  define n where "n = unat k + unat (blen v')"
  define body where "body = take n (drop 20 t)"
  from assms have len: "20 \<le> length t" and n: "n \<le> length t - 20"
    and crc: "crc32 (record_tail ts' k v' body) = crc"
    and res: "ts' = ts" "take (unat k) body = key" "v' = v"
    by (auto simp: parse_record_def d Let_def n_def body_def HEADER_SIZE_def split: if_splits)
  define r where "r = \<lparr>lr_ts = ts, lr_key = key, lr_vlen = v, lr_value = drop (unat k) body\<rparr>"
  have lb: "length body = n" using n by (simp add: body_def)
  have lk: "length key = unat k" using res lb by (auto simp: n_def)
  have body: "key @ drop (unat k) body = body" using res by auto
  have ok: "rec_ok blen r"
    using lk lb res unat_u32_less [of k] by (simp add: rec_ok_def r_def n_def)
  have rb: "rec_bytes r = take 20 t @ body"
    using header_bytes(1) [OF len d] crc res body lk by (simp add: rec_bytes_def Let_def r_def)
  have rl: "rec_len r = 20 + n"
    using lk lb by (simp add: rec_len_def r_def HEADER_SIZE_def n_def)
  have "t = rec_bytes r @ drop (rec_len r) t"
    by (simp add: rb rl body_def take_drop_join flip: append_assoc)
      (metis append_take_drop_id drop_drop add.commute append_assoc)
  with ok show ?thesis using that [of r] by (simp add: r_def)
qed

text \<open>
  A record with one byte changed anywhere but in its two length fields is rejected: the length
  fields still delimit the same bytes, and the checksum of those bytes, or the stored checksum,
  differs.
\<close>

lemma u32_bytes_inj: "put_u32 a = put_u32 b \<longleftrightarrow> a = b"
  by (metis append_Nil2 get_put_u32)

lemma list_update_neq: "i < length xs \<Longrightarrow> b \<noteq> xs ! i \<Longrightarrow> xs[i := b] \<noteq> xs"
  by (metis nth_list_update_eq)

lemma crc32_list_update: "i < length xs \<Longrightarrow> b \<noteq> xs ! i \<Longrightarrow> crc32 (xs[i := b]) \<noteq> crc32 xs"
  using crc32_one_byte [of "take i xs" b "drop (Suc i) xs" "xs ! i"]
  by (auto simp: upd_conv_take_nth_drop id_take_nth_drop [symmetric])

lemma parse_record_split:
  assumes len: "20 + n \<le> length t" and n: "n = unat k + unat (blen v)"
    and fields: "take 4 (drop 12 t) = put_u32 k" "take 4 (drop 16 t) = put_u32 v"
  shows "parse_record blen t \<noteq> None \<longleftrightarrow> put_u32 (crc32 (drop 4 (take (20 + n) t))) = take 4 t"
proof -
  obtain crc ts k' v' where d: "decode_header t = (crc, ts, k', v')" by (metis prod_cases4)
  have kv: "k' = k" "v' = v"
    using d fields by (auto simp: decode_header_def get_u32_def)
      (metis append_Nil2 get_put_u32 get_u32_def length_put_u32 order_refl take_all)+
  have tail: "record_tail ts k v (take n (drop 20 t)) = drop 4 (take (20 + n) t)"
  proof -
    have "put_u64 ts @ put_u32 k @ put_u32 v = take 16 (drop 4 t)"
      using header_bytes(2) [OF _ d] kv len by simp
    then have "record_tail ts k v (take n (drop 20 t)) = take 16 (drop 4 t) @ take n (drop 20 t)"
      by (simp add: record_tail_def)
    also have "\<dots> = take (16 + n) (drop 4 t)"
      using take_drop_join [of 16 4 t n] by simp
    finally show ?thesis by (simp add: drop_take)
  qed
  have crc: "put_u32 crc = take 4 t"
    using d len by (auto simp: decode_header_def put_get_u32)
  have g: "\<not> length t < 20" "\<not> length t - 20 < n" using len by auto
  have "parse_record blen t \<noteq> None \<longleftrightarrow> crc32 (record_tail ts k v (take n (drop 20 t))) = crc"
    by (simp add: parse_record_def d Let_def HEADER_SIZE_def kv g flip: n)
  also have "\<dots> \<longleftrightarrow> put_u32 (crc32 (drop 4 (take (20 + n) t))) = put_u32 crc"
    by (simp only: tail u32_bytes_inj)
  finally show ?thesis by (simp only: crc)
qed

lemma take_drop_update_outside:
  "i < a \<or> a + n \<le> i \<Longrightarrow> take n (drop a (xs[i := b])) = take n (drop a xs)"
  by (auto simp: drop_update_swap take_update_swap drop_update_cancel list_update_beyond)

lemma rec_bytes_fields:
  "take 4 (drop 12 (rec_bytes r)) = put_u32 (of_nat (length (lr_key r)))"
  "take 4 (drop 16 (rec_bytes r)) = put_u32 (lr_vlen r)"
  "take 4 (rec_bytes r) = put_u32 (crc32 (drop 4 (rec_bytes r)))"
  by (simp_all add: rec_bytes_def Let_def encode_header_def record_tail_def)

lemma parse_record_corrupt:
  assumes ok: "rec_ok blen r" and i: "i < rec_len r" and outside: "i < 12 \<or> 20 \<le> i"
    and b: "b \<noteq> rec_bytes r ! i"
  shows "parse_record blen ((rec_bytes r)[i := b] @ rest) = None"
proof -
  define X where "X = rec_bytes r"
  define t where "t = X[i := b] @ rest"
  define n where "n = length (lr_key r) + length (lr_value r)"
  have lX: "length X = 20 + n" by (simp add: X_def n_def rec_len_def HEADER_SIZE_def)
  have n: "n = unat (of_nat (length (lr_key r)) :: u32) + unat (blen (lr_vlen r))"
    using ok by (simp add: rec_ok_def n_def unat_of_nat)
  have whole: "take (20 + n) t = X[i := b]" by (simp add: t_def lX)
  have "take 4 (drop a t) = take 4 (drop a X)" if "a = 12 \<or> a = 16" for a
    using outside that lX take_drop_update_outside [of i a 4 X b] by (auto simp: t_def)
  then have f: "take 4 (drop 12 t) = put_u32 (of_nat (length (lr_key r)))"
    "take 4 (drop 16 t) = put_u32 (lr_vlen r)"
    by (simp_all add: X_def rec_bytes_fields)
  have lt: "20 + n \<le> length t" by (simp add: t_def lX)
  have "put_u32 (crc32 (drop 4 (X[i := b]))) \<noteq> take 4 (X[i := b])"
  proof (cases "i < 4")
    case True
    have "take 4 (X[i := b]) \<noteq> take 4 X"
      using list_update_neq [of i "take 4 X" b] True b i lX by (simp add: take_update_swap X_def)
    with True show ?thesis by (simp add: drop_update_cancel X_def rec_bytes_fields)
  next
    case False
    have "crc32 ((drop 4 X)[i - 4 := b]) \<noteq> crc32 (drop 4 X)"
      by (rule crc32_list_update) (use False i b lX in \<open>auto simp: X_def\<close>)
    with False show ?thesis
      by (simp add: drop_update_swap u32_bytes_inj X_def rec_bytes_fields)
  qed
  moreover have "take 4 t = take 4 (X[i := b])" by (simp add: t_def lX)
  ultimately have "parse_record blen t = None"
    using parse_record_split [where blen = blen, OF lt n f] unfolding whole by metis
  then show ?thesis by (simp add: t_def X_def)
qed

end
