(* ===== verification/KV_Log.thy ===== *)
theory KV_Log
  imports Record_Format
begin

text \<open>
  Replaying a log. Both engines keep an in-memory directory (the KeyDir) that maps a key to the
  position of its newest value, and rebuild it by replaying records in log order. This theory
  holds the abstract side: what a list of records means as a map from keys to values, where the
  directory points, and why reading at that position yields the value.
\<close>

record log_entry =
  le_pos :: nat
  le_size :: u32
  le_ts :: u64

definition apply_rec :: "nat \<Rightarrow> log_rec \<Rightarrow> (bytes \<rightharpoonup> log_entry) \<Rightarrow> (bytes \<rightharpoonup> log_entry)" where
  "apply_rec off r m =
     (if lr_vlen r = TOMBSTONE then m(lr_key r := None)
      else m(lr_key r \<mapsto> \<lparr>le_pos = off + HEADER_SIZE + length (lr_key r), le_size = lr_vlen r,
                           le_ts = lr_ts r\<rparr>))"

primrec replay :: "nat \<Rightarrow> log_rec list \<Rightarrow> (bytes \<rightharpoonup> log_entry) \<Rightarrow> (bytes \<rightharpoonup> log_entry)" where
  "replay off [] m = m"
| "replay off (r # rs) m = replay (off + rec_len r) rs (apply_rec off r m)"

definition contents_rec :: "(bytes \<rightharpoonup> bytes) \<Rightarrow> log_rec \<Rightarrow> (bytes \<rightharpoonup> bytes)" where
  "contents_rec m r = (if lr_vlen r = TOMBSTONE then m(lr_key r := None) else m(lr_key r \<mapsto> lr_value r))"

definition contents :: "log_rec list \<Rightarrow> (bytes \<rightharpoonup> bytes)" where
  "contents rs = foldl contents_rec Map.empty rs"

definition read_entry :: "bytes \<Rightarrow> log_entry \<Rightarrow> bytes" where
  "read_entry file e = take (unat (le_size e)) (drop (le_pos e) file)"

lemma length_log_bytes_snoc: "length (log_bytes (rs @ [r])) = length (log_bytes rs) + rec_len r"
  by simp

lemma replay_append: "replay off (rs @ rs') m = replay (off + length (log_bytes rs)) rs' (replay off rs m)"
  by (induction rs arbitrary: off m) (simp_all add: add.assoc)

lemma contents_snoc [simp]: "contents (rs @ [r]) = contents_rec (contents rs) r"
  by (simp add: contents_def)

lemma contents_Nil [simp]: "contents [] = Map.empty"
  by (simp add: contents_def)

text \<open>A well-formed record that is a tombstone or carries as many value bytes as its length field says.\<close>

definition value_rec :: "(u32 \<Rightarrow> u32) \<Rightarrow> log_rec \<Rightarrow> bool" where
  "value_rec blen r \<longleftrightarrow> rec_ok blen r \<and> (lr_vlen r = TOMBSTONE \<or> blen (lr_vlen r) = lr_vlen r)"

lemma read_value_in_log:
  assumes "lr_vlen r \<noteq> TOMBSTONE" and "value_rec blen r"
  shows "take (unat (lr_vlen r)) (drop (length pre + HEADER_SIZE + length (lr_key r)) (pre @ rec_bytes r @ rest))
    = lr_value r"
proof -
  have "unat (lr_vlen r) = length (lr_value r)"
    using assms by (auto simp: value_rec_def rec_ok_def)
  then show ?thesis by (simp add: rec_bytes_def Let_def HEADER_SIZE_def)
qed

definition entry_ok :: "bytes \<Rightarrow> log_entry \<Rightarrow> bytes \<Rightarrow> bool" where
  "entry_ok log e value \<longleftrightarrow> le_pos e + unat (le_size e) \<le> length log \<and> unat (le_size e) = length value
     \<and> take (length value) (drop (le_pos e) log) = value"

lemma entry_ok_extend: "entry_ok log e v \<Longrightarrow> entry_ok (log @ rest) e v"
  by (auto simp: entry_ok_def)

lemma entry_ok_read:
  assumes "entry_ok log e v" and "take (length log) file = log"
  shows "read_entry file e = v"
proof -
  have "take (length v) (drop (le_pos e) file) = take (length v) (drop (le_pos e) log)"
    by (rule take_drop_within [of _ _ "length log"]) (use assms in \<open>auto simp: entry_ok_def\<close>)
  with assms(1) show ?thesis by (simp add: entry_ok_def read_entry_def)
qed

lemma entry_ok_new:
  assumes "lr_vlen r \<noteq> TOMBSTONE" and "value_rec blen r"
  shows "entry_ok (pre @ rec_bytes r)
    \<lparr>le_pos = length pre + HEADER_SIZE + length (lr_key r), le_size = lr_vlen r, le_ts = ts\<rparr> (lr_value r)"
  using read_value_in_log [OF assms, of pre "[]"] assms
  by (auto simp: entry_ok_def rec_len_def value_rec_def rec_ok_def)

text \<open>
  The directory built by replay agrees with the abstract contents: it has the same keys, and the
  log holds the value of a key at the position the directory gives.
\<close>

lemma replay_contents:
  assumes "\<And>r. r \<in> set rs \<Longrightarrow> value_rec blen r"
  shows "rel_option (entry_ok (log_bytes rs)) (replay 0 rs Map.empty k) (contents rs k)"
  using assms
proof (induction rs rule: rev_induct)
  case (snoc r rs)
  have IH: "rel_option (entry_ok (log_bytes rs)) (replay 0 rs Map.empty k) (contents rs k)"
    by (rule snoc.IH) (simp add: snoc.prems)
  have old: "rel_option (entry_ok (log_bytes rs @ rec_bytes r)) (replay 0 rs Map.empty k) (contents rs k)"
    by (rule option.rel_mono_strong [OF IH]) (rule entry_ok_extend)
  have r: "value_rec blen r" by (simp add: snoc.prems)
  have new: "lr_vlen r \<noteq> TOMBSTONE \<Longrightarrow> entry_ok (log_bytes rs @ rec_bytes r)
      \<lparr>le_pos = length (log_bytes rs) + HEADER_SIZE + length (lr_key r), le_size = lr_vlen r,
       le_ts = lr_ts r\<rparr> (lr_value r)"
    by (rule entry_ok_new [OF _ r])
  show ?case
    using old new by (auto simp: replay_append apply_rec_def contents_rec_def)
qed simp

section \<open>The records that put and del write\<close>

definition put_rec :: "u64 \<Rightarrow> bytes \<Rightarrow> bytes \<Rightarrow> log_rec" where
  "put_rec now key value = \<lparr>lr_ts = now, lr_key = key, lr_vlen = of_nat (length value), lr_value = value\<rparr>"

definition del_rec :: "u64 \<Rightarrow> bytes \<Rightarrow> log_rec" where
  "del_rec now key = \<lparr>lr_ts = now, lr_key = key, lr_vlen = TOMBSTONE, lr_value = []\<rparr>"

definition put_allowed :: "bytes \<Rightarrow> bytes \<Rightarrow> bool" where
  "put_allowed key value \<longleftrightarrow> length key \<le> 0xFFFFFFFF \<and> length value < 0xFFFFFFFE"

lemma of_nat_u32_eq: "n < 2 ^ 32 \<Longrightarrow> (of_nat n = (w :: u32)) \<longleftrightarrow> n = unat w"
  by (auto simp: word_unat_eq_iff unat_of_nat)

lemma put_vlen:
  assumes "put_allowed key value"
  shows "of_nat (length value) \<noteq> TOMBSTONE" "of_nat (length value) \<noteq> COMPACTION_BASE"
    "unat (of_nat (length value) :: u32) = length value"
  using assms by (simp_all add: put_allowed_def of_nat_u32_eq TOMBSTONE_def COMPACTION_BASE_def unat_of_nat)

lemma put_rec_ok_body: "put_allowed key value \<Longrightarrow> rec_ok body_value_len (put_rec now key value)"
  using put_vlen [of key "value"] by (simp add: rec_ok_def put_rec_def body_value_len_def put_allowed_def)

lemma put_record_buffer:
  "put_allowed key value \<Longrightarrow>
   record_buffer key value (of_nat (length value)) now = rec_bytes (put_rec now key value)"
  using put_rec_ok_body [of key "value" now] by (simp add: put_rec_def record_buffer_rec_bytes)

lemma put_rec_simps [simp]:
  "lr_key (put_rec now key value) = key" "lr_value (put_rec now key value) = value"
  "lr_vlen (put_rec now key value) = of_nat (length value)" "lr_ts (put_rec now key value) = now"
  "rec_len (put_rec now key value) = HEADER_SIZE + length key + length value"
  by (simp_all add: put_rec_def rec_len_def)

lemma del_rec_simps [simp]:
  "lr_key (del_rec now key) = key" "lr_value (del_rec now key) = []" "lr_vlen (del_rec now key) = TOMBSTONE"
  "lr_ts (del_rec now key) = now" "rec_len (del_rec now key) = HEADER_SIZE + length key"
  by (simp_all add: del_rec_def rec_len_def)

lemma contents_put_rec [simp]:
  "put_allowed key value \<Longrightarrow> contents_rec m (put_rec now key value) = m(key \<mapsto> value)"
  using put_vlen(1) [of key "value"] by (simp add: contents_rec_def)

lemma contents_del_rec [simp]: "contents_rec m (del_rec now key) = m(key := None)"
  by (simp add: contents_rec_def)


end
