(* ===== verification/Segment_Log.thy ===== *)
theory Segment_Log
  imports KV_Log
begin

text \<open>
  \<open>segmented_engine.hpp\<close>, the data on disk: the names of segment and hint files, the hint file
  format, and the scan of a segment. A directory is an association list from file names
  (relative to \<open>dir_\<close>) to file contents, in the order in which \<open>readdir\<close> lists it.
  The abstract side is a list of \<^emph>\<open>placed\<close> records (segment id, offset, record): it carries
  the meaning of a directory of segments as a map, and the position at which a value is found.
\<close>

section \<open>File names\<close>

type_synonym directory = "(string \<times> bytes) list"

fun decimal :: "nat \<Rightarrow> string" where
  "decimal n = (if n < 10 then [char_of (48 + n)] else decimal (n div 10) @ [char_of (48 + n mod 10)])"

declare decimal.simps [simp del]

definition pad6 :: "string \<Rightarrow> string" where
  "pad6 s = replicate (6 - length s) CHR ''0'' @ s"

definition segment_path :: "nat \<Rightarrow> string" where
  "segment_path segid = pad6 (decimal segid) @ ''.seg''"

definition hint_path :: "nat \<Rightarrow> string" where
  "hint_path segid = pad6 (decimal segid) @ ''.hint''"

definition ends_with :: "string \<Rightarrow> string \<Rightarrow> bool" where
  "ends_with s suffix =
     (let n = length suffix in length s \<ge> n \<and> take n (drop (length s - n) s) = suffix)"

definition isdigit :: "char \<Rightarrow> bool" where
  "isdigit c = (48 \<le> (of_char c :: nat) \<and> (of_char c :: nat) \<le> 57)"

definition stoull :: "string \<Rightarrow> nat" where
  "stoull s = foldl (\<lambda>acc c. acc * 10 + (of_char c - 48)) 0 s"

definition parse_segment_name :: "string \<Rightarrow> nat option" where
  "parse_segment_name name =
     (if length name < 10 \<or> \<not> ends_with name ''.seg'' then None
      else let digits = take (length name - 4) name
           in if length digits > 19 \<or> \<not> list_all isdigit digits then None
              else Some (stoull digits))"

lemma of_char_digit [simp]: "d < 10 \<Longrightarrow> (of_char (char_of (48 + d :: nat)) :: nat) = 48 + d"
  by simp

lemma isdigit_digit [simp]: "d < 10 \<Longrightarrow> isdigit (char_of (48 + d :: nat))"
  by (simp add: isdigit_def)

lemma decimal_digits: "list_all isdigit (decimal n)"
proof (induction n rule: decimal.induct)
  case (1 n)
  then show ?case by (subst decimal.simps) simp
qed

lemma stoull_snoc: "stoull (s @ [c]) = stoull s * 10 + (of_char c - 48)"
  by (simp add: stoull_def)

lemma stoull_decimal: "stoull (decimal n) = n"
proof (induction n rule: decimal.induct)
  case (1 n)
  show ?case
  proof (cases "n < 10")
    case True
    then show ?thesis by (subst decimal.simps) (simp add: stoull_def)
  next
    case False
    with 1 show ?thesis by (subst decimal.simps) (simp add: stoull_snoc)
  qed
qed

lemma stoull_zeros: "stoull (replicate k CHR ''0'' @ s) = stoull s"
proof -
  have "foldl (\<lambda>acc c. acc * 10 + ((of_char c :: nat) - 48)) 0 (replicate k CHR ''0'') = 0"
    by (induction k) (simp_all add: of_char_def)
  then show ?thesis by (simp add: stoull_def)
qed

lemma length_decimal: "n < 10 ^ Suc m \<Longrightarrow> length (decimal n) \<le> Suc m"
proof (induction m arbitrary: n)
  case 0
  then show ?case by (subst decimal.simps) simp
next
  case (Suc m)
  show ?case
  proof (cases "n < 10")
    case False
    have "n div 10 < 10 ^ Suc m" using Suc.prems by (simp add: less_mult_imp_div_less mult.commute)
    with False show ?thesis using Suc.IH [of "n div 10"] by (subst decimal.simps) simp
  qed (subst decimal.simps, simp)
qed

lemma isdigit_zero: "isdigit CHR ''0''"
  by (simp add: isdigit_def of_char_def)

lemma pad6_digits: "list_all isdigit (pad6 (decimal n))"
  using decimal_digits [of n] by (auto simp: pad6_def list_all_iff isdigit_zero)

lemma stoull_pad6 [simp]: "stoull (pad6 (decimal n)) = n"
  by (simp add: pad6_def stoull_zeros stoull_decimal)

lemma parse_segment_path:
  assumes "segid < 10 ^ 19"
  shows "parse_segment_name (segment_path segid) = Some segid"
proof -
  have "length (decimal segid) \<le> 19" using length_decimal [of segid 18] assms by simp
  then show ?thesis
    by (auto simp: parse_segment_name_def segment_path_def ends_with_def Let_def pad6_digits)
      (auto simp: pad6_def)
qed

lemma segment_path_inject [simp]: "segment_path a = segment_path b \<longleftrightarrow> a = b"
  unfolding segment_path_def by (metis append_same_eq stoull_pad6)

lemma hint_path_inject [simp]: "hint_path a = hint_path b \<longleftrightarrow> a = b"
  unfolding hint_path_def by (metis append_same_eq stoull_pad6)

lemma last_path:
  "last (segment_path a) = CHR ''g''" "last (hint_path a) = CHR ''t''"
  "last (segment_path a @ ''.compact.tmp'') = CHR ''p''" "last (hint_path a @ ''.tmp'') = CHR ''p''"
  by (simp_all add: segment_path_def hint_path_def)

lemma last_neq: "last a \<noteq> last b \<Longrightarrow> a \<noteq> b"
  by auto

lemma path_neq [simp]:
  "segment_path a \<noteq> hint_path b" "hint_path b \<noteq> segment_path a"
  "segment_path a \<noteq> segment_path b @ ''.compact.tmp''" "segment_path a \<noteq> hint_path b @ ''.tmp''"
  "hint_path a \<noteq> segment_path b @ ''.compact.tmp''" "hint_path a \<noteq> hint_path b @ ''.tmp''"
  "segment_path b @ ''.compact.tmp'' \<noteq> segment_path a" "hint_path b @ ''.tmp'' \<noteq> segment_path a"
  "segment_path b @ ''.compact.tmp'' \<noteq> hint_path a" "hint_path b @ ''.tmp'' \<noteq> hint_path a"
  by (rule last_neq, simp add: last_path)+

lemma parse_segment_name_last:
  assumes "parse_segment_name name \<noteq> None"
  shows "last name = CHR ''g''"
proof -
  have "length name \<ge> 10" and "take 4 (drop (length name - 4) name) = ''.seg''"
    using assms by (auto simp: parse_segment_name_def ends_with_def Let_def eval_nat_numeral split: if_splits)
  then have "drop (length name - 4) name = ''.seg''" by simp
  then have "name = take (length name - 4) name @ ''.seg''" by (metis append_take_drop_id)
  then show ?thesis by (metis last.simps last_appendR list.distinct(1))
qed

lemma parse_other_paths [simp]:
  "parse_segment_name (hint_path a) = None"
  "parse_segment_name (segment_path a @ ''.compact.tmp'') = None"
  "parse_segment_name (hint_path a @ ''.tmp'') = None"
  by (rule ccontr, drule parse_segment_name_last, simp add: last_path)+

section \<open>Records with a place\<close>

text \<open>
  A record of a segment, as the scan accepts it: well-formed, and a compaction marker only when
  its key is empty. \<open>seg_parse\<close> is the test that the scan makes on the bytes at its position.
\<close>

definition seg_rec :: "log_rec \<Rightarrow> bool" where
  "seg_rec r \<longleftrightarrow> rec_ok body_value_len r \<and> (lr_vlen r = COMPACTION_BASE \<longrightarrow> lr_key r = [])"

definition seg_parse :: "bytes \<Rightarrow> (u64 \<times> bytes \<times> u32) option" where
  "seg_parse t =
     (case parse_record body_value_len t of
        None \<Rightarrow> None
      | Some (ts, key, vlen) \<Rightarrow>
          if vlen = COMPACTION_BASE \<and> key \<noteq> [] then None else Some (ts, key, vlen))"

type_synonym placed_rec = "nat \<times> nat \<times> log_rec"

primrec placed :: "nat \<Rightarrow> nat \<Rightarrow> log_rec list \<Rightarrow> placed_rec list" where
  "placed segid off [] = []"
| "placed segid off (r # rs) = (segid, off, r) # placed segid (off + rec_len r) rs"

record key_dir_entry =
  ke_segment_id :: nat
  ke_value_pos :: nat
  ke_value_size :: u32
  ke_timestamp :: u64

type_synonym keydir = "(bytes \<times> key_dir_entry) list"

definition place_entry :: "placed_rec \<Rightarrow> key_dir_entry" where
  "place_entry p =
     (case p of (segid, off, r) \<Rightarrow>
        \<lparr>ke_segment_id = segid, ke_value_pos = off + HEADER_SIZE + length (lr_key r),
         ke_value_size = lr_vlen r, ke_timestamp = lr_ts r\<rparr>)"

definition place_step :: "(bytes \<rightharpoonup> key_dir_entry) \<Rightarrow> placed_rec \<Rightarrow> (bytes \<rightharpoonup> key_dir_entry)" where
  "place_step m p =
     (let r = snd (snd p) in
      if lr_vlen r = COMPACTION_BASE then m
      else if lr_vlen r = TOMBSTONE then m(lr_key r := None)
      else m(lr_key r \<mapsto> place_entry p))"

definition value_step :: "(bytes \<rightharpoonup> bytes) \<Rightarrow> placed_rec \<Rightarrow> (bytes \<rightharpoonup> bytes)" where
  "value_step m p =
     (let r = snd (snd p) in if lr_vlen r = COMPACTION_BASE then m else contents_rec m r)"

definition index_of :: "placed_rec list \<Rightarrow> (bytes \<rightharpoonup> key_dir_entry)" where
  "index_of ps = foldl place_step Map.empty ps"

definition values_of :: "placed_rec list \<Rightarrow> (bytes \<rightharpoonup> bytes)" where
  "values_of ps = foldl value_step Map.empty ps"

definition is_put :: "placed_rec \<Rightarrow> bool" where
  "is_put p \<longleftrightarrow> lr_vlen (snd (snd p)) \<noteq> COMPACTION_BASE \<and> lr_vlen (snd (snd p)) \<noteq> TOMBSTONE"

definition place_key :: "placed_rec \<Rightarrow> bytes" where
  "place_key p = lr_key (snd (snd p))"

definition place_value :: "placed_rec \<Rightarrow> bytes" where
  "place_value p = lr_value (snd (snd p))"

definition touched :: "placed_rec list \<Rightarrow> bytes set" where
  "touched ps = place_key ` {p \<in> set ps. lr_vlen (snd (snd p)) \<noteq> COMPACTION_BASE}"

lemma placed_append: "placed segid off (rs @ rs') = placed segid off rs @ placed segid (off + length (log_bytes rs)) rs'"
  by (induction rs arbitrary: off) (simp_all add: add.assoc)

lemma placed_id: "p \<in> set (placed segid off rs) \<Longrightarrow> fst p = segid"
  by (induction rs arbitrary: off) auto

lemma placed_split:
  "(i, off, r) \<in> set (placed segid off0 rs) \<Longrightarrow>
   \<exists>pre post. rs = pre @ r # post \<and> off = off0 + length (log_bytes pre)"
proof (induction rs arbitrary: off0)
  case (Cons r0 rs)
  show ?case
  proof (cases "(i, off, r) = (segid, off0, r0)")
    case True
    then show ?thesis by (intro exI [of _ "[]"] exI [of _ rs]) simp
  next
    case False
    then have "(i, off, r) \<in> set (placed segid (off0 + rec_len r0) rs)" using Cons.prems by auto
    then obtain pre post where "rs = pre @ r # post" "off = off0 + rec_len r0 + length (log_bytes pre)"
      using Cons.IH by blast
    then show ?thesis by (intro exI [of _ "r0 # pre"] exI [of _ post]) simp
  qed
qed simp

lemma index_of_snoc [simp]: "index_of (ps @ [p]) = place_step (index_of ps) p"
  by (simp add: index_of_def)

lemma values_of_snoc [simp]: "values_of (ps @ [p]) = value_step (values_of ps) p"
  by (simp add: values_of_def)

lemma index_values_Nil [simp]: "index_of [] = Map.empty" "values_of [] = Map.empty"
  by (simp_all add: index_of_def values_of_def)

lemma touched_simps [simp]:
  "touched [] = {}" "touched (ps @ qs) = touched ps \<union> touched qs"
  "touched (p # ps) = (if lr_vlen (snd (snd p)) = COMPACTION_BASE then {} else {place_key p}) \<union> touched ps"
  by (auto simp: touched_def)

text \<open>The index and the contents agree: the entry of a key is that of a put that carries its value.\<close>

lemma index_values:
  "rel_option (\<lambda>en v. \<exists>p \<in> set ps. is_put p \<and> place_key p = k \<and> en = place_entry p \<and> v = place_value p)
     (index_of ps k) (values_of ps k)"
proof (induction ps rule: rev_induct)
  case (snoc p ps)
  have "rel_option (\<lambda>en v. \<exists>p \<in> set (ps @ [p]). is_put p \<and> place_key p = k \<and> en = place_entry p \<and> v = place_value p)
     (index_of ps k) (values_of ps k)"
    by (rule option.rel_mono_strong [OF snoc.IH]) auto
  then show ?case
    by (auto simp: place_step_def value_step_def contents_rec_def Let_def is_put_def place_key_def place_value_def)
qed simp

text \<open>What later records say of a key does not depend on the earlier ones.\<close>

lemma place_step_apply:
  "place_step m p k =
     (if lr_vlen (snd (snd p)) = COMPACTION_BASE \<or> k \<noteq> place_key p then m k
      else if lr_vlen (snd (snd p)) = TOMBSTONE then None else Some (place_entry p))"
  by (simp add: place_step_def place_key_def Let_def)

lemma value_step_apply:
  "value_step m p k =
     (if lr_vlen (snd (snd p)) = COMPACTION_BASE \<or> k \<noteq> place_key p then m k
      else if lr_vlen (snd (snd p)) = TOMBSTONE then None else Some (place_value p))"
  by (simp add: value_step_def contents_rec_def place_key_def place_value_def Let_def)

lemma foldl_place_touched:
  "foldl place_step m ps k = (if k \<in> touched ps then index_of ps k else m k)"
proof (induction ps rule: rev_induct)
  case (snoc p ps)
  then show ?case by (simp add: place_step_apply [of _ p k])
qed simp

lemma foldl_value_touched:
  "foldl value_step m ps k = (if k \<in> touched ps then values_of ps k else m k)"
proof (induction ps rule: rev_induct)
  case (snoc p ps)
  then show ?case by (simp add: value_step_apply [of _ p k])
qed simp

lemma index_of_append: "index_of (ps @ qs) k = (if k \<in> touched qs then index_of qs k else index_of ps k)"
  using foldl_place_touched [of "index_of ps" qs k] by (simp add: index_of_def)

lemma values_of_append: "values_of (ps @ qs) k = (if k \<in> touched qs then values_of qs k else values_of ps k)"
  using foldl_value_touched [of "values_of ps" qs k] by (simp add: values_of_def)

lemma index_of_Some:
  assumes "index_of ps k = Some en"
  obtains p where "p \<in> set ps" "is_put p" "place_key p = k" "en = place_entry p" "values_of ps k = Some (place_value p)"
proof -
  obtain p where "p \<in> set ps" "is_put p" "place_key p = k" "en = place_entry p" "values_of ps k = Some (place_value p)"
    using index_values [of ps k] assms by (auto simp: option_rel_Some1)
  then show thesis by (rule that)
qed

lemma index_of_touched: "index_of ps k \<noteq> None \<Longrightarrow> k \<in> touched ps"
  using foldl_place_touched [of Map.empty ps k] by (auto simp: index_of_def split: if_splits)

lemma index_values_None: "index_of ps k = None \<longleftrightarrow> values_of ps k = None"
  using index_values [of ps k] by (cases "index_of ps k"; cases "values_of ps k"; simp)

section \<open>Hint files\<close>

record hint_record =
  hr_key :: bytes
  hr_value_pos :: nat
  hr_value_size :: u32
  hr_timestamp :: u64

definition encode_hint :: "hint_record \<Rightarrow> bytes" where
  "encode_hint h =
     (let klen = (of_nat (length (hr_key h)) :: u32)
      in put_u32 klen @ put_u64 (of_nat (hr_value_pos h)) @ put_u32 (hr_value_size h)
           @ put_u64 (hr_timestamp h) @ take (unat klen) (hr_key h))"

definition encode_hints :: "hint_record list \<Rightarrow> bytes" where
  "encode_hints hints = concat (map encode_hint hints)"

text \<open>The parsing loop of \<open>recover_segment_via_hint\<close>; \<open>None\<close> is its \<open>return false\<close>.\<close>

function hint_parse_loop ::
  "nat \<Rightarrow> bytes \<Rightarrow> nat \<Rightarrow> hint_record list \<Rightarrow> nat \<Rightarrow> (hint_record list \<times> nat) option" where
  "hint_parse_loop seg_size buf pos parsed max_end =
     (if pos < length buf then
        if length buf - pos < 24 then None
        else
          (let klen = unat (get_u32 (drop pos buf));
               vpos = unat (get_u64 (drop (pos + 4) buf));
               vsize = get_u32 (drop (pos + 12) buf);
               ts = get_u64 (drop (pos + 16) buf);
               pos1 = pos + 24
           in if klen > length buf - pos1 then None
              else
                (let key = take klen (drop pos1 buf);
                     pos2 = pos1 + klen
                 in if vpos < HEADER_SIZE + klen \<or> vpos > seg_size then None
                    else if vsize \<noteq> TOMBSTONE \<and> unat vsize > seg_size - vpos then None
                    else
                      (let segend = (if vsize \<noteq> TOMBSTONE then vpos + unat vsize else vpos)
                       in hint_parse_loop seg_size buf pos2
                            (parsed @ [\<lparr>hr_key = key, hr_value_pos = vpos, hr_value_size = vsize, hr_timestamp = ts\<rparr>])
                            (max max_end segend))))
      else Some (parsed, max_end))"
  by pat_completeness auto
termination
  by (relation "measure (\<lambda>(seg_size, buf, pos, parsed, max_end). length buf - pos)") auto

declare hint_parse_loop.simps [simp del]

definition apply_hint :: "nat \<Rightarrow> keydir \<Rightarrow> hint_record \<Rightarrow> keydir" where
  "apply_hint segid kd h =
     (if hr_value_size h = TOMBSTONE then AList.delete (hr_key h) kd
      else AList.update (hr_key h)
        \<lparr>ke_segment_id = segid, ke_value_pos = hr_value_pos h, ke_value_size = hr_value_size h,
         ke_timestamp = hr_timestamp h\<rparr> kd)"

definition place_hint :: "placed_rec \<Rightarrow> hint_record" where
  "place_hint p =
     (case p of (segid, off, r) \<Rightarrow>
        \<lparr>hr_key = lr_key r, hr_value_pos = off + HEADER_SIZE + length (lr_key r),
         hr_value_size = lr_vlen r, hr_timestamp = lr_ts r\<rparr>)"

definition hints_of :: "placed_rec list \<Rightarrow> hint_record list" where
  "hints_of ps = map place_hint (filter (\<lambda>p. lr_vlen (snd (snd p)) \<noteq> COMPACTION_BASE) ps)"

text \<open>What a parsed entry must satisfy, and the end of the record it describes.\<close>

definition hint_inside :: "nat \<Rightarrow> hint_record \<Rightarrow> bool" where
  "hint_inside seg_size h \<longleftrightarrow>
     HEADER_SIZE + length (hr_key h) \<le> hr_value_pos h \<and> hr_value_pos h \<le> seg_size \<and>
     (hr_value_size h \<noteq> TOMBSTONE \<longrightarrow> unat (hr_value_size h) \<le> seg_size - hr_value_pos h)"

definition hint_end :: "hint_record \<Rightarrow> nat" where
  "hint_end h = hr_value_pos h + (if hr_value_size h = TOMBSTONE then 0 else unat (hr_value_size h))"

definition hint_fits :: "hint_record \<Rightarrow> bool" where
  "hint_fits h \<longleftrightarrow> length (hr_key h) < 2 ^ 32 \<and> hr_value_pos h < 2 ^ 64"

lemma encode_hints_simps [simp]:
  "encode_hints [] = []" "encode_hints (h # hs) = encode_hint h @ encode_hints hs"
  "encode_hints (hs @ hs') = encode_hints hs @ encode_hints hs'"
  by (simp_all add: encode_hints_def)

lemma hints_of_simps [simp]:
  "hints_of [] = []" "hints_of (ps @ qs) = hints_of ps @ hints_of qs"
  "hints_of (p # ps) = (if lr_vlen (snd (snd p)) = COMPACTION_BASE then [] else [place_hint p]) @ hints_of ps"
  by (simp_all add: hints_of_def)

lemma hint_parse_step:
  assumes "hint_fits h"
  shows "hint_parse_loop n (pre @ encode_hint h @ rest) (length pre) parsed m =
    (if hint_inside n h
     then hint_parse_loop n ((pre @ encode_hint h) @ rest) (length (pre @ encode_hint h)) (parsed @ [h]) (max m (hint_end h))
     else None)"
proof -
  define e where "e = encode_hint h @ rest"
  have k: "unat (of_nat (length (hr_key h)) :: u32) = length (hr_key h)"
    and v: "unat (of_nat (hr_value_pos h) :: u64) = hr_value_pos h"
    using assms by (simp_all add: hint_fits_def unat_of_nat)
  have layout: "e = put_u32 (of_nat (length (hr_key h))) @ put_u64 (of_nat (hr_value_pos h)) @ put_u32 (hr_value_size h)
      @ put_u64 (hr_timestamp h) @ hr_key h @ rest"
    by (simp add: e_def encode_hint_def Let_def k)
  have f: "get_u32 e = of_nat (length (hr_key h))" "get_u64 (drop 4 e) = of_nat (hr_value_pos h)"
    "get_u32 (drop 12 e) = hr_value_size h" "get_u64 (drop 16 e) = hr_timestamp h"
    "take (length (hr_key h)) (drop 24 e) = hr_key h" "length e = 24 + length (hr_key h) + length rest"
    by (simp_all add: layout)
  have len: "length (encode_hint h) = 24 + length (hr_key h)"
    by (simp add: encode_hint_def Let_def k)
  have d: "drop (length pre + i) (pre @ e) = drop i e" "drop (length pre) (pre @ e) = e" for i by simp_all
  have rec: "\<lparr>hr_key = hr_key h, hr_value_pos = hr_value_pos h, hr_value_size = s, hr_timestamp = hr_timestamp h\<rparr> = h"
    if "hr_value_size h = s" for s
    using that by auto
  have "hint_parse_loop n (pre @ e) (length pre) parsed m =
    (if hint_inside n h
     then hint_parse_loop n (pre @ e) (length pre + (24 + length (hr_key h))) (parsed @ [h]) (max m (hint_end h))
     else None)"
  proof (cases "hint_inside n h")
    case True
    then have c: "\<not> hr_value_pos h < HEADER_SIZE + length (hr_key h)" "\<not> n < hr_value_pos h"
      "hr_value_size h \<noteq> TOMBSTONE \<Longrightarrow> \<not> n - hr_value_pos h < unat (hr_value_size h)"
      by (auto simp: hint_inside_def)
    show ?thesis
      by (subst hint_parse_loop.simps)
        (use True c in \<open>simp add: f d k v Let_def hint_end_def rec add.assoc del: drop_append\<close>)
  next
    case False
    then show ?thesis
      by (subst hint_parse_loop.simps)
        (auto simp: f d k v Let_def hint_inside_def simp del: drop_append)
  qed
  then show ?thesis by (simp add: e_def len)
qed

lemma hint_parse_encode:
  assumes "\<And>h. h \<in> set hs \<Longrightarrow> hint_fits h"
  shows "hint_parse_loop n (pre @ encode_hints hs) (length pre) parsed m =
    (if list_all (hint_inside n) hs then Some (parsed @ hs, foldl max m (map hint_end hs)) else None)"
  using assms
proof (induction hs arbitrary: pre parsed m)
  case Nil
  show ?case by (subst hint_parse_loop.simps) simp
next
  case (Cons h hs)
  have "hint_fits h" by (simp add: Cons.prems)
  then show ?case
    using Cons.IH [of "pre @ encode_hint h" "parsed @ [h]" "max m (hint_end h)"] Cons.prems
    by (simp add: hint_parse_step)
qed

text \<open>Applying the hints of a segment has the effect of its records on the index.\<close>

lemma apply_hint_map:
  "p = (segid, off, r) \<Longrightarrow> lr_vlen r \<noteq> COMPACTION_BASE \<Longrightarrow>
   map_of (apply_hint segid kd (place_hint p)) = place_step (map_of kd) p"
  by (simp add: apply_hint_def place_hint_def place_step_def place_entry_def update_conv' delete_conv' Let_def)

lemma distinct_apply_hint: "distinct (map fst kd) \<Longrightarrow> distinct (map fst (apply_hint segid kd h))"
  by (simp add: apply_hint_def distinct_update distinct_delete)

lemma distinct_apply_hints: "distinct (map fst kd) \<Longrightarrow> distinct (map fst (foldl (apply_hint segid) kd hs))"
  by (induction hs arbitrary: kd) (simp_all add: distinct_apply_hint)

lemma apply_hints_map:
  "map_of (foldl (apply_hint segid) kd (hints_of (placed segid off rs))) = foldl place_step (map_of kd) (placed segid off rs)"
proof (induction rs arbitrary: off kd)
  case (Cons r rs)
  have "place_step m (segid, off, r) = m" if "lr_vlen r = COMPACTION_BASE" for m
    using that by (simp add: place_step_def)
  then show ?case using Cons by (simp add: apply_hint_map [OF refl])
qed simp

text \<open>
  Where the hints of a sequence of records end. A hint file that describes a prefix of the records
  of a segment and reaches the end of the file describes all of them.
\<close>

lemma seg_rec_value_len: "seg_rec r \<Longrightarrow> lr_vlen r = TOMBSTONE \<Longrightarrow> lr_value r = []"
  "seg_rec r \<Longrightarrow> lr_vlen r = COMPACTION_BASE \<Longrightarrow> lr_value r = []"
  "seg_rec r \<Longrightarrow> lr_vlen r \<noteq> COMPACTION_BASE \<Longrightarrow> lr_vlen r \<noteq> TOMBSTONE \<Longrightarrow> unat (lr_vlen r) = length (lr_value r)"
  by (auto simp: seg_rec_def rec_ok_def body_value_len_def split: if_splits)

lemma hint_of_rec:
  assumes "seg_rec r" and "lr_vlen r \<noteq> COMPACTION_BASE"
  shows "hint_end (place_hint (segid, off, r)) = off + rec_len r"
    and "off + rec_len r \<le> n \<Longrightarrow> hint_inside n (place_hint (segid, off, r))"
    and "off + rec_len r < 2 ^ 64 \<Longrightarrow> hint_fits (place_hint (segid, off, r))"
proof -
  have k: "length (lr_key r) < 2 ^ 32" using assms(1) by (simp add: seg_rec_def rec_ok_def)
  show "hint_end (place_hint (segid, off, r)) = off + rec_len r"
    using seg_rec_value_len [OF assms(1)] assms(2) by (auto simp: hint_end_def place_hint_def rec_len_def)
  show "off + rec_len r \<le> n \<Longrightarrow> hint_inside n (place_hint (segid, off, r))"
    using seg_rec_value_len [OF assms(1)] assms(2) by (auto simp: hint_inside_def place_hint_def rec_len_def)
  show "off + rec_len r < 2 ^ 64 \<Longrightarrow> hint_fits (place_hint (segid, off, r))"
    using k by (simp add: hint_fits_def place_hint_def rec_len_def)
qed

lemma placed_bound: "p \<in> set (placed segid off rs) \<Longrightarrow> fst (snd p) + rec_len (snd (snd p)) \<le> off + length (log_bytes rs)"
  by (induction rs arbitrary: off) (fastforce simp: add.assoc [symmetric])+

lemma placed_rec: "p \<in> set (placed segid off rs) \<Longrightarrow> snd (snd p) \<in> set rs"
  by (induction rs arbitrary: off) auto

lemma hints_of_recs:
  assumes "\<And>r. r \<in> set rs \<Longrightarrow> seg_rec r" and "h \<in> set (hints_of (placed segid off rs))"
  shows "off + length (log_bytes rs) \<le> n \<Longrightarrow> hint_inside n h"
    and "off + length (log_bytes rs) < 2 ^ 64 \<Longrightarrow> hint_fits h"
    and "hint_end h \<le> off + length (log_bytes rs)"
proof -
  obtain i o' r where p: "(i, o', r) \<in> set (placed segid off rs)" "lr_vlen r \<noteq> COMPACTION_BASE" "h = place_hint (i, o', r)"
    using assms(2) by (auto simp: hints_of_def)
  have r: "seg_rec r" using assms(1) placed_rec [OF p(1)] by simp
  note b = placed_bound [OF p(1)]
  show "off + length (log_bytes rs) \<le> n \<Longrightarrow> hint_inside n h"
    "off + length (log_bytes rs) < 2 ^ 64 \<Longrightarrow> hint_fits h" "hint_end h \<le> off + length (log_bytes rs)"
    using b hint_of_rec [OF r p(2)] p(3) by simp_all
qed

lemma foldl_max_le: "(\<And>x. x \<in> set xs \<Longrightarrow> x \<le> b) \<Longrightarrow> m \<le> b \<Longrightarrow> foldl max m xs \<le> (b :: nat)"
  by (induction xs arbitrary: m) auto

lemma hints_end_le:
  "(\<And>r. r \<in> set rs \<Longrightarrow> seg_rec r) \<Longrightarrow>
   foldl max 0 (map hint_end (hints_of (placed segid off rs))) \<le> off + length (log_bytes rs)"
  by (rule foldl_max_le) (auto intro: hints_of_recs(3))

lemma log_bytes_Nil_iff [simp]: "log_bytes rs = [] \<longleftrightarrow> rs = []"
proof (cases rs)
  case (Cons r rs')
  have "rec_bytes r \<noteq> []"
    by (rule notI, drule arg_cong [where f = length], simp add: rec_len_def HEADER_SIZE_def)
  with Cons show ?thesis by auto
qed simp

lemma hints_reach_end:
  assumes "\<And>r. r \<in> set (rs0 @ rs1) \<Longrightarrow> seg_rec r"
    and "foldl max 0 (map hint_end (hints_of (placed segid 0 rs0))) = length (log_bytes (rs0 @ rs1) @ tail)"
  shows "rs1 = []" and "tail = []"
proof -
  have "foldl max 0 (map hint_end (hints_of (placed segid 0 rs0))) \<le> length (log_bytes rs0)"
    using hints_end_le [of rs0 segid 0] assms(1) by simp
  then have "length (log_bytes rs1) = 0" "length tail = 0" using assms(2) by auto
  then show "rs1 = []" "tail = []" by simp_all
qed

section \<open>Scanning a segment\<close>

text \<open>
  The loop of \<open>recover_segment_via_full_scan\<close>. \<open>hints_out\<close> is \<open>None\<close> for the null pointer.
  The header, bound and checksum steps of one round are \<open>read_record\<close>.
\<close>

function seg_scan_loop ::
  "read_faults \<Rightarrow> bytes \<Rightarrow> nat \<Rightarrow> nat \<Rightarrow> keydir \<Rightarrow> hint_record list option \<Rightarrow> nat \<times> keydir \<times> hint_record list option" where
  "seg_scan_loop rf file segid offset kd hints_out =
     (case read_record body_value_len rf file offset of
        None \<Rightarrow> (offset, kd, hints_out)
      | Some (ts, key, vlen) \<Rightarrow>
          if vlen = COMPACTION_BASE then
            (if key \<noteq> [] then (offset, kd, hints_out)
             else seg_scan_loop rf file segid (offset + HEADER_SIZE) kd hints_out)
          else
            (let value_pos = offset + HEADER_SIZE + length key
             in seg_scan_loop rf file segid (offset + HEADER_SIZE + length key + unat (body_value_len vlen))
                  (if vlen = TOMBSTONE then AList.delete key kd
                   else AList.update key
                     \<lparr>ke_segment_id = segid, ke_value_pos = value_pos, ke_value_size = vlen, ke_timestamp = ts\<rparr> kd)
                  (map_option (\<lambda>hs. hs @ [\<lparr>hr_key = key, hr_value_pos = value_pos, hr_value_size = vlen,
                      hr_timestamp = ts\<rparr>]) hints_out)))"
  by pat_completeness auto
termination
  by (relation "measure (\<lambda>(rf, file, segid, offset, kd, ho). length file - offset)")
    (auto simp: HEADER_SIZE_def read_record_def split: if_splits)

declare seg_scan_loop.simps [simp del]

lemma seg_parse_rec:
  assumes "seg_rec r"
  shows "parse_record body_value_len (rec_bytes r @ rest) = Some (lr_ts r, lr_key r, lr_vlen r)"
  using assms by (simp add: seg_rec_def parse_record_complete)

lemma seg_scan_stop:
  assumes "seg_parse tail = None"
  shows "seg_scan_loop no_faults (pre @ tail) segid (length pre) kd ho = (length pre, kd, ho)"
  using assms by (subst seg_scan_loop.simps) (auto simp: read_record_parse seg_parse_def split: option.splits if_splits)

lemma seg_scan_step:
  assumes "seg_rec r"
  shows "seg_scan_loop no_faults (pre @ rec_bytes r @ rest) segid (length pre) kd ho =
    seg_scan_loop no_faults ((pre @ rec_bytes r) @ rest) segid (length (pre @ rec_bytes r))
      (if lr_vlen r = COMPACTION_BASE then kd else apply_hint segid kd (place_hint (segid, length pre, r)))
      (if lr_vlen r = COMPACTION_BASE then ho else map_option (\<lambda>hs. hs @ [place_hint (segid, length pre, r)]) ho)"
proof (cases "lr_vlen r = COMPACTION_BASE")
  case True
  then have "lr_key r = []" "rec_len r = HEADER_SIZE"
    using assms seg_rec_value_len(2) [OF assms] by (auto simp: seg_rec_def rec_len_def)
  with True show ?thesis
    by (subst seg_scan_loop.simps) (simp add: read_record_parse seg_parse_rec [OF assms])
next
  case False
  have "unat (body_value_len (lr_vlen r)) = length (lr_value r)"
    using assms by (simp add: seg_rec_def rec_ok_def)
  with False show ?thesis
    by (subst seg_scan_loop.simps)
      (simp add: read_record_parse seg_parse_rec [OF assms] Let_def apply_hint_def place_hint_def rec_len_def add.assoc)
qed

lemma seg_scan_log:
  assumes "\<And>r. r \<in> set rs \<Longrightarrow> seg_rec r" and "seg_parse tail = None"
  shows "seg_scan_loop no_faults (pre @ log_bytes rs @ tail) segid (length pre) kd ho =
    (length pre + length (log_bytes rs), foldl (apply_hint segid) kd (hints_of (placed segid (length pre) rs)),
     map_option (\<lambda>hs. hs @ hints_of (placed segid (length pre) rs)) ho)"
  using assms(1)
proof (induction rs arbitrary: pre kd ho)
  case Nil
  show ?case using seg_scan_stop [OF assms(2), of pre] by (simp add: option.map_ident)
next
  case (Cons r rs)
  have r: "seg_rec r" by (simp add: Cons.prems)
  have "seg_scan_loop no_faults (pre @ log_bytes (r # rs) @ tail) segid (length pre) kd ho =
    seg_scan_loop no_faults ((pre @ rec_bytes r) @ log_bytes rs @ tail) segid (length (pre @ rec_bytes r))
      (if lr_vlen r = COMPACTION_BASE then kd else apply_hint segid kd (place_hint (segid, length pre, r)))
      (if lr_vlen r = COMPACTION_BASE then ho else map_option (\<lambda>hs. hs @ [place_hint (segid, length pre, r)]) ho)"
    using seg_scan_step [OF r, of pre "log_bytes rs @ tail"] by simp
  then show ?case
    using Cons.IH [of "pre @ rec_bytes r"] Cons.prems by (simp add: option.map_comp comp_def add.assoc)
qed

text \<open>Every file is a sequence of acceptable records followed by bytes at which the scan stops.\<close>

lemma seg_decomposition:
  "\<exists>rs tail. f = log_bytes rs @ tail \<and> (\<forall>r \<in> set rs. seg_rec r) \<and> seg_parse tail = None"
proof (induction f rule: length_induct)
  case (1 f)
  show ?case
  proof (cases "seg_parse f")
    case None
    then have "f = log_bytes [] @ f \<and> (\<forall>r \<in> set []. seg_rec r) \<and> seg_parse f = None" by simp
    then show ?thesis by blast
  next
    case (Some x)
    then obtain ts key v where p: "parse_record body_value_len f = Some (ts, key, v)"
      and m: "v = COMPACTION_BASE \<longrightarrow> key = []"
      by (auto simp: seg_parse_def split: option.splits if_splits)
    obtain r where r: "seg_rec r" and f: "f = rec_bytes r @ drop (rec_len r) f"
      using parse_record_sound [OF p] m by (metis seg_rec_def)
    have "length (rec_bytes r) \<le> length f" by (subst f) simp
    then have "length (drop (rec_len r) f) < length f"
      using rec_len_pos [of r] by (simp add: HEADER_SIZE_def)
    then obtain rs tail where "drop (rec_len r) f = log_bytes rs @ tail"
      and "\<forall>r \<in> set rs. seg_rec r" and "seg_parse tail = None"
      using 1 by blast
    with r f have "f = log_bytes (r # rs) @ tail \<and> (\<forall>r \<in> set (r # rs). seg_rec r) \<and> seg_parse tail = None"
      by simp
    then show ?thesis by blast
  qed
qed

end
