(* ===== verification/KV_Store.thy ===== *)
theory KV_Store
  imports Prelude
begin

text \<open>
  The contract of a key-value store, as its clients (the demo server, the tests) use it: \<open>put\<close>,
  \<open>get\<close> and \<open>del\<close> act on an abstract map, a call that reports failure leaves the map as it was,
  and \<open>get\<close> returns what the map holds. Both engines are shown to satisfy this contract in the
  theories that model them. The parameter \<open>'w\<close> carries what the environment decides for one call
  (the clock, the outcome of the writes).
\<close>

datatype 'w store_op = StorePut 'w bytes bytes | StoreGet bytes | StoreDel 'w bytes

datatype store_result = Acked bool | Got "bytes option"

text \<open>Running a sequence of calls on an implementation.\<close>

fun store_run ::
  "('w \<Rightarrow> 's \<Rightarrow> bytes \<Rightarrow> bytes \<Rightarrow> 's \<times> bool) \<Rightarrow> ('s \<Rightarrow> bytes \<Rightarrow> 's \<times> bytes option) \<Rightarrow>
   ('w \<Rightarrow> 's \<Rightarrow> bytes \<Rightarrow> 's \<times> bool) \<Rightarrow> 's \<Rightarrow> 'w store_op list \<Rightarrow> 's \<times> store_result list" where
  "store_run put get del s [] = (s, [])"
| "store_run put get del s (StorePut w k v # ops) =
     (let (s1, b) = put w s k v; (s2, rs) = store_run put get del s1 ops in (s2, Acked b # rs))"
| "store_run put get del s (StoreGet k # ops) =
     (let (s1, r) = get s k; (s2, rs) = store_run put get del s1 ops in (s2, Got r # rs))"
| "store_run put get del s (StoreDel w k # ops) =
     (let (s1, b) = del w s k; (s2, rs) = store_run put get del s1 ops in (s2, Acked b # rs))"

text \<open>The specification: the answers and the final map that a sequence of calls may have.\<close>

fun map_run :: "(bytes \<rightharpoonup> bytes) \<Rightarrow> 'w store_op list \<Rightarrow> store_result list \<Rightarrow> (bytes \<rightharpoonup> bytes) option" where
  "map_run m [] [] = Some m"
| "map_run m (StorePut w k v # ops) (Acked b # rs) = map_run (if b then m(k \<mapsto> v) else m) ops rs"
| "map_run m (StoreGet k # ops) (Got r # rs) = (if r = m k then map_run m ops rs else None)"
| "map_run m (StoreDel w k # ops) (Acked b # rs) =
     (if b \<and> m k = None then None else map_run (if b then m(k := None) else m) ops rs)"
| "map_run m ops rs = None"

locale kv_store =
  fixes inv :: "'s \<Rightarrow> bool"
    and abs :: "'s \<Rightarrow> (bytes \<rightharpoonup> bytes)"
    and put :: "'w \<Rightarrow> 's \<Rightarrow> bytes \<Rightarrow> bytes \<Rightarrow> 's \<times> bool"
    and get :: "'s \<Rightarrow> bytes \<Rightarrow> 's \<times> bytes option"
    and del :: "'w \<Rightarrow> 's \<Rightarrow> bytes \<Rightarrow> 's \<times> bool"
  assumes put_acked: "inv s \<Longrightarrow> put w s k v = (s', True) \<Longrightarrow> inv s' \<and> abs s' = (abs s)(k \<mapsto> v)"
    and put_refused: "inv s \<Longrightarrow> put w s k v = (s', False) \<Longrightarrow> inv s' \<and> abs s' = abs s"
    and get_result: "inv s \<Longrightarrow> get s k = (s', r) \<Longrightarrow> inv s' \<and> abs s' = abs s \<and> r = abs s k"
    and del_acked: "inv s \<Longrightarrow> del w s k = (s', True) \<Longrightarrow>
        inv s' \<and> abs s k \<noteq> None \<and> abs s' = (abs s)(k := None)"
    and del_refused: "inv s \<Longrightarrow> del w s k = (s', False) \<Longrightarrow> inv s' \<and> abs s' = abs s"
begin

lemma put_step:
  assumes "inv s" and "put w s k v = (s', b)"
  shows "inv s'" and "abs s' = (if b then (abs s)(k \<mapsto> v) else abs s)"
  using put_acked [OF assms(1), of w k v s'] put_refused [OF assms(1), of w k v s'] assms(2)
  by (cases b; simp)+

lemma del_step:
  assumes "inv s" and "del w s k = (s', b)"
  shows "inv s'" and "\<not> (b \<and> abs s k = None)" and "abs s' = (if b then (abs s)(k := None) else abs s)"
  using del_acked [OF assms(1), of w k s'] del_refused [OF assms(1), of w k s'] assms(2)
  by (cases b; simp)+

lemma run_refines:
  "inv s \<Longrightarrow> store_run put get del s ops = (s', rs) \<Longrightarrow> inv s' \<and> map_run (abs s) ops rs = Some (abs s')"
proof (induction ops arbitrary: s rs)
  case (Cons op ops)
  note inv = Cons.prems(1)
  show ?case
  proof (cases op)
    case (StorePut w k v)
    obtain s1 b where p: "put w s k v = (s1, b)" by (metis surj_pair)
    obtain rs1 where "store_run put get del s1 ops = (s', rs1)" and rs: "rs = Acked b # rs1"
      using Cons.prems(2) by (auto simp: StorePut p split: prod.splits)
    then have "inv s' \<and> map_run (abs s1) ops rs1 = Some (abs s')"
      by (intro Cons.IH put_step(1) [OF inv p])
    then show ?thesis by (simp add: StorePut rs put_step(2) [OF inv p])
  next
    case (StoreGet k)
    obtain s1 r where g: "get s k = (s1, r)" by (metis surj_pair)
    obtain rs1 where "store_run put get del s1 ops = (s', rs1)" and rs: "rs = Got r # rs1"
      using Cons.prems(2) by (auto simp: StoreGet g split: prod.splits)
    then have "inv s' \<and> map_run (abs s1) ops rs1 = Some (abs s')"
      using get_result [OF inv g] by (intro Cons.IH) simp_all
    then show ?thesis using get_result [OF inv g] by (simp add: StoreGet rs)
  next
    case (StoreDel w k)
    obtain s1 b where d: "del w s k = (s1, b)" by (metis surj_pair)
    obtain rs1 where "store_run put get del s1 ops = (s', rs1)" and rs: "rs = Acked b # rs1"
      using Cons.prems(2) by (auto simp: StoreDel d split: prod.splits)
    then have "inv s' \<and> map_run (abs s1) ops rs1 = Some (abs s')"
      by (intro Cons.IH del_step(1) [OF inv d])
    then show ?thesis using del_step(2) [OF inv d] by (auto simp: StoreDel rs del_step(3) [OF inv d])
  qed
qed simp

lemma put_then_get:
  assumes "inv s" and "put w s k v = (s1, True)" and "get s1 k = (s2, r)"
  shows "r = Some v"
  using get_result [OF conjunct1 [OF put_acked [OF assms(1,2)]] assms(3)] put_acked [OF assms(1,2)] by simp

lemma del_then_get:
  assumes "inv s" and "del w s k = (s1, True)" and "get s1 k = (s2, r)"
  shows "r = None"
  using get_result [OF conjunct1 [OF del_acked [OF assms(1,2)]] assms(3)] del_acked [OF assms(1,2)] by simp

end

end
