(* ===== verification/LRU_Cache.thy ===== *)
theory LRU_Cache
  imports Main
begin

text \<open>
  \<open>lru_cache.hpp\<close>: the least-recently-used cache, a \<open>std::list\<close> of key/value pairs (front is the
  most recently used) and a \<open>std::unordered_map\<close> from keys to list iterators. A list node is
  given an identity, so that an iterator is a node identity and \<open>splice\<close> moves a node without
  touching the others; the theory shows that the two structures stay consistent and that the
  whole implements a bounded association list in recency order.
\<close>

section \<open>The program\<close>

record ('k, 'v) lru_cache =
  lru_capacity :: nat
  lru_items :: "(nat \<times> 'k \<times> 'v) list"
  lru_index :: "'k \<rightharpoonup> nat"
  lru_next_node :: nat

definition lru_new :: "nat \<Rightarrow> ('k, 'v) lru_cache" where
  "lru_new capacity = \<lparr>lru_capacity = capacity, lru_items = [], lru_index = Map.empty, lru_next_node = 0\<rparr>"

definition lru_splice :: "nat \<Rightarrow> (nat \<times> 'k \<times> 'v) list \<Rightarrow> (nat \<times> 'k \<times> 'v) list" where
  "lru_splice it items = filter (\<lambda>n. fst n = it) items @ filter (\<lambda>n. fst n \<noteq> it) items"

definition lru_node_value :: "nat \<Rightarrow> (nat \<times> 'k \<times> 'v) list \<Rightarrow> 'v option" where
  "lru_node_value it items = map_option (snd \<circ> snd) (find (\<lambda>n. fst n = it) items)"

definition lru_get :: "('k, 'v) lru_cache \<Rightarrow> 'k \<Rightarrow> ('k, 'v) lru_cache \<times> 'v option" where
  "lru_get c key =
     (case lru_index c key of
        None \<Rightarrow> (c, None)
      | Some it \<Rightarrow>
          let items = lru_splice it (lru_items c)
          in (c\<lparr>lru_items := items\<rparr>, lru_node_value it items))"

definition lru_put :: "('k, 'v) lru_cache \<Rightarrow> 'k \<Rightarrow> 'v \<Rightarrow> ('k, 'v) lru_cache" where
  "lru_put c key v =
     (case lru_index c key of
        Some it \<Rightarrow>
          c\<lparr>lru_items := lru_splice it
               (map (\<lambda>(a, k, w). if a = it then (a, k, v) else (a, k, w)) (lru_items c))\<rparr>
      | None \<Rightarrow>
          let it = lru_next_node c;
              items = (it, key, v) # lru_items c;
              index = (lru_index c)(key \<mapsto> it);
              c1 = c\<lparr>lru_items := items, lru_index := index, lru_next_node := Suc it\<rparr>
          in if length items > lru_capacity c
             then c1\<lparr>lru_items := butlast items, lru_index := index(fst (snd (last items)) := None)\<rparr>
             else c1)"

definition lru_erase :: "('k, 'v) lru_cache \<Rightarrow> 'k \<Rightarrow> ('k, 'v) lru_cache" where
  "lru_erase c key =
     (case lru_index c key of
        None \<Rightarrow> c
      | Some it \<Rightarrow>
          c\<lparr>lru_items := filter (\<lambda>n. fst n \<noteq> it) (lru_items c), lru_index := (lru_index c)(key := None)\<rparr>)"

definition lru_size :: "('k, 'v) lru_cache \<Rightarrow> nat" where
  "lru_size c = length (lru_items c)"

section \<open>Invariant and abstraction\<close>

definition lru_inv :: "('k, 'v) lru_cache \<Rightarrow> bool" where
  "lru_inv c \<longleftrightarrow>
     distinct (map fst (lru_items c)) \<and>
     (\<forall>a k v. (a, k, v) \<in> set (lru_items c) \<longrightarrow> a < lru_next_node c) \<and>
     (\<forall>k a. lru_index c k = Some a \<longleftrightarrow> (\<exists>v. (a, k, v) \<in> set (lru_items c))) \<and>
     distinct (map (fst \<circ> snd) (lru_items c)) \<and>
     length (lru_items c) \<le> lru_capacity c"

definition lru_abs :: "('k, 'v) lru_cache \<Rightarrow> ('k \<times> 'v) list" where
  "lru_abs c = map snd (lru_items c)"

text \<open>The reference semantics on association lists in recency order.\<close>

definition recency_put :: "nat \<Rightarrow> 'k \<Rightarrow> 'v \<Rightarrow> ('k \<times> 'v) list \<Rightarrow> ('k \<times> 'v) list" where
  "recency_put cap k v xs = take cap ((k, v) # filter (\<lambda>x. fst x \<noteq> k) xs)"

definition recency_touch :: "'k \<Rightarrow> ('k \<times> 'v) list \<Rightarrow> ('k \<times> 'v) list" where
  "recency_touch k xs = filter (\<lambda>x. fst x = k) xs @ filter (\<lambda>x. fst x \<noteq> k) xs"

lemma filter_fst_unique:
  "distinct (map fst xs) \<Longrightarrow> (a, b) \<in> set xs \<Longrightarrow> filter (\<lambda>n. fst n = a) xs = [(a, b)]"
proof (induction xs)
  case (Cons x xs)
  then show ?case by (cases x) (auto simp: filter_empty_conv image_iff)
qed simp

lemma lru_inv_new: "lru_inv (lru_new n)"
  by (simp add: lru_inv_def lru_new_def)

lemma lru_same_node:
  assumes "lru_inv c" and "lru_index c key = Some it" and "(a, k, v) \<in> set (lru_items c)"
  shows "a = it \<longleftrightarrow> k = key"
proof -
  obtain w where w: "(it, key, w) \<in> set (lru_items c)"
    using assms(1,2) by (auto simp: lru_inv_def)
  have d: "distinct (map fst (lru_items c))" "distinct (map (fst \<circ> snd) (lru_items c))"
    using assms(1) by (auto simp: lru_inv_def)
  show ?thesis
    using inj_onD [OF d(1) [unfolded distinct_map, THEN conjunct2], of "(a, k, v)" "(it, key, w)"]
      inj_onD [OF d(2) [unfolded distinct_map, THEN conjunct2], of "(a, k, v)" "(it, key, w)"] w assms(3)
    by auto
qed

lemma lru_filter_node:
  assumes "lru_inv c" and "lru_index c key = Some it"
  shows "map snd (filter (\<lambda>n. fst n = it) (lru_items c)) = filter (\<lambda>x. fst x = key) (lru_abs c)"
    and "map snd (filter (\<lambda>n. fst n \<noteq> it) (lru_items c)) = filter (\<lambda>x. fst x \<noteq> key) (lru_abs c)"
proof -
  have e: "fst n = it \<longleftrightarrow> fst (snd n) = key" if "n \<in> set (lru_items c)" for n
    using lru_same_node [OF assms] that by (metis prod.collapse)
  show "map snd (filter (\<lambda>n. fst n = it) (lru_items c)) = filter (\<lambda>x. fst x = key) (lru_abs c)"
    "map snd (filter (\<lambda>n. fst n \<noteq> it) (lru_items c)) = filter (\<lambda>x. fst x \<noteq> key) (lru_abs c)"
    unfolding lru_abs_def filter_map comp_def by (simp_all add: e cong: filter_cong)
qed

lemma lru_index_None:
  "lru_inv c \<Longrightarrow> lru_index c key = None \<longleftrightarrow> key \<notin> fst ` set (lru_abs c)"
  unfolding lru_inv_def lru_abs_def by (force simp: image_iff)

lemma lru_node_set:
  "set (filter (\<lambda>n. fst n = it) xs @ filter (\<lambda>n. fst n \<noteq> it) xs) = set xs"
  by auto

lemma distinct_map_split:
  "distinct (map f xs) \<Longrightarrow> distinct (map f (filter P xs @ filter (\<lambda>x. \<not> P x) xs))"
  by (auto simp: distinct_map inj_on_def)

lemma lru_splice_facts:
  "set (lru_splice it xs) = set xs" "length (lru_splice it xs) = length xs"
  "distinct (map f xs) \<Longrightarrow> distinct (map f (lru_splice it xs))"
  using distinct_map_split [of f xs "\<lambda>n. fst n = it"]
  by (auto simp: lru_splice_def sum_length_filter_compl)

lemma lru_inv_get: "lru_inv c \<Longrightarrow> lru_inv (fst (lru_get c key))"
  by (auto simp: lru_get_def lru_inv_def lru_splice_facts Let_def split: option.split)

text \<open>\<open>get\<close> answers from the map and moves the entry to the front.\<close>

lemma lru_get_abs:
  assumes "lru_inv c"
  shows "lru_abs (fst (lru_get c key)) = recency_touch key (lru_abs c)"
proof (cases "lru_index c key")
  case None
  then have "\<And>x. x \<in> set (lru_abs c) \<Longrightarrow> fst x \<noteq> key" using lru_index_None [OF assms, of key] by force
  then show ?thesis using None by (simp add: lru_get_def recency_touch_def filter_id_conv)
next
  case (Some it)
  have "lru_abs (fst (lru_get c key)) = map snd (lru_splice it (lru_items c))"
    by (simp add: lru_get_def Some Let_def lru_abs_def)
  then show ?thesis
    by (simp add: lru_splice_def recency_touch_def lru_filter_node [OF assms Some])
qed

lemma lru_get_result:
  assumes "lru_inv c"
  shows "snd (lru_get c key) = map_of (lru_abs c) key"
proof (cases "lru_index c key")
  case None
  then show ?thesis
    using lru_index_None [OF assms, of key] by (simp add: lru_get_def map_of_eq_None_iff [symmetric])
next
  case (Some it)
  obtain v where v: "(it, key, v) \<in> set (lru_items c)" using assms Some by (auto simp: lru_inv_def)
  have dk: "distinct (map fst (lru_abs c))" using assms by (simp add: lru_inv_def lru_abs_def)
  have "(key, v) \<in> set (lru_abs c)" using v by (force simp: lru_abs_def)
  with dk have m: "map_of (lru_abs c) key = Some v" by simp
  have "filter (\<lambda>n. fst n = it) (lru_items c) = [(it, key, v)]"
    by (rule filter_fst_unique) (use assms v in \<open>simp_all add: lru_inv_def\<close>)
  then show ?thesis
    using m by (simp add: lru_get_def Some lru_node_value_def lru_splice_def Let_def)
qed

lemma lru_inv_erase: "lru_inv c \<Longrightarrow> lru_inv (lru_erase c key)"
proof (cases "lru_index c key")
  case (Some it)
  assume inv: "lru_inv c"
  note same = lru_same_node [OF inv Some]
  have len: "length (filter (\<lambda>n. fst n \<noteq> it) (lru_items c)) \<le> lru_capacity c"
    using inv order_trans [OF length_filter_le [of "\<lambda>n. fst n \<noteq> it" "lru_items c"]] by (simp add: lru_inv_def)
  have idx: "((lru_index c)(key := None)) k = Some a \<longleftrightarrow>
      (\<exists>v. (a, k, v) \<in> set (filter (\<lambda>n. fst n \<noteq> it) (lru_items c)))" for k a
    using inv same by (auto simp: lru_inv_def)
  show ?thesis
    using inv len idx unfolding lru_inv_def lru_erase_def Some
    by (auto simp: distinct_map_filter simp del: fun_upd_apply)
qed (simp add: lru_erase_def)

lemma lru_erase_abs:
  assumes "lru_inv c"
  shows "lru_abs (lru_erase c key) = filter (\<lambda>x. fst x \<noteq> key) (lru_abs c)"
proof (cases "lru_index c key")
  case None
  then have "\<And>x. x \<in> set (lru_abs c) \<Longrightarrow> fst x \<noteq> key" using lru_index_None [OF assms, of key] by force
  then show ?thesis using None by (simp add: lru_erase_def filter_id_conv)
next
  case (Some it)
  then show ?thesis using lru_filter_node(2) [OF assms Some] by (simp add: lru_erase_def lru_abs_def)
qed

text \<open>\<open>put\<close> on a cached key updates the node and moves it to the front.\<close>

lemma lru_put_hit:
  assumes inv: "lru_inv c" and hit: "lru_index c key = Some it"
  shows "lru_inv (lru_put c key v)" and "lru_abs (lru_put c key v) = recency_put (lru_capacity c) key v (lru_abs c)"
proof -
  define f where "f = (\<lambda>(a, k, w). if a = it then (a, k, v) else (a, k :: 'a, w :: 'b))"
  have put: "lru_put c key v = c\<lparr>lru_items := lru_splice it (map f (lru_items c))\<rparr>"
    by (simp add: lru_put_def hit f_def)
  have fst_f: "fst (f n) = fst n" "fst (snd (f n)) = fst (snd n)" for n
    by (auto simp: f_def split: prod.splits)
  have mem: "(\<exists>w. (a, k, w) \<in> f ` set (lru_items c)) \<longleftrightarrow> (\<exists>w. (a, k, w) \<in> set (lru_items c))" for a k
    by (auto simp: f_def image_iff split: prod.splits if_splits) blast+
  show "lru_inv (lru_put c key v)"
    using inv mem unfolding put lru_inv_def
    by (auto simp: lru_splice_facts comp_def fst_f)
  obtain w where w: "(it, key, w) \<in> set (lru_items c)" using inv hit by (auto simp: lru_inv_def)
  have one: "filter (\<lambda>n. fst n = it) (lru_items c) = [(it, key, w)]"
    by (rule filter_fst_unique) (use inv w in \<open>simp_all add: lru_inv_def\<close>)
  have "map snd (lru_splice it (map f (lru_items c))) =
      map (snd \<circ> f) (filter (\<lambda>n. fst n = it) (lru_items c)) @ map (snd \<circ> f) (filter (\<lambda>n. fst n \<noteq> it) (lru_items c))"
    by (simp add: lru_splice_def filter_map comp_def fst_f)
  also have "map (snd \<circ> f) (filter (\<lambda>n. fst n \<noteq> it) (lru_items c)) = map snd (filter (\<lambda>n. fst n \<noteq> it) (lru_items c))"
    by (auto simp: f_def split: prod.splits)
  also have "map (snd \<circ> f) (filter (\<lambda>n. fst n = it) (lru_items c)) = [(key, v)]"
    by (simp add: one f_def)
  finally have abs: "lru_abs (lru_put c key v) = (key, v) # filter (\<lambda>x. fst x \<noteq> key) (lru_abs c)"
    using lru_filter_node(2) [OF inv hit] by (simp add: put lru_abs_def)
  have "length (lru_abs (lru_put c key v)) \<le> lru_capacity c"
    using inv by (simp add: lru_inv_def lru_abs_def put lru_splice_facts)
  then show "lru_abs (lru_put c key v) = recency_put (lru_capacity c) key v (lru_abs c)"
    unfolding recency_put_def abs [symmetric] by simp
qed

text \<open>\<open>put\<close> of a new key inserts at the front and evicts the last entry when the cache is full.\<close>

lemma lru_put_miss_items:
  assumes "lru_index c key = None"
  shows "lru_items (lru_put c key v) =
    (let items = (lru_next_node c, key, v) # lru_items c
     in if length items > lru_capacity c then butlast items else items)"
  using assms by (simp add: lru_put_def Let_def)

lemma lru_put_miss:
  assumes inv: "lru_inv c" and miss: "lru_index c key = None"
  shows "lru_abs (lru_put c key v) = recency_put (lru_capacity c) key v (lru_abs c)"
proof -
  have len: "length (lru_items c) \<le> lru_capacity c" using inv by (simp add: lru_inv_def)
  have nf: "filter (\<lambda>x. fst x \<noteq> key) (lru_abs c) = lru_abs c"
    using lru_index_None [OF inv, of key] miss by (force simp: filter_id_conv)
  have "map snd (butlast ((lru_next_node c, key, v) # lru_items c)) = take (length (lru_items c)) ((key, v) # lru_abs c)"
    by (simp add: butlast_conv_take lru_abs_def take_map [symmetric])
  moreover have "length (lru_items c) = lru_capacity c" if "lru_capacity c < Suc (length (lru_items c))"
    using len that by simp
  ultimately show ?thesis
    unfolding lru_abs_def [of "lru_put c key v"] lru_put_miss_items [OF miss] recency_put_def nf
    by (simp add: Let_def) (auto simp: lru_abs_def)
qed

lemma lru_inv_put_miss:
  assumes inv: "lru_inv c" and miss: "lru_index c key = None"
  shows "lru_inv (lru_put c key v)"
proof -
  define items where "items = (lru_next_node c, key, v) # lru_items c"
  define index where "index = (lru_index c)(key \<mapsto> lru_next_node c)"
  have fresh: "(a, k, w) \<in> set (lru_items c) \<Longrightarrow> a < lru_next_node c" for a k w using inv by (auto simp: lru_inv_def)
  have nokey: "(a, key, w) \<notin> set (lru_items c)" for a w
    using inv miss unfolding lru_inv_def by (metis option.distinct(1))
  have di: "distinct (map fst items)" "distinct (map (fst \<circ> snd) items)"
    using inv fresh nokey by (force simp: items_def lru_inv_def)+
  have ix: "index k = Some a \<longleftrightarrow> (\<exists>w. (a, k, w) \<in> set items)" for k a
    using inv fresh nokey by (auto simp: index_def items_def lru_inv_def)
  have lt: "(a, k, w) \<in> set items \<Longrightarrow> a < Suc (lru_next_node c)" for a k w
    using fresh by (force simp: items_def intro: less_SucI)
  have len: "length items \<le> Suc (lru_capacity c)" using inv by (simp add: items_def lru_inv_def)
  have ne: "items \<noteq> []" by (simp add: items_def)
  obtain a0 k0 w0 where last: "last items = (a0, k0, w0)" by (metis prod_cases3)
  have split: "items = butlast items @ [(a0, k0, w0)]" using append_butlast_last_id [OF ne] last by simp
  show ?thesis
  proof (cases "length items > lru_capacity c")
    case True
    have "distinct (map (fst \<circ> snd) (butlast items @ [(a0, k0, w0)]))"
      using di split by simp
    then have nk: "(a, k0, w) \<notin> set (butlast items)" for a w by force
    have "set items = insert (a0, k0, w0) (set (butlast items))"
      by (subst split) simp
    then have ix': "(index(k0 := None)) k = Some a \<longleftrightarrow> (\<exists>w. (a, k, w) \<in> set (butlast items))" for k a
      using ix [of k a] nk by (cases "k = k0") auto
    have put: "lru_put c key v = c\<lparr>lru_items := butlast items, lru_index := index(k0 := None),
        lru_next_node := Suc (lru_next_node c)\<rparr>"
      unfolding lru_put_def miss option.case Let_def items_def [symmetric] index_def [symmetric]
      using True last by simp
    have "(a, k, w) \<in> set (butlast items) \<Longrightarrow> a < Suc (lru_next_node c)" for a k w
      using lt in_set_butlastD by fast
    then show ?thesis
      using di ix' len unfolding put lru_inv_def
      by (auto simp: distinct_butlast map_butlast simp del: fun_upd_apply)
  next
    case False
    have put: "lru_put c key v = c\<lparr>lru_items := items, lru_index := index, lru_next_node := Suc (lru_next_node c)\<rparr>"
      unfolding lru_put_def miss option.case Let_def items_def [symmetric] index_def [symmetric]
      using False by simp
    show ?thesis using False di ix lt unfolding put lru_inv_def by auto
  qed
qed

lemma lru_put_spec:
  assumes "lru_inv c"
  shows "lru_inv (lru_put c key v)" and "lru_abs (lru_put c key v) = recency_put (lru_capacity c) key v (lru_abs c)"
  using assms by (cases "lru_index c key"; simp add: lru_put_hit lru_put_miss lru_inv_put_miss)+

lemma lru_capacity_const [simp]:
  "lru_capacity (lru_put c key v) = lru_capacity c" "lru_capacity (lru_erase c key) = lru_capacity c"
  "lru_capacity (fst (lru_get c key)) = lru_capacity c"
  by (auto simp: lru_put_def lru_erase_def lru_get_def Let_def split: option.split)

section \<open>The contract of a cache\<close>

text \<open>
  What a caller that keeps a cache in front of a map relies on: a lookup answers from the cached
  map, an insertion may drop entries but never invents one, an erasure removes the key. From
  these laws the caller obtains coherence, i.e. that the cache never contradicts the map.
\<close>

locale coherent_cache =
  fixes cinv :: "'c \<Rightarrow> bool"
    and clookup :: "'c \<Rightarrow> 'k \<rightharpoonup> 'v"
    and cget :: "'c \<Rightarrow> 'k \<Rightarrow> 'c \<times> 'v option"
    and cput :: "'c \<Rightarrow> 'k \<Rightarrow> 'v \<Rightarrow> 'c"
    and cerase :: "'c \<Rightarrow> 'k \<Rightarrow> 'c"
  assumes cget_law: "cinv c \<Longrightarrow> cinv (fst (cget c k)) \<and> clookup (fst (cget c k)) = clookup c \<and> snd (cget c k) = clookup c k"
    and cput_law: "cinv c \<Longrightarrow> cinv (cput c k v) \<and> clookup (cput c k v) \<subseteq>\<^sub>m (clookup c)(k \<mapsto> v)"
    and cerase_law: "cinv c \<Longrightarrow> cinv (cerase c k) \<and> clookup (cerase c k) \<subseteq>\<^sub>m (clookup c)(k := None)"
begin

definition coherent :: "('k \<rightharpoonup> 'v) \<Rightarrow> 'c \<Rightarrow> bool" where
  "coherent m c \<longleftrightarrow> cinv c \<and> clookup c \<subseteq>\<^sub>m m"

lemma map_le_upd: "f \<subseteq>\<^sub>m m \<Longrightarrow> f(k := x) \<subseteq>\<^sub>m m(k := x)"
  by (auto simp: map_le_def)

lemma coherent_put: "coherent m c \<Longrightarrow> coherent (m(k \<mapsto> v)) (cput c k v)"
  using cput_law [of c k v] by (auto simp: coherent_def intro: map_le_trans map_le_upd)

lemma coherent_erase: "coherent m c \<Longrightarrow> coherent (m(k := None)) (cerase c k)"
  using cerase_law [of c k] by (auto simp: coherent_def intro: map_le_trans map_le_upd)

lemma coherent_fill: "coherent m c \<Longrightarrow> m k = Some v \<Longrightarrow> coherent m (cput c k v)"
  using coherent_put [of m c k v] by (simp add: fun_upd_idem)

lemma coherent_get: "coherent m c \<Longrightarrow> coherent m (fst (cget c k))"
  using cget_law [of c k] by (auto simp: coherent_def)

lemma coherent_hit: "coherent m c \<Longrightarrow> snd (cget c k) = Some v \<Longrightarrow> m k = Some v"
  using cget_law [of c k] by (auto simp: coherent_def map_le_def dom_def)

end

definition lru_lookup :: "('k, 'v) lru_cache \<Rightarrow> 'k \<rightharpoonup> 'v" where
  "lru_lookup c = map_of (lru_abs c)"

lemma map_of_take_le: "distinct (map fst xs) \<Longrightarrow> map_of (take n xs) \<subseteq>\<^sub>m map_of xs"
proof (unfold map_le_def, intro ballI)
  fix k
  assume d: "distinct (map fst xs)" and "k \<in> dom (map_of (take n xs))"
  then obtain v where v: "map_of (take n xs) k = Some v" by auto
  then have "(k, v) \<in> set xs" by (metis in_set_takeD map_of_SomeD)
  with d v show "map_of (take n xs) k = map_of xs k" by simp
qed

lemma map_of_filter_neq: "map_of (filter (\<lambda>x. fst x \<noteq> k) xs) = (map_of xs)(k := None)"
  by (induction xs) (auto simp: fun_eq_iff)

lemma map_of_touch: "map_of (recency_touch k xs) = map_of xs"
proof -
  have "map_of (filter (\<lambda>x. fst x = k) xs) j = (if j = k then map_of xs k else None)" for j
    by (induction xs) auto
  then show ?thesis
    by (auto simp: recency_touch_def map_of_filter_neq map_add_def fun_eq_iff split: option.split)
qed

lemma lru_lookup_put:
  assumes "lru_inv c"
  shows "lru_lookup (lru_put c k v) \<subseteq>\<^sub>m (lru_lookup c)(k \<mapsto> v)"
proof -
  let ?xs = "(k, v) # filter (\<lambda>x. fst x \<noteq> k) (lru_abs c)"
  have "distinct (map fst ?xs)"
    using assms by (auto simp: lru_inv_def lru_abs_def distinct_map_filter)
  then have "map_of (take (lru_capacity c) ?xs) \<subseteq>\<^sub>m map_of ?xs" by (rule map_of_take_le)
  also have "map_of ?xs = (lru_lookup c)(k \<mapsto> v)" by (simp add: lru_lookup_def map_of_filter_neq)
  finally show ?thesis unfolding lru_lookup_def [of "lru_put c k v"] lru_put_spec(2) [OF assms] recency_put_def .
qed

interpretation lru: coherent_cache lru_inv lru_lookup lru_get lru_put lru_erase
proof unfold_locales
  fix c :: "('k, 'v) lru_cache" and k v
  assume inv: "lru_inv c"
  show "lru_inv (fst (lru_get c k)) \<and> lru_lookup (fst (lru_get c k)) = lru_lookup c \<and> snd (lru_get c k) = lru_lookup c k"
    using inv by (simp add: lru_inv_get lru_lookup_def lru_get_abs map_of_touch lru_get_result)
  show "lru_inv (lru_put c k v) \<and> lru_lookup (lru_put c k v) \<subseteq>\<^sub>m (lru_lookup c)(k \<mapsto> v)"
    using inv by (simp add: lru_put_spec lru_lookup_put)
  show "lru_inv (lru_erase c k) \<and> lru_lookup (lru_erase c k) \<subseteq>\<^sub>m (lru_lookup c)(k := None)"
    using inv by (simp add: lru_inv_erase lru_lookup_def lru_erase_abs map_of_filter_neq)
qed

section \<open>Properties\<close>

text \<open>
  C32: The cache of list nodes and iterators implements a bounded recency list: from a consistent
  state every operation leads to a consistent state (in particular within capacity); \<open>get\<close>
  returns the stored value and moves the entry to the front, \<open>put\<close> places the entry in front and
  evicts the least recently used one when the capacity is exceeded, \<open>erase\<close> removes it.
\<close>

theorem lru_refines_recency_list:
  assumes "lru_inv c"
  shows "lru_inv (lru_put c k v) \<and> lru_abs (lru_put c k v) = recency_put (lru_capacity c) k v (lru_abs c) \<and>
    lru_inv (fst (lru_get c k)) \<and> lru_abs (fst (lru_get c k)) = recency_touch k (lru_abs c) \<and>
    snd (lru_get c k) = map_of (lru_abs c) k \<and>
    lru_inv (lru_erase c k) \<and> lru_abs (lru_erase c k) = filter (\<lambda>x. fst x \<noteq> k) (lru_abs c) \<and>
    lru_size (lru_put c k v) \<le> lru_capacity c"
proof -
  have "lru_size (lru_put c k v) \<le> lru_capacity (lru_put c k v)"
    using lru_put_spec(1) [OF assms] by (auto simp: lru_inv_def lru_size_def)
  with assms show ?thesis
    by (simp add: lru_put_spec lru_inv_get lru_get_abs lru_get_result lru_inv_erase lru_erase_abs)
qed

theorem lru_refines_recency_list_witness:
  "lru_abs (lru_put (lru_put (lru_put (lru_new 2) (1 :: nat) ''a'') 2 ''b'') 3 ''c'') = [(3, ''c''), (2, ''b'')]"
proof -
  have 1: "lru_inv (lru_new 2 :: (nat, string) lru_cache)" by (rule lru_inv_new)
  have 2: "lru_inv (lru_put (lru_new 2) (1 :: nat) ''a'')" using lru_put_spec(1) [OF 1] .
  have 3: "lru_inv (lru_put (lru_put (lru_new 2) (1 :: nat) ''a'') 2 ''b'')" using lru_put_spec(1) [OF 2] .
  show ?thesis
    using lru_refines_recency_list [OF 1, of 1 "''a''"] lru_refines_recency_list [OF 2, of 2 "''b''"]
      lru_refines_recency_list [OF 3, of 3 "''c''"]
    by (simp add: recency_put_def) (simp add: lru_abs_def lru_new_def)
qed

end
