(* ===== verification/Segmented_Engine.thy ===== *)
theory Segmented_Engine
  imports Segment_Log KV_Store LRU_Cache "HOL-Library.Product_Lexorder"
begin

text \<open>
  \<open>segmented_engine.hpp\<close>: the class \<open>SegmentedKVEngine\<close>. The state has the directory beside the
  members of the class. An open descriptor is identified with the segment it was opened for: the
  engine never renames or removes a segment file whose descriptor it uses afterwards. The lock
  covers a whole operation, so an operation is one transition. \<open>now_ms()\<close> and the outcomes of
  the system calls are arguments, \<open>fsync\<close> has no effect on the contents modelled here (for stable storage
  see \<open>Segmented_Durability\<close>), and a thrown
  \<open>runtime_error\<close> is the result \<open>Inl\<close>. \<open>maybe_crash\<close> ends a compaction with the directory that
  the process leaves behind.
\<close>

section \<open>State\<close>

record segmented_engine =
  sg_dir :: directory
  sg_threshold :: nat
  sg_active_id :: nat
  sg_active_offset :: nat
  sg_active_hints :: "hint_record list"
  sg_segment_fds :: "nat list"
  sg_keydir :: keydir
  sg_cache :: "(bytes, bytes) lru_cache"
  sg_hint_recoveries :: nat
  sg_full_scan_recoveries :: nat
  sg_cache_hits :: nat
  sg_cache_misses :: nat

datatype sg_error = MkdirFailed | CreateSegmentFailed nat | SegFstatFailed nat | CannotOpen nat

text \<open>Outcomes of the calls of \<open>write_hint_file\<close>; writes are told apart by their offset.\<close>

record hint_env =
  he_open_ok :: bool
  he_write :: "nat \<Rightarrow> nat option"
  he_fsync_ok :: bool
  he_rename_ok :: bool
  he_unlink_ok :: bool

text \<open>Outcomes of the calls of \<open>put\<close> and \<open>del\<close>.\<close>

record op_env =
  pe_now :: u64
  pe_write :: write_outcome
  pe_hint :: hint_env
  pe_open_ok :: bool

section \<open>Files\<close>

definition file_of :: "directory \<Rightarrow> string \<Rightarrow> bytes" where
  "file_of d name = (case map_of d name of None \<Rightarrow> [] | Some f \<Rightarrow> f)"

definition unlink :: "bool \<Rightarrow> string \<Rightarrow> directory \<Rightarrow> directory" where
  "unlink ok name d = (if ok then AList.delete name d else d)"

definition rename :: "string \<Rightarrow> string \<Rightarrow> directory \<Rightarrow> directory" where
  "rename old new d =
     (case map_of d old of None \<Rightarrow> d | Some f \<Rightarrow> AList.update new f (AList.delete old d))"

text \<open>
  A loop over \<open>read\<close> or \<open>write\<close> that continues after a short transfer and stops at an error or
  at a transfer of no bytes; the result is the number of bytes transferred.
\<close>

function transfer_loop :: "(nat \<Rightarrow> nat option) \<Rightarrow> nat \<Rightarrow> nat \<Rightarrow> nat" where
  "transfer_loop oc len off =
     (if off < len then
        case oc off of
          None \<Rightarrow> off
        | Some n \<Rightarrow> if n = 0 then off else transfer_loop oc len (off + min n (len - off))
      else off)"
  by pat_completeness auto
termination
  by (relation "measure (\<lambda>(oc, len, off). len - off)") auto

declare transfer_loop.simps [simp del]

definition write_hint_file ::
  "hint_env \<Rightarrow> nat \<Rightarrow> hint_record list \<Rightarrow> directory \<Rightarrow> directory \<times> bool" where
  "write_hint_file env segid hints d =
     (let hpath = hint_path segid;
          tmp = hpath @ ''.tmp''
      in if \<not> he_open_ok env then (d, False)
         else
           (let buf = encode_hints hints;
                off = transfer_loop (he_write env) (length buf) 0;
                ok = (off = length buf \<and> he_fsync_ok env);
                d1 = AList.update tmp (take off buf) d
            in if \<not> ok \<or> \<not> he_rename_ok env then (unlink (he_unlink_ok env) tmp d1, False)
               else (rename tmp hpath d1, True)))"

section \<open>Sealing and opening segments\<close>

definition seal_active_segment :: "hint_env \<Rightarrow> segmented_engine \<Rightarrow> segmented_engine" where
  "seal_active_segment env e =
     e\<lparr>sg_dir := fst (write_hint_file env (sg_active_id e) (sg_active_hints e) (sg_dir e)),
       sg_active_hints := []\<rparr>"

definition open_new_active_segment :: "bool \<Rightarrow> nat \<Rightarrow> segmented_engine \<Rightarrow> segmented_engine \<times> sg_error option" where
  "open_new_active_segment ok new_id e =
     (if \<not> ok then (e, Some (CreateSegmentFailed new_id))
      else
        (let p = segment_path new_id
         in (e\<lparr>sg_dir := (if map_of (sg_dir e) p = None then AList.update p [] (sg_dir e) else sg_dir e),
               sg_segment_fds := List.insert new_id (sg_segment_fds e),
               sg_active_id := new_id,
               sg_active_offset := 0,
               sg_active_hints := []\<rparr>, None)))"

definition maybe_roll_segment :: "op_env \<Rightarrow> segmented_engine \<Rightarrow> segmented_engine \<times> sg_error option" where
  "maybe_roll_segment env e =
     (if sg_active_offset e \<ge> sg_threshold e
      then open_new_active_segment (pe_open_ok env) (sg_active_id e + 1) (seal_active_segment (pe_hint env) e)
      else (e, None))"

section \<open>put, get, del\<close>

definition sg_put :: "op_env \<Rightarrow> segmented_engine \<Rightarrow> bytes \<Rightarrow> bytes \<Rightarrow> segmented_engine \<times> (sg_error + bool)" where
  "sg_put env e key value =
     (if length key > 0xFFFFFFFF \<or> length value \<ge> unat COMPACTION_BASE then (e, Inr False)
      else case maybe_roll_segment env e of
        (e1, Some err) \<Rightarrow> (e1, Inl err)
      | (e1, None) \<Rightarrow>
          let p = segment_path (sg_active_id e1) in
          case write_record (pe_write env) (file_of (sg_dir e1) p) (sg_active_offset e1) key value
                 (of_nat (length value)) (pe_now env) of
            (f, WriteFailed) \<Rightarrow> (e1\<lparr>sg_dir := AList.update p f (sg_dir e1)\<rparr>, Inr False)
          | (f, Written value_pos record_len) \<Rightarrow>
              (e1\<lparr>sg_dir := AList.update p f (sg_dir e1),
                  sg_active_offset := sg_active_offset e1 + record_len,
                  sg_keydir := AList.update key
                    \<lparr>ke_segment_id = sg_active_id e1, ke_value_pos = value_pos,
                     ke_value_size = of_nat (length value), ke_timestamp = pe_now env\<rparr> (sg_keydir e1),
                  sg_active_hints := sg_active_hints e1 @
                    [\<lparr>hr_key = key, hr_value_pos = value_pos, hr_value_size = of_nat (length value),
                      hr_timestamp = pe_now env\<rparr>],
                  sg_cache := lru_put (sg_cache e1) key value\<rparr>, Inr True))"

definition sg_get :: "(nat \<Rightarrow> read_faults) \<Rightarrow> segmented_engine \<Rightarrow> bytes \<Rightarrow> segmented_engine \<times> bytes option" where
  "sg_get rf e key =
     (case lru_get (sg_cache e) key of
        (c, Some cached) \<Rightarrow> (e\<lparr>sg_cache := c, sg_cache_hits := sg_cache_hits e + 1\<rparr>, Some cached)
      | (c, None) \<Rightarrow>
          (let e1 = e\<lparr>sg_cache := c, sg_cache_misses := sg_cache_misses e + 1\<rparr>
           in case map_of (sg_keydir e1) key of
                None \<Rightarrow> (e1, None)
              | Some en \<Rightarrow>
                  if ke_value_size en = 0 then (e1, Some [])
                  else if ke_segment_id en \<notin> set (sg_segment_fds e1) then (e1, None)
                  else case pread (rf (ke_segment_id en)) (file_of (sg_dir e1) (segment_path (ke_segment_id en)))
                              (unat (ke_value_size en)) (ke_value_pos en) of
                    None \<Rightarrow> (e1, None)
                  | Some value \<Rightarrow>
                      if length value \<noteq> unat (ke_value_size en) then (e1, None)
                      else (e1\<lparr>sg_cache := lru_put (sg_cache e1) key value\<rparr>, Some value)))"

definition sg_del :: "op_env \<Rightarrow> segmented_engine \<Rightarrow> bytes \<Rightarrow> segmented_engine \<times> (sg_error + bool)" where
  "sg_del env e key =
     (if map_of (sg_keydir e) key = None then (e, Inr False)
      else case maybe_roll_segment env e of
        (e1, Some err) \<Rightarrow> (e1, Inl err)
      | (e1, None) \<Rightarrow>
          let p = segment_path (sg_active_id e1) in
          case write_record (pe_write env) (file_of (sg_dir e1) p) (sg_active_offset e1) key []
                 TOMBSTONE (pe_now env) of
            (f, WriteFailed) \<Rightarrow> (e1\<lparr>sg_dir := AList.update p f (sg_dir e1)\<rparr>, Inr False)
          | (f, Written value_pos record_len) \<Rightarrow>
              (e1\<lparr>sg_dir := AList.update p f (sg_dir e1),
                  sg_active_offset := sg_active_offset e1 + record_len,
                  sg_keydir := AList.delete key (sg_keydir e1),
                  sg_active_hints := sg_active_hints e1 @
                    [\<lparr>hr_key = key, hr_value_pos = value_pos, hr_value_size = TOMBSTONE,
                      hr_timestamp = pe_now env\<rparr>],
                  sg_cache := lru_erase (sg_cache e1) key\<rparr>, Inr True))"

definition sg_size :: "segmented_engine \<Rightarrow> nat" where
  "sg_size e = length (sg_keydir e)"

definition sg_segment_count :: "segmented_engine \<Rightarrow> nat" where
  "sg_segment_count e = length (sg_segment_fds e)"

definition sg_active_segment_bytes :: "segmented_engine \<Rightarrow> nat" where
  "sg_active_segment_bytes e = sg_active_offset e"

section \<open>compact\<close>

record sg_compact_env =
  sce_now :: u64
  sce_open_ok :: bool
  sce_faults :: "nat \<Rightarrow> read_faults"
  sce_write :: "nat \<Rightarrow> write_outcome"
  sce_fsync_ok :: bool
  sce_unlink_ok :: "string \<Rightarrow> bool"
  sce_rename_ok :: bool
  sce_hint :: hint_env

text \<open>
  The copy loop: the contents of the temporary file so far, the next offset and the new hints.
  \<open>None\<close> in the second component is \<open>return abort_compaction()\<close>.
\<close>

fun sg_copy_loop ::
  "sg_compact_env \<Rightarrow> segmented_engine \<Rightarrow> bytes \<Rightarrow> nat \<Rightarrow> hint_record list \<Rightarrow> keydir
     \<Rightarrow> bytes \<times> (nat \<times> hint_record list) option" where
  "sg_copy_loop env e tmp new_offset new_hints [] = (tmp, Some (new_offset, new_hints))"
| "sg_copy_loop env e tmp new_offset new_hints ((key, en) # items) =
     (let klen = length key;
          rlen = HEADER_SIZE + klen + unat (ke_value_size en)
      in if ke_value_pos en < HEADER_SIZE + klen then (tmp, None)
         else if ke_segment_id en \<notin> set (sg_segment_fds e) then (tmp, None)
         else case pread (sce_faults env (ke_segment_id en)) (file_of (sg_dir e) (segment_path (ke_segment_id en)))
                     rlen (ke_value_pos en - klen - HEADER_SIZE) of
           None \<Rightarrow> (tmp, None)
         | Some rec \<Rightarrow>
             if length rec \<noteq> rlen then (tmp, None)
             else
               (let (crc, rts, rklen, rvlen) = decode_header rec
                in if unat rklen \<noteq> klen \<or> rvlen \<noteq> ke_value_size en \<or> rts \<noteq> ke_timestamp en then (tmp, None)
                   else if take klen (drop HEADER_SIZE rec) \<noteq> key then (tmp, None)
                   else if crc32 (drop 4 rec) \<noteq> crc then (tmp, None)
                   else
                     (let (tmp', w) = pwrite (sce_write env new_offset) tmp new_offset rec
                      in if w < 0 \<or> nat w \<noteq> rlen then (tmp', None)
                         else sg_copy_loop env e tmp' (new_offset + rlen)
                                (new_hints @ [\<lparr>hr_key = key, hr_value_pos = new_offset + HEADER_SIZE + klen,
                                   hr_value_size = ke_value_size en, hr_timestamp = ke_timestamp en\<rparr>])
                                items)))"

definition remove_segment :: "(string \<Rightarrow> bool) \<Rightarrow> directory \<Rightarrow> nat \<Rightarrow> directory" where
  "remove_segment ok d segid =
     unlink (ok (hint_path segid)) (hint_path segid) (unlink (ok (segment_path segid)) (segment_path segid) d)"

text \<open>
  \<open>compact_locked\<close>. \<open>failpoint\<close> is \<open>failpoint_\<close>; a result \<open>Inl d\<close> is the death of the process at
  that crash point with the directory \<open>d\<close>.
\<close>

definition sg_items :: "segmented_engine \<Rightarrow> keydir" where
  "sg_items e =
     sort_key (\<lambda>(key, en). (ke_segment_id en, ke_value_pos en))
       (filter (\<lambda>(key, en). ke_segment_id en \<noteq> sg_active_id e) (sg_keydir e))"

definition sg_sealed :: "segmented_engine \<Rightarrow> nat list" where
  "sg_sealed e = sort (filter (\<lambda>segid. segid \<noteq> sg_active_id e) (sg_segment_fds e))"

definition sg_switch :: "nat \<Rightarrow> nat list \<Rightarrow> hint_record list \<Rightarrow> directory \<Rightarrow> segmented_engine \<Rightarrow> segmented_engine" where
  "sg_switch out_id sealed new_hints d e =
     e\<lparr>sg_dir := d,
       sg_segment_fds := out_id # filter (\<lambda>segid. segid \<notin> set sealed) (sg_segment_fds e),
       sg_keydir := foldl (\<lambda>kd h. AList.update (hr_key h)
           \<lparr>ke_segment_id = out_id, ke_value_pos = hr_value_pos h, ke_value_size = hr_value_size h,
            ke_timestamp = hr_timestamp h\<rparr> kd) (sg_keydir e) new_hints\<rparr>"

definition sg_merge :: "sg_compact_env \<Rightarrow> segmented_engine \<Rightarrow> bytes \<times> (nat \<times> hint_record list) option" where
  "sg_merge env e =
     (case write_record (sce_write env 0) [] 0 [] [] COMPACTION_BASE (sce_now env) of
        (f, WriteFailed) \<Rightarrow> (f, None)
      | (f, Written value_pos record_len) \<Rightarrow> sg_copy_loop env e f record_len [] (sg_items e))"

definition sg_compact ::
  "nat \<Rightarrow> sg_compact_env \<Rightarrow> segmented_engine \<Rightarrow> directory + segmented_engine \<times> bool" where
  "sg_compact failpoint env e =
     (let sealed = sg_sealed e in
      if sealed = [] then Inr (e, True)
      else
        (let out_id = last sealed;
             tmp_path = segment_path out_id @ ''.compact.tmp'';
             d = sg_dir e;
             abort = (\<lambda>d. Inr (e\<lparr>sg_dir := unlink (sce_unlink_ok env tmp_path) tmp_path d\<rparr>, False))
         in if \<not> sce_open_ok env then Inr (e, False)
            else case sg_merge env e of
              (f, None) \<Rightarrow> abort (AList.update tmp_path f d)
            | (f, Some (new_offset, new_hints)) \<Rightarrow>
                (let d1 = AList.update tmp_path f d;
                     d2 = unlink (sce_unlink_ok env (hint_path out_id)) (hint_path out_id) d1;
                     d3 = rename tmp_path (segment_path out_id) d2;
                     superseded = filter (\<lambda>segid. segid \<noteq> out_id) sealed;
                     d4 = foldl (remove_segment (sce_unlink_ok env)) d3 (take 1 superseded);
                     d5 = foldl (remove_segment (sce_unlink_ok env)) d3 superseded;
                     d6 = (if new_hints \<noteq> [] then fst (write_hint_file (sce_hint env) out_id new_hints d5) else d5)
                 in if \<not> sce_fsync_ok env then abort d1
                    else if failpoint = 1 then Inl d1
                    else if failpoint = 2 then Inl d2
                    else if \<not> sce_rename_ok env then abort d2
                    else if failpoint = 3 then Inl d3
                    else if failpoint = 4 \<and> superseded \<noteq> [] then Inl d4
                    else if failpoint = 5 then Inl d5
                    else if failpoint = 6 then Inl d6
                    else Inr (sg_switch out_id sealed new_hints d6 e, True))))"

section \<open>Opening a directory\<close>

record sg_open_env =
  soe_mkdir_ok :: bool
  soe_opendir1_ok :: bool
  soe_opendir2_ok :: bool
  soe_unlink_ok :: "string \<Rightarrow> bool"
  soe_marker_open_ok :: "nat \<Rightarrow> bool"
  soe_open_ok :: "nat \<Rightarrow> bool"
  soe_fstat_ok :: "nat \<Rightarrow> bool"
  soe_faults :: "nat \<Rightarrow> read_faults"
  soe_hint_open_ok :: "nat \<Rightarrow> bool"
  soe_hint_read :: "nat \<Rightarrow> nat \<Rightarrow> nat option"
  soe_ftruncate_ok :: bool
  soe_hint :: hint_env
  soe_create_ok :: bool

definition list_dir_names :: "bool \<Rightarrow> directory \<Rightarrow> string list" where
  "list_dir_names ok d = (if ok then map fst d else [])"

definition stale_temp_name :: "string \<Rightarrow> bool" where
  "stale_temp_name name \<longleftrightarrow> ends_with name ''.compact.tmp'' \<or> ends_with name ''.hint.tmp''"

definition remove_stale_temp_files :: "sg_open_env \<Rightarrow> directory \<Rightarrow> directory" where
  "remove_stale_temp_files env d =
     foldl (\<lambda>d name. if stale_temp_name name then unlink (soe_unlink_ok env name) name d else d) d
       (list_dir_names (soe_opendir1_ok env) d)"

definition segment_begins_with_base_marker :: "sg_open_env \<Rightarrow> directory \<Rightarrow> nat \<Rightarrow> bool" where
  "segment_begins_with_base_marker env d segid =
     (if \<not> soe_marker_open_ok env segid then False
      else case pread (soe_faults env segid) (file_of d (segment_path segid)) HEADER_SIZE 0 of
        None \<Rightarrow> False
      | Some header \<Rightarrow>
          if length header < HEADER_SIZE then False
          else
            (let (crc, ts, klen, vlen) = decode_header header
             in if klen \<noteq> 0 \<or> vlen \<noteq> COMPACTION_BASE then False
                else crc32 (take (HEADER_SIZE - 4) (drop 4 header)) = crc))"

definition recover_segment_via_full_scan ::
  "sg_open_env \<Rightarrow> nat \<Rightarrow> hint_record list option \<Rightarrow> segmented_engine
     \<Rightarrow> sg_error + segmented_engine \<times> nat \<times> hint_record list option" where
  "recover_segment_via_full_scan env segid hints_out e =
     (if \<not> soe_fstat_ok env segid then Inl (SegFstatFailed segid)
      else
        (let (off, kd, ho) = seg_scan_loop (soe_faults env segid) (file_of (sg_dir e) (segment_path segid))
                               segid 0 (sg_keydir e) hints_out
         in Inr (e\<lparr>sg_keydir := kd, sg_full_scan_recoveries := sg_full_scan_recoveries e + 1\<rparr>, off, ho)))"

definition recover_segment_via_hint :: "sg_open_env \<Rightarrow> nat \<Rightarrow> segmented_engine \<Rightarrow> segmented_engine option" where
  "recover_segment_via_hint env segid e =
     (case (if soe_hint_open_ok env segid then map_of (sg_dir e) (hint_path segid) else None) of
        None \<Rightarrow> None
      | Some hfile \<Rightarrow>
          (let seg_size = length (file_of (sg_dir e) (segment_path segid));
               got = transfer_loop (soe_hint_read env segid) (length hfile) 0;
               buf = take got hfile
           in if got \<noteq> length hfile then None
              else case hint_parse_loop seg_size buf 0 [] 0 of
                None \<Rightarrow> None
              | Some (parsed, max_end) \<Rightarrow>
                  if max_end \<noteq> seg_size then None
                  else Some (e\<lparr>sg_keydir := foldl (apply_hint segid) (sg_keydir e) parsed,
                              sg_hint_recoveries := sg_hint_recoveries e + 1\<rparr>)))"

fun recover_sealed :: "sg_open_env \<Rightarrow> nat list \<Rightarrow> segmented_engine \<Rightarrow> sg_error + segmented_engine" where
  "recover_sealed env [] e = Inr e"
| "recover_sealed env (segid # ids) e =
     (if \<not> soe_open_ok env segid \<or> map_of (sg_dir e) (segment_path segid) = None then Inl (CannotOpen segid)
      else
        (let e1 = e\<lparr>sg_segment_fds := List.insert segid (sg_segment_fds e)\<rparr>
         in case recover_segment_via_hint env segid e1 of
              Some e2 \<Rightarrow> recover_sealed env ids e2
            | None \<Rightarrow>
                (case recover_segment_via_full_scan env segid None e1 of
                   Inl err \<Rightarrow> Inl err
                 | Inr (e2, _) \<Rightarrow> recover_sealed env ids e2)))"

definition load_active :: "sg_open_env \<Rightarrow> nat \<Rightarrow> segmented_engine \<Rightarrow> sg_error + segmented_engine" where
  "load_active env aid e =
     (if \<not> soe_open_ok env aid \<or> map_of (sg_dir e) (segment_path aid) = None then Inl (CannotOpen aid)
      else
        (let e1 = e\<lparr>sg_segment_fds := List.insert aid (sg_segment_fds e), sg_active_id := aid, sg_active_hints := []\<rparr>
         in case recover_segment_via_full_scan env aid (Some []) e1 of
              Inl err \<Rightarrow> Inl err
            | Inr (e2, off, ho) \<Rightarrow>
                (let p = segment_path aid
                 in Inr (e2\<lparr>sg_active_offset := off, sg_active_hints := the ho,
                            sg_dir := (if soe_ftruncate_ok env
                                       then AList.update p (ftruncate (file_of (sg_dir e2) p) off) (sg_dir e2)
                                       else sg_dir e2)\<rparr>))))"

definition recover_active :: "sg_open_env \<Rightarrow> nat \<Rightarrow> segmented_engine \<Rightarrow> sg_error + segmented_engine" where
  "recover_active env aid e =
     (case load_active env aid e of
        Inl err \<Rightarrow> Inl err
      | Inr e3 \<Rightarrow>
          if sg_active_offset e3 \<ge> sg_threshold e3
          then case open_new_active_segment (soe_create_ok env) (aid + 1) (seal_active_segment (soe_hint env) e3) of
                 (e4, None) \<Rightarrow> Inr e4
               | (e4, Some err) \<Rightarrow> Inl err
          else Inr e3)"

definition sg_first :: "sg_open_env \<Rightarrow> directory \<Rightarrow> nat list \<Rightarrow> nat" where
  "sg_first env d ids =
     (case find (\<lambda>i. segment_begins_with_base_marker env d (ids ! i)) (rev [0..<length ids - 1]) of
        None \<Rightarrow> 0
      | Some i \<Rightarrow> i)"

definition discover_and_recover :: "sg_open_env \<Rightarrow> segmented_engine \<Rightarrow> sg_error + segmented_engine" where
  "discover_and_recover env e =
     (let d = remove_stale_temp_files env (sg_dir e);
          ids = sort (List.map_filter parse_segment_name (list_dir_names (soe_opendir2_ok env) d))
      in if ids = [] then
           (case open_new_active_segment (soe_create_ok env) 0 (e\<lparr>sg_dir := d\<rparr>) of
              (e1, None) \<Rightarrow> Inr e1
            | (e1, Some err) \<Rightarrow> Inl err)
         else
           (let first = sg_first env d ids;
                d1 = foldl (remove_segment (soe_unlink_ok env)) d (take first ids)
            in case recover_sealed env (butlast (drop first ids)) (e\<lparr>sg_dir := d1\<rparr>) of
                 Inl err \<Rightarrow> Inl err
               | Inr e1 \<Rightarrow> recover_active env (last ids) e1))"

definition sg_open :: "sg_open_env \<Rightarrow> nat \<Rightarrow> nat \<Rightarrow> directory \<Rightarrow> sg_error + segmented_engine" where
  "sg_open env threshold cache_capacity d =
     (if \<not> soe_mkdir_ok env then Inl MkdirFailed
      else discover_and_recover env
        \<lparr>sg_dir = d, sg_threshold = threshold, sg_active_id = 0, sg_active_offset = 0, sg_active_hints = [],
         sg_segment_fds = [], sg_keydir = [], sg_cache = lru_new cache_capacity, sg_hint_recoveries = 0,
         sg_full_scan_recoveries = 0, sg_cache_hits = 0, sg_cache_misses = 0\<rparr>)"

end
