(* ===== verification/Segmented_Invariant.thy ===== *)
theory Segmented_Invariant
  imports Segmented_Engine
begin

text \<open>
  The representation invariant of the segmented engine and its preservation by \<open>put\<close>, \<open>get\<close>,
  \<open>del\<close> and the rolling of segments. The ghost value is the list of live segments, each with
  its id and its records, oldest first; the last one is the active segment.
\<close>

section \<open>The invariant\<close>

type_synonym segments = "(nat \<times> log_rec list) list"

definition segs_placed :: "segments \<Rightarrow> placed_rec list" where
  "segs_placed segs = concat (map (\<lambda>(segid, rs). placed segid 0 rs) segs)"

definition begins_marker :: "log_rec list \<Rightarrow> bool" where
  "begins_marker rs \<longleftrightarrow> rs \<noteq> [] \<and> lr_vlen (hd rs) = COMPACTION_BASE"

definition seg_file :: "directory \<Rightarrow> nat \<Rightarrow> log_rec list \<Rightarrow> bytes \<Rightarrow> bool" where
  "seg_file d segid rs tail \<longleftrightarrow>
     (\<forall>r \<in> set rs. seg_rec r) \<and> map_of d (segment_path segid) = Some (log_bytes rs @ tail)"

text \<open>A hint file describes a prefix of the records of its segment.\<close>

definition hint_ok :: "directory \<Rightarrow> nat \<Rightarrow> log_rec list \<Rightarrow> bool" where
  "hint_ok d segid rs \<longleftrightarrow>
     (\<forall>h. map_of d (hint_path segid) = Some h \<longrightarrow>
       (\<exists>rs0 rs1. rs = rs0 @ rs1 \<and> h = encode_hints (hints_of (placed segid 0 rs0))))"

text \<open>
  A segment file that is not live was superseded by a sealed segment that begins with the marker.
\<close>

definition superseded_id :: "segments \<Rightarrow> nat \<Rightarrow> bool" where
  "superseded_id segs i \<longleftrightarrow> 2 \<le> length segs \<and> begins_marker (snd (hd segs)) \<and> i < fst (hd segs)"

definition dir_log :: "segments \<Rightarrow> directory \<Rightarrow> bool" where
  "dir_log segs d \<longleftrightarrow>
     segs \<noteq> [] \<and> sorted_wrt (<) (map fst segs) \<and> distinct (map fst d) \<and>
     (\<forall>(segid, rs) \<in> set segs. (\<exists>tail. seg_file d segid rs tail) \<and> hint_ok d segid rs) \<and>
     (\<forall>(segid, rs) \<in> set (tl segs). \<not> begins_marker rs) \<and>
     (\<forall>name i. map_of d name \<noteq> None \<longrightarrow> parse_segment_name name = Some i \<longrightarrow> name = segment_path i) \<and>
     (\<forall>i. map_of d (segment_path i) \<noteq> None \<longrightarrow> i \<in> fst ` set segs \<or> superseded_id segs i) \<and>
     (\<forall>i. map_of d (hint_path i) \<noteq> None \<longrightarrow> i \<le> fst (last segs))"

definition sg_log :: "segments \<Rightarrow> segmented_engine \<Rightarrow> bool" where
  "sg_log segs e \<longleftrightarrow>
     dir_log segs (sg_dir e) \<and>
     sg_active_id e = fst (last segs) \<and>
     sg_active_offset e = length (log_bytes (snd (last segs))) \<and>
     set (sg_segment_fds e) = fst ` set segs \<and> distinct (sg_segment_fds e) \<and>
     map_of (sg_keydir e) = index_of (segs_placed segs) \<and> distinct (map fst (sg_keydir e)) \<and>
     (sg_active_hints e = hints_of (placed (fst (last segs)) 0 (snd (last segs))) \<or>
       sg_active_hints e = [] \<and> sg_threshold e \<le> length (log_bytes (snd (last segs)))) \<and>
     lru.coherent (values_of (segs_placed segs)) (sg_cache e)"

definition sg_inv :: "segmented_engine \<Rightarrow> bool" where
  "sg_inv e \<longleftrightarrow> (\<exists>segs. sg_log segs e)"

definition sg_abs :: "segmented_engine \<Rightarrow> (bytes \<rightharpoonup> bytes)" where
  "sg_abs e k =
     map_option (\<lambda>en. take (unat (ke_value_size en)) (drop (ke_value_pos en)
         (file_of (sg_dir e) (segment_path (ke_segment_id en))))) (map_of (sg_keydir e) k)"

lemma segs_placed_simps [simp]:
  "segs_placed [] = []" "segs_placed (segs @ segs') = segs_placed segs @ segs_placed segs'"
  "segs_placed ((segid, rs) # segs) = placed segid 0 rs @ segs_placed segs"
  by (simp_all add: segs_placed_def)

lemma segs_placed_split:
  assumes "(segid, off, r) \<in> set (segs_placed segs)"
  obtains pre post where "(segid, pre @ r # post) \<in> set segs" and "off = length (log_bytes pre)"
proof -
  obtain i rs where s: "(i, rs) \<in> set segs" and p: "(segid, off, r) \<in> set (placed i 0 rs)"
    using assms by (auto simp: segs_placed_def)
  have "i = segid" using placed_id [OF p] by simp
  moreover obtain pre post where "rs = pre @ r # post" "off = length (log_bytes pre)"
    using placed_split [OF p] by auto
  ultimately show thesis using that s by blast
qed

lemma segs_le_last:
  assumes "(segid :: nat, rs) \<in> set segs" and "sorted_wrt (<) (map fst segs)"
  shows "segid \<le> fst (last segs)"
proof (cases segs rule: rev_cases)
  case (snoc ys y)
  have "segid \<in> set (map fst ys) \<or> segid = fst y" using assms(1) snoc by force
  then show ?thesis using assms(2) snoc by (auto simp: sorted_wrt_append intro: less_imp_le)
qed (use assms in simp)

lemma file_of_Some: "map_of d name = Some f \<Longrightarrow> file_of d name = f"
  by (simp add: file_of_def)

lemma dir_log_name:
  "dir_log segs d \<Longrightarrow> map_of d name \<noteq> None \<Longrightarrow> parse_segment_name name = Some i \<Longrightarrow> name = segment_path i"
  unfolding dir_log_def by blast

lemma dir_log_segment_name:
  "dir_log segs d \<Longrightarrow> map_of d (segment_path i) \<noteq> None \<Longrightarrow> i \<in> fst ` set segs \<or> superseded_id segs i"
  unfolding dir_log_def by blast

lemma dir_log_hint_name: "dir_log segs d \<Longrightarrow> map_of d (hint_path i) \<noteq> None \<Longrightarrow> i \<le> fst (last segs)"
  unfolding dir_log_def by blast

lemma dir_log_file:
  assumes "dir_log segs d" and "(segid, rs) \<in> set segs"
  obtains tail where "seg_file d segid rs tail"
  using assms by (auto simp: dir_log_def)

text \<open>The bytes of a placed record are in the file of its segment.\<close>

lemma dir_log_read:
  assumes log: "dir_log segs d" and p: "(segid, off, r) \<in> set (segs_placed segs)"
  shows "seg_rec r" and "take (rec_len r) (drop off (file_of d (segment_path segid))) = rec_bytes r"
    and "is_put (segid, off, r) \<Longrightarrow>
      take (unat (lr_vlen r)) (drop (off + HEADER_SIZE + length (lr_key r)) (file_of d (segment_path segid))) = lr_value r"
    and "segid \<in> fst ` set segs"
proof -
  obtain pre post where s: "(segid, pre @ r # post) \<in> set segs" and o: "off = length (log_bytes pre)"
    by (rule segs_placed_split [OF p])
  obtain tail where f: "seg_file d segid (pre @ r # post) tail" by (rule dir_log_file [OF log s])
  then show r: "seg_rec r" by (simp add: seg_file_def)
  have content: "file_of d (segment_path segid) = log_bytes pre @ rec_bytes r @ log_bytes post @ tail"
    using f by (simp add: seg_file_def file_of_def)
  show "take (rec_len r) (drop off (file_of d (segment_path segid))) = rec_bytes r"
    by (simp add: content o)
  show "segid \<in> fst ` set segs" using s by force
  assume put: "is_put (segid, off, r)"
  then have "value_rec body_value_len r"
    using r by (simp add: value_rec_def seg_rec_def is_put_def body_value_len_def)
  then show "take (unat (lr_vlen r)) (drop (off + HEADER_SIZE + length (lr_key r)) (file_of d (segment_path segid))) = lr_value r"
    using read_value_in_log [of r body_value_len "log_bytes pre" "log_bytes post @ tail"] put
    by (simp add: content o is_put_def)
qed

text \<open>An entry of the index: its segment is open, and reading there gives the value.\<close>

lemma sg_log_entry:
  assumes log: "sg_log segs e" and en: "map_of (sg_keydir e) k = Some en"
  obtains v where "values_of (segs_placed segs) k = Some v" and "length v = unat (ke_value_size en)"
    and "take (unat (ke_value_size en)) (drop (ke_value_pos en) (file_of (sg_dir e) (segment_path (ke_segment_id en)))) = v"
    and "ke_segment_id en \<in> set (sg_segment_fds e)"
proof -
  have d: "dir_log segs (sg_dir e)" using log by (simp add: sg_log_def)
  have "index_of (segs_placed segs) k = Some en" using log en by (simp add: sg_log_def)
  then obtain p where p: "p \<in> set (segs_placed segs)" "is_put p" "en = place_entry p"
    "values_of (segs_placed segs) k = Some (place_value p)"
    by (rule index_of_Some)
  obtain i off r where pr: "p = (i, off, r)" by (metis prod_cases3)
  note read = dir_log_read [OF d p(1) [unfolded pr]]
  show thesis
  proof (rule that [OF p(4)])
    show "length (place_value p) = unat (ke_value_size en)"
      using seg_rec_value_len(3) [OF read(1)] p(2) by (simp add: p(3) pr place_entry_def place_value_def is_put_def)
    show "take (unat (ke_value_size en)) (drop (ke_value_pos en) (file_of (sg_dir e) (segment_path (ke_segment_id en))))
        = place_value p"
      using read(3) p(2) by (simp add: p(3) pr place_entry_def place_value_def)
    show "ke_segment_id en \<in> set (sg_segment_fds e)"
      using read(4) log by (simp add: p(3) pr place_entry_def sg_log_def)
  qed
qed

lemma sg_log_abs:
  assumes "sg_log segs e"
  shows "sg_abs e = values_of (segs_placed segs)"
proof
  fix k
  show "sg_abs e k = values_of (segs_placed segs) k"
  proof (cases "map_of (sg_keydir e) k")
    case None
    then have "values_of (segs_placed segs) k = None"
      using assms by (simp add: sg_log_def flip: index_values_None)
    with None show ?thesis by (simp add: sg_abs_def)
  next
    case (Some en)
    then show ?thesis by (rule sg_log_entry [OF assms]) (simp add: sg_abs_def Some)
  qed
qed

section \<open>get\<close>

lemma sg_get_log:
  assumes log: "sg_log segs e" and run: "sg_get rf e k = (e', r)"
  shows "sg_log segs e'" and "rf = (\<lambda>_. no_faults) \<Longrightarrow> r = values_of (segs_placed segs) k"
    and "r \<noteq> None \<Longrightarrow> r = values_of (segs_placed segs) k"
proof -
  let ?m = "values_of (segs_placed segs)"
  have coh: "lru.coherent ?m (sg_cache e)" using log by (simp add: sg_log_def)
  obtain c x where g: "lru_get (sg_cache e) k = (c, x)" by (metis surj_pair)
  have c: "lru.coherent ?m c" using lru.coherent_get [OF coh, of k] by (simp add: g)
  have "sg_log segs e' \<and> (r = ?m k \<or> r = None \<and> rf \<noteq> (\<lambda>_. no_faults))"
  proof (cases x)
    case (Some v)
    have "?m k = Some v" using lru.coherent_hit [OF coh, of k v] by (simp add: g Some)
    moreover have "e' = e\<lparr>sg_cache := c, sg_cache_hits := sg_cache_hits e + 1\<rparr>" "r = Some v"
      using run by (simp_all add: sg_get_def g Some)
    ultimately show ?thesis using log c by (simp add: sg_log_def)
  next
    case None
    define e1 where "e1 = e\<lparr>sg_cache := c, sg_cache_misses := Suc (sg_cache_misses e)\<rparr>"
    have log1: "sg_log segs e1" using log c by (simp add: e1_def sg_log_def)
    have kd: "sg_keydir e1 = sg_keydir e" by (simp add: e1_def)
    show ?thesis
    proof (cases "map_of (sg_keydir e1) k")
      case none: None
      have "?m k = None" using none log1 by (simp add: sg_log_def flip: index_values_None)
      then show ?thesis
        using run none log1 by (simp add: sg_get_def g None Let_def flip: e1_def)
    next
      case (Some en)
      then obtain v where v: "?m k = Some v" "length v = unat (ke_value_size en)"
        "take (unat (ke_value_size en)) (drop (ke_value_pos en) (file_of (sg_dir e1) (segment_path (ke_segment_id en)))) = v"
        "ke_segment_id en \<in> set (sg_segment_fds e1)"
        by (rule sg_log_entry [OF log1])
      have fill: "sg_log segs (e1\<lparr>sg_cache := lru_put (sg_cache e1) k v\<rparr>)"
        using log1 lru.coherent_fill [where m = ?m and k = k and v = v] v(1) by (simp add: sg_log_def)
      show ?thesis
        using run v fill log1
        by (auto simp: sg_get_def g None Let_def Some pread_def simp flip: e1_def split: if_splits)
    qed
  qed
  then show "sg_log segs e'" "rf = (\<lambda>_. no_faults) \<Longrightarrow> r = ?m k" "r \<noteq> None \<Longrightarrow> r = ?m k" by auto
qed

section \<open>Changes of the directory\<close>

text \<open>Writes to names that are neither segments nor hints, and removals of such names.\<close>

definition aux_name :: "string \<Rightarrow> bool" where
  "aux_name name \<longleftrightarrow> parse_segment_name name = None \<and> (\<forall>i. name \<noteq> segment_path i \<and> name \<noteq> hint_path i)"

lemma aux_name_tmp [simp]: "aux_name (segment_path i @ ''.compact.tmp'')" "aux_name (hint_path i @ ''.tmp'')"
  by (simp_all add: aux_name_def)

lemma map_of_unlink: "map_of (unlink ok name d) = (if ok then (map_of d)(name := None) else map_of d)"
  by (simp add: unlink_def delete_conv')

lemma map_of_rename:
  "map_of d old = Some f \<Longrightarrow> map_of (rename old new d) = (map_of d)(old := None, new \<mapsto> f)"
  by (simp add: rename_def update_conv' delete_conv')

lemma distinct_directory:
  "distinct (map fst d) \<Longrightarrow> distinct (map fst (AList.update name f d))"
  "distinct (map fst d) \<Longrightarrow> distinct (map fst (unlink ok name d))"
  "distinct (map fst d) \<Longrightarrow> distinct (map fst (rename name name' d))"
  by (simp_all add: distinct_update distinct_delete unlink_def rename_def split: option.split)

lemma dir_log_cong:
  assumes "dir_log segs d" and "distinct (map fst d')"
    and "\<And>name. \<not> aux_name name \<Longrightarrow> map_of d' name = map_of d name"
  shows "dir_log segs d'"
proof -
  have eq: "map_of d' (segment_path i) = map_of d (segment_path i)" "map_of d' (hint_path i) = map_of d (hint_path i)" for i
    using assms(3) by (auto simp: aux_name_def)
  have names: "map_of d' name \<noteq> None \<longrightarrow> parse_segment_name name = Some i \<longrightarrow> name = segment_path i" for name i
  proof (intro impI)
    assume "map_of d' name \<noteq> None" and n: "parse_segment_name name = Some i"
    then have "map_of d name \<noteq> None" using assms(3) [of name] by (simp add: aux_name_def)
    with n show "name = segment_path i" using assms(1) by (simp add: dir_log_def)
  qed
  show ?thesis
    using assms(1,2) names unfolding dir_log_def seg_file_def hint_ok_def eq by blast
qed

section \<open>Appending to the active segment\<close>

lemma superseded_last: "superseded_id (init @ [(a, rs)]) i \<longleftrightarrow> superseded_id (init @ [(a, rs')]) i"
  by (cases init) (simp_all add: superseded_id_def)

lemma begins_marker_append:
  "\<forall>r \<in> set rs'. lr_vlen r \<noteq> COMPACTION_BASE \<Longrightarrow> begins_marker (rs @ rs') \<Longrightarrow> begins_marker rs"
  by (cases rs) (auto simp: begins_marker_def)

lemma hint_ok_append: "hint_ok d segid rs \<Longrightarrow> hint_ok d segid (rs @ rs')"
  unfolding hint_ok_def by (metis append.assoc)

lemma dir_log_append:
  assumes log: "dir_log (init @ [(a, rs)]) d"
    and new: "\<forall>r \<in> set rs'. seg_rec r \<and> lr_vlen r \<noteq> COMPACTION_BASE"
  shows "dir_log (init @ [(a, rs @ rs')]) (AList.update (segment_path a) (log_bytes (rs @ rs') @ t) d)"
    (is "dir_log ?segs _")
proof -
  define d' where "d' = AList.update (segment_path a) (log_bytes (rs @ rs') @ t) d"
  have m: "map_of d' = (map_of d)(segment_path a \<mapsto> log_bytes (rs @ rs') @ t)" by (simp add: d'_def update_conv')
  have dist: "distinct (map fst d')" using log by (simp add: d'_def dir_log_def distinct_update)
  have notin: "a \<notin> fst ` set init" using log by (fastforce simp: dir_log_def sorted_wrt_append)
  have old: "(\<exists>tail. seg_file d segid rs0 tail) \<and> hint_ok d segid rs0" if "(segid, rs0) \<in> set init \<or> (segid, rs0) = (a, rs)" for segid rs0
    using log that by (auto simp: dir_log_def)
  have "seg_file d' a (rs @ rs') t"
    using old [of a rs] new by (auto simp: seg_file_def m)
  moreover have "(\<exists>tail. seg_file d' segid rs0 tail) \<longleftrightarrow> (\<exists>tail. seg_file d segid rs0 tail)" if "segid \<noteq> a" for segid rs0
    using that by (simp add: seg_file_def m)
  moreover have "hint_ok d' segid rs0 \<longleftrightarrow> hint_ok d segid rs0" for segid rs0 by (simp add: hint_ok_def m)
  moreover have "segid \<noteq> a" if "(segid, rs0) \<in> set init" for segid rs0 using notin that by force
  ultimately have files: "\<forall>(segid, rs) \<in> set ?segs. (\<exists>tail. seg_file d' segid rs tail) \<and> hint_ok d' segid rs"
    using old by (auto intro: hint_ok_append)
  have mark: "\<forall>(segid, rs) \<in> set (tl ?segs). \<not> begins_marker rs"
    using log new begins_marker_append [of rs' rs] by (cases init) (auto simp: dir_log_def)
  have dom: "map_of d' name \<noteq> None \<longleftrightarrow> map_of d name \<noteq> None" for name
    using old [of a rs] by (auto simp: m seg_file_def)
  show ?thesis
    unfolding d'_def [symmetric] dir_log_def dom
  proof (intro conjI)
    show "\<forall>i. map_of d (segment_path i) \<noteq> None \<longrightarrow> i \<in> fst ` set ?segs \<or> superseded_id ?segs i"
      using log superseded_last [of init a rs _ "rs @ rs'"] by (simp add: dir_log_def)
  qed (use log files mark dist in \<open>simp_all add: dir_log_def\<close>)
qed

lemma write_record_cases:
  assumes "record_buffer key value v ts = rec_bytes r" and "lr_key r = key" and "length key < 2 ^ 32"
    and "write_record oc f off key value v ts = (f', w)"
  shows "(w = WriteFailed \<and> (f' = f \<or> (\<exists>n. f' = write_at f off (take n (rec_bytes r)))))
    \<or> (w = Written (off + HEADER_SIZE + length key) (rec_len r) \<and> f' = write_at f off (rec_bytes r))"
  using assms(4) by (auto simp: write_record_bytes [OF assms(1-3)] split: option.splits if_splits)

lemma write_at_log: "write_at (log_bytes rs @ t) (length (log_bytes rs)) bs = log_bytes rs @ bs @ drop (length bs) t"
  by (rule write_at_append)

text \<open>The two outcomes of a write at the write offset.\<close>

lemma sg_write_failed:
  assumes log: "sg_log segs e" and f: "f = file_of (sg_dir e) (segment_path (sg_active_id e)) \<or>
      (\<exists>bs. f = write_at (file_of (sg_dir e) (segment_path (sg_active_id e))) (sg_active_offset e) bs)"
  shows "sg_log segs (e\<lparr>sg_dir := AList.update (segment_path (sg_active_id e)) f (sg_dir e)\<rparr>)"
proof -
  have d: "dir_log segs (sg_dir e)" and ne: "segs \<noteq> []" using log by (auto simp: sg_log_def dir_log_def)
  obtain init a rs where segs: "segs = init @ [(a, rs)]" using ne by (metis append_butlast_last_id surj_pair)
  have a: "sg_active_id e = a" "sg_active_offset e = length (log_bytes rs)" using log by (simp_all add: sg_log_def segs)
  obtain t where t: "seg_file (sg_dir e) a rs t" by (rule dir_log_file [OF d, of a rs]) (simp_all add: segs)
  then have "file_of (sg_dir e) (segment_path a) = log_bytes rs @ t" by (simp add: seg_file_def file_of_def)
  then obtain t' where "f = log_bytes rs @ t'" using f by (auto simp: a write_at_log)
  then have "dir_log segs (AList.update (segment_path a) f (sg_dir e))"
    using dir_log_append [of init a rs "sg_dir e" "[]" t'] d by (simp add: segs)
  then show ?thesis using log by (simp add: sg_log_def a(1))
qed

definition extend_last :: "segments \<Rightarrow> log_rec \<Rightarrow> segments" where
  "extend_last segs r = butlast segs @ [(fst (last segs), snd (last segs) @ [r])]"

lemma sg_write_done:
  assumes log: "sg_log segs e" and r: "seg_rec r" "lr_vlen r \<noteq> COMPACTION_BASE"
    and roll: "sg_active_offset e < sg_threshold e \<or> sg_active_offset e = 0"
    and kd: "map_of kd = place_step (map_of (sg_keydir e)) (sg_active_id e, sg_active_offset e, r)" "distinct (map fst kd)"
    and c: "lru.coherent (value_step (values_of (segs_placed segs)) (sg_active_id e, sg_active_offset e, r)) c"
    and e': "e' = e\<lparr>sg_dir := AList.update (segment_path (sg_active_id e))
           (write_at (file_of (sg_dir e) (segment_path (sg_active_id e))) (sg_active_offset e) (rec_bytes r)) (sg_dir e),
         sg_active_offset := sg_active_offset e + rec_len r, sg_keydir := kd,
         sg_active_hints := sg_active_hints e @ [place_hint (sg_active_id e, sg_active_offset e, r)],
         sg_cache := c\<rparr>"
  shows "sg_log (extend_last segs r) e'"
    and "values_of (segs_placed (extend_last segs r)) =
      value_step (values_of (segs_placed segs)) (sg_active_id e, sg_active_offset e, r)"
proof -
  have d: "dir_log segs (sg_dir e)" and ne: "segs \<noteq> []" using log by (auto simp: sg_log_def dir_log_def)
  obtain init a rs where segs: "segs = init @ [(a, rs)]" using ne by (metis append_butlast_last_id surj_pair)
  have a: "sg_active_id e = a" "sg_active_offset e = length (log_bytes rs)" using log by (simp_all add: sg_log_def segs)
  have ext: "extend_last segs r = init @ [(a, rs @ [r])]" by (simp add: extend_last_def segs)
  have pl: "segs_placed (extend_last segs r) = segs_placed segs @ [(a, length (log_bytes rs), r)]"
    unfolding ext by (simp add: segs placed_append)
  have iv: "index_of (segs_placed (extend_last segs r)) = place_step (index_of (segs_placed segs)) (a, length (log_bytes rs), r)"
    "values_of (segs_placed (extend_last segs r)) = value_step (values_of (segs_placed segs)) (a, length (log_bytes rs), r)"
    by (simp_all add: pl)
  obtain t where t: "seg_file (sg_dir e) a rs t" by (rule dir_log_file [OF d, of a rs]) (simp_all add: segs)
  then have "file_of (sg_dir e) (segment_path a) = log_bytes rs @ t" by (simp add: seg_file_def file_of_def)
  then have "write_at (file_of (sg_dir e) (segment_path a)) (length (log_bytes rs)) (rec_bytes r)
      = log_bytes (rs @ [r]) @ drop (rec_len r) t" by (simp add: write_at_log)
  then have d': "dir_log (extend_last segs r) (sg_dir e')"
    using dir_log_append [of init a rs "sg_dir e" "[r]" "drop (rec_len r) t"] d r
    unfolding ext by (simp add: e' a segs)
  have hints: "sg_active_hints e = hints_of (placed a 0 rs)"
    using log roll by (auto simp: sg_log_def segs)
  show "sg_log (extend_last segs r) e'"
    using log d' kd c hints r unfolding sg_log_def iv unfolding ext
    by (simp add: a e' segs placed_append)
  show "values_of (segs_placed (extend_last segs r)) =
      value_step (values_of (segs_placed segs)) (sg_active_id e, sg_active_offset e, r)"
    by (simp add: pl a)
qed

section \<open>Sealing and rolling\<close>

lemma dir_log_hint:
  assumes log: "dir_log segs d" and s: "(segid, rs0 @ rs1) \<in> set segs"
  shows "dir_log segs (AList.update (hint_path segid) (encode_hints (hints_of (placed segid 0 rs0))) d)"
proof -
  define d' where "d' = AList.update (hint_path segid) (encode_hints (hints_of (placed segid 0 rs0))) d"
  have m: "map_of d' = (map_of d)(hint_path segid \<mapsto> encode_hints (hints_of (placed segid 0 rs0)))"
    by (simp add: d'_def update_conv')
  have sorted: "sorted_wrt (<) (map fst segs)" and ne: "segs \<noteq> []" using log by (simp_all add: dir_log_def)
  have uniq: "rs = rs0 @ rs1" if "(segid, rs) \<in> set segs" for rs
    using that s sorted by (metis eq_key_imp_eq_value strict_sorted_iff)
  have le: "segid \<le> fst (last segs)" using s sorted by (rule segs_le_last)
  have hint: "hint_ok d' i rs" if "(i, rs) \<in> set segs" for i rs
  proof (cases "i = segid")
    case True
    then show ?thesis using uniq that by (auto simp: hint_ok_def m)
  next
    case False
    have "hint_ok d i rs" using log that by (auto simp: dir_log_def)
    with False show ?thesis by (simp add: hint_ok_def m)
  qed
  have names: "\<forall>name i. map_of d' name \<noteq> None \<longrightarrow> parse_segment_name name = Some i \<longrightarrow> name = segment_path i"
  proof (intro allI impI)
    fix name i
    assume "map_of d' name \<noteq> None" and n: "parse_segment_name name = Some i"
    then have "map_of d name \<noteq> None" by (auto simp: m split: if_splits)
    with n show "name = segment_path i" using log by (simp add: dir_log_def)
  qed
  have "dir_log segs d'"
    unfolding dir_log_def
  proof (intro conjI)
    show "\<forall>(segid, rs) \<in> set segs. (\<exists>tail. seg_file d' segid rs tail) \<and> hint_ok d' segid rs"
      using log hint by (auto simp: dir_log_def seg_file_def m)
    show "\<forall>i. map_of d' (hint_path i) \<noteq> None \<longrightarrow> i \<le> fst (last segs)"
      using log le by (auto simp: dir_log_def m)
    show "\<forall>i. map_of d' (segment_path i) \<noteq> None \<longrightarrow> i \<in> fst ` set segs \<or> superseded_id segs i"
      using log by (simp add: dir_log_def m)
  qed (use log names in \<open>simp_all add: dir_log_def d'_def distinct_update\<close>)
  then show ?thesis by (simp add: d'_def)
qed

lemma write_hint_file_log:
  assumes log: "dir_log segs d" and s: "(segid, rs0 @ rs1) \<in> set segs"
  shows "dir_log segs (fst (write_hint_file env segid (hints_of (placed segid 0 rs0)) d))"
proof -
  let ?hints = "hints_of (placed segid 0 rs0)"
  let ?tmp = "hint_path segid @ ''.tmp''"
  let ?buf = "encode_hints ?hints"
  have dist: "distinct (map fst d)" using log by (simp add: dir_log_def)
  note dd = distinct_directory
  have aux: "dir_log segs (unlink b ?tmp (AList.update ?tmp bs d))" for b bs
    by (rule dir_log_cong [OF log]) (auto simp: dist dd map_of_unlink update_conv' aux_name_tmp)
  have "dir_log segs (rename ?tmp (hint_path segid) (AList.update ?tmp ?buf d))"
    by (rule dir_log_cong [OF dir_log_hint [OF log s]])
      (auto simp: dist dd map_of_rename [where f = ?buf] update_conv' aux_name_tmp)
  then show ?thesis
    using log aux by (simp add: write_hint_file_def Let_def)
qed

lemma parse_segment_path_id: "parse_segment_name (segment_path n) = Some i \<Longrightarrow> i = n"
  by (auto simp: parse_segment_name_def segment_path_def Let_def split: if_splits)

lemma dir_log_new_segment:
  assumes log: "dir_log segs d"
  defines "b \<equiv> fst (last segs) + 1"
  shows "map_of d (segment_path b) = None"
    and "dir_log (segs @ [(b, [])]) (AList.update (segment_path b) [] d)"
proof -
  have sorted: "sorted_wrt (<) (map fst segs)" and ne: "segs \<noteq> []" using log by (simp_all add: dir_log_def)
  have lt: "i < b" if "i \<in> fst ` set segs" for i
    using segs_le_last [OF _ sorted] that by (fastforce simp: b_def)
  have hd: "fst (hd segs) < b" by (rule lt) (simp add: ne)
  show none: "map_of d (segment_path b) = None"
  proof (rule ccontr)
    assume "map_of d (segment_path b) \<noteq> None"
    then have "b \<in> fst ` set segs \<or> superseded_id segs b" using log by (simp add: dir_log_def)
    then show False using lt hd by (auto simp: superseded_id_def)
  qed
  define d' where "d' = AList.update (segment_path b) [] d"
  have m: "map_of d' = (map_of d)(segment_path b \<mapsto> [])" by (simp add: d'_def update_conv')
  have "map_of d (hint_path b) = None"
  proof (rule ccontr)
    assume "map_of d (hint_path b) \<noteq> None"
    then have "b \<le> fst (last segs)" using log unfolding dir_log_def by blast
    then show False by (simp add: b_def)
  qed
  then have new: "hint_ok d' b []" "seg_file d' b [] []" by (simp_all add: hint_ok_def seg_file_def m)
  have old: "(\<exists>tail. seg_file d' i rs tail) \<and> hint_ok d' i rs" if "(i, rs) \<in> set segs" for i rs
  proof -
    have "i \<noteq> b" using lt that by force
    moreover have "(\<exists>tail. seg_file d i rs tail) \<and> hint_ok d i rs" using log that by (auto simp: dir_log_def)
    ultimately show ?thesis by (simp add: seg_file_def hint_ok_def m)
  qed
  have names: "\<forall>name i. map_of d' name \<noteq> None \<longrightarrow> parse_segment_name name = Some i \<longrightarrow> name = segment_path i"
  proof (intro allI impI)
    fix name i
    assume "map_of d' name \<noteq> None" and n: "parse_segment_name name = Some i"
    then have "name = segment_path b \<or> map_of d name \<noteq> None" by (auto simp: m split: if_splits)
    with n show "name = segment_path i" using dir_log_name [OF log] parse_segment_path_id by blast
  qed
  have super: "superseded_id segs i \<Longrightarrow> superseded_id (segs @ [(b, [])]) i" for i
    using ne by (simp add: superseded_id_def)
  have "dir_log (segs @ [(b, [])]) d'"
    unfolding dir_log_def
  proof (intro conjI)
    show "sorted_wrt (<) (map fst (segs @ [(b, [])]))" using sorted lt by (auto simp: sorted_wrt_append)
    show "\<forall>(i, rs) \<in> set (segs @ [(b, [])]). (\<exists>tail. seg_file d' i rs tail) \<and> hint_ok d' i rs"
      using old new by auto
    show "\<forall>(i, rs) \<in> set (tl (segs @ [(b, [])])). \<not> begins_marker rs"
      using log ne by (auto simp: dir_log_def begins_marker_def)
    show "\<forall>i. map_of d' (segment_path i) \<noteq> None \<longrightarrow>
        i \<in> fst ` set (segs @ [(b, [])]) \<or> superseded_id (segs @ [(b, [])]) i"
    proof (intro allI impI)
      fix i
      assume "map_of d' (segment_path i) \<noteq> None"
      then have "i = b \<or> map_of d (segment_path i) \<noteq> None" by (auto simp: m)
      then show "i \<in> fst ` set (segs @ [(b, [])]) \<or> superseded_id (segs @ [(b, [])]) i"
        using dir_log_segment_name [OF log, of i] super by auto
    qed
    show "\<forall>i. map_of d' (hint_path i) \<noteq> None \<longrightarrow> i \<le> fst (last (segs @ [(b, [])]))"
      using dir_log_hint_name [OF log] by (auto simp: m b_def intro: le_SucI)
    show "distinct (map fst d')" using log by (simp add: dir_log_def d'_def distinct_update)
    show "\<forall>name i. map_of d' name \<noteq> None \<longrightarrow> parse_segment_name name = Some i \<longrightarrow> name = segment_path i"
      by (rule names)
  qed simp
  then show "dir_log (segs @ [(b, [])]) (AList.update (segment_path b) [] d)" by (simp add: d'_def)
qed

lemma sg_seal_log:
  assumes log: "sg_log segs e" and full: "sg_threshold e \<le> sg_active_offset e"
  shows "sg_log segs (seal_active_segment env e)"
proof -
  have d: "dir_log segs (sg_dir e)" and ne: "segs \<noteq> []" using log by (auto simp: sg_log_def dir_log_def)
  obtain a rs where last: "last segs = (a, rs)" by (metis surj_pair)
  have mem: "(a, rs) \<in> set segs" using ne last by (metis last_in_set)
  have act: "sg_active_id e = a" "sg_active_offset e = length (log_bytes rs)" using log by (simp_all add: sg_log_def last)
  obtain rs0 rs1 where "rs = rs0 @ rs1" "sg_active_hints e = hints_of (placed a 0 rs0)"
    using log by (force simp: sg_log_def last)
  then have "dir_log segs (fst (write_hint_file env a (sg_active_hints e) (sg_dir e)))"
    using write_hint_file_log [OF d, of a rs0 rs1] mem by simp
  then show ?thesis using log full by (simp add: seal_active_segment_def sg_log_def act last)
qed

lemma sg_open_new_log:
  assumes log: "sg_log segs e" and run: "open_new_active_segment ok (sg_active_id e + 1) e = (e', None)"
  shows "sg_log (segs @ [(sg_active_id e + 1, [])]) e'" and "sg_active_offset e' = 0"
proof -
  have d: "dir_log segs (sg_dir e)" and a: "sg_active_id e = fst (last segs)" using log by (simp_all add: sg_log_def)
  note new = dir_log_new_segment [OF d]
  have e': "e' = e\<lparr>sg_dir := AList.update (segment_path (sg_active_id e + 1)) [] (sg_dir e),
      sg_segment_fds := List.insert (sg_active_id e + 1) (sg_segment_fds e),
      sg_active_id := sg_active_id e + 1, sg_active_offset := 0, sg_active_hints := []\<rparr>"
    using run new(1) by (simp add: open_new_active_segment_def a Let_def split: if_splits)
  show "sg_log (segs @ [(sg_active_id e + 1, [])]) e'"
    using log new(2) by (simp add: sg_log_def e' a)
  show "sg_active_offset e' = 0" by (simp add: e')
qed

text \<open>Rolling keeps the contents; on success the active segment can take a record.\<close>

lemma sg_roll_log:
  assumes log: "sg_log segs e" and run: "maybe_roll_segment env e = (e', err)"
  obtains segs' where "sg_log segs' e'" and "segs_placed segs' = segs_placed segs"
    and "err = None \<longrightarrow> sg_active_offset e' < sg_threshold e' \<or> sg_active_offset e' = 0"
proof (cases "sg_threshold e \<le> sg_active_offset e")
  case False
  then show thesis using that [of segs] log run by (simp add: maybe_roll_segment_def)
next
  case True
  let ?s = "seal_active_segment (pe_hint env) e"
  have seal: "sg_log segs ?s" by (rule sg_seal_log [OF log True])
  have id: "sg_active_id ?s = sg_active_id e" by (simp add: seal_active_segment_def)
  have roll: "open_new_active_segment (pe_open_ok env) (sg_active_id ?s + 1) ?s = (e', err)"
    using run True by (simp add: maybe_roll_segment_def id)
  show thesis
  proof (cases err)
    case None
    then show thesis
      using that [of "segs @ [(sg_active_id ?s + 1, [])]"] sg_open_new_log [OF seal] roll by simp
  next
    case (Some x)
    then have "e' = ?s" using roll by (auto simp: open_new_active_segment_def Let_def split: if_splits)
    then show thesis using that [of segs] seal Some by simp
  qed
qed

section \<open>put and del\<close>

lemma seg_rec_put: "put_allowed key value \<Longrightarrow> seg_rec (put_rec now key value)"
  "put_allowed key value \<Longrightarrow> lr_vlen (put_rec now key value) \<noteq> COMPACTION_BASE"
  using put_rec_ok_body [of key "value" now] put_vlen [of key "value"] by (simp_all add: seg_rec_def)

lemma seg_rec_del: "length key < 2 ^ 32 \<Longrightarrow> seg_rec (del_rec now key)" "lr_vlen (del_rec now key) \<noteq> COMPACTION_BASE"
  by (simp_all add: seg_rec_def rec_ok_def body_value_len_def) (simp_all add: TOMBSTONE_def COMPACTION_BASE_def)

lemma value_step_put: "put_allowed key value \<Longrightarrow> value_step m (i, off, put_rec now key value) = m(key \<mapsto> value)"
  using put_vlen [of key "value"] by (simp add: value_step_def)

lemma value_step_del: "value_step m (i, off, del_rec now key) = m(key := None)"
  by (simp add: value_step_def TOMBSTONE_def COMPACTION_BASE_def)

lemma sg_put_log:
  assumes log: "sg_log segs e" and run: "sg_put env e key value = (e', r)"
  obtains segs' where "sg_log segs' e'" and "r \<noteq> Inr True \<longrightarrow> segs_placed segs' = segs_placed segs"
    and "r = Inr True \<longrightarrow> put_allowed key value \<and>
      values_of (segs_placed segs') = (values_of (segs_placed segs))(key \<mapsto> value)"
proof (cases "put_allowed key value")
  case False
  then have "e' = e \<and> r = Inr False"
    using run by (auto simp: sg_put_def put_allowed_def COMPACTION_BASE_def)
  then show thesis using that [of segs] log by simp
next
  case True
  then have len: "length key < 2 ^ 32" by (simp add: put_allowed_def)
  obtain e1 err where roll: "maybe_roll_segment env e = (e1, err)" by (metis surj_pair)
  obtain segs1 where log1: "sg_log segs1 e1" and pl: "segs_placed segs1 = segs_placed segs"
    and room: "err = None \<longrightarrow> sg_active_offset e1 < sg_threshold e1 \<or> sg_active_offset e1 = 0"
    by (rule sg_roll_log [OF log roll])
  have allowed: "\<not> (length key > 0xFFFFFFFF \<or> length value \<ge> unat COMPACTION_BASE)"
    using True by (simp add: put_allowed_def COMPACTION_BASE_def)
  show thesis
  proof (cases err)
    case (Some x)
    then have "e' = e1 \<and> r = Inl x" using run allowed by (simp add: sg_put_def roll)
    then show thesis using that [of segs1] log1 pl by simp
  next
    case None
    let ?p = "segment_path (sg_active_id e1)"
    let ?f = "file_of (sg_dir e1) ?p"
    let ?r = "put_rec (pe_now env) key value"
    obtain f' w where w: "write_record (pe_write env) ?f (sg_active_offset e1) key value (of_nat (length value)) (pe_now env) = (f', w)"
      by (metis surj_pair)
    note cs = write_record_cases [OF put_record_buffer [OF True] put_rec_simps(1) len w]
    show thesis
    proof (cases w)
      case WriteFailed
      then have "sg_log segs1 (e1\<lparr>sg_dir := AList.update ?p f' (sg_dir e1)\<rparr>)"
        using cs by (intro sg_write_failed [OF log1]) auto
      moreover have "e' = e1\<lparr>sg_dir := AList.update ?p f' (sg_dir e1)\<rparr> \<and> r = Inr False"
        using run allowed by (simp add: sg_put_def roll None Let_def w WriteFailed)
      ultimately show thesis using that [of segs1] pl by simp
    next
      case (Written vp rl)
      with cs have wr: "vp = sg_active_offset e1 + HEADER_SIZE + length key" "rl = rec_len ?r"
        "f' = write_at ?f (sg_active_offset e1) (rec_bytes ?r)" by simp_all
      let ?kd = "AList.update key \<lparr>ke_segment_id = sg_active_id e1, ke_value_pos = vp,
                     ke_value_size = of_nat (length value), ke_timestamp = pe_now env\<rparr> (sg_keydir e1)"
      let ?c = "lru_put (sg_cache e1) key value"
      have e': "r = Inr True" "e' = e1\<lparr>sg_dir := AList.update ?p (write_at ?f (sg_active_offset e1) (rec_bytes ?r)) (sg_dir e1),
           sg_active_offset := sg_active_offset e1 + rec_len ?r, sg_keydir := ?kd,
           sg_active_hints := sg_active_hints e1 @ [place_hint (sg_active_id e1, sg_active_offset e1, ?r)],
           sg_cache := ?c\<rparr>"
        using run allowed w Written wr by (simp_all add: sg_put_def roll None Let_def place_hint_def)
      have kd: "map_of ?kd = place_step (map_of (sg_keydir e1)) (sg_active_id e1, sg_active_offset e1, ?r)"
        using put_vlen [OF True] by (simp add: update_conv' place_step_def Let_def place_entry_def wr(1))
      have dk: "distinct (map fst ?kd)" using log1 by (simp add: sg_log_def distinct_update)
      have c: "lru.coherent (value_step (values_of (segs_placed segs1)) (sg_active_id e1, sg_active_offset e1, ?r)) ?c"
        using log1 unfolding sg_log_def value_step_put [OF True] by (blast intro: lru.coherent_put)
      note wd = sg_write_done [OF log1 seg_rec_put [OF True] mp [OF room None] kd dk c e'(2)]
      show thesis
        by (rule that [OF wd(1)]) (use e'(1) True wd(2) pl in \<open>simp_all add: value_step_put\<close>)
    qed
  qed
qed

lemma sg_log_key_length:
  assumes log: "sg_log segs e" and k: "map_of (sg_keydir e) key \<noteq> None"
  shows "length key < 2 ^ 32"
proof -
  obtain en where "index_of (segs_placed segs) key = Some en" using log k by (auto simp: sg_log_def)
  then obtain p where p: "p \<in> set (segs_placed segs)" "place_key p = key" by (rule index_of_Some)
  obtain i off r where pr: "p = (i, off, r)" by (metis prod_cases3)
  have "seg_rec r" using dir_log_read(1) [of segs "sg_dir e" i off r] log p(1) by (simp add: sg_log_def pr)
  then show ?thesis using p(2) by (auto simp: pr place_key_def seg_rec_def rec_ok_def)
qed

lemma sg_del_log:
  assumes log: "sg_log segs e" and run: "sg_del env e key = (e', r)"
  obtains segs' where "sg_log segs' e'" and "r \<noteq> Inr True \<longrightarrow> segs_placed segs' = segs_placed segs"
    and "r = Inr True \<longrightarrow> values_of (segs_placed segs) key \<noteq> None \<and>
      values_of (segs_placed segs') = (values_of (segs_placed segs))(key := None)"
proof (cases "map_of (sg_keydir e) key = None")
  case True
  then have "e' = e \<and> r = Inr False" using run by (simp add: sg_del_def)
  then show thesis using that [of segs] log by simp
next
  case False
  have len: "length key < 2 ^ 32" by (rule sg_log_key_length [OF log False])
  have there: "values_of (segs_placed segs) key \<noteq> None"
    using False log by (metis index_values_None sg_log_def)
  obtain e1 err where roll: "maybe_roll_segment env e = (e1, err)" by (metis surj_pair)
  obtain segs1 where log1: "sg_log segs1 e1" and pl: "segs_placed segs1 = segs_placed segs"
    and room: "err = None \<longrightarrow> sg_active_offset e1 < sg_threshold e1 \<or> sg_active_offset e1 = 0"
    by (rule sg_roll_log [OF log roll])
  show thesis
  proof (cases err)
    case (Some x)
    then have "e' = e1 \<and> r = Inl x" using run False by (simp add: sg_del_def roll)
    then show thesis using that [of segs1] log1 pl by simp
  next
    case None
    let ?p = "segment_path (sg_active_id e1)"
    let ?f = "file_of (sg_dir e1) ?p"
    let ?r = "del_rec (pe_now env) key"
    obtain f' w where w: "write_record (pe_write env) ?f (sg_active_offset e1) key [] TOMBSTONE (pe_now env) = (f', w)"
      by (metis surj_pair)
    have buf: "record_buffer key [] TOMBSTONE (pe_now env) = rec_bytes ?r"
      using record_buffer_tombstone [OF len] by (simp add: del_rec_def)
    note cs = write_record_cases [OF buf del_rec_simps(1) len w]
    show thesis
    proof (cases w)
      case WriteFailed
      then have "sg_log segs1 (e1\<lparr>sg_dir := AList.update ?p f' (sg_dir e1)\<rparr>)"
        using cs by (intro sg_write_failed [OF log1]) auto
      moreover have "e' = e1\<lparr>sg_dir := AList.update ?p f' (sg_dir e1)\<rparr> \<and> r = Inr False"
        using run False by (simp add: sg_del_def roll None Let_def w WriteFailed)
      ultimately show thesis using that [of segs1] pl by simp
    next
      case (Written vp rl)
      with cs have wr: "vp = sg_active_offset e1 + HEADER_SIZE + length key" "rl = rec_len ?r"
        "f' = write_at ?f (sg_active_offset e1) (rec_bytes ?r)" by simp_all
      let ?kd = "AList.delete key (sg_keydir e1)"
      let ?c = "lru_erase (sg_cache e1) key"
      have e': "r = Inr True" "e' = e1\<lparr>sg_dir := AList.update ?p (write_at ?f (sg_active_offset e1) (rec_bytes ?r)) (sg_dir e1),
           sg_active_offset := sg_active_offset e1 + rec_len ?r, sg_keydir := ?kd,
           sg_active_hints := sg_active_hints e1 @ [place_hint (sg_active_id e1, sg_active_offset e1, ?r)],
           sg_cache := ?c\<rparr>"
        using run False w Written wr by (simp_all add: sg_del_def roll None Let_def place_hint_def)
      have kd: "map_of ?kd = place_step (map_of (sg_keydir e1)) (sg_active_id e1, sg_active_offset e1, ?r)"
        using seg_rec_del(2) [of "pe_now env" key] by (simp add: delete_conv' place_step_def Let_def)
      have dk: "distinct (map fst ?kd)" using log1 by (simp add: sg_log_def distinct_delete)
      have c: "lru.coherent (value_step (values_of (segs_placed segs1)) (sg_active_id e1, sg_active_offset e1, ?r)) ?c"
        using log1 unfolding sg_log_def value_step_del by (blast intro: lru.coherent_erase)
      note wd = sg_write_done [OF log1 seg_rec_del(1) [OF len] seg_rec_del(2) mp [OF room None] kd dk c e'(2)]
      show thesis
        by (rule that [OF wd(1)]) (use e'(1) there wd(2) pl in \<open>simp_all add: value_step_del\<close>)
    qed
  qed
qed

section \<open>The engine as a store\<close>

text \<open>An exception that leaves the call counts as a refusal.\<close>

definition sg_acked :: "segmented_engine \<times> (sg_error + bool) \<Rightarrow> segmented_engine \<times> bool" where
  "sg_acked x = (fst x, snd x = Inr True)"

lemma sg_acked_eq: "sg_acked x = (e', b) \<longleftrightarrow> (\<exists>r. x = (e', r) \<and> b = (r = Inr True))"
  by (cases x) (auto simp: sg_acked_def)

lemma sg_abs_placed:
  "sg_log segs e \<Longrightarrow> sg_log segs' e' \<Longrightarrow> segs_placed segs' = segs_placed segs \<Longrightarrow> sg_inv e' \<and> sg_abs e' = sg_abs e"
  by (auto simp: sg_inv_def sg_log_abs)

lemma sg_put_laws:
  assumes "sg_inv e" and "sg_put env e key value = (e', r)"
  shows "sg_inv e'" and "sg_abs e' = (if r = Inr True then (sg_abs e)(key \<mapsto> value) else sg_abs e)"
proof -
  obtain segs where log: "sg_log segs e" using assms(1) by (auto simp: sg_inv_def)
  obtain segs' where log': "sg_log segs' e'" and "r \<noteq> Inr True \<longrightarrow> segs_placed segs' = segs_placed segs"
    "r = Inr True \<longrightarrow> put_allowed key value \<and>
      values_of (segs_placed segs') = (values_of (segs_placed segs))(key \<mapsto> value)"
    by (rule sg_put_log [OF log assms(2)])
  then show "sg_inv e'" "sg_abs e' = (if r = Inr True then (sg_abs e)(key \<mapsto> value) else sg_abs e)"
    by (auto simp: sg_inv_def sg_log_abs [OF log] sg_log_abs [OF log'])
qed

lemma sg_del_laws:
  assumes "sg_inv e" and "sg_del env e key = (e', r)"
  shows "sg_inv e'" and "sg_abs e' = (if r = Inr True then (sg_abs e)(key := None) else sg_abs e)"
    and "r = Inr True \<Longrightarrow> sg_abs e key \<noteq> None"
proof -
  obtain segs where log: "sg_log segs e" using assms(1) by (auto simp: sg_inv_def)
  obtain segs' where log': "sg_log segs' e'" and "r \<noteq> Inr True \<longrightarrow> segs_placed segs' = segs_placed segs"
    "r = Inr True \<longrightarrow> values_of (segs_placed segs) key \<noteq> None \<and>
      values_of (segs_placed segs') = (values_of (segs_placed segs))(key := None)"
    by (rule sg_del_log [OF log assms(2)])
  then show "sg_inv e'" "sg_abs e' = (if r = Inr True then (sg_abs e)(key := None) else sg_abs e)"
    "r = Inr True \<Longrightarrow> sg_abs e key \<noteq> None"
    by (auto simp: sg_inv_def sg_log_abs [OF log] sg_log_abs [OF log'])
qed

lemma sg_get_laws:
  assumes "sg_inv e" and "sg_get (\<lambda>_. no_faults) e key = (e', r)"
  shows "sg_inv e'" and "sg_abs e' = sg_abs e" and "r = sg_abs e key"
proof -
  obtain segs where log: "sg_log segs e" using assms(1) by (auto simp: sg_inv_def)
  note g = sg_get_log [OF log assms(2)]
  show "sg_inv e'" "sg_abs e' = sg_abs e" "r = sg_abs e key"
    using g(1) g(2) [OF refl] by (auto simp: sg_inv_def sg_log_abs [OF log] sg_log_abs [OF g(1)])
qed

interpretation sgs: kv_store sg_inv sg_abs "\<lambda>env e key value. sg_acked (sg_put env e key value)"
  "sg_get (\<lambda>_. no_faults)" "\<lambda>env e key. sg_acked (sg_del env e key)"
proof unfold_locales
  fix e env key "value" e' r
  assume inv: "sg_inv e"
  show "sg_acked (sg_put env e key value) = (e', True) \<Longrightarrow> sg_inv e' \<and> sg_abs e' = (sg_abs e)(key \<mapsto> value)"
    "sg_acked (sg_put env e key value) = (e', False) \<Longrightarrow> sg_inv e' \<and> sg_abs e' = sg_abs e"
    using sg_put_laws [OF inv] by (auto simp: sg_acked_eq)
  show "sg_acked (sg_del env e key) = (e', True) \<Longrightarrow> sg_inv e' \<and> sg_abs e key \<noteq> None \<and> sg_abs e' = (sg_abs e)(key := None)"
    "sg_acked (sg_del env e key) = (e', False) \<Longrightarrow> sg_inv e' \<and> sg_abs e' = sg_abs e"
    using sg_del_laws [OF inv] by (auto simp: sg_acked_eq)
  show "sg_get (\<lambda>_. no_faults) e key = (e', r) \<Longrightarrow> sg_inv e' \<and> sg_abs e' = sg_abs e \<and> r = sg_abs e key"
    using sg_get_laws [OF inv] by auto
qed

end
