(* ===== verification/Segmented_Compaction.thy ===== *)
theory Segmented_Compaction
  imports Segmented_Invariant
begin

text \<open>
  \<open>compact\<close> of the segmented engine: the merged segment holds one intact record per live key of
  the sealed segments, and at every crash point the directory still describes the same contents.
\<close>

section \<open>Copying the live records\<close>

text \<open>The record that an entry of the index stands for.\<close>

definition item_rec :: "segments \<Rightarrow> bytes \<times> key_dir_entry \<Rightarrow> log_rec \<Rightarrow> bool" where
  "item_rec segs item r \<longleftrightarrow>
     (\<exists>off. (ke_segment_id (snd item), off, r) \<in> set (segs_placed segs) \<and> is_put (ke_segment_id (snd item), off, r) \<and>
        lr_key r = fst item \<and> snd item = place_entry (ke_segment_id (snd item), off, r) \<and>
        values_of (segs_placed segs) (fst item) = Some (lr_value r))"

lemma item_rec_exists:
  assumes "sg_log segs e" and "(k, en) \<in> set (sg_keydir e)"
  shows "\<exists>r. item_rec segs (k, en) r"
proof -
  have "distinct (map fst (sg_keydir e))" using assms(1) by (simp add: sg_log_def)
  then have "map_of (sg_keydir e) k = Some en" using assms(2) by simp
  then have "index_of (segs_placed segs) k = Some en" using assms(1) by (simp add: sg_log_def)
  then obtain p where p: "p \<in> set (segs_placed segs)" "is_put p" "place_key p = k" "en = place_entry p"
    "values_of (segs_placed segs) k = Some (place_value p)"
    by (rule index_of_Some)
  obtain i off r where "p = (i, off, r)" by (metis prod_cases3)
  with p have "item_rec segs (k, en) r"
    by (auto simp: item_rec_def place_key_def place_value_def place_entry_def)
  then show ?thesis by blast
qed

lemma decode_rec_bytes:
  "decode_header (rec_bytes r) = (crc32 (drop 4 (rec_bytes r)), lr_ts r, of_nat (length (lr_key r)), lr_vlen r)"
  unfolding rec_bytes_def Let_def decode_encode_header drop_4_header by (simp add: record_tail_def)

lemma copy_item:
  assumes log: "sg_log segs e" and it: "item_rec segs (k, en) r"
  shows "HEADER_SIZE + length k \<le> ke_value_pos en" and "ke_segment_id en \<in> set (sg_segment_fds e)"
    and "HEADER_SIZE + length k + unat (ke_value_size en) = rec_len r"
    and "take (rec_len r) (drop (ke_value_pos en - length k - HEADER_SIZE)
           (file_of (sg_dir e) (segment_path (ke_segment_id en)))) = rec_bytes r"
    and "lr_key r = k" and "lr_vlen r = ke_value_size en" and "lr_ts r = ke_timestamp en"
    and "length k < 2 ^ 32" and "lr_vlen r \<noteq> COMPACTION_BASE" and "lr_vlen r \<noteq> TOMBSTONE" and "seg_rec r"
proof -
  define i where "i = ke_segment_id en"
  obtain off where p: "(i, off, r) \<in> set (segs_placed segs)" "is_put (i, off, r)"
    and k: "lr_key r = k" and en: "en = place_entry (i, off, r)"
    using it unfolding item_rec_def fst_conv snd_conv i_def by blast
  have d: "dir_log segs (sg_dir e)" using log by (simp add: sg_log_def)
  note read = dir_log_read [OF d p(1)]
  have f: "ke_value_pos en = off + HEADER_SIZE + length k" "ke_value_size en = lr_vlen r" "ke_timestamp en = lr_ts r"
    "ke_segment_id en = i"
    by (simp_all add: en place_entry_def k)
  show put: "lr_vlen r \<noteq> COMPACTION_BASE" "lr_vlen r \<noteq> TOMBSTONE" using p(2) by (simp_all add: is_put_def)
  show "HEADER_SIZE + length k \<le> ke_value_pos en" "lr_key r = k" "lr_vlen r = ke_value_size en"
    "lr_ts r = ke_timestamp en" "seg_rec r"
    using f k read(1) by simp_all
  show "HEADER_SIZE + length k + unat (ke_value_size en) = rec_len r"
    using seg_rec_value_len(3) [OF read(1) put] by (simp add: f k rec_len_def)
  show "take (rec_len r) (drop (ke_value_pos en - length k - HEADER_SIZE)
           (file_of (sg_dir e) (segment_path (ke_segment_id en)))) = rec_bytes r"
    using read(2) by (simp add: f)
  show "ke_segment_id en \<in> set (sg_segment_fds e)" using read(4) log by (simp add: sg_log_def f)
  show "length k < 2 ^ 32" using read(1) k by (simp add: seg_rec_def rec_ok_def)
qed

lemma sg_copy_loop_log:
  assumes log: "sg_log segs e" and "list_all2 (item_rec segs) items recs"
    and "sg_copy_loop env e tmp (length tmp) hints items = (tmp', res)"
  shows "res = None \<or> (tmp' = tmp @ log_bytes recs \<and>
    res = Some (length tmp', hints @ hints_of (placed out (length tmp) recs)))"
  using assms(2,3)
proof (induction items recs arbitrary: tmp hints rule: list_all2_induct)
  case (Cons item items r recs)
  obtain k en where i: "item = (k, en)" by (metis surj_pair)
  note c = copy_item [OF log Cons.hyps(1) [unfolded i]]
  let ?rb = "rec_bytes r"
  have guards: "\<not> ke_value_pos en < HEADER_SIZE + length k" "\<not> ke_segment_id en \<notin> set (sg_segment_fds e)"
    using c(1,2) by auto
  have dec: "decode_header ?rb = (crc32 (drop 4 ?rb), ke_timestamp en, of_nat (length k), ke_value_size en)"
    using decode_rec_bytes [of r] c(5-7) by simp
  have key: "take (length k) (drop HEADER_SIZE ?rb) = k"
    using c(5) by (simp add: rec_bytes_def Let_def HEADER_SIZE_def)
  have klen: "unat (of_nat (length k) :: u32) = length k" using c(8) by (simp add: unat_of_nat)
  define h where "h = \<lparr>hr_key = k, hr_value_pos = length tmp + HEADER_SIZE + length k,
      hr_value_size = ke_value_size en, hr_timestamp = ke_timestamp en\<rparr>"
  have h: "place_hint (out, length tmp, r) = h" by (simp add: h_def place_hint_def c(5-7))
  show ?case
  proof (cases "\<exists>n. sce_write env (length tmp) = Some n \<and> rec_len r \<le> n \<and>
      \<not> sce_faults env (ke_segment_id en) (ke_value_pos en - length k - HEADER_SIZE)")
    case True
    then obtain n where w: "sce_write env (length tmp) = Some n" "rec_len r \<le> n"
      and nf: "\<not> sce_faults env (ke_segment_id en) (ke_value_pos en - length k - HEADER_SIZE)" by blast
    have "sg_copy_loop env e (tmp @ ?rb) (length (tmp @ ?rb)) (hints @ [h]) items = (tmp', res)"
      using Cons.prems guards c(4) nf w
      by (simp add: i Let_def c(3) pread_def dec key klen pwrite_def min_absorb2 h_def)
    from Cons.IH [OF this] show ?thesis using h c(9) by auto
  next
    case False
    have "res = None"
    proof (cases "sce_faults env (ke_segment_id en) (ke_value_pos en - length k - HEADER_SIZE)")
      case True
      then show ?thesis using Cons.prems guards by (simp add: i Let_def pread_def)
    next
      case nofault: False
      then show ?thesis
        using Cons.prems guards c(4) False
        by (auto simp: i Let_def c(3) pread_def dec key klen pwrite_def min_def split: option.splits if_splits)
    qed
    then show ?thesis by simp
  qed
qed simp

definition marker_rec :: "u64 \<Rightarrow> log_rec" where
  "marker_rec now = \<lparr>lr_ts = now, lr_key = [], lr_vlen = COMPACTION_BASE, lr_value = []\<rparr>"

lemma marker_rec: "seg_rec (marker_rec now)" "record_buffer [] [] COMPACTION_BASE now = rec_bytes (marker_rec now)"
  using record_buffer_rec_bytes [of now "[]" COMPACTION_BASE "[]"]
  by (simp_all add: marker_rec_def seg_rec_def rec_ok_def body_value_len_def)

lemma marker_rec_simps [simp]:
  "lr_key (marker_rec now) = []" "lr_vlen (marker_rec now) = COMPACTION_BASE" "lr_value (marker_rec now) = []"
  by (simp_all add: marker_rec_def)

lemma sg_merge_log:
  assumes log: "sg_log segs e" and items: "list_all2 (item_rec segs) (sg_items e) recs"
    and run: "sg_merge env e = (f, res)"
  shows "res = None \<or> (f = log_bytes (marker_rec (sce_now env) # recs) \<and>
    res = Some (length f, hints_of (placed out 0 (marker_rec (sce_now env) # recs))))"
proof -
  let ?m = "marker_rec (sce_now env)"
  obtain f1 w where w: "write_record (sce_write env 0) [] 0 [] [] COMPACTION_BASE (sce_now env) = (f1, w)"
    by (metis surj_pair)
  have "(w = WriteFailed \<and> (f1 = [] \<or> (\<exists>n. f1 = write_at [] 0 (take n (rec_bytes ?m)))))
    \<or> (w = Written (0 + HEADER_SIZE + length ([] :: bytes)) (rec_len ?m) \<and> f1 = write_at [] 0 (rec_bytes ?m))"
    by (rule write_record_cases [OF marker_rec(2) _ _ w]) simp_all
  then consider "w = WriteFailed" | "w = Written HEADER_SIZE (rec_len ?m)" "f1 = rec_bytes ?m"
    using write_at_end [of "[]"] by auto
  then show ?thesis
  proof cases
    case 1
    then show ?thesis using run by (simp add: sg_merge_def w)
  next
    case 2
    then have "sg_copy_loop env e (rec_bytes ?m) (length (rec_bytes ?m)) [] (sg_items e) = (f, res)"
      using run by (simp add: sg_merge_def w)
    from sg_copy_loop_log [OF log items this, of out] show ?thesis by auto
  qed
qed

section \<open>The merged segment holds the same contents\<close>

lemma untouched: "k \<notin> touched ps \<Longrightarrow> index_of ps k = None \<and> values_of ps k = None"
  using foldl_place_touched [of Map.empty ps k] foldl_value_touched [of Map.empty ps k]
  by (simp add: index_of_def values_of_def)

lemma touched_placed: "touched (placed i off rs) = lr_key ` {r \<in> set rs. lr_vlen r \<noteq> COMPACTION_BASE}"
  by (induction rs arbitrary: off) (auto simp: place_key_def)

lemma values_of_Cons: "values_of (p # ps) k = (if k \<in> touched ps then values_of ps k else value_step Map.empty p k)"
  using values_of_append [of "[p]" ps k] by (simp add: values_of_def)

lemma values_of_puts:
  assumes "distinct (map lr_key rs)" and "\<And>r. r \<in> set rs \<Longrightarrow> lr_vlen r \<noteq> COMPACTION_BASE \<and> lr_vlen r \<noteq> TOMBSTONE"
    and "r \<in> set rs"
  shows "values_of (placed i off rs) (lr_key r) = Some (lr_value r)"
  using assms
proof (induction rs arbitrary: off)
  case (Cons r0 rs)
  have t: "touched (placed i (off + rec_len r0) rs) = lr_key ` set rs"
    using Cons.prems(2) by (auto simp: touched_placed)
  show ?case
  proof (cases "r \<in> set rs")
    case True
    then show ?thesis using Cons by (simp add: values_of_Cons t)
  next
    case False
    then have "r = r0" using Cons.prems(3) by simp
    moreover have "lr_key r0 \<notin> lr_key ` set rs" using Cons.prems(1) by simp
    ultimately show ?thesis
      using Cons.prems(2) [of r0] by (simp add: values_of_Cons t value_step_def contents_rec_def)
  qed
qed simp

text \<open>
  \<open>live\<close> abstracts the merge: the records copied are those of the keys whose newest record is in a
  sealed segment, one each, with the current value.
\<close>

definition live :: "placed_rec list \<Rightarrow> placed_rec list \<Rightarrow> log_rec list \<Rightarrow> bool" where
  "live ps qs recs \<longleftrightarrow>
     distinct (map lr_key recs) \<and>
     (\<forall>r \<in> set recs. lr_vlen r \<noteq> COMPACTION_BASE \<and> lr_vlen r \<noteq> TOMBSTONE \<and>
        values_of (ps @ qs) (lr_key r) = Some (lr_value r)) \<and>
     lr_key ` set recs = {k. k \<notin> touched qs \<and> index_of ps k \<noteq> None}"

lemma live_touched:
  assumes "live ps qs recs"
  shows "touched (placed i off (marker_rec now # recs)) = {k. k \<notin> touched qs \<and> index_of ps k \<noteq> None}"
proof -
  have "\<forall>r \<in> set recs. lr_vlen r \<noteq> COMPACTION_BASE" using assms by (simp add: live_def)
  then have "{r \<in> set recs. lr_vlen r \<noteq> COMPACTION_BASE} = set recs" by auto
  then show ?thesis using assms by (simp add: touched_placed live_def)
qed

lemma live_values:
  assumes "live ps qs recs"
  shows "values_of (placed i 0 (marker_rec now # recs) @ qs) = values_of (ps @ qs)"
proof
  fix k
  let ?M = "placed i 0 (marker_rec now # recs)"
  note t = live_touched [OF assms, of i 0 now]
  show "values_of (?M @ qs) k = values_of (ps @ qs) k"
  proof (cases "k \<in> touched qs")
    case False
    show ?thesis
    proof (cases "k \<in> touched ?M")
      case True
      then have "k \<in> lr_key ` set recs" using assms by (simp add: t live_def del: placed.simps)
      then obtain r where r: "r \<in> set recs" "lr_key r = k" by auto
      have "values_of ?M k = values_of (placed i (rec_len (marker_rec now)) recs) k"
        using True by (simp add: values_of_Cons t)
      also have "\<dots> = Some (lr_value r)"
        using values_of_puts [of recs r] assms r by (auto simp: live_def)
      finally have "values_of (?M @ qs) k = Some (lr_value r)" using False by (simp only: values_of_append if_False)
      then show ?thesis using assms r by (auto simp: live_def)
    next
      case notin: False
      then have "index_of ps k = None" using t False by simp
      then have "values_of ps k = None" by (simp add: index_values_None)
      moreover have "values_of ?M k = None" using untouched [OF notin] by simp
      ultimately show ?thesis using False by (simp add: values_of_append del: placed.simps)
    qed
  qed (simp add: values_of_append del: placed.simps)
qed

lemma live_index:
  assumes "live ps qs recs"
  shows "foldl place_step (index_of (ps @ qs)) (placed i 0 (marker_rec now # recs)) =
    index_of (placed i 0 (marker_rec now # recs) @ qs)"
proof
  fix k
  let ?M = "placed i 0 (marker_rec now # recs)"
  note t = live_touched [OF assms, of i 0 now]
  show "foldl place_step (index_of (ps @ qs)) ?M k = index_of (?M @ qs) k"
  proof (cases "k \<in> touched ?M")
    case True
    then have "k \<notin> touched qs" using t by simp
    then show ?thesis using True by (simp add: foldl_place_touched index_of_append del: placed.simps)
  next
    case False
    then have "k \<notin> touched qs \<Longrightarrow> index_of ps k = None" using t by simp
    then show ?thesis
      using False untouched [OF False] by (simp add: foldl_place_touched index_of_append del: placed.simps)
  qed
qed

text \<open>The items of \<open>compact\<close> are the live records.\<close>

lemma sg_items_set: "set (sg_items e) = {item \<in> set (sg_keydir e). ke_segment_id (snd item) \<noteq> sg_active_id e}"
  by (auto simp: sg_items_def)

lemma sg_items_distinct: "distinct (map fst (sg_keydir e)) \<Longrightarrow> distinct (map fst (sg_items e))"
  by (auto simp: sg_items_def distinct_map intro: inj_on_subset)

lemma place_entry_id: "ke_segment_id (place_entry p) = fst p"
  by (cases p) (simp add: place_entry_def)

lemma sg_items_live:
  assumes log: "sg_log (init @ [(a, rs)]) e"
  obtains recs where "list_all2 (item_rec (init @ [(a, rs)])) (sg_items e) recs"
    and "live (segs_placed init) (placed a 0 rs) recs" and "\<forall>r \<in> set recs. seg_rec r"
proof -
  let ?segs = "init @ [(a, rs)]"
  have "\<forall>item \<in> set (sg_items e). \<exists>r. item_rec ?segs item r"
    using item_rec_exists [OF log] by (auto simp: sg_items_set)
  then obtain f where f: "\<forall>item \<in> set (sg_items e). item_rec ?segs item (f item)" by metis
  define recs where "recs = map f (sg_items e)"
  have all: "list_all2 (item_rec ?segs) (sg_items e) recs"
    unfolding recs_def using f by (simp add: list_all2_conv_all_nth)
  have c: "fst item = lr_key (f item) \<and> lr_vlen (f item) \<noteq> COMPACTION_BASE \<and> lr_vlen (f item) \<noteq> TOMBSTONE \<and>
      seg_rec (f item) \<and> values_of (segs_placed ?segs) (fst item) = Some (lr_value (f item))"
    if "item \<in> set (sg_items e)" for item
  proof -
    have it: "item_rec ?segs (fst item, snd item) (f item)" using f that by simp
    have "values_of (segs_placed ?segs) (fst item) = Some (lr_value (f item))"
      using it unfolding item_rec_def fst_conv by blast
    then show ?thesis using copy_item(5,9,10,11) [OF log it] by simp
  qed
  have keys: "map lr_key recs = map fst (sg_items e)" using c by (simp add: recs_def)
  have act: "sg_active_id e = a" "map_of (sg_keydir e) = index_of (segs_placed ?segs)"
    and dk: "distinct (map fst (sg_keydir e))" using log by (simp_all add: sg_log_def)
  have ids: "i \<in> fst ` set init" if "(i, off, r) \<in> set (segs_placed init)" for i off r
    by (rule segs_placed_split [OF that]) force
  have sorted: "sorted_wrt (<) (map fst ?segs)" using log by (simp add: sg_log_def dir_log_def)
  have noa: "a \<notin> fst ` set init" using sorted by (auto simp: sorted_wrt_append)
  have set_keys: "fst ` set (sg_items e) = {k. k \<notin> touched (placed a 0 rs) \<and> index_of (segs_placed init) k \<noteq> None}"
  proof (intro set_eqI iffI)
    fix k
    assume "k \<in> fst ` set (sg_items e)"
    then obtain en where "(k, en) \<in> set (sg_keydir e)" "ke_segment_id en \<noteq> a" by (auto simp: sg_items_set act)
    then have en: "index_of (segs_placed ?segs) k = Some en" "ke_segment_id en \<noteq> a"
      using dk act(2) by (metis map_of_eq_Some_iff)+
    have "k \<notin> touched (placed a 0 rs)"
    proof
      assume "k \<in> touched (placed a 0 rs)"
      then have "index_of (placed a 0 rs) k = Some en" using en by (simp add: index_of_append)
      then obtain p where p: "p \<in> set (placed a 0 rs)" "en = place_entry p" by (rule index_of_Some)
      then show False using en(2) placed_id [OF p(1)] by (simp add: place_entry_id)
    qed
    then show "k \<in> {k. k \<notin> touched (placed a 0 rs) \<and> index_of (segs_placed init) k \<noteq> None}"
      using en by (simp add: index_of_append)
  next
    fix k
    assume "k \<in> {k. k \<notin> touched (placed a 0 rs) \<and> index_of (segs_placed init) k \<noteq> None}"
    then obtain en where en: "k \<notin> touched (placed a 0 rs)" "index_of (segs_placed init) k = Some en" by auto
    from en(2) obtain p where p: "p \<in> set (segs_placed init)" "en = place_entry p" by (rule index_of_Some)
    obtain i off r where "p = (i, off, r)" by (metis prod_cases3)
    then have "ke_segment_id en \<noteq> a" using p ids [of i off r] noa by (auto simp: place_entry_id)
    moreover have "map_of (sg_keydir e) k = Some en" using en act(2) by (simp add: index_of_append)
    then have "(k, en) \<in> set (sg_keydir e)" by (rule map_of_SomeD)
    ultimately show "k \<in> fst ` set (sg_items e)" by (force simp: sg_items_set act)
  qed
  have "live (segs_placed init) (placed a 0 rs) recs"
    unfolding live_def
  proof (intro conjI)
    show "distinct (map lr_key recs)" using keys sg_items_distinct [OF dk] by simp
    show "\<forall>r \<in> set recs. lr_vlen r \<noteq> COMPACTION_BASE \<and> lr_vlen r \<noteq> TOMBSTONE \<and>
        values_of (segs_placed init @ placed a 0 rs) (lr_key r) = Some (lr_value r)"
      using c by (auto simp: recs_def)
    have "lr_key ` set recs = fst ` set (sg_items e)" using keys by (metis list.set_map)
    then show "lr_key ` set recs = {k. k \<notin> touched (placed a 0 rs) \<and> index_of (segs_placed init) k \<noteq> None}"
      using set_keys by simp
  qed
  moreover have "\<forall>r \<in> set recs. seg_rec r" using c by (auto simp: recs_def)
  ultimately show thesis using that all by blast
qed

section \<open>Directories during a compaction\<close>

text \<open>No bytes that the scan would accept follow the records of a segment.\<close>

definition dir_clean :: "segments \<Rightarrow> directory \<Rightarrow> bool" where
  "dir_clean segs d \<longleftrightarrow>
     (\<forall>(segid, rs) \<in> set segs. \<exists>tail. map_of d (segment_path segid) = Some (log_bytes rs @ tail) \<and> seg_parse tail = None)"

lemma dir_log_subset:
  assumes log: "dir_log segs d" and dist: "distinct (map fst d')"
    and sub: "\<And>name. map_of d' name \<noteq> None \<Longrightarrow> map_of d' name = map_of d name"
    and keep: "\<And>i. i \<in> fst ` set segs \<Longrightarrow> map_of d' (segment_path i) = map_of d (segment_path i)"
  shows "dir_log segs d'"
  unfolding dir_log_def
proof (intro conjI)
  show "\<forall>(i, rs) \<in> set segs. (\<exists>tail. seg_file d' i rs tail) \<and> hint_ok d' i rs"
  proof (intro ballI, clarify)
    fix i rs
    assume m: "(i, rs) \<in> set segs"
    then have "map_of d' (segment_path i) = map_of d (segment_path i)" by (intro keep) force
    moreover have "(\<exists>tail. seg_file d i rs tail) \<and> hint_ok d i rs" using log m by (auto simp: dir_log_def)
    moreover have "map_of d' (hint_path i) = None \<or> map_of d' (hint_path i) = map_of d (hint_path i)"
      using sub by blast
    ultimately show "(\<exists>tail. seg_file d' i rs tail) \<and> hint_ok d' i rs"
      by (auto simp: seg_file_def hint_ok_def)
  qed
  show "\<forall>name i. map_of d' name \<noteq> None \<longrightarrow> parse_segment_name name = Some i \<longrightarrow> name = segment_path i"
    using dir_log_name [OF log] sub by (intro allI impI) metis
  show "\<forall>i. map_of d' (segment_path i) \<noteq> None \<longrightarrow> i \<in> fst ` set segs \<or> superseded_id segs i"
    using dir_log_segment_name [OF log] sub by (intro allI impI) metis
  show "\<forall>i. map_of d' (hint_path i) \<noteq> None \<longrightarrow> i \<le> fst (last segs)"
    using dir_log_hint_name [OF log] sub by (intro allI impI) metis
qed (use log dist in \<open>simp_all add: dir_log_def\<close>)

lemma dir_clean_cong:
  "dir_clean segs d \<Longrightarrow> (\<And>i. i \<in> fst ` set segs \<Longrightarrow> map_of d' (segment_path i) = map_of d (segment_path i)) \<Longrightarrow> dir_clean segs d'"
  by (force simp: dir_clean_def)

lemma dir_log_distinct: "dir_log segs d \<Longrightarrow> distinct (map fst d)"
  by (simp add: dir_log_def)

lemma remove_segment_log:
  assumes "dir_log segs d" and "i \<notin> fst ` set segs"
  shows "dir_log segs (remove_segment ok d i)" and "dir_clean segs d \<Longrightarrow> dir_clean segs (remove_segment ok d i)"
proof -
  have m: "map_of (remove_segment ok d i) (segment_path j) = map_of d (segment_path j)" if "j \<noteq> i" for j
    using that by (simp add: remove_segment_def map_of_unlink)
  show "dir_log segs (remove_segment ok d i)"
  proof (rule dir_log_subset [OF assms(1)])
    show "distinct (map fst (remove_segment ok d i))"
      using dir_log_distinct [OF assms(1)] by (simp add: remove_segment_def distinct_directory)
    show "map_of (remove_segment ok d i) name \<noteq> None \<Longrightarrow> map_of (remove_segment ok d i) name = map_of d name" for name
      by (auto simp: remove_segment_def map_of_unlink split: if_splits)
  qed (use assms(2) m in metis)
  show "dir_clean segs (remove_segment ok d i)" if "dir_clean segs d"
    by (rule dir_clean_cong [OF that]) (use assms(2) m in metis)
qed

lemma remove_segments_log:
  assumes "dir_log segs d" and "set ids \<inter> fst ` set segs = {}"
  shows "dir_log segs (foldl (remove_segment ok) d ids)"
    and "dir_clean segs d \<Longrightarrow> dir_clean segs (foldl (remove_segment ok) d ids)"
  using assms by (induction ids arbitrary: d) (simp_all add: remove_segment_log)

lemma unlink_hint_log:
  assumes "dir_log segs d"
  shows "dir_log segs (unlink ok (hint_path i) d)" and "dir_clean segs d \<Longrightarrow> dir_clean segs (unlink ok (hint_path i) d)"
proof -
  show "dir_log segs (unlink ok (hint_path i) d)"
    by (rule dir_log_subset [OF assms])
      (use dir_log_distinct [OF assms] in \<open>auto simp: distinct_directory map_of_unlink split: if_splits\<close>)
  show "dir_clean segs d \<Longrightarrow> dir_clean segs (unlink ok (hint_path i) d)"
    by (rule dir_clean_cong) (auto simp: map_of_unlink)
qed

lemma aux_log:
  assumes "dir_log segs d" and "aux_name name"
  shows "dir_log segs (AList.update name f d)" and "dir_clean segs d \<Longrightarrow> dir_clean segs (AList.update name f d)"
    and "dir_log segs (unlink ok name d)" and "dir_clean segs d \<Longrightarrow> dir_clean segs (unlink ok name d)"
proof -
  show "dir_log segs (AList.update name f d)" "dir_log segs (unlink ok name d)"
    using dir_log_distinct [OF assms(1)] assms(2)
    by (auto intro!: dir_log_cong [OF assms(1)] simp: distinct_directory map_of_unlink update_conv')
  show "dir_clean segs d \<Longrightarrow> dir_clean segs (AList.update name f d)" "dir_clean segs d \<Longrightarrow> dir_clean segs (unlink ok name d)"
    using assms(2) by (auto elim!: dir_clean_cong simp: map_of_unlink update_conv' aux_name_def)
qed

lemma write_hint_file_segment:
  "map_of (fst (write_hint_file env i hints d)) (segment_path j) = map_of d (segment_path j)"
  by (auto simp: write_hint_file_def Let_def map_of_unlink update_conv' rename_def delete_conv' split: option.split)

lemma write_hint_file_clean:
  "dir_clean segs d \<Longrightarrow> dir_clean segs (fst (write_hint_file env i hints d))"
  by (rule dir_clean_cong) (simp_all add: write_hint_file_segment)

text \<open>The atomic swap.\<close>

lemma commit_log:
  fixes now :: u64
  assumes log: "dir_log (init @ [(a, rs)]) d" and ne: "init \<noteq> []" and recs: "\<forall>r \<in> set recs. seg_rec r"
    and dist: "distinct (map fst d')"
  defines "out \<equiv> fst (last init)" and "M \<equiv> marker_rec now # recs"
  assumes m: "\<And>name. \<not> aux_name name \<Longrightarrow>
      map_of d' name = ((map_of d)(segment_path out \<mapsto> log_bytes M, hint_path out := None)) name"
  shows "dir_log [(out, M), (a, rs)] d'"
    and "dir_clean (init @ [(a, rs)]) d \<Longrightarrow> dir_clean [(out, M), (a, rs)] d'"
proof -
  have sorted: "sorted_wrt (<) (map fst (init @ [(a, rs)]))" using log by (simp add: dir_log_def)
  have out_in: "out \<in> fst ` set init" using ne by (simp add: out_def)
  have le: "i \<le> out" if "i \<in> fst ` set init" for i
    using that segs_le_last [of i _ init] sorted by (auto simp: out_def sorted_wrt_append)
  have lt: "out < a" using out_in sorted by (auto simp: sorted_wrt_append)
  have seg: "map_of d' (segment_path i) = (if i = out then Some (log_bytes M) else map_of d (segment_path i))" for i
    using m [of "segment_path i"] by (auto simp: aux_name_def)
  have hint: "map_of d' (hint_path i) = (if i = out then None else map_of d (hint_path i))" for i
    using m [of "hint_path i"] by (auto simp: aux_name_def)
  have act: "(\<exists>tail. seg_file d a rs tail) \<and> hint_ok d a rs" and nm: "\<not> begins_marker rs"
    using log ne by (cases init, auto simp: dir_log_def)+
  have seg_recs: "\<forall>r \<in> set M. seg_rec r" using recs marker_rec(1) by (simp add: M_def)
  show "dir_log [(out, M), (a, rs)] d'"
    unfolding dir_log_def
  proof (intro conjI)
    show "\<forall>(i, rs) \<in> set [(out, M), (a, rs)]. (\<exists>tail. seg_file d' i rs tail) \<and> hint_ok d' i rs"
      using act lt seg_recs by (auto simp: seg_file_def hint_ok_def seg hint)
    show "\<forall>name i. map_of d' name \<noteq> None \<longrightarrow> parse_segment_name name = Some i \<longrightarrow> name = segment_path i"
    proof (intro allI impI)
      fix name i
      assume "map_of d' name \<noteq> None" and n: "parse_segment_name name = Some i"
      moreover have "\<not> aux_name name" using n by (simp add: aux_name_def)
      ultimately have "map_of d name \<noteq> None \<or> name = segment_path out" using m [of name] by (auto split: if_splits)
      with n show "name = segment_path i" using dir_log_name [OF log] parse_segment_path_id by blast
    qed
    show "\<forall>i. map_of d' (segment_path i) \<noteq> None \<longrightarrow> i \<in> fst ` set [(out, M), (a, rs)] \<or> superseded_id [(out, M), (a, rs)] i"
    proof (intro allI impI)
      fix i
      assume "map_of d' (segment_path i) \<noteq> None"
      then have "i = out \<or> i \<in> fst ` set (init @ [(a, rs)]) \<or> superseded_id (init @ [(a, rs)]) i"
        using dir_log_segment_name [OF log, of i] by (auto simp: seg split: if_splits)
      moreover have "i < out" if "superseded_id (init @ [(a, rs)]) i"
      proof -
        have "i < fst (hd init)" using that ne by (simp add: superseded_id_def)
        then show ?thesis using le [of "fst (hd init)"] ne by simp
      qed
      ultimately have "i = out \<or> i = a \<or> i < out" using le by force
      then show "i \<in> fst ` set [(out, M), (a, rs)] \<or> superseded_id [(out, M), (a, rs)] i"
        by (auto simp: superseded_id_def begins_marker_def M_def)
    qed
    show "\<forall>i. map_of d' (hint_path i) \<noteq> None \<longrightarrow> i \<le> fst (last [(out, M), (a, rs)])"
      using dir_log_hint_name [OF log] by (auto simp: hint)
  qed (use lt dist nm in simp_all)
  show "dir_clean [(out, M), (a, rs)] d'" if "dir_clean (init @ [(a, rs)]) d"
    using that lt by (auto simp: dir_clean_def seg seg_parse_def)
qed

section \<open>compact\<close>

lemma sg_sealed_ids:
  assumes "sg_log (init @ [(a, rs)]) e"
  shows "sg_sealed e = map fst init"
proof (rule sorted_distinct_set_unique)
  have sorted: "sorted_wrt (<) (map fst (init @ [(a, rs)]))" using assms by (simp add: sg_log_def dir_log_def)
  then have s: "sorted_wrt (<) (map fst init)" and a: "a \<notin> fst ` set init" by (auto simp: sorted_wrt_append)
  then show "sorted (map fst init)" "distinct (map fst init)" by (simp_all add: strict_sorted_iff)
  show "sorted (sg_sealed e)" "distinct (sg_sealed e)"
    using assms by (simp_all add: sg_sealed_def sg_log_def)
  have "set (sg_segment_fds e) = insert a (fst ` set init)" "sg_active_id e = a"
    using assms by (simp_all add: sg_log_def)
  then have "set (sg_sealed e) = fst ` set init" using a by (simp add: sg_sealed_def) blast
  then show "set (sg_sealed e) = set (map fst init)" by simp
qed

text \<open>What a directory left by a compaction still guarantees.\<close>

definition same_contents :: "segments \<Rightarrow> directory \<Rightarrow> directory \<Rightarrow> bool" where
  "same_contents segs d d' \<longleftrightarrow>
     (\<exists>segs'. dir_log segs' d' \<and> (dir_clean segs d \<longrightarrow> dir_clean segs' d') \<and>
        values_of (segs_placed segs') = values_of (segs_placed segs) \<and> fst (last segs') = fst (last segs))"

lemma same_contentsI:
  "dir_log segs' d' \<Longrightarrow> (dir_clean segs d \<Longrightarrow> dir_clean segs' d') \<Longrightarrow>
   values_of (segs_placed segs') = values_of (segs_placed segs) \<Longrightarrow> fst (last segs') = fst (last segs) \<Longrightarrow>
   same_contents segs d d'"
  unfolding same_contents_def by blast

lemma sg_log_dir: "sg_log segs e \<Longrightarrow> dir_log segs d \<Longrightarrow> sg_log segs (e\<lparr>sg_dir := d\<rparr>)"
  by (simp add: sg_log_def)

lemma in_hints_of: "h \<in> set (hints_of ps) \<Longrightarrow> \<exists>p \<in> set ps. lr_vlen (snd (snd p)) \<noteq> COMPACTION_BASE \<and> h = place_hint p"
  by (auto simp: hints_of_def)

text \<open>The state after the swap.\<close>

lemma sg_switch_log:
  assumes log: "sg_log (init @ [(a, rs)]) e" and ne: "init \<noteq> []"
    and live: "live (segs_placed init) (placed a 0 rs) recs"
    and d: "dir_log [(fst (last init), marker_rec now # recs), (a, rs)] d"
  shows "sg_log [(fst (last init), marker_rec now # recs), (a, rs)]
    (sg_switch (fst (last init)) (map fst init) (hints_of (placed (fst (last init)) 0 (marker_rec now # recs))) d e)"
proof -
  let ?out = "fst (last init)"
  let ?M = "placed ?out 0 (marker_rec now # recs)"
  have hs: "hr_value_size h \<noteq> TOMBSTONE" if h: "h \<in> set (hints_of ?M)" for h
  proof -
    obtain p where p: "p \<in> set ?M" "lr_vlen (snd (snd p)) \<noteq> COMPACTION_BASE" "h = place_hint p"
      using in_hints_of [OF h] by blast
    have "snd (snd p) \<in> set recs" using placed_rec [OF p(1)] p(2) by auto
    then show ?thesis using live p(3) by (cases p) (auto simp: place_hint_def live_def)
  qed
  have upd: "foldl (\<lambda>kd h. AList.update (hr_key h) \<lparr>ke_segment_id = ?out, ke_value_pos = hr_value_pos h,
      ke_value_size = hr_value_size h, ke_timestamp = hr_timestamp h\<rparr> kd) kd (hints_of ?M)
      = foldl (apply_hint ?out) kd (hints_of ?M)" for kd
    by (rule foldl_cong) (simp_all add: apply_hint_def hs)
  have kd: "map_of (foldl (apply_hint ?out) (sg_keydir e) (hints_of ?M)) = index_of (?M @ placed a 0 rs)"
    using log unfolding apply_hints_map live_index [OF live, symmetric] by (simp add: sg_log_def del: placed.simps)
  have sorted: "sorted_wrt (<) (map fst (init @ [(a, rs)]))" using log by (simp add: sg_log_def dir_log_def)
  then have noa: "a \<notin> fst ` set init" by (auto simp: sorted_wrt_append)
  have out: "?out \<in> fst ` set init" using ne by simp
  have fds: "set (?out # filter (\<lambda>segid. segid \<notin> set (map fst init)) (sg_segment_fds e)) = {?out, a}"
    "distinct (?out # filter (\<lambda>segid. segid \<notin> set (map fst init)) (sg_segment_fds e))"
    using log noa out by (auto simp: sg_log_def)
  have vals: "values_of (segs_placed [(?out, marker_rec now # recs), (a, rs)]) = values_of (segs_placed (init @ [(a, rs)]))"
    using live_values [OF live, of ?out now] by simp
  show ?thesis
    using log d fds kd distinct_apply_hints [of "sg_keydir e" ?out "hints_of ?M"]
    unfolding sg_log_def vals sg_switch_def upd
    by (simp del: placed.simps filter.simps(2) set_simps(2))
      (simp add: insert_commute)
qed

text \<open>After a success there are the merged segment with the live records, and the active one as it was.\<close>

definition merged :: "segments \<Rightarrow> segments \<Rightarrow> bool" where
  "merged segs segs' \<longleftrightarrow>
     (\<exists>now recs. segs' = [(fst (last (butlast segs)), marker_rec now # recs), last segs] \<and>
        live (segs_placed (butlast segs)) (placed (fst (last segs)) 0 (snd (last segs))) recs)"

text \<open>
  Every outcome of \<open>compact\<close>. The removal of the old hint of the newest sealed segment must not
  fail: the code ignores its result, and a stale hint beside the new segment could be trusted.
\<close>

definition compact_result :: "segments \<Rightarrow> segmented_engine \<Rightarrow> directory + segmented_engine \<times> bool \<Rightarrow> bool" where
  "compact_result segs e res \<longleftrightarrow>
     (case res of
        Inl d \<Rightarrow> same_contents segs (sg_dir e) d
      | Inr (e', ok) \<Rightarrow>
          (\<exists>segs'. sg_log segs' e' \<and> (dir_clean segs (sg_dir e) \<longrightarrow> dir_clean segs' (sg_dir e')) \<and>
             values_of (segs_placed segs') = values_of (segs_placed segs) \<and>
             sg_active_id e' = sg_active_id e \<and> (ok \<longrightarrow> length segs' = min 2 (length segs)) \<and>
             (ok \<longrightarrow> 2 \<le> length segs \<longrightarrow> merged segs segs')))"

lemma compact_result_dir:
  assumes log: "sg_log segs e" and d: "dir_log segs d" and c: "dir_clean segs (sg_dir e) \<Longrightarrow> dir_clean segs d"
  shows "compact_result segs e (Inr (e\<lparr>sg_dir := d\<rparr>, False))" and "compact_result segs e (Inl d)"
  using sg_log_dir [OF log d] c d
  by (auto simp: compact_result_def same_contents_def intro!: exI [of _ segs])

lemma sg_compact_log:
  assumes log: "sg_log segs e" and unl: "sce_unlink_ok env (hint_path (last (sg_sealed e)))"
  shows "compact_result segs e (sg_compact failpoint env e)"
proof -
  have dl: "dir_log segs (sg_dir e)" using log by (simp add: sg_log_def)
  then have ne: "segs \<noteq> []" by (simp add: dir_log_def)
  obtain init a rs where segs: "segs = init @ [(a, rs)]" using ne by (metis append_butlast_last_id surj_pair)
  note log' = log [unfolded segs]
  have sealed: "sg_sealed e = map fst init" by (rule sg_sealed_ids [OF log'])
  show ?thesis
  proof (cases "init = [] \<or> \<not> sce_open_ok env")
    case True
    then have "sg_compact failpoint env e = Inr (e, init = [])"
      by (auto simp: sg_compact_def sealed Let_def)
    then show ?thesis using log by (auto simp: compact_result_def segs intro!: exI [of _ "init @ [(a, rs)]"])
  next
    case False
    define out where "out = fst (last init)"
    define tmp where "tmp = segment_path out @ ''.compact.tmp''"
    have out: "last (sg_sealed e) = out" using False by (simp add: sealed out_def last_map)
    have aux: "aux_name tmp" by (simp add: tmp_def)
    obtain recs where items: "list_all2 (item_rec (init @ [(a, rs)])) (sg_items e) recs"
      and live: "live (segs_placed init) (placed a 0 rs) recs" and recs: "\<forall>r \<in> set recs. seg_rec r"
      by (rule sg_items_live [OF log'])
    obtain f res where merge: "sg_merge env e = (f, res)" by (metis surj_pair)
    define M where "M = marker_rec (sce_now env) # recs"
    have m: "res = None \<or> (f = log_bytes M \<and> res = Some (length f, hints_of (placed out 0 M)))"
      using sg_merge_log [OF log' items merge, of out] by (simp only: M_def)
    define d1 where "d1 = AList.update tmp f (sg_dir e)"
    define d2 where "d2 = unlink True (hint_path out) d1"
    define d3 where "d3 = rename tmp (segment_path out) d2"
    define sup where "sup = filter (\<lambda>segid. segid \<noteq> out) (map fst init)"
    define d4 where "d4 = foldl (remove_segment (sce_unlink_ok env)) d3 (take 1 sup)"
    define d5 where "d5 = foldl (remove_segment (sce_unlink_ok env)) d3 sup"
    define hs where "hs = hints_of (placed out 0 M)"
    define d6 where "d6 = (if hs \<noteq> [] then fst (write_hint_file (sce_hint env) out hs d5) else d5)"
    have l1: "dir_log segs d1" "dir_clean segs (sg_dir e) \<Longrightarrow> dir_clean segs d1"
      using aux_log(1,2) [OF dl aux] by (simp_all add: d1_def)
    have l2: "dir_log segs d2" "dir_clean segs (sg_dir e) \<Longrightarrow> dir_clean segs d2"
      using unlink_hint_log [OF l1(1)] l1(2) by (simp_all add: d2_def)
    have ab: "compact_result segs e (Inr (e\<lparr>sg_dir := unlink b tmp d\<rparr>, False))" "compact_result segs e (Inl d)"
      if "dir_log segs d" "dir_clean segs (sg_dir e) \<Longrightarrow> dir_clean segs d" for b d
      using compact_result_dir [OF log] aux_log(3,4) [OF that(1) aux] that by auto
    show ?thesis
    proof (cases res)
      case None
      have "sg_compact failpoint env e = Inr (e\<lparr>sg_dir := unlink (sce_unlink_ok env tmp) tmp d1\<rparr>, False)"
        using False None by (simp add: sg_compact_def Let_def sealed merge out [unfolded sealed] tmp_def [symmetric] d1_def)
      then show ?thesis using ab(1) [OF l1] by simp
    next
      case (Some x)
      with m have f: "f = log_bytes M" and res: "res = Some (length f, hs)" by (auto simp: hs_def)
      define segs' where "segs' = [(out, M), (a, rs)]"
      have "map_of d2 tmp = Some f"
        using aux by (simp add: d2_def map_of_unlink d1_def update_conv' aux_name_def)
      then have map3: "map_of d3 = (map_of d2)(tmp := None, segment_path out \<mapsto> f)"
        by (simp add: d3_def map_of_rename)
      have "map_of d3 name = ((map_of (sg_dir e))(segment_path out \<mapsto> log_bytes M, hint_path out := None)) name"
        if "\<not> aux_name name" for name
        using that aux by (auto simp: map3 d2_def map_of_unlink d1_def update_conv' f)
      moreover have "distinct (map fst d3)" using dir_log_distinct [OF l2(1)] by (simp add: d3_def distinct_directory)
      ultimately have l3: "dir_log segs' d3" "dir_clean segs (sg_dir e) \<Longrightarrow> dir_clean segs' d3"
        using commit_log [OF dl [unfolded segs] _ recs, of d3 "sce_now env"] False
        by (auto simp: out_def M_def segs'_def segs)
      have sorted: "sorted_wrt (<) (map fst segs)" using dl by (simp add: dir_log_def)
      then have sup: "set sup \<inter> fst ` set segs' = {}" by (auto simp: sup_def segs'_def segs sorted_wrt_append)
      then have sup1: "set (take 1 sup) \<inter> fst ` set segs' = {}" using set_take_subset [of 1 sup] by blast
      have l4: "dir_log segs' d4" "dir_clean segs (sg_dir e) \<Longrightarrow> dir_clean segs' d4"
        using remove_segments_log [OF l3(1) sup1] l3(2) by (simp_all add: d4_def)
      have l5: "dir_log segs' d5" "dir_clean segs (sg_dir e) \<Longrightarrow> dir_clean segs' d5"
        using remove_segments_log [OF l3(1) sup] l3(2) by (simp_all add: d5_def)
      have mem: "(out, M @ []) \<in> set segs'" by (simp add: segs'_def)
      have l6: "dir_log segs' d6" "dir_clean segs (sg_dir e) \<Longrightarrow> dir_clean segs' d6"
        using write_hint_file_log [OF l5(1) mem, of "sce_hint env"] write_hint_file_clean [of segs' d5 "sce_hint env" out hs] l5
        by (simp_all add: d6_def hs_def)
      have vals: "values_of (segs_placed segs') = values_of (segs_placed segs)"
        using live_values [OF live, of out "sce_now env"] by (simp add: segs'_def segs M_def)
      have same: "compact_result segs e (Inl d)"
        if "dir_log segs' d" "dir_clean segs (sg_dir e) \<Longrightarrow> dir_clean segs' d" for d
        unfolding compact_result_def sum.case
        by (rule same_contentsI [OF that vals]) (simp_all add: segs'_def segs)
      have "sg_log segs' (sg_switch out (map fst init) hs d6 e)"
        using sg_switch_log [OF log' _ live, of "sce_now env" d6] l6(1) False by (simp add: segs'_def M_def hs_def out_def)
      moreover have "merged segs segs'"
        using live by (auto simp: merged_def segs segs'_def M_def out_def)
      ultimately have fin: "compact_result segs e (Inr (sg_switch out (map fst init) hs d6 e, True))"
        using vals l6(2) False by (cases init)
          (auto simp: compact_result_def segs sg_switch_def segs'_def intro!: exI [of _ segs'])
      have run: "sg_compact failpoint env e =
        (if \<not> sce_fsync_ok env then Inr (e\<lparr>sg_dir := unlink (sce_unlink_ok env tmp) tmp d1\<rparr>, False)
         else if failpoint = 1 then Inl d1
         else if failpoint = 2 then Inl d2
         else if \<not> sce_rename_ok env then Inr (e\<lparr>sg_dir := unlink (sce_unlink_ok env tmp) tmp d2\<rparr>, False)
         else if failpoint = 3 then Inl d3
         else if failpoint = 4 \<and> sup \<noteq> [] then Inl d4
         else if failpoint = 5 then Inl d5
         else if failpoint = 6 then Inl d6
         else Inr (sg_switch out (map fst init) hs d6 e, True))"
        using False unl
        unfolding d6_def d5_def d4_def d3_def d2_def d1_def sup_def tmp_def
        by (simp add: sg_compact_def Let_def sealed merge res out [unfolded sealed])
      show ?thesis
        unfolding run using ab [OF l1] ab [OF l2] same [OF l3] same [OF l4] same [OF l5] same [OF l6] fin
        by (simp only: split: if_split) blast
    qed
  qed
qed

end
