(* ===== verification/Segmented_Recovery.thy ===== *)
theory Segmented_Recovery
  imports Segmented_Compaction
begin

text \<open>
  The constructor of the segmented engine: discovery of the segments, the choice of the newest
  base marker, recovery by hint or by scan, and the theorems on restarts and crashes.
\<close>

section \<open>Discovery\<close>

lemma ends_with_last: "ends_with s suffix \<Longrightarrow> suffix \<noteq> [] \<Longrightarrow> last s = last suffix"
proof -
  assume e: "ends_with s suffix" and ne: "suffix \<noteq> []"
  then have "drop (length s - length suffix) s = suffix" by (auto simp: ends_with_def Let_def)
  then have "s = take (length s - length suffix) s @ suffix" by (metis append_take_drop_id)
  then show ?thesis using ne by (metis last_appendR)
qed

lemma stale_temp_aux: "stale_temp_name name \<Longrightarrow> aux_name name"
proof -
  assume "stale_temp_name name"
  then have p: "last name = CHR ''p''" using ends_with_last [of name] by (force simp: stale_temp_name_def)
  have "parse_segment_name name = None"
    by (rule ccontr, drule parse_segment_name_last) (simp add: p)
  moreover have "name \<noteq> segment_path i \<and> name \<noteq> hint_path i" for i
    using p last_path(1,2) [of i] by auto
  ultimately show ?thesis by (simp add: aux_name_def)
qed

lemma remove_stale_log:
  assumes "dir_log segs d" and "dir_clean segs d"
  shows "dir_log segs (remove_stale_temp_files env d)" and "dir_clean segs (remove_stale_temp_files env d)"
proof -
  have "dir_log segs (foldl (\<lambda>d name. if stale_temp_name name then unlink (ok name) name d else d) d names) \<and>
      dir_clean segs (foldl (\<lambda>d name. if stale_temp_name name then unlink (ok name) name d else d) d names)" for ok names
    using assms
  proof (induction names arbitrary: d)
    case (Cons n names)
    have "dir_log segs (if stale_temp_name n then unlink (ok n) n d else d)"
      "dir_clean segs (if stale_temp_name n then unlink (ok n) n d else d)"
      using aux_log(3,4) [OF Cons.prems(1) stale_temp_aux] Cons.prems by auto
    then show ?case using Cons.IH by simp
  qed simp
  then show "dir_log segs (remove_stale_temp_files env d)" "dir_clean segs (remove_stale_temp_files env d)"
    by (simp_all add: remove_stale_temp_files_def)
qed

text \<open>The marker test looks at the first record.\<close>

lemma marker_test:
  assumes "soe_marker_open_ok env segid" and "soe_faults env segid = no_faults"
  shows "segment_begins_with_base_marker env d segid \<longleftrightarrow>
    (\<exists>ts. parse_record body_value_len (file_of d (segment_path segid)) = Some (ts, [], COMPACTION_BASE))"
proof -
  define t where "t = file_of d (segment_path segid)"
  obtain crc ts klen vlen where dec: "decode_header t = (crc, ts, klen, vlen)" by (metis prod_cases4)
  show ?thesis
  proof (cases "length t < HEADER_SIZE")
    case True
    then show ?thesis
      using assms by (simp add: segment_begins_with_base_marker_def t_def [symmetric] parse_record_def)
  next
    case False
    then have len: "20 \<le> length t" by (simp add: HEADER_SIZE_def)
    have tail: "put_u64 ts @ put_u32 klen @ put_u32 vlen = take 16 (drop 4 t)" by (rule header_bytes(2) [OF len dec])
    have dec20: "decode_header (take HEADER_SIZE t) = (crc, ts, klen, vlen)"
      using decode_header_take [of HEADER_SIZE t] dec by (simp add: HEADER_SIZE_def)
    have hdr: "take (HEADER_SIZE - 4) (drop 4 (take HEADER_SIZE t)) = put_u64 ts @ put_u32 klen @ put_u32 vlen"
      by (simp add: tail HEADER_SIZE_def drop_take)
    have b: "body_value_len COMPACTION_BASE = 0" by (simp add: body_value_len_def)
    have "segment_begins_with_base_marker env d segid \<longleftrightarrow>
        klen = 0 \<and> vlen = COMPACTION_BASE \<and> crc32 (put_u64 ts @ put_u32 klen @ put_u32 vlen) = crc"
      using assms False
      by (auto simp: segment_begins_with_base_marker_def t_def [symmetric] dec20 hdr min_absorb2)
    also have "\<dots> \<longleftrightarrow> (\<exists>ts. parse_record body_value_len t = Some (ts, [], COMPACTION_BASE))"
    proof
      assume "klen = 0 \<and> vlen = COMPACTION_BASE \<and> crc32 (put_u64 ts @ put_u32 klen @ put_u32 vlen) = crc"
      then show "\<exists>ts. parse_record body_value_len t = Some (ts, [], COMPACTION_BASE)"
        using False by (auto simp: parse_record_def dec Let_def b record_tail_def)
    next
      assume "\<exists>ts. parse_record body_value_len t = Some (ts, [], COMPACTION_BASE)"
      then have p: "crc32 (record_tail ts klen vlen (take (unat klen + unat (body_value_len vlen)) (drop HEADER_SIZE t))) = crc"
        "take (unat klen) (take (unat klen + unat (body_value_len vlen)) (drop HEADER_SIZE t)) = []"
        "vlen = COMPACTION_BASE" "unat klen + unat (body_value_len vlen) \<le> length t - HEADER_SIZE"
        by (auto simp: parse_record_def dec Let_def split: if_splits)
      then have "unat klen = 0" using b by auto
      then have "klen = 0" by (simp add: unat_eq_zero)
      with p b show "klen = 0 \<and> vlen = COMPACTION_BASE \<and> crc32 (put_u64 ts @ put_u32 klen @ put_u32 vlen) = crc"
        by (simp add: record_tail_def)
    qed
    finally show ?thesis by (simp add: t_def)
  qed
qed

text \<open>The calls of a start that must succeed; the outcomes of all others are arbitrary.\<close>

definition sg_open_ok :: "sg_open_env \<Rightarrow> bool" where
  "sg_open_ok env \<longleftrightarrow>
     soe_mkdir_ok env \<and> soe_opendir2_ok env \<and> soe_create_ok env \<and>
     (\<forall>i. soe_marker_open_ok env i \<and> soe_open_ok env i \<and> soe_fstat_ok env i \<and> soe_faults env i = no_faults)"

lemma marker_segment:
  assumes ok: "sg_open_ok env" and log: "dir_log segs d" "dir_clean segs d" and s: "(i, rs) \<in> set segs"
  shows "segment_begins_with_base_marker env d i \<longleftrightarrow> begins_marker rs"
proof -
  obtain tail where "map_of d (segment_path i) = Some (log_bytes rs @ tail)" and tail: "seg_parse tail = None"
    using log(2) s by (auto simp: dir_clean_def)
  then have f: "file_of d (segment_path i) = log_bytes rs @ tail" by (simp add: file_of_def)
  obtain t where "seg_file d i rs t" by (rule dir_log_file [OF log(1) s])
  then have recs: "\<forall>r \<in> set rs. seg_rec r" by (simp add: seg_file_def)
  have m: "segment_begins_with_base_marker env d i \<longleftrightarrow>
    (\<exists>ts. parse_record body_value_len (log_bytes rs @ tail) = Some (ts, [], COMPACTION_BASE))"
    using marker_test [of env i d] ok by (simp add: sg_open_ok_def f)
  show ?thesis
  proof (cases rs)
    case Nil
    then show ?thesis using m tail by (auto simp: begins_marker_def seg_parse_def)
  next
    case (Cons r rs')
    then have "seg_rec r" using recs by simp
    then show ?thesis
      using m seg_parse_rec [OF \<open>seg_rec r\<close>, of "log_bytes rs' @ tail"]
      by (auto simp: Cons begins_marker_def seg_rec_def)
  qed
qed

text \<open>The ids found in the directory: superseded ones, then those of the live segments.\<close>

definition found_ids :: "directory \<Rightarrow> nat list" where
  "found_ids d = sort (List.map_filter parse_segment_name (map fst d))"

lemma found_ids_set:
  assumes "dir_log segs d" and "fst (last segs) < 10 ^ 19"
  shows "set (found_ids d) = {i. map_of d (segment_path i) \<noteq> None}" and "distinct (found_ids d)"
proof -
  have sorted: "sorted_wrt (<) (map fst segs)" and ne: "segs \<noteq> []" using assms(1) by (simp_all add: dir_log_def)
  have in_le: "i \<le> fst (last segs)" if "i \<in> fst ` set segs" for i
    using that segs_le_last [OF _ sorted] by auto
  have "fst (hd segs) \<le> fst (last segs)" by (rule in_le) (simp add: ne)
  then have le: "i \<le> fst (last segs)" if "map_of d (segment_path i) \<noteq> None" for i
    using dir_log_segment_name [OF assms(1) that] in_le [of i] by (auto simp: superseded_id_def)
  show "set (found_ids d) = {i. map_of d (segment_path i) \<noteq> None}"
  proof (intro set_eqI iffI)
    fix i
    assume "i \<in> set (found_ids d)"
    then obtain name where n: "name \<in> fst ` set d" "parse_segment_name name = Some i"
      by (force simp: found_ids_def List.map_filter_def)
    then have "map_of d name \<noteq> None" by (simp add: map_of_eq_None_iff)
    then show "i \<in> {i. map_of d (segment_path i) \<noteq> None}" using dir_log_name [OF assms(1) _ n(2)] by simp
  next
    fix i
    assume "i \<in> {i. map_of d (segment_path i) \<noteq> None}"
    then have m: "map_of d (segment_path i) \<noteq> None" by simp
    then have "segment_path i \<in> fst ` set d" by (simp add: map_of_eq_None_iff)
    moreover have "parse_segment_name (segment_path i) = Some i" using le [OF m] assms(2) by (simp add: parse_segment_path)
    ultimately show "i \<in> set (found_ids d)" by (force simp: found_ids_def List.map_filter_def)
  qed
  have "distinct (map the (map parse_segment_name (filter (\<lambda>n. parse_segment_name n \<noteq> None) (map fst d))))"
    unfolding map_map distinct_map
  proof
    show "distinct (filter (\<lambda>n. parse_segment_name n \<noteq> None) (map fst d))" using dir_log_distinct [OF assms(1)] by simp
    have "n = segment_path (the (parse_segment_name n))"
      if "n \<in> set (filter (\<lambda>n. parse_segment_name n \<noteq> None) (map fst d))" for n
      using dir_log_name [OF assms(1), of n] that by (auto simp: map_of_eq_None_iff)
    then show "inj_on (the \<circ> parse_segment_name) (set (filter (\<lambda>n. parse_segment_name n \<noteq> None) (map fst d)))"
      by (intro inj_onI) (metis comp_apply)
  qed
  then show "distinct (found_ids d)"
    by (simp add: found_ids_def List.map_filter_def comp_def)
qed

lemma found_ids_split:
  assumes log: "dir_log segs d" and fit: "fst (last segs) < 10 ^ 19"
  obtains stale where "found_ids d = stale @ map fst segs" and "\<And>i. i \<in> set stale \<Longrightarrow> superseded_id segs i"
proof -
  have sorted: "sorted_wrt (<) (map fst segs)" and ne: "segs \<noteq> []" using log by (simp_all add: dir_log_def)
  note ids = found_ids_set [OF log fit]
  define stale where "stale = filter (\<lambda>i. i \<notin> fst ` set segs) (found_ids d)"
  have stale: "superseded_id segs i" if "i \<in> set stale" for i
    using that dir_log_segment_name [OF log, of i] by (auto simp: stale_def ids(1))
  have live: "map_of d (segment_path i) \<noteq> None" if m: "i \<in> fst ` set segs" for i
  proof -
    obtain rs where "(i, rs) \<in> set segs" using m by auto
    then obtain tail where "seg_file d i rs tail" by (rule dir_log_file [OF log])
    then show ?thesis by (simp add: seg_file_def)
  qed
  have hd_le: "fst (hd segs) \<le> i" if "i \<in> fst ` set segs" for i
    using that sorted by (cases segs) (auto intro: less_imp_le)
  have "found_ids d = stale @ map fst segs"
  proof (rule sorted_distinct_set_unique)
    show "sorted (found_ids d)" by (simp add: found_ids_def)
    show "distinct (found_ids d)" by (rule ids(2))
    have "sorted stale" by (simp add: stale_def found_ids_def sorted_wrt_filter)
    moreover have "i \<le> j" if "i \<in> set stale" "j \<in> fst ` set segs" for i j
      using stale [OF that(1)] hd_le [OF that(2)] by (simp add: superseded_id_def)
    ultimately show "sorted (stale @ map fst segs)" using sorted by (simp add: sorted_append strict_sorted_iff)
    have "distinct stale" using ids(2) by (simp add: stale_def)
    then show "distinct (stale @ map fst segs)" using sorted by (auto simp: strict_sorted_iff stale_def)
    show "set (found_ids d) = set (stale @ map fst segs)" using live by (auto simp: stale_def ids(1))
  qed
  then show thesis using that stale by blast
qed

lemma dir_log_no_marker: "dir_log segs d \<Longrightarrow> (i, rs) \<in> set (tl segs) \<Longrightarrow> \<not> begins_marker rs"
  unfolding dir_log_def by blast

text \<open>The scan for the newest base marker finds the first live segment.\<close>

lemma find_rev_upt:
  assumes "j < n" and "P j" and "\<And>i. j < i \<Longrightarrow> i < n \<Longrightarrow> \<not> P i"
  shows "find P (rev [0..<n]) = Some j"
  using assms
proof (induction n)
  case (Suc n)
  show ?case
  proof (cases "j = n")
    case False
    then have "find P (rev [0..<n]) = Some j" using Suc.prems by (intro Suc.IH) auto
    moreover have "\<not> P n" using Suc.prems False by auto
    ultimately show ?thesis by simp
  qed (use Suc.prems in simp)
qed simp

lemma sg_first_live:
  assumes ok: "sg_open_ok env" and log: "dir_log segs d" "dir_clean segs d"
    and stale: "\<And>i. i \<in> set stale \<Longrightarrow> superseded_id segs i"
  shows "sg_first env d (stale @ map fst segs) = length stale"
proof -
  let ?ids = "stale @ map fst segs"
  let ?P = "\<lambda>i. segment_begins_with_base_marker env d (?ids ! i)"
  have ne: "segs \<noteq> []" using log(1) by (simp add: dir_log_def)
  have P: "?P (length stale + j) \<longleftrightarrow> begins_marker (snd (segs ! j))" if "j < length segs" for j
    using marker_segment [OF ok log, of "fst (segs ! j)" "snd (segs ! j)"] that by (simp add: nth_append)
  have nomark: "\<not> begins_marker (snd (segs ! j))" if "0 < j" "j < length segs" for j
  proof -
    have "segs ! j \<in> set (tl segs)" using that ne by (metis nth_tl Suc_pred length_tl less_diff_conv nth_mem Suc_eq_plus1)
    then have "(fst (segs ! j), snd (segs ! j)) \<in> set (tl segs)" by simp
    then show ?thesis by (rule dir_log_no_marker [OF log(1)])
  qed
  have above: "\<not> ?P i" if "length stale < i" "i < length ?ids - 1" for i
    using P [of "i - length stale"] nomark [of "i - length stale"] that by auto
  show ?thesis
  proof (cases "2 \<le> length segs \<and> begins_marker (snd (hd segs))")
    case True
    then have "?P (length stale)" using P [of 0] ne by (simp add: hd_conv_nth)
    then have "find ?P (rev [0..<length ?ids - 1]) = Some (length stale)"
      using True above by (intro find_rev_upt) auto
    then show ?thesis by (simp add: sg_first_def)
  next
    case False
    then have [simp]: "stale = []" using stale by (cases stale) (auto simp: superseded_id_def)
    have "\<not> ?P i" if "i < length ?ids - 1" for i
    proof (cases "i = 0")
      case True
      then show ?thesis using P [of 0] that False ne by (auto simp: hd_conv_nth)
    qed (use above that in simp)
    then have "find ?P (rev [0..<length ?ids - 1]) = None" by (auto simp: find_None_iff)
    then show ?thesis by (simp add: sg_first_def)
  qed
qed

section \<open>Recovering one segment\<close>

definition dir_fits :: "directory \<Rightarrow> bool" where
  "dir_fits d \<longleftrightarrow> (\<forall>(name, f) \<in> set d. length f < 2 ^ 64)"

lemma fits_file: "dir_fits d \<Longrightarrow> map_of d name = Some f \<Longrightarrow> length f < 2 ^ 64"
  by (auto simp: dir_fits_def dest: map_of_SomeD)

text \<open>
  A hint that is trusted has the effect of a full scan, and trusting it is sound: it describes
  every record of the segment, and nothing follows the last one.
\<close>

lemma recover_hint_sound:
  assumes hint: "hint_ok (sg_dir e) i rs" and recs: "\<forall>r \<in> set rs. seg_rec r"
    and f: "map_of (sg_dir e) (segment_path i) = Some (log_bytes rs @ tail)"
    and fits: "length (log_bytes rs @ tail) < 2 ^ 64"
    and run: "recover_segment_via_hint env i e = Some e'"
  shows "e' = e\<lparr>sg_keydir := foldl (apply_hint i) (sg_keydir e) (hints_of (placed i 0 rs)),
      sg_hint_recoveries := sg_hint_recoveries e + 1\<rparr>" and "tail = []"
proof -
  obtain hf where hf: "map_of (sg_dir e) (hint_path i) = Some hf"
    using run by (auto simp: recover_segment_via_hint_def split: if_splits option.splits)
  then obtain rs0 rs1 where rs: "rs = rs0 @ rs1" and enc: "hf = encode_hints (hints_of (placed i 0 rs0))"
    using hint unfolding hint_ok_def by blast
  let ?hs = "hints_of (placed i 0 rs0)" and ?n = "length (log_bytes rs @ tail)"
  have len: "0 + length (log_bytes rs0) \<le> ?n" by (simp add: rs)
  have r0: "\<And>r. r \<in> set rs0 \<Longrightarrow> seg_rec r" using recs by (simp add: rs)
  have fit: "h \<in> set ?hs \<Longrightarrow> hint_fits h" for h
    using hints_of_recs(2) [OF r0, of rs0 h i 0] len fits by simp
  have "list_all (hint_inside ?n) ?hs"
    using hints_of_recs(1) [OF r0, of rs0 _ i 0 ?n] len by (simp add: list_all_iff)
  then have parse: "hint_parse_loop ?n hf 0 [] 0 = Some (?hs, foldl max 0 (map hint_end ?hs))"
    using hint_parse_encode [OF fit, of ?hs ?n "[]" "[]" 0] by (simp add: enc)
  have content: "file_of (sg_dir e) (segment_path i) = log_bytes rs @ tail" using f by (simp add: file_of_def)
  have reach: "foldl max 0 (map hint_end ?hs) = ?n"
    and e': "e' = e\<lparr>sg_keydir := foldl (apply_hint i) (sg_keydir e) ?hs,
      sg_hint_recoveries := sg_hint_recoveries e + 1\<rparr>"
    using run by (auto simp: recover_segment_via_hint_def hf content parse Let_def simp del: length_append split: if_splits)
  have all: "\<And>r. r \<in> set (rs0 @ rs1) \<Longrightarrow> seg_rec r" using recs by (simp add: rs)
  have "rs1 = []" "tail = []" using hints_reach_end [OF all reach [unfolded rs]] by simp_all
  then show "e' = e\<lparr>sg_keydir := foldl (apply_hint i) (sg_keydir e) (hints_of (placed i 0 rs)),
      sg_hint_recoveries := sg_hint_recoveries e + 1\<rparr>" "tail = []"
    by (simp_all add: e' rs)
qed

text \<open>The state after the segments \<open>pre\<close> have been recovered.\<close>

definition recovered :: "segments \<Rightarrow> directory \<Rightarrow> nat \<Rightarrow> (bytes, bytes) lru_cache \<Rightarrow> segmented_engine \<Rightarrow> bool" where
  "recovered pre d threshold cache e \<longleftrightarrow>
     sg_dir e = d \<and> sg_threshold e = threshold \<and> sg_cache e = cache \<and>
     map_of (sg_keydir e) = index_of (segs_placed pre) \<and> distinct (map fst (sg_keydir e)) \<and>
     set (sg_segment_fds e) = fst ` set pre \<and> distinct (sg_segment_fds e)"

lemma recovered_step:
  assumes "recovered pre d th c e"
  shows "recovered (pre @ [(i, rs)]) d th c (e\<lparr>sg_segment_fds := List.insert i (sg_segment_fds e),
      sg_keydir := foldl (apply_hint i) (sg_keydir e) (hints_of (placed i 0 rs)),
      sg_hint_recoveries := a, sg_full_scan_recoveries := b\<rparr>)"
  using assms by (simp add: recovered_def apply_hints_map distinct_apply_hints) (simp add: index_of_def)

lemma recover_sealed_log:
  assumes ok: "sg_open_ok env" and log: "dir_log segs d" "dir_clean segs d" and fits: "dir_fits d"
    and "set post \<subseteq> set segs" and "recovered pre d th c e"
  shows "\<exists>e'. recover_sealed env (map fst post) e = Inr e' \<and> recovered (pre @ post) d th c e'"
  using assms(5,6)
proof (induction post arbitrary: pre e)
  case (Cons s post)
  obtain i rs where s: "s = (i, rs)" by (metis surj_pair)
  then have mem: "(i, rs) \<in> set segs" using Cons.prems(1) by simp
  have d: "sg_dir e = d" using Cons.prems(2) by (simp add: recovered_def)
  obtain tail where f: "map_of d (segment_path i) = Some (log_bytes rs @ tail)" and tail: "seg_parse tail = None"
    using log(2) mem by (auto simp: dir_clean_def)
  have h: "hint_ok d i rs" and recs: "\<forall>r \<in> set rs. seg_rec r"
    using log(1) mem by (auto simp: dir_log_def seg_file_def)
  have content: "file_of d (segment_path i) = log_bytes rs @ tail" using f by (simp add: file_of_def)
  define e1 where "e1 = e\<lparr>sg_segment_fds := List.insert i (sg_segment_fds e)\<rparr>"
  have e1: "sg_dir e1 = d" "sg_keydir e1 = sg_keydir e" by (simp_all add: e1_def d)
  have opn: "soe_open_ok env i" "soe_fstat_ok env i" "soe_faults env i = no_faults"
    using ok by (simp_all add: sg_open_ok_def)
  let ?kd = "foldl (apply_hint i) (sg_keydir e) (hints_of (placed i 0 rs))"
  have "\<exists>e2. recover_sealed env (map fst (s # post)) e = recover_sealed env (map fst post) e2 \<and>
      (\<exists>a b. e2 = e1\<lparr>sg_keydir := ?kd, sg_hint_recoveries := a, sg_full_scan_recoveries := b\<rparr>)"
  proof (cases "recover_segment_via_hint env i e1")
    case (Some e2)
    have "e2 = e1\<lparr>sg_keydir := foldl (apply_hint i) (sg_keydir e1) (hints_of (placed i 0 rs)),
        sg_hint_recoveries := sg_hint_recoveries e1 + 1\<rparr>"
      by (rule recover_hint_sound(1) [OF _ recs _ _ Some]) (use h f fits_file [OF fits f] in \<open>simp_all add: e1\<close>)
    then have "e2 = e1\<lparr>sg_keydir := ?kd, sg_hint_recoveries := sg_hint_recoveries e1 + 1,
        sg_full_scan_recoveries := sg_full_scan_recoveries e1\<rparr>" by (simp add: e1(2))
    moreover have "recover_sealed env (map fst (s # post)) e = recover_sealed env (map fst post) e2"
      using Some opn f by (simp add: s d Let_def e1_def)
    ultimately show ?thesis by blast
  next
    case None
    have r: "\<And>r. r \<in> set rs \<Longrightarrow> seg_rec r" using recs by simp
    have "seg_scan_loop no_faults (log_bytes rs @ tail) i 0 (sg_keydir e) None
        = (length (log_bytes rs), ?kd, None)"
      using seg_scan_log [OF r tail, of rs "[]" i "sg_keydir e" None] by simp
    then have full: "recover_segment_via_full_scan env i None e1 =
        Inr (e1\<lparr>sg_keydir := ?kd, sg_full_scan_recoveries := sg_full_scan_recoveries e1 + 1\<rparr>, length (log_bytes rs), None)"
      using opn by (simp add: recover_segment_via_full_scan_def e1 content)
    define e2 where "e2 = e1\<lparr>sg_keydir := ?kd, sg_full_scan_recoveries := sg_full_scan_recoveries e1 + 1\<rparr>"
    have "recover_sealed env (map fst (s # post)) e = recover_sealed env (map fst post) e2"
      using None opn f full [folded e2_def] by (simp add: s d Let_def e1_def)
    moreover have "e2 = e1\<lparr>sg_keydir := ?kd, sg_hint_recoveries := sg_hint_recoveries e1,
            sg_full_scan_recoveries := sg_full_scan_recoveries e1 + 1\<rparr>" by (simp add: e2_def)
    ultimately show ?thesis by blast
  qed
  then obtain e2 a b where run: "recover_sealed env (map fst (s # post)) e = recover_sealed env (map fst post) e2"
    and e2: "e2 = e1\<lparr>sg_keydir := ?kd, sg_hint_recoveries := a, sg_full_scan_recoveries := b\<rparr>" by blast
  have "recovered (pre @ [(i, rs)]) d th c e2"
    using recovered_step [OF Cons.prems(2), where i = i and rs = rs and a = a and b = b] by (simp add: e2 e1_def)
  from Cons.IH [OF _ this] show ?case using Cons.prems(1) unfolding run by (simp add: s)
qed (simp add: recovered_def)

lemma coherent_new: "lru.coherent m (lru_new n)"
  by (simp add: lru.coherent_def lru_inv_new) (simp add: lru_lookup_def lru_abs_def lru_new_def)

text \<open>The active segment after its scan, and the new one when it is full.\<close>

lemma new_segment_clean:
  assumes "dir_log segs d" and "dir_clean segs d"
  shows "dir_clean (segs @ [(fst (last segs) + 1, [])]) (AList.update (segment_path (fst (last segs) + 1)) [] d)"
proof -
  have "i < fst (last segs) + 1" if "i \<in> fst ` set segs" for i
    using that assms(1) segs_le_last [of i _ segs] by (force simp: dir_log_def)
  then show ?thesis using assms(2) by (force simp: dir_clean_def update_conv' seg_parse_def)
qed

lemma load_active_log:
  assumes ok: "sg_open_ok env" and log: "dir_log (pre @ [(a, rs)]) d" "dir_clean (pre @ [(a, rs)]) d"
    and rec: "recovered pre d th (lru_new cap) e"
  obtains e3 where "load_active env a e = Inr e3" and "sg_log (pre @ [(a, rs)]) e3" and "dir_clean (pre @ [(a, rs)]) (sg_dir e3)"
    and "sg_threshold e3 = th"
proof -
  let ?segs = "pre @ [(a, rs)]" and ?p = "segment_path a"
  have d: "sg_dir e = d" using rec by (simp add: recovered_def)
  obtain tail where f: "map_of d ?p = Some (log_bytes rs @ tail)" and tail: "seg_parse tail = None"
    using log(2) by (auto simp: dir_clean_def)
  have content: "file_of d ?p = log_bytes rs @ tail" using f by (simp add: file_of_def)
  have recs: "\<And>r. r \<in> set rs \<Longrightarrow> seg_rec r" using log(1) by (auto simp: dir_log_def seg_file_def)
  have opn: "soe_open_ok env a" "soe_fstat_ok env a" "soe_faults env a = no_faults"
    using ok by (simp_all add: sg_open_ok_def)
  let ?kd = "foldl (apply_hint a) (sg_keydir e) (hints_of (placed a 0 rs))"
  define d' where "d' = (if soe_ftruncate_ok env then AList.update ?p (log_bytes rs) d else d)"
  define e3 where "e3 = e\<lparr>sg_segment_fds := List.insert a (sg_segment_fds e), sg_active_id := a, sg_keydir := ?kd,
      sg_full_scan_recoveries := sg_full_scan_recoveries e + 1, sg_active_offset := length (log_bytes rs),
      sg_active_hints := hints_of (placed a 0 rs), sg_dir := d'\<rparr>"
  have "seg_scan_loop no_faults (log_bytes rs @ tail) a 0 (sg_keydir e) (Some [])
      = (length (log_bytes rs), ?kd, Some (hints_of (placed a 0 rs)))"
    using seg_scan_log [OF recs tail, of rs "[]" a "sg_keydir e" "Some []"] by simp
  then have run: "load_active env a e = Inr e3"
    using opn f by (simp add: load_active_def recover_segment_via_full_scan_def Let_def d content d'_def e3_def)
  have l: "dir_log ?segs d'"
    using dir_log_append [OF log(1), of "[]" "[]"] log(1) by (simp add: d'_def)
  have c: "dir_clean ?segs d'"
  proof -
    have "a \<notin> fst ` set pre" using log(1) by (auto simp: dir_log_def sorted_wrt_append)
    then show ?thesis using log(2) by (force simp: dir_clean_def d'_def update_conv' seg_parse_def)
  qed
  have "recovered ?segs d th (lru_new cap) (e\<lparr>sg_segment_fds := List.insert a (sg_segment_fds e), sg_keydir := ?kd,
      sg_hint_recoveries := sg_hint_recoveries e, sg_full_scan_recoveries := sg_full_scan_recoveries e + 1\<rparr>)"
    by (rule recovered_step [OF rec])
  then have "sg_log ?segs e3" "sg_threshold e3 = th"
    using l coherent_new by (simp_all add: sg_log_def recovered_def e3_def)
  then show thesis using that [of e3] run c by (simp add: e3_def)
qed

lemma recover_active_log:
  assumes ok: "sg_open_ok env" and log: "dir_log (pre @ [(a, rs)]) d" "dir_clean (pre @ [(a, rs)]) d"
    and rec: "recovered pre d th (lru_new cap) e"
  obtains e' segs' where "recover_active env a e = Inr e'" and "sg_log segs' e'"
    and "segs' = pre @ [(a, rs)] \<or> segs' = pre @ [(a, rs), (a + 1, [])]" and "dir_clean segs' (sg_dir e')"
proof -
  let ?segs = "pre @ [(a, rs)]"
  obtain e3 where e3: "load_active env a e = Inr e3" and log3: "sg_log ?segs e3" and c: "dir_clean ?segs (sg_dir e3)"
    and th: "sg_threshold e3 = th"
    by (rule load_active_log [OF ok log rec])
  have a: "sg_active_id e3 = a" using log3 by (simp add: sg_log_def)
  show thesis
  proof (cases "th \<le> sg_active_offset e3")
    case False
    then show thesis using that [of e3 ?segs] e3 log3 c th by (simp add: recover_active_def)
  next
    case True
    let ?s = "seal_active_segment (soe_hint env) e3"
    have seal: "sg_log ?segs ?s" using sg_seal_log [OF log3] True th by simp
    have id: "sg_active_id ?s = a" by (simp add: seal_active_segment_def a)
    obtain e4 where e4: "open_new_active_segment (soe_create_ok env) (a + 1) ?s = (e4, None)"
      using ok by (simp add: open_new_active_segment_def sg_open_ok_def Let_def)
    have log4: "sg_log (?segs @ [(a + 1, [])]) e4"
      using sg_open_new_log(1) [OF seal, of "soe_create_ok env" e4] e4 by (simp add: id)
    have none: "map_of (sg_dir ?s) (segment_path (a + 1)) = None"
      using dir_log_new_segment(1) [of ?segs "sg_dir ?s"] seal by (simp add: sg_log_def)
    have d4: "sg_dir e4 = AList.update (segment_path (a + 1)) [] (sg_dir ?s)"
      using e4 none by (auto simp: open_new_active_segment_def Let_def split: if_splits)
    have "dir_clean ?segs (sg_dir ?s)"
      using write_hint_file_clean [OF c] by (simp add: seal_active_segment_def)
    from new_segment_clean [OF _ this] have c4: "dir_clean (?segs @ [(a + 1, [])]) (sg_dir e4)"
      using seal by (simp add: d4 sg_log_def)
    show thesis using that [of e4 "?segs @ [(a + 1, [])]"] e3 True th e4 log4 c4 by (simp add: recover_active_def)
  qed
qed

lemma dir_fits_sub: "dir_fits d \<Longrightarrow> set d' \<subseteq> set d \<Longrightarrow> dir_fits d'"
  by (auto simp: dir_fits_def)

lemma set_unlink: "set (unlink ok name d) \<subseteq> set d"
  by (auto simp: unlink_def AList.delete_eq)

lemma set_foldl_sub:
  assumes "\<And>d x. set (f d x) \<subseteq> set d"
  shows "set (foldl f d xs) \<subseteq> set (d :: directory)"
proof (induction xs arbitrary: d)
  case (Cons x xs)
  show ?case using subset_trans [OF Cons.IH [of "f d x"] assms] by simp
qed simp

lemma set_remove_stale: "set (remove_stale_temp_files env d) \<subseteq> set d"
  unfolding remove_stale_temp_files_def by (rule set_foldl_sub) (use set_unlink in auto)

lemma set_remove_segments: "set (foldl (remove_segment ok) d ids) \<subseteq> set d"
  by (rule set_foldl_sub) (metis remove_segment_def set_unlink subset_trans)

lemma sg_open_log:
  assumes ok: "sg_open_ok env" and log: "dir_log segs d" "dir_clean segs d" and fits: "dir_fits d"
    and bound: "fst (last segs) < 10 ^ 19"
  obtains e segs' where "sg_open env th cap d = Inr e" and "sg_log segs' e" and "dir_clean segs' (sg_dir e)"
    and "segs_placed segs' = segs_placed segs"
proof -
  define d0 where "d0 = remove_stale_temp_files env d"
  have log0: "dir_log segs d0" "dir_clean segs d0" using remove_stale_log [OF log] by (simp_all add: d0_def)
  obtain stale where ids: "found_ids d0 = stale @ map fst segs" and stale: "\<And>i. i \<in> set stale \<Longrightarrow> superseded_id segs i"
    using found_ids_split [OF log0(1) bound] by blast
  have first: "sg_first env d0 (stale @ map fst segs) = length stale"
    by (rule sg_first_live [OF ok log0 stale])
  define d1 where "d1 = foldl (remove_segment (soe_unlink_ok env)) d0 stale"
  have sorted: "sorted_wrt (<) (map fst segs)" and ne: "segs \<noteq> []" using log(1) by (simp_all add: dir_log_def)
  have "fst (hd segs) \<le> i" if "i \<in> fst ` set segs" for i
    using that sorted by (cases segs) (auto intro: less_imp_le)
  then have "set stale \<inter> fst ` set segs = {}" using stale by (fastforce simp: superseded_id_def)
  then have log1: "dir_log segs d1" "dir_clean segs d1"
    using remove_segments_log [OF log0(1)] log0(2) by (simp_all add: d1_def)
  have fits1: "dir_fits d1"
    using dir_fits_sub [OF fits] set_remove_stale [of env d] set_remove_segments [of "soe_unlink_ok env" d0 stale]
    by (simp add: d0_def d1_def)
  obtain pre a rs where segs: "segs = pre @ [(a, rs)]" using ne by (metis append_butlast_last_id surj_pair)
  define e0 where "e0 = \<lparr>sg_dir = d, sg_threshold = th, sg_active_id = 0, sg_active_offset = 0, sg_active_hints = [],
         sg_segment_fds = [], sg_keydir = [], sg_cache = lru_new cap, sg_hint_recoveries = 0,
         sg_full_scan_recoveries = 0, sg_cache_hits = 0, sg_cache_misses = 0\<rparr>"
  have e0: "sg_dir e0 = d" by (simp add: e0_def)
  have rec0: "recovered [] d1 th (lru_new cap) (e0\<lparr>sg_dir := d1\<rparr>)" by (simp add: recovered_def e0_def)
  have "set pre \<subseteq> set segs" by (auto simp: segs)
  then obtain e1 where e1: "recover_sealed env (map fst pre) (e0\<lparr>sg_dir := d1\<rparr>) = Inr e1"
    and rec1: "recovered pre d1 th (lru_new cap) e1"
    using recover_sealed_log [OF ok log1 fits1 _ rec0, of pre] by auto
  obtain e2 segs' where e2: "recover_active env a e1 = Inr e2" "sg_log segs' e2" "dir_clean segs' (sg_dir e2)"
    and segs': "segs' = segs \<or> segs' = pre @ [(a, rs), (a + 1, [])]"
    using recover_active_log [OF ok log1 [unfolded segs] rec1] segs by metis
  have ids': "sort (List.map_filter parse_segment_name (list_dir_names (soe_opendir2_ok env) d0)) = stale @ map fst segs"
    using ids ok by (simp add: found_ids_def list_dir_names_def sg_open_ok_def)
  have "sg_open env th cap d = discover_and_recover env e0"
    using ok by (simp add: sg_open_def e0_def sg_open_ok_def)
  also have "\<dots> = recover_active env a e1"
    using e1 first by (simp add: discover_and_recover_def Let_def e0 d0_def [symmetric] ids' d1_def [symmetric] segs butlast_append)
  also have "\<dots> = Inr e2" by (rule e2(1))
  finally show thesis
    by (rule that [OF _ e2(2,3)]) (use segs' segs in auto)
qed

text \<open>A fresh directory.\<close>

lemma sg_open_fresh:
  assumes "soe_mkdir_ok env" and "soe_create_ok env"
  obtains e where "sg_open env th cap [] = Inr e" and "sg_log [(0, [])] e" and "dir_clean [(0, [])] (sg_dir e)"
    and "sg_dir e = [(segment_path 0, [])]"
proof -
  define e where "e = \<lparr>sg_dir = [(segment_path 0, [])], sg_threshold = th, sg_active_id = 0, sg_active_offset = 0, sg_active_hints = [],
         sg_segment_fds = [0], sg_keydir = [], sg_cache = lru_new cap, sg_hint_recoveries = 0,
         sg_full_scan_recoveries = 0, sg_cache_hits = 0, sg_cache_misses = 0\<rparr>"
  have "sg_open env th cap [] = Inr e"
    using assms by (simp add: sg_open_def discover_and_recover_def Let_def remove_stale_temp_files_def list_dir_names_def
        List.map_filter_def open_new_active_segment_def e_def)
  moreover have dl: "dir_log [(0, [])] [(segment_path 0, [])]"
    by (auto simp: dir_log_def seg_file_def hint_ok_def dest: parse_segment_path_id)
  then have "sg_log [(0, [])] e"
    using coherent_new by (simp add: sg_log_def e_def)
  moreover have "dir_clean [(0, [])] (sg_dir e)" by (simp add: dir_clean_def e_def seg_parse_def)
  ultimately show thesis using that by (simp add: e_def)
qed

end
