(* ===== verification/Segmented_Properties.thy ===== *)
theory Segmented_Properties
  imports Segmented_Recovery
begin

text \<open>
  The properties of the segmented engine: it refines an abstract map, its invariant holds in every
  reachable state, a restart and a crash at any point of \<open>put\<close> or \<open>compact\<close> keep the contents,
  hints are equivalent to scans, and compaction of an intact engine does not abort.
\<close>

section \<open>Clean states\<close>

definition sg_clean :: "segmented_engine \<Rightarrow> bool" where
  "sg_clean e \<longleftrightarrow> (\<exists>segs. sg_log segs e \<and> dir_clean segs (sg_dir e))"

text \<open>Nothing follows the write offset of the active segment.\<close>

definition sg_tight :: "segmented_engine \<Rightarrow> bool" where
  "sg_tight e \<longleftrightarrow> length (file_of (sg_dir e) (segment_path (sg_active_id e))) = sg_active_offset e"

text \<open>File sizes and ids within the range of the fields that store them.\<close>

definition sg_fits :: "segmented_engine \<Rightarrow> bool" where
  "sg_fits e \<longleftrightarrow> dir_fits (sg_dir e) \<and> sg_active_id e < 10 ^ 19"

lemma sg_count_le: "sg_log segs e \<Longrightarrow> sg_segment_count e \<le> length segs"
  unfolding sg_log_def sg_segment_count_def by (metis card_image_le card_length distinct_card finite_set le_trans)

lemma sg_clean_inv: "sg_clean e \<Longrightarrow> sg_inv e"
  by (auto simp: sg_clean_def sg_inv_def)

lemma sg_tight_file:
  assumes "sg_log segs e" and "sg_tight e" and "segs = init @ [(a, rs)]"
  shows "map_of (sg_dir e) (segment_path a) = Some (log_bytes rs)"
proof -
  have d: "dir_log segs (sg_dir e)" and a: "sg_active_id e = a" "sg_active_offset e = length (log_bytes rs)"
    using assms(1) by (simp_all add: sg_log_def assms(3))
  obtain t where "seg_file (sg_dir e) a rs t" by (rule dir_log_file [OF d, of a rs]) (simp add: assms(3))
  then have m: "map_of (sg_dir e) (segment_path a) = Some (log_bytes rs @ t)" by (simp add: seg_file_def)
  then have "t = []" using assms(2) a by (simp add: sg_tight_def file_of_def)
  with m show ?thesis by simp
qed

lemma seg_parse_torn: "seg_rec r \<Longrightarrow> n < rec_len r \<Longrightarrow> seg_parse (take n (rec_bytes r)) = None"
  using parse_record_torn [of body_value_len r n] by (simp add: seg_rec_def seg_parse_def)

text \<open>Any number of bytes of one more record on the active segment.\<close>

lemma sg_partial_write:
  fixes n :: nat
  assumes log: "sg_log segs e" and c: "dir_clean segs (sg_dir e)" and t: "sg_tight e"
    and r: "seg_rec r" "lr_vlen r \<noteq> COMPACTION_BASE"
  defines "d' \<equiv> AList.update (segment_path (sg_active_id e))
      (write_at (file_of (sg_dir e) (segment_path (sg_active_id e))) (sg_active_offset e) (take n (rec_bytes r))) (sg_dir e)"
  obtains segs' where "dir_log segs' d'" and "dir_clean segs' d'" and "fst (last segs') = sg_active_id e"
    and "segs_placed segs' = (if n < rec_len r then segs_placed segs
           else segs_placed segs @ [(sg_active_id e, sg_active_offset e, r)])"
proof -
  have d: "dir_log segs (sg_dir e)" and ne: "segs \<noteq> []" using log by (auto simp: sg_log_def dir_log_def)
  obtain init a rs where segs: "segs = init @ [(a, rs)]" using ne by (metis append_butlast_last_id surj_pair)
  have a: "sg_active_id e = a" "sg_active_offset e = length (log_bytes rs)" using log by (simp_all add: sg_log_def segs)
  have f: "file_of (sg_dir e) (segment_path a) = log_bytes rs" using sg_tight_file [OF log t segs] by (simp add: file_of_def)
  have noa: "a \<notin> fst ` set init" using d by (auto simp: dir_log_def segs sorted_wrt_append)
  have d': "d' = AList.update (segment_path a) (log_bytes rs @ take n (rec_bytes r)) (sg_dir e)"
    by (simp add: d'_def a f)
  have m: "map_of d' = (map_of (sg_dir e))(segment_path a \<mapsto> log_bytes rs @ take n (rec_bytes r))"
    by (simp add: d' update_conv')
  have rest: "\<exists>tail. map_of d' (segment_path i) = Some (log_bytes rs' @ tail) \<and> seg_parse tail = None"
    if "(i, rs') \<in> set init" for i rs'
    using c that noa by (force simp: dir_clean_def segs m)
  show thesis
  proof (cases "n < rec_len r")
    case True
    have "dir_log segs d'"
      using dir_log_append [of init a rs "sg_dir e" "[]" "take n (rec_bytes r)"] d by (simp add: segs d')
    moreover have "dir_clean segs d'"
      using rest seg_parse_torn [OF r(1) True] by (auto simp: dir_clean_def segs m)
    ultimately show thesis using that [of segs] True by (simp add: segs a)
  next
    case False
    have "dir_log (init @ [(a, rs @ [r])]) d'"
      using dir_log_append [of init a rs "sg_dir e" "[r]" "[]"] d r False by (simp add: segs d')
    moreover have "dir_clean (init @ [(a, rs @ [r])]) d'"
      using rest False by (auto simp: dir_clean_def m seg_parse_def)
    ultimately show thesis
      using that [of "init @ [(a, rs @ [r])]"] False by (simp add: segs a placed_append)
  qed
qed

text \<open>
  Rolling, when the new segment can be created: nothing happens, or the engine has one more segment, still empty
  and without a hint, and the old segments as they were.
\<close>

lemma sg_roll_shape:
  assumes log: "sg_log segs e" and c: "dir_clean segs (sg_dir e)" and t: "sg_tight e" and o: "pe_open_ok env"
  obtains e' where "maybe_roll_segment env e = (e', None)"
    and "sg_active_offset e < sg_threshold e \<and> e' = e \<or>
      sg_threshold e \<le> sg_active_offset e \<and> sg_active_id e' = sg_active_id e + 1 \<and> sg_active_offset e' = 0 \<and>
      sg_log (segs @ [(sg_active_id e + 1, [])]) e' \<and> dir_clean (segs @ [(sg_active_id e + 1, [])]) (sg_dir e') \<and> sg_tight e' \<and>
      map_of (sg_dir e) (segment_path (sg_active_id e + 1)) = None \<and>
      map_of (sg_dir e') (hint_path (sg_active_id e + 1)) = None \<and>
      (\<forall>i \<in> fst ` set segs. map_of (sg_dir e') (segment_path i) = map_of (sg_dir e) (segment_path i))"
proof (cases "sg_threshold e \<le> sg_active_offset e")
  case False
  then show thesis using that [of e] by (simp add: maybe_roll_segment_def)
next
  case True
  let ?s = "seal_active_segment (pe_hint env) e"
  let ?b = "sg_active_id e + 1"
  have seal: "sg_log segs ?s" by (rule sg_seal_log [OF log True])
  have id: "sg_active_id ?s = sg_active_id e" by (simp add: seal_active_segment_def)
  have ds: "dir_log segs (sg_dir ?s)" "dir_log segs (sg_dir e)" using seal log by (simp_all add: sg_log_def)
  have b: "?b = fst (last segs) + 1" using log by (simp add: sg_log_def)
  note new = dir_log_new_segment [OF ds(1), folded b]
  define e' where "e' = ?s\<lparr>sg_dir := AList.update (segment_path ?b) [] (sg_dir ?s),
      sg_segment_fds := List.insert ?b (sg_segment_fds ?s), sg_active_id := ?b, sg_active_offset := 0, sg_active_hints := []\<rparr>"
  have o': "open_new_active_segment (pe_open_ok env) (sg_active_id ?s + 1) ?s = (e', None)"
    using o new(1) by (simp add: open_new_active_segment_def e'_def Let_def id)
  then have roll: "maybe_roll_segment env e = (e', None)" using True by (simp add: maybe_roll_segment_def id)
  have log': "sg_log (segs @ [(?b, [])]) e'" using sg_open_new_log(1) [OF seal o'] by (simp add: id)
  have cs: "dir_clean segs (sg_dir ?s)" using write_hint_file_clean [OF c] by (simp add: seal_active_segment_def)
  have less: "i \<noteq> ?b" if "i \<in> fst ` set segs" for i
  proof -
    have "i \<le> fst (last segs)" using that segs_le_last [of i _ segs] ds by (auto simp: dir_log_def)
    then show ?thesis using b by linarith
  qed
  then have c': "dir_clean (segs @ [(?b, [])]) (sg_dir e')"
    using cs by (force simp: dir_clean_def e'_def update_conv' seg_parse_def)
  have "map_of (sg_dir ?s) (hint_path ?b) = None"
    using dir_log_hint_name [OF ds(1), of ?b] b by fastforce
  then have hint: "map_of (sg_dir e') (hint_path ?b) = None" by (simp add: e'_def update_conv')
  have "map_of (sg_dir ?s) (segment_path i) = map_of (sg_dir e) (segment_path i)" for i
    by (simp add: seal_active_segment_def write_hint_file_segment)
  then have same: "\<forall>i \<in> fst ` set segs. map_of (sg_dir e') (segment_path i) = map_of (sg_dir e) (segment_path i)"
    using less by (auto simp: e'_def update_conv')
  have tight: "sg_tight e'" by (simp add: e'_def sg_tight_def file_of_def update_conv')
  have "sg_active_id e' = ?b" "sg_active_offset e' = 0" by (simp_all add: e'_def)
  then show thesis
    by (intro that [OF roll]) (use True log' c' hint same tight dir_log_new_segment(1) [OF ds(2), folded b] in simp)
qed

lemma sg_roll_clean:
  assumes log: "sg_log segs e" and c: "dir_clean segs (sg_dir e)" and t: "sg_tight e" and o: "pe_open_ok env"
  obtains e' segs' where "maybe_roll_segment env e = (e', None)" and "sg_log segs' e'"
    and "dir_clean segs' (sg_dir e')" and "sg_tight e'" and "segs_placed segs' = segs_placed segs"
    and "sg_active_offset e' < sg_threshold e' \<or> sg_active_offset e' = 0"
proof (rule sg_roll_shape [OF assms], elim disjE, goal_cases)
  case (1 e')
  then show thesis using that [of e segs] log c t by simp
next
  case (2 e')
  then show thesis using that [of e' "segs @ [(sg_active_id e + 1, [])]"] by simp
qed

section \<open>Restart and crashes\<close>

lemma sg_reopen:
  assumes log: "dir_log segs d" "dir_clean segs d" and ok: "sg_open_ok env" and fits: "dir_fits d" "fst (last segs) < 10 ^ 19"
  shows "\<exists>e. sg_open env th cap d = Inr e \<and> sg_clean e \<and> sg_abs e = values_of (segs_placed segs)"
proof -
  obtain e segs' where "sg_open env th cap d = Inr e" "sg_log segs' e" "dir_clean segs' (sg_dir e)"
    "segs_placed segs' = segs_placed segs"
    by (rule sg_open_log [OF ok log fits])
  then show ?thesis using sg_log_abs [of segs' e] by (auto simp: sg_clean_def)
qed

lemma sg_restart:
  assumes "sg_clean e" and "sg_fits e" and "sg_open_ok env"
  shows "\<exists>e'. sg_open env th cap (sg_dir e) = Inr e' \<and> sg_clean e' \<and> sg_abs e' = sg_abs e"
proof -
  obtain segs where log: "sg_log segs e" and c: "dir_clean segs (sg_dir e)" using assms(1) by (auto simp: sg_clean_def)
  then show ?thesis
    using sg_reopen [OF _ c assms(3), of th cap] assms(2) sg_log_abs [OF log] by (auto simp: sg_log_def sg_fits_def)
qed

text \<open>
  A restart loses nothing and invents nothing: from any clean state (no unscanned bytes behind
  a segment), opening the directory again succeeds, whatever the threshold, the cache size, the
  hints present and the outcome of removing stale files, and the engine has the same contents.
\<close>

theorem sg_restart_contents:
  assumes "sg_clean e" and "sg_fits e" and "sg_open_ok env"
  shows "\<exists>e'. sg_open env th cap (sg_dir e) = Inr e' \<and> sg_clean e' \<and> sg_abs e' = sg_abs e"
  using assms by (rule sg_restart)

definition sg_ok_env :: sg_open_env where
  "sg_ok_env =
     \<lparr>soe_mkdir_ok = True, soe_opendir1_ok = True, soe_opendir2_ok = True, soe_unlink_ok = \<lambda>_. True,
      soe_marker_open_ok = \<lambda>_. True, soe_open_ok = \<lambda>_. True, soe_fstat_ok = \<lambda>_. True,
      soe_faults = \<lambda>_. no_faults, soe_hint_open_ok = \<lambda>_. True, soe_hint_read = \<lambda>_ _. Some 4096,
      soe_ftruncate_ok = True,
      soe_hint = \<lparr>he_open_ok = True, he_write = \<lambda>_. Some 4096, he_fsync_ok = True, he_rename_ok = True,
                   he_unlink_ok = True\<rparr>,
      soe_create_ok = True\<rparr>"

lemma sg_ok_env_ok: "sg_open_ok sg_ok_env"
  by (simp add: sg_open_ok_def sg_ok_env_def)

lemma sg_fresh_example:
  obtains e where "sg_open sg_ok_env th cap [] = Inr e" and "sg_clean e" and "sg_fits e" and "sg_tight e"
    and "sg_abs e = Map.empty" and "sg_dir e = [(segment_path 0, [])]"
proof -
  obtain e where e: "sg_open sg_ok_env th cap [] = Inr e" "sg_log [(0, [])] e" "dir_clean [(0, [])] (sg_dir e)"
    "sg_dir e = [(segment_path 0, [])]"
    by (rule sg_open_fresh [of sg_ok_env]) (simp_all add: sg_ok_env_def)
  have "sg_fits e" "sg_tight e"
    using e(2) by (simp_all add: sg_fits_def dir_fits_def sg_tight_def e(4) sg_log_def file_of_def)
  moreover have "sg_clean e" using e(2,3) by (auto simp: sg_clean_def)
  ultimately show thesis using that e(1,4) sg_log_abs [OF e(2)] by simp
qed

theorem sg_restart_contents_witness:
  "\<exists>e e'. sg_open sg_ok_env 64 10 [] = Inr e \<and> sg_open sg_ok_env 128 5 (sg_dir e) = Inr e' \<and> sg_abs e' = Map.empty"
proof -
  obtain e where e: "sg_open sg_ok_env 64 10 [] = Inr e" "sg_clean e" "sg_fits e" "sg_tight e" "sg_abs e = Map.empty"
    by (rule sg_fresh_example)
  then show ?thesis using sg_restart_contents [OF e(2,3) sg_ok_env_ok, of 128 5] by auto
qed

lemma sg_compact_crash:
  assumes "sg_clean e" and "sce_unlink_ok cenv (hint_path (last (sg_sealed e)))"
    and "sg_compact failpoint cenv e = Inl d" and "dir_fits d" and "sg_active_id e < 10 ^ 19" and "sg_open_ok env"
  shows "\<exists>e'. sg_open env th cap d = Inr e' \<and> sg_clean e' \<and> sg_abs e' = sg_abs e"
proof -
  obtain segs where log: "sg_log segs e" and c: "dir_clean segs (sg_dir e)" using assms(1) by (auto simp: sg_clean_def)
  have "same_contents segs (sg_dir e) d"
    using sg_compact_log [OF log assms(2), of failpoint] assms(3) by (simp add: compact_result_def)
  then obtain segs' where s: "dir_log segs' d" "dir_clean segs' d"
    "values_of (segs_placed segs') = values_of (segs_placed segs)" "fst (last segs') = fst (last segs)"
    using c by (auto simp: same_contents_def)
  then show ?thesis
    using sg_reopen [OF s(1,2) assms(6,4), of th cap] assms(5) log sg_log_abs [OF log] by (auto simp: sg_log_def)
qed




section \<open>Compaction completes\<close>

text \<open>Every call of the compaction succeeds and a write is complete up to the size of any file.\<close>

definition sg_compact_ok :: "sg_compact_env \<Rightarrow> segmented_engine \<Rightarrow> bool" where
  "sg_compact_ok cenv e \<longleftrightarrow>
     sce_open_ok cenv \<and> sce_fsync_ok cenv \<and> sce_rename_ok cenv \<and> (\<forall>i. sce_faults cenv i = no_faults) \<and>
     (\<forall>name. sce_unlink_ok cenv name) \<and>
     (\<forall>off. \<exists>n. sce_write cenv off = Some n \<and> HEADER_SIZE \<le> n \<and> (\<forall>(name, f) \<in> set (sg_dir e). length f \<le> n))"

lemma sg_copy_loop_completes:
  assumes log: "sg_log segs e" and ok: "sg_compact_ok env e" and "list_all2 (item_rec segs) items recs"
  shows "\<exists>tmp' x. sg_copy_loop env e tmp (length tmp) hints items = (tmp', Some x)"
  using assms(3)
proof (induction items recs arbitrary: tmp hints rule: list_all2_induct)
  case (Cons item items r recs)
  obtain k en where i: "item = (k, en)" by (metis surj_pair)
  note c = copy_item [OF log Cons.hyps(1) [unfolded i]]
  let ?f = "file_of (sg_dir e) (segment_path (ke_segment_id en))"
  obtain rs where "(ke_segment_id en, rs) \<in> set segs" using c(2) log by (auto simp: sg_log_def)
  then obtain tail where "seg_file (sg_dir e) (ke_segment_id en) rs tail"
    using log by (metis dir_log_file sg_log_def)
  then have mem: "(segment_path (ke_segment_id en), ?f) \<in> set (sg_dir e)"
    by (auto simp: seg_file_def file_of_def intro: map_of_SomeD)
  have "length (rec_bytes r) \<le> length ?f" by (subst c(4) [symmetric]) simp
  moreover obtain n where n: "sce_write env (length tmp) = Some n" "\<forall>(name, f) \<in> set (sg_dir e). length f \<le> n"
    using ok unfolding sg_compact_ok_def by blast
  ultimately have "rec_len r \<le> n" using mem by fastforce
  moreover have nf: "sce_faults env (ke_segment_id en) = no_faults" using ok by (simp add: sg_compact_ok_def)
  moreover have "decode_header (rec_bytes r) = (crc32 (drop 4 (rec_bytes r)), ke_timestamp en, of_nat (length k), ke_value_size en)"
    using decode_rec_bytes [of r] c(5-7) by simp
  moreover have "take (length k) (drop HEADER_SIZE (rec_bytes r)) = k"
    using c(5) by (simp add: rec_bytes_def Let_def HEADER_SIZE_def)
  moreover have "unat (of_nat (length k) :: u32) = length k" using c(8) by (simp add: unat_of_nat)
  moreover have "\<not> ke_value_pos en < HEADER_SIZE + length k" using c(1) by simp
  ultimately have "sg_copy_loop env e tmp (length tmp) hints (item # items) =
      sg_copy_loop env e (tmp @ rec_bytes r) (length (tmp @ rec_bytes r))
        (hints @ [\<lparr>hr_key = k, hr_value_pos = length tmp + HEADER_SIZE + length k,
           hr_value_size = ke_value_size en, hr_timestamp = ke_timestamp en\<rparr>]) items"
    using n(1) c(2,4) by (simp add: i Let_def c(3) pwrite_def min_absorb2)
  then show ?case using Cons.IH by metis
qed simp

lemma sg_merge_completes:
  assumes log: "sg_log segs e" and ok: "sg_compact_ok env e"
  shows "\<exists>f x. sg_merge env e = (f, Some x)"
proof -
  have "segs \<noteq> []" using log by (simp add: sg_log_def dir_log_def)
  then obtain init a rs where segs: "segs = init @ [(a, rs)]" by (metis append_butlast_last_id surj_pair)
  obtain recs where items: "list_all2 (item_rec segs) (sg_items e) recs"
    by (rule sg_items_live [OF log [unfolded segs]]) (simp add: segs)
  let ?m = "marker_rec (sce_now env)"
  obtain n where n: "sce_write env 0 = Some n" "HEADER_SIZE \<le> n" using ok unfolding sg_compact_ok_def by blast
  have "rec_len ?m = HEADER_SIZE" by (simp add: rec_len_def)
  then have "write_record (sce_write env 0) [] 0 [] [] COMPACTION_BASE (sce_now env)
      = (rec_bytes ?m, Written HEADER_SIZE (length (rec_bytes ?m)))"
    using n write_at_end [of "[]" "rec_bytes ?m"] by (simp add: write_record_bytes [OF marker_rec(2)])
  then show ?thesis
    using sg_copy_loop_completes [OF log ok items, of "rec_bytes ?m" "[]"] by (auto simp: sg_merge_def)
qed

lemma sg_compact_ok_unlink: "sg_compact_ok cenv e \<Longrightarrow> sce_unlink_ok cenv name"
  by (simp add: sg_compact_ok_def)

lemma sg_compact_reaches:
  assumes log: "sg_log segs e" and ok: "sg_compact_ok cenv e"
  shows "failpoint \<notin> {1..6} \<Longrightarrow> \<exists>e'. sg_compact failpoint cenv e = Inr (e', True)"
    and "failpoint \<in> {1, 2, 3, 5, 6} \<Longrightarrow> 2 \<le> length segs \<Longrightarrow> \<exists>d. sg_compact failpoint cenv e = Inl d"
proof -
  obtain f x where m: "sg_merge cenv e = (f, Some x)" using sg_merge_completes [OF log ok] by blast
  obtain off hs where x: "x = (off, hs)" by (metis surj_pair)
  have env: "sce_open_ok cenv" "sce_fsync_ok cenv" "sce_rename_ok cenv" using ok by (simp_all add: sg_compact_ok_def)
  show "failpoint \<notin> {1..6} \<Longrightarrow> \<exists>e'. sg_compact failpoint cenv e = Inr (e', True)"
    by (cases "sg_sealed e = []") (auto simp: sg_compact_def Let_def m x env)
  have "segs \<noteq> []" using log by (simp add: sg_log_def dir_log_def)
  then obtain init a rs where segs: "segs = init @ [(a, rs)]" by (metis append_butlast_last_id surj_pair)
  show "\<exists>d. sg_compact failpoint cenv e = Inl d" if "failpoint \<in> {1, 2, 3, 5, 6}" and "2 \<le> length segs"
  proof -
    have "sg_sealed e \<noteq> []" using sg_sealed_ids [OF log [unfolded segs]] that(2) by (auto simp: segs)
    then show ?thesis using that(1) by (auto simp: sg_compact_def Let_def m x env)
  qed
qed

text \<open>
  C17: Compaction makes progress: on an engine whose files are intact no check of the copy loop
  rejects a record, so when the system calls succeed \<open>compact\<close> returns true; the contents are the
  same and at most two segments are left.
\<close>

theorem sg_compact_completes:
  assumes "sg_inv e" and "sg_compact_ok cenv e" and "failpoint \<notin> {1..6}"
  shows "\<exists>e'. sg_compact failpoint cenv e = Inr (e', True) \<and> sg_inv e' \<and> sg_abs e' = sg_abs e \<and> sg_segment_count e' \<le> 2"
proof -
  obtain segs where log: "sg_log segs e" using assms(1) by (auto simp: sg_inv_def)
  obtain e' where run: "sg_compact failpoint cenv e = Inr (e', True)"
    using sg_compact_reaches(1) [OF log assms(2,3)] by blast
  obtain segs' where s: "sg_log segs' e'" "values_of (segs_placed segs') = values_of (segs_placed segs)"
      "length segs' = min 2 (length segs)"
    using sg_compact_log [OF log sg_compact_ok_unlink [OF assms(2)], of failpoint] run by (auto simp: compact_result_def)
  show ?thesis
    using sg_count_le [OF s(1)] run s sg_log_abs [OF log] sg_log_abs [OF s(1)] by (auto simp: sg_inv_def)
qed

section \<open>An engine with a sealed segment\<close>

definition sg_two :: segmented_engine where
  "sg_two =
     \<lparr>sg_dir = [(segment_path 0, rec_bytes (put_rec 1 [107] [118])), (segment_path 1, [])],
      sg_threshold = 1, sg_active_id = 1, sg_active_offset = 0, sg_active_hints = [], sg_segment_fds = [1, 0],
      sg_keydir = [([107], \<lparr>ke_segment_id = 0, ke_value_pos = 21, ke_value_size = 1, ke_timestamp = 1\<rparr>)],
      sg_cache = lru_new 10, sg_hint_recoveries = 0, sg_full_scan_recoveries = 1, sg_cache_hits = 0, sg_cache_misses = 0\<rparr>"

definition sg_ok_cenv :: sg_compact_env where
  "sg_ok_cenv =
     \<lparr>sce_now = 5, sce_open_ok = True, sce_faults = \<lambda>_. no_faults, sce_write = \<lambda>_. Some 4096, sce_fsync_ok = True,
      sce_unlink_ok = \<lambda>_. True, sce_rename_ok = True, sce_hint = soe_hint sg_ok_env\<rparr>"

lemma put_allowed_example: "put_allowed [107] [118]"
  by (simp add: put_allowed_def)

lemma sg_two_log: "sg_log [(0, [put_rec 1 [107] [118]]), (1, [])] sg_two"
proof -
  note nm = put_vlen [OF put_allowed_example, simplified]
  have "dir_log [(0, [put_rec 1 [107] [118]]), (1, [])] (sg_dir sg_two)"
    using seg_rec_put [OF put_allowed_example, of 1]
    by (auto simp: dir_log_def sg_two_def seg_file_def hint_ok_def begins_marker_def superseded_id_def
        dest: parse_segment_path_id)
  moreover have "index_of (segs_placed [(0, [put_rec 1 [107] [118]]), (1, [])])
      = [[107] \<mapsto> \<lparr>ke_segment_id = 0, ke_value_pos = 21, ke_value_size = 1, ke_timestamp = 1\<rparr>]"
    using nm by (simp add: index_of_def place_step_def place_entry_def HEADER_SIZE_def Let_def)
  ultimately show ?thesis
    using coherent_new by (auto simp: sg_log_def) (auto simp: sg_two_def)
qed

lemma sg_two_facts:
  shows "sg_inv sg_two" and "sg_clean sg_two" and "sg_fits sg_two" and "sg_tight sg_two"
    and "sg_abs sg_two = [[107] \<mapsto> [118]]" and "sg_compact_ok sg_ok_cenv sg_two"
proof -
  have "dir_clean [(0, [put_rec 1 [107] [118]]), (1, [])] (sg_dir sg_two)"
    by (simp add: dir_clean_def sg_two_def seg_parse_def)
  then show "sg_clean sg_two" using sg_two_log by (auto simp: sg_clean_def)
  then show "sg_inv sg_two" by (rule sg_clean_inv)
  show "sg_fits sg_two" "sg_tight sg_two" "sg_compact_ok sg_ok_cenv sg_two"
    by (simp_all add: sg_fits_def sg_tight_def dir_fits_def sg_two_def file_of_def sg_compact_ok_def sg_ok_cenv_def HEADER_SIZE_def)
  show "sg_abs sg_two = [[107] \<mapsto> [118]]"
    using put_allowed_example by (simp add: sg_log_abs [OF sg_two_log] values_of_def value_step_put)
qed

lemma dir_fits_update: "dir_fits d \<Longrightarrow> length f < 2 ^ 64 \<Longrightarrow> dir_fits (AList.update name f d)"
  by (induction d) (auto simp: dir_fits_def)

lemma sg_two_crash: "\<exists>d. sg_compact 3 sg_ok_cenv sg_two = Inl d \<and> dir_fits d"
proof -
  obtain f x where m: "sg_merge sg_ok_cenv sg_two = (f, Some x)"
    using sg_merge_completes [OF sg_two_log sg_two_facts(6)] by blast
  obtain off hs where x: "x = (off, hs)" by (metis surj_pair)
  have items: "sg_items sg_two = [([107], \<lparr>ke_segment_id = 0, ke_value_pos = 21, ke_value_size = 1, ke_timestamp = 1\<rparr>)]"
    by (simp add: sg_items_def sg_two_def)
  have "([107], \<lparr>ke_segment_id = 0, ke_value_pos = 21, ke_value_size = 1, ke_timestamp = 1\<rparr>) \<in> set (sg_keydir sg_two)"
    by (simp add: sg_two_def)
  then obtain r where r: "item_rec [(0, [put_rec 1 [107] [118]]), (1, [])]
      ([107], \<lparr>ke_segment_id = 0, ke_value_pos = 21, ke_value_size = 1, ke_timestamp = 1\<rparr>) r"
    using item_rec_exists [OF sg_two_log] by blast
  then have "list_all2 (item_rec [(0, [put_rec 1 [107] [118]]), (1, [])]) (sg_items sg_two) [r]"
    by (simp add: items)
  then have "f = log_bytes [marker_rec 5, r]"
    using sg_merge_log [OF sg_two_log _ m, of "[r]"] by (simp add: sg_ok_cenv_def)
  moreover have "rec_len r = 22"
    using copy_item(3) [OF sg_two_log r] by (simp add: HEADER_SIZE_def)
  ultimately have f: "length f < 2 ^ 64" by (simp add: rec_len_def HEADER_SIZE_def)
  have sealed: "sg_sealed sg_two = [0]" by (simp add: sg_sealed_def sg_two_def)
  have env: "sce_open_ok sg_ok_cenv" "sce_fsync_ok sg_ok_cenv" "sce_rename_ok sg_ok_cenv" "sce_unlink_ok sg_ok_cenv name" for name
    by (simp_all add: sg_ok_cenv_def)
  let ?tmp = "segment_path 0 @ ''.compact.tmp''"
  let ?d2 = "unlink True (hint_path 0) (AList.update ?tmp f (sg_dir sg_two))"
  have "sg_compact 3 sg_ok_cenv sg_two = Inl (rename ?tmp (segment_path 0) ?d2)"
    by (simp add: sg_compact_def Let_def sealed m x env)
  moreover have "dir_fits (sg_dir sg_two)" using sg_two_facts(3) by (simp add: sg_fits_def)
  then have "dir_fits ?d2" using f by (intro dir_fits_sub [OF dir_fits_update set_unlink])
  then have "dir_fits (rename ?tmp (segment_path 0) ?d2)"
    using f by (auto simp: rename_def split: option.split intro!: dir_fits_update dest: fits_file
        intro: dir_fits_sub [OF _ set_unlink [of True, unfolded unlink_def, simplified]])
  ultimately show ?thesis by blast
qed



theorem sg_compact_completes_witness:
  "\<exists>e'. sg_compact 0 sg_ok_cenv sg_two = Inr (e', True) \<and> sg_abs e' = [[107] \<mapsto> [118]] \<and> sg_segment_count e' \<le> 2"
  using sg_compact_completes [OF sg_two_facts(1,6), of 0] by (auto simp: sg_two_facts(5))

definition sg_ok_penv :: "nat \<Rightarrow> op_env" where
  "sg_ok_penv n = \<lparr>pe_now = 7, pe_write = Some n, pe_hint = soe_hint sg_ok_env, pe_open_ok = True\<rparr>"


section \<open>Refinement and reachable states\<close>

text \<open>
  C1: The segmented engine is a key-value store: any sequence of \<open>put\<close>, \<open>get\<close> and \<open>del\<close>
  calls, with any outcomes of the writes, of the hint files and of the creation of segments, gives
  the answers of an abstract map on which acknowledged calls take effect and the others (refused
  or ended by an exception) do not; the cache and the rolling of segments are invisible.
\<close>

theorem sg_run_refines:
  assumes "sg_inv e"
    and "store_run (\<lambda>env e k v. sg_acked (sg_put env e k v)) (sg_get (\<lambda>_. no_faults))
           (\<lambda>env e k. sg_acked (sg_del env e k)) e ops = (e', rs)"
  shows "sg_inv e' \<and> map_run (sg_abs e) ops rs = Some (sg_abs e')"
  by (rule sgs.run_refines [OF assms])

theorem sg_run_refines_witness:
  "\<exists>e' rs. store_run (\<lambda>env e k v. sg_acked (sg_put env e k v)) (sg_get (\<lambda>_. no_faults))
      (\<lambda>env e k. sg_acked (sg_del env e k)) sg_two
      [StorePut (sg_ok_penv 100) [108] [119], StoreGet [107], StoreDel (sg_ok_penv 3) [107]] = (e', rs)
    \<and> map_run [[107] \<mapsto> [118]]
      [StorePut (sg_ok_penv 100) [108] [119], StoreGet [107], StoreDel (sg_ok_penv 3) [107]] rs = Some (sg_abs e')"
proof -
  let ?ops = "[StorePut (sg_ok_penv 100) [108] [119], StoreGet [107], StoreDel (sg_ok_penv 3) [107]]"
  obtain e' rs where run: "store_run (\<lambda>env e k v. sg_acked (sg_put env e k v)) (sg_get (\<lambda>_. no_faults))
      (\<lambda>env e k. sg_acked (sg_del env e k)) sg_two ?ops = (e', rs)" by (metis surj_pair)
  then show ?thesis using sg_run_refines [OF sg_two_facts(1) run] by (auto simp: sg_two_facts(5))
qed

text \<open>
  The states that a process can be in: after a start on an empty directory, any operation with
  any outcome of its system calls (only the removal of the stale hint by \<open>compact\<close> must work),
  and any start on the directory of a clean state or of a compaction that died.
\<close>

inductive sg_reach :: "segmented_engine \<Rightarrow> bool" where
  start: "soe_mkdir_ok env \<Longrightarrow> soe_create_ok env \<Longrightarrow> sg_open env th cap [] = Inr e \<Longrightarrow> sg_reach e"
| put: "sg_reach e \<Longrightarrow> sg_put penv e key v = (e', r) \<Longrightarrow> sg_reach e'"
| get: "sg_reach e \<Longrightarrow> sg_get rf e key = (e', x) \<Longrightarrow> sg_reach e'"
| del: "sg_reach e \<Longrightarrow> sg_del penv e key = (e', r) \<Longrightarrow> sg_reach e'"
| compact: "sg_reach e \<Longrightarrow> sce_unlink_ok cenv (hint_path (last (sg_sealed e))) \<Longrightarrow>
    sg_compact failpoint cenv e = Inr (e', ok) \<Longrightarrow> sg_reach e'"
| restart: "sg_reach e \<Longrightarrow> sg_clean e \<Longrightarrow> sg_fits e \<Longrightarrow> sg_open_ok env \<Longrightarrow>
    sg_open env th cap (sg_dir e) = Inr e' \<Longrightarrow> sg_reach e'"
| crash: "sg_reach e \<Longrightarrow> sg_clean e \<Longrightarrow> sce_unlink_ok cenv (hint_path (last (sg_sealed e))) \<Longrightarrow>
    sg_compact failpoint cenv e = Inl d \<Longrightarrow> dir_fits d \<Longrightarrow> sg_active_id e < 10 ^ 19 \<Longrightarrow> sg_open_ok env \<Longrightarrow>
    sg_open env th cap d = Inr e' \<Longrightarrow> sg_reach e'"

lemma sg_reach_sg_inv: "sg_reach e \<Longrightarrow> sg_inv e"
proof (induction rule: sg_reach.induct)
  case (start env th cap e)
  show ?case by (rule sg_open_fresh [OF start(1,2), of th cap]) (use start(3) in \<open>auto simp: sg_inv_def\<close>)
next
  case (put e penv key v e' r)
  show ?case by (rule sg_put_laws(1) [OF put(3,2)])
next
  case (get e rf key e' x)
  from get(3) obtain segs where "sg_log segs e" by (auto simp: sg_inv_def)
  then show ?case using sg_get_log(1) [OF _ get(2)] by (auto simp: sg_inv_def)
next
  case (del e penv key e' r)
  show ?case by (rule sg_del_laws(1) [OF del(3,2)])
next
  case (compact e cenv failpoint e' ok)
  from compact(4) obtain segs where log: "sg_log segs e" by (auto simp: sg_inv_def)
  show ?case using sg_compact_log [OF log compact(2), of failpoint] compact(3) by (auto simp: compact_result_def sg_inv_def)
next
  case (restart e env th cap e')
  then show ?case using sg_restart [of e env th cap] sg_clean_inv by auto
next
  case (crash e cenv failpoint d env th cap e')
  then show ?case using sg_compact_crash [of e cenv failpoint d env th cap] sg_clean_inv by auto
qed

lemma sg_inv_facts:
  assumes "sg_inv e"
  shows "sg_size e = card (dom (sg_abs e))" and "sg_active_id e = Max (set (sg_segment_fds e))"
    and "sg_active_segment_bytes e \<le> length (file_of (sg_dir e) (segment_path (sg_active_id e)))"
    and "map_of (sg_keydir e) k = Some en \<Longrightarrow> ke_segment_id en \<in> set (sg_segment_fds e) \<and>
      ke_value_pos en + unat (ke_value_size en) \<le> length (file_of (sg_dir e) (segment_path (ke_segment_id en)))
      \<or> ke_value_size en = 0"
proof -
  obtain segs where log: "sg_log segs e" using assms by (auto simp: sg_inv_def)
  have dl: "dir_log segs (sg_dir e)" using log by (simp add: sg_log_def)
  then have ne: "segs \<noteq> []" and sorted: "sorted_wrt (<) (map fst segs)" by (simp_all add: dir_log_def)
  have "dom (sg_abs e) = dom (map_of (sg_keydir e))" by (simp add: sg_abs_def dom_def)
  then have "dom (sg_abs e) = fst ` set (sg_keydir e)" by (simp add: dom_map_of_conv_image_fst)
  then show "sg_size e = card (dom (sg_abs e))"
    using log distinct_card [of "map fst (sg_keydir e)"] by (simp add: sg_size_def sg_log_def)
  have "Max (fst ` set segs) = fst (last segs)"
    using segs_le_last [OF _ sorted] ne by (intro Max_eqI) auto
  then show "sg_active_id e = Max (set (sg_segment_fds e))" using log by (simp add: sg_log_def)
  obtain tail where "seg_file (sg_dir e) (fst (last segs)) (snd (last segs)) tail"
    by (rule dir_log_file [OF dl, of "fst (last segs)" "snd (last segs)"]) (simp add: ne)
  then show "sg_active_segment_bytes e \<le> length (file_of (sg_dir e) (segment_path (sg_active_id e)))"
    using log by (simp add: sg_active_segment_bytes_def sg_log_def seg_file_def file_of_def)
  show "ke_segment_id en \<in> set (sg_segment_fds e) \<and>
      ke_value_pos en + unat (ke_value_size en) \<le> length (file_of (sg_dir e) (segment_path (ke_segment_id en)))
      \<or> ke_value_size en = 0" if en: "map_of (sg_keydir e) k = Some en"
  proof -
    obtain v where v: "length v = unat (ke_value_size en)" "ke_segment_id en \<in> set (sg_segment_fds e)"
      "take (unat (ke_value_size en)) (drop (ke_value_pos en) (file_of (sg_dir e) (segment_path (ke_segment_id en)))) = v"
      by (rule sg_log_entry [OF log en])
    then have "unat (ke_value_size en) \<le> length (file_of (sg_dir e) (segment_path (ke_segment_id en))) - ke_value_pos en"
      by (metis length_drop length_take min.cobounded1 min.commute)
    moreover have "ke_value_size en = 0" if "unat (ke_value_size en) = 0" using that by (simp add: unat_eq_zero)
    ultimately show ?thesis using v(2) by (cases "unat (ke_value_size en) = 0") auto
  qed
qed



section \<open>Hints\<close>

text \<open>
  The hint file format round-trips: parsing an encoded list of hints gives back the list and
  the end of the last record, and the parser rejects it exactly when some entry does not lie
  inside the segment.
\<close>

theorem hint_file_roundtrip:
  assumes "\<forall>h \<in> set hs. hint_fits h"
  shows "hint_parse_loop n (encode_hints hs) 0 [] 0 =
    (if list_all (hint_inside n) hs then Some (hs, foldl max 0 (map hint_end hs)) else None)"
  using hint_parse_encode [of hs n "[]" "[]" 0] assms by simp

theorem hint_file_roundtrip_witness:
  "hint_parse_loop 22 (encode_hints [\<lparr>hr_key = [107], hr_value_pos = 21, hr_value_size = 1, hr_timestamp = 1\<rparr>]) 0 [] 0
    = Some ([\<lparr>hr_key = [107], hr_value_pos = 21, hr_value_size = 1, hr_timestamp = 1\<rparr>], 22)"
  using hint_file_roundtrip [of "[\<lparr>hr_key = [107], hr_value_pos = 21, hr_value_size = 1, hr_timestamp = 1\<rparr>]" 22]
  by (simp add: hint_fits_def hint_inside_def hint_end_def HEADER_SIZE_def TOMBSTONE_def)


definition sg_hinted :: segmented_engine where
  "sg_hinted = sg_two\<lparr>sg_dir := [(segment_path 0, rec_bytes (put_rec 1 [107] [118])),
     (hint_path 0, encode_hints (hints_of (placed 0 0 [put_rec 1 [107] [118]])))], sg_keydir := []\<rparr>"

lemma hint_okI: "map_of d (hint_path i) = Some (encode_hints (hints_of (placed i 0 rs))) \<Longrightarrow> hint_ok d i rs"
  by (auto simp: hint_ok_def)


section \<open>A directory that cannot be listed\<close>

text \<open>
  When \<open>opendir\<close> fails, the constructor takes the directory for an empty one instead of
  reporting an error: it opens segment 0 as the active segment at offset 0, with no key, and the
  first acknowledged \<open>put\<close> overwrites the beginning of the segment file that was there.
\<close>

theorem sg_opendir_failure_overwrites:
  assumes "soe_mkdir_ok env" and "\<not> soe_opendir1_ok env" and "\<not> soe_opendir2_ok env" and "soe_create_ok env"
    and "map_of d (segment_path 0) = Some f" and "0 < th" and "put_allowed key v"
    and "pe_write penv = Some n" and "HEADER_SIZE + length key + length v \<le> n"
  shows "\<exists>e e'. sg_open env th cap d = Inr e \<and> sg_abs e = Map.empty \<and> sg_put penv e key v = (e', Inr True) \<and>
    map_of (sg_dir e') (segment_path 0) =
      Some (rec_bytes (put_rec (pe_now penv) key v) @ drop (HEADER_SIZE + length key + length v) f)"
proof -
  define e where "e = \<lparr>sg_dir = d, sg_threshold = th, sg_active_id = 0, sg_active_offset = 0, sg_active_hints = [],
         sg_segment_fds = [0], sg_keydir = [], sg_cache = lru_new cap, sg_hint_recoveries = 0,
         sg_full_scan_recoveries = 0, sg_cache_hits = 0, sg_cache_misses = 0\<rparr>"
  have len: "length key < 2 ^ 32" using assms(7) by (simp add: put_allowed_def)
  have allowed: "\<not> (length key > 0xFFFFFFFF \<or> length v \<ge> unat COMPACTION_BASE)"
    using assms(7) by (simp add: put_allowed_def COMPACTION_BASE_def)
  have o: "sg_open env th cap d = Inr e"
    using assms(1-5) by (simp add: sg_open_def discover_and_recover_def Let_def remove_stale_temp_files_def
        list_dir_names_def List.map_filter_def open_new_active_segment_def e_def)
  have "maybe_roll_segment penv e = (e, None)" using assms(6) by (simp add: maybe_roll_segment_def e_def)
  moreover have "file_of (sg_dir e) (segment_path (sg_active_id e)) = f" "sg_active_offset e = 0"
    using assms(5) by (simp_all add: e_def file_of_def)
  ultimately have "\<exists>e'. sg_put penv e key v = (e', Inr True) \<and>
      sg_dir e' = AList.update (segment_path 0) (write_at f 0 (rec_bytes (put_rec (pe_now penv) key v))) d"
    using allowed assms(8,9)
    by (simp add: sg_put_def write_record_bytes [OF put_record_buffer [OF assms(7)] put_rec_simps(1) len] Let_def)
      (simp add: e_def)
  moreover have "write_at f 0 (rec_bytes (put_rec (pe_now penv) key v))
      = rec_bytes (put_rec (pe_now penv) key v) @ drop (HEADER_SIZE + length key + length v) f"
    by (simp add: write_at_prefix)
  moreover have "sg_abs e = Map.empty" by (rule ext) (simp add: sg_abs_def e_def)
  ultimately show ?thesis using o by (auto simp: update_conv')
qed

theorem sg_opendir_failure_overwrites_witness:
  "\<exists>e e'. sg_open (sg_ok_env\<lparr>soe_opendir1_ok := False, soe_opendir2_ok := False\<rparr>) 64 10 (sg_dir sg_two) = Inr e \<and>
     sg_put (sg_ok_penv 100) e [108] [119] = (e', Inr True) \<and>
     map_of (sg_dir e') (segment_path 0) = Some (rec_bytes (put_rec 7 [108] [119]))"
proof -
  have a: "put_allowed [108] [119]" by (simp add: put_allowed_def)
  have f: "map_of (sg_dir sg_two) (segment_path 0) = Some (rec_bytes (put_rec 1 [107] [118]))" by (simp add: sg_two_def)
  show ?thesis
    using sg_opendir_failure_overwrites [of "sg_ok_env\<lparr>soe_opendir1_ok := False, soe_opendir2_ok := False\<rparr>"
        "sg_dir sg_two" _ 64 "[108]" "[119]" "sg_ok_penv 100" 100 10, OF _ _ _ _ f _ a]
    by (auto simp: sg_ok_env_def sg_ok_penv_def HEADER_SIZE_def)
qed

end
