(* ===== verification/Segmented_Start.thy ===== *)
theory Segmented_Start
  imports Segmented_Properties
begin

text \<open>
  Starts of the segmented engine that do not finish. The constructor changes the directory while it
  recovers: it removes temporary and superseded files, cuts the torn tail of the active segment, writes
  a hint and creates a segment. \<open>sg_open_states\<close> is the sequence of directories it passes
  through until it returns, throws or the process dies.
\<close>

section \<open>The directories a constructor passes through\<close>

fun unlink_states :: "(string \<Rightarrow> bool) \<Rightarrow> directory \<Rightarrow> string list \<Rightarrow> directory list" where
  "unlink_states ok d [] = []"
| "unlink_states ok d (name # names) = (let d' = unlink (ok name) name d in d' # unlink_states ok d' names)"

definition write_hint_states :: "hint_env \<Rightarrow> nat \<Rightarrow> hint_record list \<Rightarrow> directory \<Rightarrow> directory list" where
  "write_hint_states env segid hints d =
     (let tmp = hint_path segid @ ''.tmp''
      in if \<not> he_open_ok env then []
         else
           (let buf = encode_hints hints;
                off = transfer_loop (he_write env) (length buf) 0
            in map (\<lambda>n. AList.update tmp (take n buf) d) [0..<Suc off] @ [fst (write_hint_file env segid hints d)]))"

definition recover_active_states :: "sg_open_env \<Rightarrow> nat \<Rightarrow> segmented_engine \<Rightarrow> directory list" where
  "recover_active_states env aid e =
     (case load_active env aid e of
        Inl err \<Rightarrow> []
      | Inr e3 \<Rightarrow>
          sg_dir e3 #
          (if sg_active_offset e3 \<ge> sg_threshold e3
           then write_hint_states (soe_hint env) (sg_active_id e3) (sg_active_hints e3) (sg_dir e3) @
             (case open_new_active_segment (soe_create_ok env) (aid + 1) (seal_active_segment (soe_hint env) e3) of
                (e4, None) \<Rightarrow> [sg_dir e4]
              | (e4, Some err) \<Rightarrow> [])
           else []))"

definition sg_blank :: "nat \<Rightarrow> nat \<Rightarrow> directory \<Rightarrow> segmented_engine" where
  "sg_blank threshold cache_capacity d =
     \<lparr>sg_dir = d, sg_threshold = threshold, sg_active_id = 0, sg_active_offset = 0, sg_active_hints = [],
      sg_segment_fds = [], sg_keydir = [], sg_cache = lru_new cache_capacity, sg_hint_recoveries = 0,
      sg_full_scan_recoveries = 0, sg_cache_hits = 0, sg_cache_misses = 0\<rparr>"

definition sg_open_states :: "sg_open_env \<Rightarrow> nat \<Rightarrow> nat \<Rightarrow> directory \<Rightarrow> directory list" where
  "sg_open_states env threshold cache_capacity d =
     (if \<not> soe_mkdir_ok env then [d]
      else
        (let stale = d # unlink_states (soe_unlink_ok env) d (filter stale_temp_name (list_dir_names (soe_opendir1_ok env) d));
             d0 = last stale;
             ids = sort (List.map_filter parse_segment_name (list_dir_names (soe_opendir2_ok env) d0));
             e = sg_blank threshold cache_capacity d0
         in stale @
           (if ids = [] then
              (case open_new_active_segment (soe_create_ok env) 0 e of (e1, None) \<Rightarrow> [sg_dir e1] | (e1, Some err) \<Rightarrow> [])
            else
              (let first = sg_first env d0 ids;
                   names = concat (map (\<lambda>i. [segment_path i, hint_path i]) (take first ids));
                   superseded = unlink_states (soe_unlink_ok env) d0 names;
                   d1 = last (d0 # superseded)
               in superseded @
                 (case recover_sealed env (butlast (drop first ids)) (e\<lparr>sg_dir := d1\<rparr>) of
                    Inl err \<Rightarrow> []
                  | Inr e1 \<Rightarrow> recover_active_states env (last ids) e1)))))"

section \<open>They end where the constructor ends\<close>

lemma last_unlink_states: "last (d # unlink_states ok d names) = foldl (\<lambda>d name. unlink (ok name) name d) d names"
  by (induction names arbitrary: d) (simp_all add: Let_def)

lemma foldl_filter: "foldl f a (filter P xs) = foldl (\<lambda>a x. if P x then f a x else a) a xs"
  by (induction xs arbitrary: a) simp_all

lemma remove_stale_last:
  "last (d # unlink_states (soe_unlink_ok env) d (filter stale_temp_name (list_dir_names (soe_opendir1_ok env) d)))
     = remove_stale_temp_files env d"
  by (simp add: last_unlink_states foldl_filter remove_stale_temp_files_def del: last.simps)

lemma remove_segments_last:
  "last (d # unlink_states ok d (concat (map (\<lambda>i. [segment_path i, hint_path i]) ids))) = foldl (remove_segment ok) d ids"
  by (simp only: last_unlink_states) (induction ids arbitrary: d, simp_all add: remove_segment_def)

lemma write_hint_last: "write_hint_states env i hints d \<noteq> [] \<Longrightarrow>
    last (write_hint_states env i hints d) = fst (write_hint_file env i hints d)"
  by (auto simp: write_hint_states_def Let_def)

lemma write_hint_none: "write_hint_states env i hints d = [] \<Longrightarrow> fst (write_hint_file env i hints d) = d"
  by (auto simp: write_hint_states_def write_hint_file_def Let_def split: if_splits)

lemma recover_active_last:
  assumes "recover_active env a e = Inr e'"
  shows "recover_active_states env a e \<noteq> []" and "last (recover_active_states env a e) = sg_dir e'"
  using assms
  by (auto simp: recover_active_def recover_active_states_def split: sum.splits if_splits prod.splits option.splits)

lemma last_parts: "last (x # xs @ [z]) = z" "zs \<noteq> [] \<Longrightarrow> last (x # xs @ ys @ zs) = last zs"
  by simp_all

lemma sg_open_blank: "sg_open env th cap d = (if \<not> soe_mkdir_ok env then Inl MkdirFailed else discover_and_recover env (sg_blank th cap d))"
  by (simp add: sg_open_def sg_blank_def)

lemma sg_open_states_last:
  assumes "sg_open env th cap d = Inr e"
  shows "last (sg_open_states env th cap d) = sg_dir e"
proof -
  let ?d0 = "remove_stale_temp_files env d"
  let ?ids = "sort (List.map_filter parse_segment_name (list_dir_names (soe_opendir2_ok env) ?d0))"
  have blank: "sg_dir (sg_blank th cap d) = d" "(sg_blank th cap d)\<lparr>sg_dir := d'\<rparr> = sg_blank th cap d'" for d d'
    by (simp_all add: sg_blank_def)
  have mk: "soe_mkdir_ok env" and run: "discover_and_recover env (sg_blank th cap d) = Inr e"
    using assms by (simp_all add: sg_open_blank split: if_splits)
  show ?thesis
  proof (cases "?ids = []")
    case True
    then show ?thesis
      using mk run
      by (auto simp: sg_open_states_def Let_def remove_stale_last discover_and_recover_def blank last_parts simp del: last.simps
          split: prod.splits option.splits)
  next
    case False
    let ?sup = "take (sg_first env ?d0 ?ids) ?ids"
    let ?d1 = "foldl (remove_segment (soe_unlink_ok env)) ?d0 ?sup"
    obtain e1 where e1: "recover_sealed env (butlast (drop (sg_first env ?d0 ?ids) ?ids)) (sg_blank th cap ?d1) = Inr e1"
      "recover_active env (last ?ids) e1 = Inr e"
      using run False by (auto simp: discover_and_recover_def Let_def blank split: sum.splits)
    then show ?thesis
      using mk False recover_active_last [OF e1(2)]
      by (simp add: sg_open_states_def Let_def remove_stale_last remove_segments_last blank last_parts del: last.simps)
  qed
qed

section \<open>They hold the same contents\<close>

definition dir_holds :: "(bytes \<rightharpoonup> bytes) \<Rightarrow> directory \<Rightarrow> bool" where
  "dir_holds m d \<longleftrightarrow> (\<exists>segs. dir_log segs d \<and> dir_clean segs d \<and> values_of (segs_placed segs) = m)"

text \<open>Segment ids and file sizes within the range of the types that hold them.\<close>

definition dir_small :: "directory \<Rightarrow> bool" where
  "dir_small d \<longleftrightarrow> dir_fits d \<and> (\<forall>i. map_of d (segment_path i) \<noteq> None \<longrightarrow> i < 10 ^ 19)"

text \<open>Every call of the constructor may fail, except listing the directory and reading the segments.\<close>

definition sg_reads_ok :: "sg_open_env \<Rightarrow> bool" where
  "sg_reads_ok env \<longleftrightarrow> soe_opendir2_ok env \<and> (\<forall>i. soe_marker_open_ok env i \<and> soe_faults env i = no_faults)"

lemma dir_small_last:
  assumes "dir_log segs d" and "dir_small d"
  shows "fst (last segs) < 10 ^ 19"
proof -
  have "last segs \<in> set segs" using assms(1) by (simp add: dir_log_def)
  then obtain tail where "seg_file d (fst (last segs)) (snd (last segs)) tail"
    using dir_log_file [OF assms(1), of "fst (last segs)" "snd (last segs)"] by auto
  then show ?thesis using assms(2) by (auto simp: dir_small_def seg_file_def)
qed

lemma dir_holds_open:
  assumes "dir_holds m d" and "dir_small d" and "sg_open_ok env"
  shows "\<exists>e. sg_open env th cap d = Inr e \<and> sg_clean e \<and> sg_abs e = m"
  using assms sg_reopen [OF _ _ assms(3)] dir_small_last unfolding dir_holds_def dir_small_def by metis

lemma unlink_states_all:
  assumes "P d" and "\<And>d name ok. name \<in> set names \<Longrightarrow> P d \<Longrightarrow> P (unlink ok name d)"
  shows "d' \<in> set (unlink_states ok d names) \<Longrightarrow> P d'"
  using assms by (induction names arbitrary: d) (auto simp: Let_def)

lemma unlink_segment_log:
  assumes "dir_log segs d \<and> dir_clean segs d" and "i \<notin> fst ` set segs"
  shows "dir_log segs (unlink ok (segment_path i) d) \<and> dir_clean segs (unlink ok (segment_path i) d)"
proof -
  have "unlink ok (segment_path i) d = remove_segment (\<lambda>name. ok \<and> name = segment_path i) d i"
    by (simp add: remove_segment_def unlink_def)
  then show ?thesis using remove_segment_log [OF _ assms(2)] assms(1) by metis
qed

lemma write_hint_states_log:
  assumes log: "sg_log segs e" and c: "dir_clean segs (sg_dir e)" and full: "sg_threshold e \<le> sg_active_offset e"
    and d: "d' \<in> set (write_hint_states env (sg_active_id e) (sg_active_hints e) (sg_dir e))"
  shows "dir_log segs d' \<and> dir_clean segs d'"
proof -
  have l: "dir_log segs (sg_dir e)" using log by (simp add: sg_log_def)
  have "dir_log segs (sg_dir (seal_active_segment env e))" using sg_seal_log [OF log full] by (simp add: sg_log_def)
  then have "dir_log segs (fst (write_hint_file env (sg_active_id e) (sg_active_hints e) (sg_dir e)))"
    by (simp add: seal_active_segment_def)
  then show ?thesis
    using d aux_log(1,2) [OF l aux_name_tmp(2)] write_hint_file_clean [OF c] c
    by (auto simp: write_hint_states_def Let_def split: if_splits)
qed

text \<open>A step of recovery that returns does what it does when nothing fails.\<close>

definition no_failures :: "sg_open_env \<Rightarrow> sg_open_env" where
  "no_failures env = env\<lparr>soe_mkdir_ok := True, soe_open_ok := \<lambda>_. True, soe_fstat_ok := \<lambda>_. True, soe_create_ok := True\<rparr>"

lemma no_failures_simps [simp]:
  "soe_mkdir_ok (no_failures env)" "soe_open_ok (no_failures env) i" "soe_fstat_ok (no_failures env) i"
  "soe_create_ok (no_failures env)" "soe_opendir2_ok (no_failures env) = soe_opendir2_ok env"
  "soe_marker_open_ok (no_failures env) = soe_marker_open_ok env" "soe_faults (no_failures env) = soe_faults env"
  "soe_hint_open_ok (no_failures env) = soe_hint_open_ok env" "soe_hint_read (no_failures env) = soe_hint_read env"
  "soe_ftruncate_ok (no_failures env) = soe_ftruncate_ok env"
  by (simp_all add: no_failures_def)

lemma no_failures_ok: "sg_reads_ok env \<Longrightarrow> sg_open_ok (no_failures env)"
  by (simp add: sg_reads_ok_def sg_open_ok_def)

lemma no_failures_scan:
  "recover_segment_via_full_scan env i ho e = Inr x \<Longrightarrow> recover_segment_via_full_scan (no_failures env) i ho e = Inr x"
  by (simp add: recover_segment_via_full_scan_def split: if_splits)

lemma no_failures_hint: "recover_segment_via_hint (no_failures env) i e = recover_segment_via_hint env i e"
  by (simp only: recover_segment_via_hint_def no_failures_simps)

lemma no_failures_sealed: "recover_sealed env ids e = Inr e' \<Longrightarrow> recover_sealed (no_failures env) ids e = Inr e'"
proof (induction ids arbitrary: e)
  case (Cons i ids)
  define e1 where "e1 = e\<lparr>sg_segment_fds := List.insert i (sg_segment_fds e)\<rparr>"
  show ?case
  proof (cases "recover_segment_via_hint env i e1")
    case None
    then obtain e2 ho where "recover_segment_via_full_scan env i None e1 = Inr (e2, ho)" "recover_sealed env ids e2 = Inr e'"
      using Cons.prems by (auto simp: Let_def e1_def split: if_splits sum.splits)
    then show ?thesis
      using Cons.IH no_failures_scan None Cons.prems by (simp add: Let_def no_failures_hint e1_def [symmetric] split: if_splits)
  next
    case (Some e2)
    then show ?thesis using Cons by (simp add: Let_def no_failures_hint e1_def [symmetric] split: if_splits)
  qed
qed simp

lemma no_failures_load: "load_active env a e = Inr e' \<Longrightarrow> load_active (no_failures env) a e = Inr e'"
  by (force simp: load_active_def Let_def dest: no_failures_scan split: if_splits sum.splits)

lemma no_failures_first: "sg_first (no_failures env) d ids = sg_first env d ids"
  by (simp add: sg_first_def segment_begins_with_base_marker_def)

lemma recover_active_states_log:
  assumes reads: "sg_reads_ok env" and log: "dir_log segs d" "dir_clean segs d" and segs: "segs = pre @ [(a, rs)]"
    and rec: "recovered pre d th (lru_new cap) e" and d': "d' \<in> set (recover_active_states env a e)"
  shows "dir_holds (values_of (segs_placed segs)) d'"
proof -
  obtain e3 where e3: "load_active env a e = Inr e3" using d' by (cases "load_active env a e") (auto simp: recover_active_states_def)
  obtain e4 where "load_active (no_failures env) a e = Inr e4" and l: "sg_log segs e4" "dir_clean segs (sg_dir e4)"
    by (rule load_active_log [OF no_failures_ok [OF reads] log [unfolded segs] rec]) (simp add: segs)
  with no_failures_load [OF e3] have l: "sg_log segs e3" "dir_clean segs (sg_dir e3)" by simp_all
  have d3: "dir_log segs (sg_dir e3)" and a: "sg_active_id e3 = a" using l(1) by (simp_all add: sg_log_def segs)
  have keep: ?thesis if "dir_log segs d' \<and> dir_clean segs d'" using that by (auto simp: dir_holds_def)
  show ?thesis
  proof (cases "sg_threshold e3 \<le> sg_active_offset e3 \<and> d' \<notin> set (sg_dir e3 # write_hint_states (soe_hint env) (sg_active_id e3) (sg_active_hints e3) (sg_dir e3))")
    case False
    then have "d' = sg_dir e3 \<or> sg_threshold e3 \<le> sg_active_offset e3 \<and> d' \<in> set (write_hint_states (soe_hint env) (sg_active_id e3) (sg_active_hints e3) (sg_dir e3))"
      using d' by (auto simp: recover_active_states_def e3 split: if_splits)
    then show ?thesis using keep d3 l(2) write_hint_states_log [OF l] by blast
  next
    case True
    let ?s = "seal_active_segment (soe_hint env) e3"
    have seal: "sg_log segs ?s" using sg_seal_log [OF l(1)] True by blast
    then have ls: "dir_log segs (sg_dir ?s)" by (simp add: sg_log_def)
    have cs: "dir_clean segs (sg_dir ?s)" using write_hint_file_clean [OF l(2)] by (simp add: seal_active_segment_def)
    have "d' = AList.update (segment_path (fst (last segs) + 1)) [] (sg_dir ?s)"
      using d' True dir_log_new_segment(1) [OF ls]
      by (auto simp: recover_active_states_def e3 open_new_active_segment_def Let_def segs split: if_splits)
    then show ?thesis
      using dir_log_new_segment(2) [OF ls] new_segment_clean [OF ls cs] by (force simp: dir_holds_def)
  qed
qed

lemma sg_open_states_log:
  assumes reads: "sg_reads_ok env" and log: "dir_log segs d" "dir_clean segs d" and small: "dir_small d"
    and d': "d' \<in> set (sg_open_states env th cap d)"
  shows "dir_holds (values_of (segs_placed segs)) d'"
proof -
  let ?P = "\<lambda>d. dir_log segs d \<and> dir_clean segs d"
  let ?stale = "unlink_states (soe_unlink_ok env) d (filter stale_temp_name (list_dir_names (soe_opendir1_ok env) d))"
  define d0 where "d0 = remove_stale_temp_files env d"
  have keep: "dir_holds (values_of (segs_placed segs)) d'" if "?P d'" using that by (auto simp: dir_holds_def)
  have stale: "?P x" if "x \<in> set ?stale" for x
    by (rule unlink_states_all [where P = ?P, OF _ _ that]) (use log in \<open>auto intro: aux_log(3,4) [OF _ stale_temp_aux]\<close>)
  have log0: "dir_log segs d0" "dir_clean segs d0" using remove_stale_log [OF log] by (simp_all add: d0_def)
  obtain old where found: "found_ids d0 = old @ map fst segs" and old: "\<And>i. i \<in> set old \<Longrightarrow> superseded_id segs i"
    using found_ids_split [OF log0(1) dir_small_last [OF log(1) small]] by blast
  have ids: "sort (List.map_filter parse_segment_name (list_dir_names (soe_opendir2_ok env) d0)) = old @ map fst segs"
    using found reads by (simp add: found_ids_def list_dir_names_def sg_reads_ok_def)
  have first: "sg_first env d0 (old @ map fst segs) = length old"
    using sg_first_live [OF no_failures_ok [OF reads] log0 old] by (simp add: no_failures_first)
  have sorted: "sorted_wrt (<) (map fst segs)" and ne: "segs \<noteq> []" using log(1) by (simp_all add: dir_log_def)
  have "fst (hd segs) \<le> i" if "i \<in> fst ` set segs" for i using that sorted by (cases segs) (auto intro: less_imp_le)
  then have gone: "i \<notin> fst ` set segs" if "i \<in> set old" for i using old [OF that] by (fastforce simp: superseded_id_def)
  let ?names = "concat (map (\<lambda>i. [segment_path i, hint_path i]) old)"
  have sup: "?P x" if "x \<in> set (unlink_states (soe_unlink_ok env) d0 ?names)" for x
  proof (rule unlink_states_all [where P = ?P, OF _ _ that])
    show "?P (unlink ok name d)" if n: "name \<in> set ?names" and P: "?P d" for d name ok
    proof -
      obtain i where i: "i \<in> set old" "name = segment_path i \<or> name = hint_path i" using n by auto
      then show ?thesis using unlink_segment_log [OF P gone [OF i(1)]] unlink_hint_log P by blast
    qed
  qed (use log0 in simp)
  define d1 where "d1 = foldl (remove_segment (soe_unlink_ok env)) d0 old"
  have "set old \<inter> fst ` set segs = {}" using gone by blast
  then have log1: "dir_log segs d1" "dir_clean segs d1"
    using remove_segments_log [OF log0(1)] log0(2) by (simp_all add: d1_def)
  have fits1: "dir_fits d1"
    using dir_fits_sub [of d] small set_remove_stale [of env d] set_remove_segments [of "soe_unlink_ok env" d0 old]
    by (auto simp: d0_def d1_def dir_small_def)
  obtain pre a rs where segs: "segs = pre @ [(a, rs)]" using ne by (metis append_butlast_last_id surj_pair)
  have first': "sg_first env d0 (old @ map fst pre @ [a]) = length old" using first by (simp add: segs)
  have blank: "(sg_blank th cap x)\<lparr>sg_dir := y\<rparr> = sg_blank th cap y" for x y by (simp add: sg_blank_def)
  have rec0: "recovered [] d1 th (lru_new cap) (sg_blank th cap d1)" by (simp add: recovered_def sg_blank_def)
  have "set pre \<subseteq> set segs" by (auto simp: segs)
  from recover_sealed_log [OF no_failures_ok [OF reads] log1 fits1 this rec0]
  have rec1: "recovered pre d1 th (lru_new cap) e1" if "recover_sealed env (map fst pre) (sg_blank th cap d1) = Inr e1" for e1
    using no_failures_sealed [OF that] by simp
  have "d' = d \<or> d' \<in> set ?stale \<or> d' \<in> set (unlink_states (soe_unlink_ok env) d0 ?names) \<or>
      (\<exists>e1. recover_sealed env (map fst pre) (sg_blank th cap d1) = Inr e1 \<and> d' \<in> set (recover_active_states env a e1))"
    using d' by (cases "recover_sealed env (map fst pre) (sg_blank th cap d1)")
      (auto simp: sg_open_states_def Let_def remove_stale_last remove_segments_last d0_def [symmetric] d1_def [symmetric]
        ids first' blank segs butlast_append simp del: last.simps split: if_splits)
  then show ?thesis
    using keep log stale sup recover_active_states_log [OF reads log1 segs rec1] by blast
qed

section \<open>Interrupted starts\<close>

text \<open>
  Any number of starts one after the other, each with its own failures, threshold and cache size, and each
  stopped at any of its states.
\<close>

inductive interrupted_starts :: "directory \<Rightarrow> directory \<Rightarrow> bool" where
  none: "interrupted_starts d d"
| start: "interrupted_starts d d1 \<Longrightarrow> dir_small d1 \<Longrightarrow> sg_reads_ok env \<Longrightarrow>
    d2 \<in> set (sg_open_states env th cap d1) \<Longrightarrow> interrupted_starts d d2"

lemma interrupted_starts_holds: "interrupted_starts d d' \<Longrightarrow> dir_holds m d \<Longrightarrow> dir_holds m d'"
proof (induction rule: interrupted_starts.induct)
  case (start d d1 env d2 th cap)
  then obtain segs where "dir_log segs d1" "dir_clean segs d1" "values_of (segs_placed segs) = m" by (auto simp: dir_holds_def)
  then show ?case using sg_open_states_log [OF start(3) _ _ start(2,4)] by blast
qed

lemma sg_clean_holds:
  assumes "sg_clean e"
  shows "dir_holds (sg_abs e) (sg_dir e)"
proof -
  obtain segs where log: "sg_log segs e" "dir_clean segs (sg_dir e)" using assms by (auto simp: sg_clean_def)
  then have "dir_log segs (sg_dir e)" by (simp add: sg_log_def)
  then show ?thesis using log(2) sg_log_abs [OF log(1)] unfolding dir_holds_def by metis
qed

lemma sg_compact_crash_holds:
  assumes "sg_clean e" and "sce_unlink_ok cenv (hint_path (last (sg_sealed e)))" and "sg_compact failpoint cenv e = Inl d"
  shows "dir_holds (sg_abs e) d"
proof -
  obtain segs where log: "sg_log segs e" and c: "dir_clean segs (sg_dir e)" using assms(1) by (auto simp: sg_clean_def)
  have "same_contents segs (sg_dir e) d"
    using sg_compact_log [OF log assms(2), of failpoint] assms(3) by (simp add: compact_result_def)
  then show ?thesis using c sg_log_abs [OF log] by (auto simp: same_contents_def dir_holds_def)
qed


lemma start_states_example:
  "[(segment_path 0, []), (hint_path 0 @ ''.tmp'', [])] \<in> set (sg_open_states sg_ok_env 0 10 [(segment_path 0, [])])"
  by code_simp

lemma dir_small_example: "dir_small [(segment_path 0, [])]" "dir_small [(segment_path 0, []), (hint_path 0 @ ''.tmp'', [])]"
  by (auto simp: dir_small_def dir_fits_def)


end
