(* ===== verification/KV_Engine.thy ===== *)
theory KV_Engine
  imports KV_Log KV_Store
begin

text \<open>
  \<open>kv_engine.hpp\<close>: the single-file engine \<open>KVEngine\<close>. The engine state is the data file, the
  write offset and the KeyDir (\<open>std::unordered_map\<close>, an association list whose order is the
  unspecified iteration order). The lock covers a whole operation, so an operation is one state
  transition. \<open>now_ms()\<close> and the outcomes of the system calls are arguments.
\<close>

section \<open>State\<close>

record kv_engine =
  kv_file :: bytes
  kv_write_offset :: nat
  kv_keydir :: "(bytes \<times> log_entry) list"

datatype kv_error = OpenFailed | FstatFailed | RecoveryFstatFailed

text \<open>Outcomes of the calls that the constructor makes.\<close>

record kv_open_env =
  oe_open_ok :: bool
  oe_fstat_ok :: bool
  oe_fstat2_ok :: bool
  oe_faults :: read_faults
  oe_ftruncate_ok :: bool

text \<open>Outcomes of the calls that \<open>compact\<close> makes; writes are told apart by their offset.\<close>

record kv_compact_env =
  ce_open_ok :: bool
  ce_faults :: read_faults
  ce_write :: "nat \<Rightarrow> write_outcome"
  ce_rename_ok :: bool

section \<open>Operations\<close>

definition kv_put :: "write_outcome \<Rightarrow> u64 \<Rightarrow> kv_engine \<Rightarrow> bytes \<Rightarrow> bytes \<Rightarrow> kv_engine \<times> bool" where
  "kv_put oc now e key value =
     (if length key > 0xFFFFFFFF \<or> length value \<ge> unat COMPACTION_BASE then (e, False)
      else case write_record oc (kv_file e) (kv_write_offset e) key value (of_nat (length value)) now of
        (f, WriteFailed) \<Rightarrow> (e\<lparr>kv_file := f\<rparr>, False)
      | (f, Written value_pos record_len) \<Rightarrow>
          (e\<lparr>kv_file := f,
             kv_write_offset := kv_write_offset e + record_len,
             kv_keydir := AList.update key
               \<lparr>le_pos = value_pos, le_size = of_nat (length value), le_ts = now\<rparr> (kv_keydir e)\<rparr>, True))"

definition kv_get :: "read_faults \<Rightarrow> kv_engine \<Rightarrow> bytes \<Rightarrow> bytes option" where
  "kv_get rf e key =
     (case map_of (kv_keydir e) key of
        None \<Rightarrow> None
      | Some en \<Rightarrow>
          if le_size en = 0 then Some []
          else case pread rf (kv_file e) (unat (le_size en)) (le_pos en) of
            None \<Rightarrow> None
          | Some value \<Rightarrow> if length value \<noteq> unat (le_size en) then None else Some value)"

definition kv_del :: "write_outcome \<Rightarrow> u64 \<Rightarrow> kv_engine \<Rightarrow> bytes \<Rightarrow> kv_engine \<times> bool" where
  "kv_del oc now e key =
     (if map_of (kv_keydir e) key = None then (e, False)
      else case write_record oc (kv_file e) (kv_write_offset e) key [] TOMBSTONE now of
        (f, WriteFailed) \<Rightarrow> (e\<lparr>kv_file := f\<rparr>, False)
      | (f, Written value_pos record_len) \<Rightarrow>
          (e\<lparr>kv_file := f,
             kv_write_offset := kv_write_offset e + record_len,
             kv_keydir := AList.delete key (kv_keydir e)\<rparr>, True))"

fun kv_compact_loop ::
  "kv_compact_env \<Rightarrow> bytes \<Rightarrow> bytes \<Rightarrow> nat \<Rightarrow> (bytes \<times> log_entry) list \<Rightarrow> (bytes \<times> log_entry) list
     \<Rightarrow> (bytes \<times> nat \<times> (bytes \<times> log_entry) list) option" where
  "kv_compact_loop env file tmp new_offset new_keydir [] = Some (tmp, new_offset, new_keydir)"
| "kv_compact_loop env file tmp new_offset new_keydir ((key, en) # rest) =
     (case (if unat (le_size en) > 0 then pread (ce_faults env) file (unat (le_size en)) (le_pos en)
            else Some []) of
        None \<Rightarrow> None
      | Some value \<Rightarrow>
          if length value \<noteq> unat (le_size en) then None
          else case write_record (ce_write env new_offset) tmp new_offset key value
                      (of_nat (length value)) (le_ts en) of
            (tmp', WriteFailed) \<Rightarrow> None
          | (tmp', Written value_pos record_len) \<Rightarrow>
              kv_compact_loop env file tmp' (new_offset + record_len)
                (AList.update key \<lparr>le_pos = value_pos, le_size = le_size en, le_ts = le_ts en\<rparr> new_keydir)
                rest)"

definition kv_compact :: "kv_compact_env \<Rightarrow> kv_engine \<Rightarrow> kv_engine \<times> bool" where
  "kv_compact env e =
     (if \<not> ce_open_ok env then (e, False)
      else case kv_compact_loop env (kv_file e) [] 0 [] (kv_keydir e) of
        None \<Rightarrow> (e, False)
      | Some (tmp, new_offset, new_keydir) \<Rightarrow>
          if \<not> ce_rename_ok env then (e, False)
          else (\<lparr>kv_file = tmp, kv_write_offset = new_offset, kv_keydir = new_keydir\<rparr>, True))"

definition kv_size :: "kv_engine \<Rightarrow> nat" where
  "kv_size e = length (kv_keydir e)"

definition kv_data_file_bytes :: "kv_engine \<Rightarrow> nat" where
  "kv_data_file_bytes e = kv_write_offset e"

definition kv_body_len :: "u32 \<Rightarrow> u32" where
  "kv_body_len vlen = (if vlen = TOMBSTONE then 0 else vlen)"

lemma read_record_Some_bound:
  "read_record blen rf file off = Some x \<Longrightarrow> HEADER_SIZE \<le> length file - off"
  by (auto simp: read_record_def split: if_splits)

function kv_rebuild_loop ::
  "read_faults \<Rightarrow> bytes \<Rightarrow> nat \<Rightarrow> (bytes \<times> log_entry) list \<Rightarrow> nat \<times> (bytes \<times> log_entry) list" where
  "kv_rebuild_loop rf file offset keydir =
     (case read_record kv_body_len rf file offset of
        None \<Rightarrow> (offset, keydir)
      | Some (ts, key, vlen) \<Rightarrow>
          kv_rebuild_loop rf file (offset + HEADER_SIZE + length key + unat (kv_body_len vlen))
            (if vlen = TOMBSTONE then AList.delete key keydir
             else AList.update key
               \<lparr>le_pos = offset + HEADER_SIZE + length key, le_size = vlen, le_ts = ts\<rparr> keydir))"
  by pat_completeness auto
termination
  by (relation "measure (\<lambda>(rf, file, offset, keydir). length file - offset)")
    (auto simp: HEADER_SIZE_def dest!: read_record_Some_bound)

declare kv_rebuild_loop.simps [simp del]

definition kv_rebuild_index :: "kv_open_env \<Rightarrow> bytes \<Rightarrow> kv_error + kv_engine" where
  "kv_rebuild_index env file =
     (if \<not> oe_fstat2_ok env then Inl RecoveryFstatFailed
      else let (offset, keydir) = kv_rebuild_loop (oe_faults env) file 0 []
           in Inr \<lparr>kv_file = (if oe_ftruncate_ok env then ftruncate file offset else file),
                   kv_write_offset = offset, kv_keydir = keydir\<rparr>)"

definition kv_open :: "kv_open_env \<Rightarrow> bytes \<Rightarrow> kv_error + kv_engine" where
  "kv_open env file =
     (if \<not> oe_open_ok env then Inl OpenFailed
      else if \<not> oe_fstat_ok env then Inl FstatFailed
      else kv_rebuild_index env file)"

section \<open>Abstraction and invariant\<close>

definition kv_abs :: "kv_engine \<Rightarrow> (bytes \<rightharpoonup> bytes)" where
  "kv_abs e k = map_option (read_entry (kv_file e)) (map_of (kv_keydir e) k)"

definition kv_log :: "log_rec list \<Rightarrow> kv_engine \<Rightarrow> bool" where
  "kv_log rs e \<longleftrightarrow>
     (\<forall>r \<in> set rs. value_rec kv_body_len r) \<and>
     kv_write_offset e = length (log_bytes rs) \<and>
     take (length (log_bytes rs)) (kv_file e) = log_bytes rs \<and>
     map_of (kv_keydir e) = replay 0 rs Map.empty \<and>
     distinct (map fst (kv_keydir e))"

definition kv_inv :: "kv_engine \<Rightarrow> bool" where
  "kv_inv e \<longleftrightarrow> (\<exists>rs. kv_log rs e)"

text \<open>No bytes beyond the write offset: what a successful operation leaves behind.\<close>

definition kv_clean :: "kv_engine \<Rightarrow> bool" where
  "kv_clean e \<longleftrightarrow> length (kv_file e) = kv_write_offset e"

lemma kv_body_len_value: "value_rec kv_body_len r \<longleftrightarrow> rec_ok kv_body_len r"
  by (auto simp: value_rec_def kv_body_len_def)

lemma kv_log_offset: "kv_log rs e \<Longrightarrow> kv_write_offset e \<le> length (kv_file e)"
  unfolding kv_log_def by (metis length_take min.cobounded1)

lemma kv_log_entry:
  assumes "kv_log rs e"
  shows "rel_option (entry_ok (log_bytes rs)) (map_of (kv_keydir e) k) (contents rs k)"
  using assms replay_contents [of rs kv_body_len k] by (auto simp: kv_log_def)

lemma kv_log_abs:
  assumes "kv_log rs e"
  shows "kv_abs e = contents rs"
proof
  fix k
  have t: "take (length (log_bytes rs)) (kv_file e) = log_bytes rs"
    using assms by (auto simp: kv_log_def)
  show "kv_abs e k = contents rs k"
    using kv_log_entry [OF assms, of k] entry_ok_read [OF _ t]
    by (auto simp: kv_abs_def option_rel_Some1 elim!: option.rel_cases)
qed

section \<open>Appending a record\<close>

lemma kv_log_append:
  assumes log: "kv_log rs e" and r: "rec_ok kv_body_len r"
    and kd: "map_of kd = apply_rec (kv_write_offset e) r (map_of (kv_keydir e))" "distinct (map fst kd)"
  shows "kv_log (rs @ [r]) (e\<lparr>kv_file := write_at (kv_file e) (kv_write_offset e) (rec_bytes r),
    kv_write_offset := kv_write_offset e + rec_len r, kv_keydir := kd\<rparr>)"
proof -
  have "take (kv_write_offset e + rec_len r) (write_at (kv_file e) (kv_write_offset e) (rec_bytes r))
      = log_bytes rs @ rec_bytes r"
    using log kv_log_offset [OF log] by (simp add: kv_log_def write_at_prefix)
  then show ?thesis
    using assms by (simp add: kv_log_def replay_append kv_body_len_value)
qed

text \<open>Bytes written at or after the write offset do not touch the log.\<close>

lemma kv_log_tail:
  assumes "kv_log rs e" and "take (kv_write_offset e) f = take (kv_write_offset e) (kv_file e)"
  shows "kv_log rs (e\<lparr>kv_file := f\<rparr>)"
  using assms by (simp add: kv_log_def)

lemma kv_log_write_tail:
  "kv_log rs e \<Longrightarrow> kv_log rs (e\<lparr>kv_file := write_at (kv_file e) (kv_write_offset e) bs\<rparr>)"
  by (rule kv_log_tail) (auto dest: kv_log_offset)

lemma put_rec_ok:
  "put_allowed key value \<Longrightarrow> rec_ok kv_body_len (put_rec now key value)"
  "put_allowed key value \<Longrightarrow> rec_ok body_value_len (put_rec now key value)"
  using put_vlen [of key "value"] put_rec_ok_body [of key "value" now]
  by (simp_all add: rec_ok_def put_rec_def kv_body_len_def put_allowed_def)

text \<open>\<open>kv_put\<close> and \<open>kv_del\<close> in terms of records.\<close>

lemma kv_put_cases:
  "kv_put oc now e key value =
     (if \<not> put_allowed key value then (e, False)
      else case oc of
        None \<Rightarrow> (e, False)
      | Some n \<Rightarrow>
          let r = put_rec now key value in
          if rec_len r \<le> n
          then (e\<lparr>kv_file := write_at (kv_file e) (kv_write_offset e) (rec_bytes r),
                  kv_write_offset := kv_write_offset e + rec_len r,
                  kv_keydir := AList.update key
                    \<lparr>le_pos = kv_write_offset e + HEADER_SIZE + length key,
                     le_size = of_nat (length value), le_ts = now\<rparr> (kv_keydir e)\<rparr>, True)
          else (e\<lparr>kv_file := write_at (kv_file e) (kv_write_offset e) (take n (rec_bytes r))\<rparr>, False))"
proof (cases "put_allowed key value")
  case True
  then have "length key < 2 ^ 32" by (simp add: put_allowed_def)
  with True show ?thesis
    by (simp add: kv_put_def write_record_bytes [OF put_record_buffer] Let_def split: option.split)
      (simp add: put_allowed_def COMPACTION_BASE_def)
next
  case False
  then show ?thesis by (auto simp: kv_put_def put_allowed_def COMPACTION_BASE_def)
qed

lemma kv_del_cases:
  assumes "length key < 2 ^ 32"
  shows "kv_del oc now e key =
     (if map_of (kv_keydir e) key = None then (e, False)
      else case oc of
        None \<Rightarrow> (e, False)
      | Some n \<Rightarrow>
          let r = del_rec now key in
          if rec_len r \<le> n
          then (e\<lparr>kv_file := write_at (kv_file e) (kv_write_offset e) (rec_bytes r),
                  kv_write_offset := kv_write_offset e + rec_len r,
                  kv_keydir := AList.delete key (kv_keydir e)\<rparr>, True)
          else (e\<lparr>kv_file := write_at (kv_file e) (kv_write_offset e) (take n (rec_bytes r))\<rparr>, False))"
  using assms
  by (simp add: kv_del_def write_record_bytes [where r = "del_rec now key"] record_buffer_tombstone
      del_rec_def [symmetric] Let_def split: option.split)

lemma del_rec_ok: "length key < 2 ^ 32 \<Longrightarrow> rec_ok kv_body_len (del_rec now key)"
  by (simp add: rec_ok_def kv_body_len_def)

lemma kv_put_log:
  assumes "kv_log rs e" and "kv_put oc now e key value = (e', True)"
  shows "put_allowed key value" and "kv_log (rs @ [put_rec now key value]) e'"
proof -
  show a: "put_allowed key value"
    using assms(2) by (auto simp: kv_put_cases split: if_splits)
  have "kv_log (rs @ [put_rec now key value])
    (e\<lparr>kv_file := write_at (kv_file e) (kv_write_offset e) (rec_bytes (put_rec now key value)),
       kv_write_offset := kv_write_offset e + rec_len (put_rec now key value),
       kv_keydir := AList.update key \<lparr>le_pos = kv_write_offset e + HEADER_SIZE + length key,
                     le_size = of_nat (length value), le_ts = now\<rparr> (kv_keydir e)\<rparr>)"
    by (rule kv_log_append)
      (use assms a in \<open>auto simp: put_rec_ok apply_rec_def put_vlen update_conv' distinct_update kv_log_def\<close>)
  then show "kv_log (rs @ [put_rec now key value]) e'"
    using assms(2) a by (auto simp: kv_put_cases Let_def split: if_splits option.splits)
qed

lemma kv_put_False_log:
  "kv_log rs e \<Longrightarrow> kv_put oc now e key value = (e', False) \<Longrightarrow> kv_log rs e'"
  by (auto simp: kv_put_cases Let_def kv_log_write_tail split: if_splits option.splits)

text \<open>Keys of the directory fit the 32-bit length field, because they come from records.\<close>

lemma replay_keys:
  "k \<in> dom (replay off rs m) \<Longrightarrow> k \<in> dom m \<or> (\<exists>r \<in> set rs. lr_key r = k)"
  by (induction rs arbitrary: off m) (fastforce simp: apply_rec_def split: if_splits)+

lemma replay_size_gen:
  "replay off rs m k = Some en \<Longrightarrow> (\<And>k en. m k = Some en \<Longrightarrow> le_size en \<noteq> TOMBSTONE) \<Longrightarrow> le_size en \<noteq> TOMBSTONE"
  by (induction rs arbitrary: off m) (fastforce simp: apply_rec_def split: if_splits)+

lemma replay_size: "replay off rs Map.empty k = Some en \<Longrightarrow> le_size en \<noteq> TOMBSTONE"
  by (rule replay_size_gen [of off rs Map.empty k]) simp_all

lemma kv_log_key_length:
  assumes "kv_log rs e" and "map_of (kv_keydir e) key \<noteq> None"
  shows "length key < 2 ^ 32"
  using assms replay_keys [of key 0 rs Map.empty]
  by (auto simp: kv_log_def kv_body_len_value rec_ok_def)

lemma kv_del_log:
  assumes "kv_log rs e" and "kv_del oc now e key = (e', True)"
  shows "map_of (kv_keydir e) key \<noteq> None" and "kv_log (rs @ [del_rec now key]) e'"
proof -
  show m: "map_of (kv_keydir e) key \<noteq> None"
    using assms(2) by (auto simp: kv_del_def split: if_splits)
  have k: "length key < 2 ^ 32" by (rule kv_log_key_length [OF assms(1) m])
  have "kv_log (rs @ [del_rec now key])
    (e\<lparr>kv_file := write_at (kv_file e) (kv_write_offset e) (rec_bytes (del_rec now key)),
       kv_write_offset := kv_write_offset e + rec_len (del_rec now key),
       kv_keydir := AList.delete key (kv_keydir e)\<rparr>)"
    by (rule kv_log_append)
      (use assms k in \<open>auto simp: del_rec_ok apply_rec_def delete_conv' distinct_delete kv_log_def\<close>)
  then show "kv_log (rs @ [del_rec now key]) e'"
    using assms(2) m k by (auto simp: kv_del_cases Let_def split: if_splits option.splits)
qed

lemma kv_del_False_log:
  assumes "kv_log rs e" and "kv_del oc now e key = (e', False)"
  shows "kv_log rs e'"
proof (cases "map_of (kv_keydir e) key = None")
  case True
  with assms show ?thesis by (auto simp: kv_del_def)
next
  case False
  then have "length key < 2 ^ 32" by (rule kv_log_key_length [OF assms(1)])
  with assms show ?thesis
    by (auto simp: kv_del_cases Let_def kv_log_write_tail split: if_splits option.splits)
qed

section \<open>Recovery\<close>

definition kv_open_ok :: "kv_open_env \<Rightarrow> bool" where
  "kv_open_ok env \<longleftrightarrow> oe_open_ok env \<and> oe_fstat_ok env \<and> oe_fstat2_ok env \<and> oe_faults env = no_faults
     \<and> oe_ftruncate_ok env"

lemma kv_rebuild_loop_log:
  assumes "\<And>r. r \<in> set rs \<Longrightarrow> rec_ok kv_body_len r" and "parse_record kv_body_len tail = None"
  shows "\<exists>kd'. kv_rebuild_loop no_faults (pre @ log_bytes rs @ tail) (length pre) kd
      = (length pre + length (log_bytes rs), kd') \<and> map_of kd' = replay (length pre) rs (map_of kd)
      \<and> (distinct (map fst kd) \<longrightarrow> distinct (map fst kd'))"
  using assms(1)
proof (induction rs arbitrary: pre kd)
  case Nil
  show ?case
    using assms(2) by (simp add: kv_rebuild_loop.simps [of _ _ "length pre"] read_record_parse)
next
  case (Cons r rs)
  have ok: "rec_ok kv_body_len r" by (simp add: Cons.prems)
  define kd1 where "kd1 = (if lr_vlen r = TOMBSTONE then AList.delete (lr_key r) kd
    else AList.update (lr_key r) \<lparr>le_pos = length pre + HEADER_SIZE + length (lr_key r),
           le_size = lr_vlen r, le_ts = lr_ts r\<rparr> kd)"
  have m1: "map_of kd1 = apply_rec (length pre) r (map_of kd)"
    by (simp add: kd1_def apply_rec_def update_conv' delete_conv')
  have d1: "distinct (map fst kd) \<Longrightarrow> distinct (map fst kd1)"
    by (simp add: kd1_def distinct_update distinct_delete)
  have len: "length pre + HEADER_SIZE + length (lr_key r) + unat (kv_body_len (lr_vlen r)) = length (pre @ rec_bytes r)"
    using ok by (simp add: rec_len_def rec_ok_def)
  have "kv_rebuild_loop no_faults (pre @ log_bytes (r # rs) @ tail) (length pre) kd
      = kv_rebuild_loop no_faults (pre @ log_bytes (r # rs) @ tail)
          (length pre + HEADER_SIZE + length (lr_key r) + unat (kv_body_len (lr_vlen r))) kd1"
    using parse_record_complete [OF ok, of "log_bytes rs @ tail"]
    by (subst kv_rebuild_loop.simps) (simp add: read_record_parse kd1_def)
  then have "kv_rebuild_loop no_faults (pre @ log_bytes (r # rs) @ tail) (length pre) kd
      = kv_rebuild_loop no_faults ((pre @ rec_bytes r) @ log_bytes rs @ tail) (length (pre @ rec_bytes r)) kd1"
    by (simp only: len) simp
  moreover obtain kd' where "kv_rebuild_loop no_faults ((pre @ rec_bytes r) @ log_bytes rs @ tail) (length (pre @ rec_bytes r)) kd1
      = (length (pre @ rec_bytes r) + length (log_bytes rs), kd')"
    and "map_of kd' = replay (length (pre @ rec_bytes r)) rs (map_of kd1)"
    and "distinct (map fst kd1) \<longrightarrow> distinct (map fst kd')"
    using Cons.IH [of "pre @ rec_bytes r" kd1] Cons.prems by auto
  ultimately show ?case using d1 by (auto simp: m1 add.assoc)
qed

lemma kv_open_log:
  assumes "kv_open_ok env" and "\<And>r. r \<in> set rs \<Longrightarrow> rec_ok kv_body_len r"
    and "parse_record kv_body_len tail = None"
  shows "\<exists>e. kv_open env (log_bytes rs @ tail) = Inr e \<and> kv_log rs e \<and> kv_clean e"
proof -
  have nf: "oe_faults env = no_faults" using assms(1) by (simp add: kv_open_ok_def)
  obtain kd where kd: "kv_rebuild_loop no_faults (log_bytes rs @ tail) 0 [] = (length (log_bytes rs), kd)"
    "map_of kd = replay 0 rs Map.empty" "distinct (map fst kd)"
    using kv_rebuild_loop_log [where rs = rs and pre = "[]" and kd = "[]", OF assms(2,3)] by auto
  show ?thesis
    using assms(1,2) kd
    by (simp add: kv_open_def kv_rebuild_index_def kv_open_ok_def nf kv_log_def kv_clean_def kv_body_len_value)
qed

text \<open>Every f is a log followed by bytes that do not parse: recovery is total.\<close>

lemma log_decomposition:
  "\<exists>rs tail. f = log_bytes rs @ tail \<and> (\<forall>r \<in> set rs. rec_ok blen r) \<and> parse_record blen tail = None"
proof (induction f rule: length_induct)
  case (1 f)
  show ?case
  proof (cases "parse_record blen f")
    case None
    then have "f = log_bytes [] @ f \<and> (\<forall>r \<in> set []. rec_ok blen r) \<and> parse_record blen f = None"
      by simp
    then show ?thesis by blast
  next
    case (Some x)
    obtain ts key v where x: "x = (ts, key, v)" by (metis prod_cases3)
    obtain r where r: "rec_ok blen r" and f: "f = rec_bytes r @ drop (rec_len r) f"
      using parse_record_sound [OF Some [unfolded x]] by metis
    have "length (rec_bytes r) \<le> length f" by (subst f) simp
    then have "length (drop (rec_len r) f) < length f"
      using rec_len_pos [of r] by (simp add: HEADER_SIZE_def)
    then obtain rs tail where "drop (rec_len r) f = log_bytes rs @ tail"
      and "\<forall>r \<in> set rs. rec_ok blen r" and "parse_record blen tail = None"
      using 1 by blast
    with r f have "f = log_bytes (r # rs) @ tail \<and> (\<forall>r \<in> set (r # rs). rec_ok blen r) \<and> parse_record blen tail = None"
      by simp
    then show ?thesis by blast
  qed
qed

section \<open>Compaction\<close>

definition compact_rec :: "bytes \<Rightarrow> bytes \<times> log_entry \<Rightarrow> log_rec" where
  "compact_rec f x = put_rec (le_ts (snd x)) (fst x) (read_entry f (snd x))"

definition compactable :: "kv_engine \<Rightarrow> bool" where
  "compactable e \<longleftrightarrow> (\<forall>en \<in> snd ` set (kv_keydir e). le_size en \<noteq> COMPACTION_BASE)"

lemma foldl_compact_recs:
  assumes "distinct (map fst items)"
    and "\<And>x. x \<in> set items \<Longrightarrow> put_allowed (fst x) (read_entry f (snd x))"
  shows "foldl contents_rec m (map (compact_rec f) items)
    = m ++ map_of (map (\<lambda>(k, en). (k, read_entry f en)) items)"
  using assms
proof (induction items arbitrary: m)
  case (Cons x items)
  obtain k en where x: "x = (k, en)" by (cases x)
  have "k \<notin> dom (map_of (map (\<lambda>(k, en). (k, read_entry f en)) items))"
    using Cons.prems(1) by (auto simp: x dom_map_of_conv_image_fst image_iff split: prod.splits)
  moreover have "put_allowed k (read_entry f en)" using Cons.prems(2) [of x] by (simp add: x)
  ultimately show ?case
    using Cons by (simp add: x compact_rec_def) (auto simp: map_add_def fun_eq_iff split: option.splits)
qed simp

text \<open>One turn of the compaction loop is a \<open>put\<close> into the new file.\<close>

lemma kv_compact_loop_put:
  assumes loop: "kv_compact_loop env f tmp off nkd ((key, en) # rest) = Some res"
    and a: "put_allowed key (read_entry f en)"
  obtains n e1 where "kv_put (Some n) (le_ts en) \<lparr>kv_file = tmp, kv_write_offset = off, kv_keydir = nkd\<rparr>
        key (read_entry f en) = (e1, True)"
    and "kv_compact_loop env f (kv_file e1) (kv_write_offset e1) (kv_keydir e1) rest = Some res"
    and "length tmp = off \<Longrightarrow> kv_clean e1"
proof -
  let ?v = "read_entry f en"
  let ?r = "put_rec (le_ts en) key ?v"
  have val: "(if unat (le_size en) > 0 then pread (ce_faults env) f (unat (le_size en)) (le_pos en)
      else Some []) = Some ?v" and size: "le_size en = of_nat (length ?v)"
    using loop by (auto simp: read_entry_def pread_def word_unat_eq_iff [of "le_size en"] split: option.splits if_splits)
  have lk: "length key < 2 ^ 32" using a by (simp add: put_allowed_def)
  have w: "write_record oc tmp off key ?v (of_nat (length ?v)) (le_ts en) =
    (case oc of None \<Rightarrow> (tmp, WriteFailed)
     | Some n \<Rightarrow> if rec_len ?r \<le> n
         then (write_at tmp off (rec_bytes ?r), Written (off + HEADER_SIZE + length key) (rec_len ?r))
         else (write_at tmp off (take n (rec_bytes ?r)), WriteFailed))" for oc
    by (rule write_record_bytes [OF put_record_buffer [OF a]]) (use lk in simp_all)
  obtain n where n: "ce_write env off = Some n" "rec_len ?r \<le> n"
    and rest: "kv_compact_loop env f (write_at tmp off (rec_bytes ?r)) (off + rec_len ?r)
        (AList.update key \<lparr>le_pos = off + HEADER_SIZE + length key, le_size = of_nat (length ?v),
           le_ts = le_ts en\<rparr> nkd) rest = Some res"
    using loop by (simp only: kv_compact_loop.simps val option.case)
      (auto simp: size [symmetric] w [folded size] split: option.splits if_splits)
  show ?thesis
    by (rule that [of n]) (use a n rest in \<open>auto simp: kv_put_cases Let_def kv_clean_def\<close>)
qed

lemma kv_compact_loop_log:
  assumes "kv_compact_loop env f tmp off nkd items = Some (tmp', off', nkd')"
    and "kv_log rs \<lparr>kv_file = tmp, kv_write_offset = off, kv_keydir = nkd\<rparr>" and "length tmp = off"
    and "\<And>x. x \<in> set items \<Longrightarrow> put_allowed (fst x) (read_entry f (snd x))"
  shows "kv_log (rs @ map (compact_rec f) items) \<lparr>kv_file = tmp', kv_write_offset = off', kv_keydir = nkd'\<rparr>
    \<and> length tmp' = off'"
  using assms
proof (induction items arbitrary: tmp off nkd rs)
  case (Cons x items)
  obtain key en where x: "x = (key, en)" by (cases x)
  have a: "put_allowed key (read_entry f en)" using Cons.prems(4) [of x] by (simp add: x)
  obtain n e1 where put: "kv_put (Some n) (le_ts en) \<lparr>kv_file = tmp, kv_write_offset = off, kv_keydir = nkd\<rparr>
        key (read_entry f en) = (e1, True)"
    and rest: "kv_compact_loop env f (kv_file e1) (kv_write_offset e1) (kv_keydir e1) items = Some (tmp', off', nkd')"
    and clean: "kv_clean e1"
    using kv_compact_loop_put [OF Cons.prems(1) [unfolded x] a] Cons.prems(3) by metis
  have "kv_log (rs @ [compact_rec f x]) e1"
    using kv_put_log(2) [OF Cons.prems(2) put] by (simp add: compact_rec_def x)
  then have "kv_log ((rs @ [compact_rec f x]) @ map (compact_rec f) items)
      \<lparr>kv_file = tmp', kv_write_offset = off', kv_keydir = nkd'\<rparr> \<and> length tmp' = off'"
    by (intro Cons.IH [OF rest]) (use clean Cons.prems(4) in \<open>cases e1; simp add: kv_clean_def\<close>)+
  then show ?case by simp
qed simp

lemma kv_log_compactable:
  assumes "kv_log rs e" and "compactable e" and "x \<in> set (kv_keydir e)"
  shows "put_allowed (fst x) (read_entry (kv_file e) (snd x))"
proof -
  obtain k en where x: "x = (k, en)" by (cases x)
  have m: "map_of (kv_keydir e) k = Some en"
    using assms(1,3) x unfolding kv_log_def by (metis map_of_is_SomeI)
  then obtain v where v: "entry_ok (log_bytes rs) en v" "contents rs k = Some v"
    using kv_log_entry [OF assms(1), of k] by (auto simp: option_rel_Some1)
  have "take (length (log_bytes rs)) (kv_file e) = log_bytes rs" using assms(1) by (simp add: kv_log_def)
  with v have rd: "read_entry (kv_file e) en = v" by (simp add: entry_ok_read)
  have "le_size en \<noteq> TOMBSTONE"
    using m assms(1) replay_size [of 0 rs k en] by (auto simp: kv_log_def)
  moreover have "le_size en \<noteq> COMPACTION_BASE"
    using assms(2,3) x by (force simp: compactable_def)
  ultimately have "unat (le_size en) \<noteq> 0xFFFFFFFF" "unat (le_size en) \<noteq> 0xFFFFFFFE"
    by (auto simp: TOMBSTONE_def COMPACTION_BASE_def word_unat_eq_iff)
  then have "length v < 0xFFFFFFFE"
    using v(1) unat_u32_less [of "le_size en"] by (simp add: entry_ok_def)
  with kv_log_key_length [OF assms(1), of k] m rd show ?thesis
    by (auto simp: put_allowed_def x)
qed

lemma kv_compact_log:
  assumes log: "kv_log rs e" and c: "compactable e" and run: "kv_compact env e = (e', True)"
  shows "kv_log (map (compact_rec (kv_file e)) (kv_keydir e)) e'" and "kv_clean e'"
    and "kv_abs e' = kv_abs e"
proof -
  have empty: "kv_log [] \<lparr>kv_file = [], kv_write_offset = 0, kv_keydir = []\<rparr>"
    by (simp add: kv_log_def)
  obtain tmp off nkd where loop: "kv_compact_loop env (kv_file e) [] 0 [] (kv_keydir e) = Some (tmp, off, nkd)"
    and e': "e' = \<lparr>kv_file = tmp, kv_write_offset = off, kv_keydir = nkd\<rparr>"
    using run by (auto simp: kv_compact_def split: if_splits option.splits)
  have r: "kv_log ([] @ map (compact_rec (kv_file e)) (kv_keydir e)) e' \<and> length tmp = off"
    unfolding e' by (rule kv_compact_loop_log [OF loop empty]) (use kv_log_compactable [OF log c] in auto)
  then show l: "kv_log (map (compact_rec (kv_file e)) (kv_keydir e)) e'" and "kv_clean e'"
    by (simp_all add: kv_clean_def e')
  have "kv_abs e' = map_of (map (\<lambda>(k, en). (k, read_entry (kv_file e) en)) (kv_keydir e))"
    using kv_log_compactable [OF log c] log
    by (simp add: kv_log_abs [OF l] contents_def foldl_compact_recs kv_log_def)
  also have "\<dots> = kv_abs e" by (simp add: kv_abs_def fun_eq_iff map_of_map)
  finally show "kv_abs e' = kv_abs e" .
qed

section \<open>The store contract\<close>

lemma kv_get_abs:
  assumes "kv_log rs e"
  shows "kv_get no_faults e k = kv_abs e k"
proof (cases "map_of (kv_keydir e) k")
  case (Some en)
  then obtain v where v: "entry_ok (log_bytes rs) en v"
    using kv_log_entry [OF assms, of k] by (auto simp: option_rel_Some1)
  moreover have "take (length (log_bytes rs)) (kv_file e) = log_bytes rs"
    using assms by (simp add: kv_log_def)
  ultimately have "read_entry (kv_file e) en = v" "length v = unat (le_size en)"
    using entry_ok_read by (auto simp: entry_ok_def)
  then show ?thesis
    using Some by (auto simp: kv_get_def kv_abs_def read_entry_def)
qed (simp add: kv_get_def kv_abs_def)

lemma kv_put_acked:
  assumes "kv_inv e" and "kv_put oc now e k v = (e', True)"
  shows "kv_inv e' \<and> kv_abs e' = (kv_abs e)(k \<mapsto> v)"
proof -
  obtain rs where log: "kv_log rs e" using assms(1) by (auto simp: kv_inv_def)
  note l = kv_put_log [OF log assms(2)]
  have "kv_abs e' = (contents rs)(k \<mapsto> v)" using l by (simp add: kv_log_abs [OF l(2)])
  with l(2) show ?thesis by (auto simp: kv_inv_def kv_log_abs [OF log])
qed

lemma kv_put_refused:
  "kv_inv e \<Longrightarrow> kv_put oc now e k v = (e', False) \<Longrightarrow> kv_inv e' \<and> kv_abs e' = kv_abs e"
  by (metis kv_inv_def kv_log_abs kv_put_False_log)

lemma kv_del_acked:
  assumes "kv_inv e" and "kv_del oc now e k = (e', True)"
  shows "kv_inv e' \<and> kv_abs e k \<noteq> None \<and> kv_abs e' = (kv_abs e)(k := None)"
proof -
  obtain rs where log: "kv_log rs e" using assms(1) by (auto simp: kv_inv_def)
  note l = kv_del_log [OF log assms(2)]
  have "kv_abs e' = (contents rs)(k := None)" by (simp add: kv_log_abs [OF l(2)])
  with l show ?thesis by (auto simp: kv_inv_def kv_log_abs [OF log, symmetric] kv_abs_def)
qed

lemma kv_del_refused:
  "kv_inv e \<Longrightarrow> kv_del oc now e k = (e', False) \<Longrightarrow> kv_inv e' \<and> kv_abs e' = kv_abs e"
  by (metis kv_inv_def kv_log_abs kv_del_False_log)

interpretation kvs: kv_store kv_inv kv_abs "\<lambda>(oc, now) e. kv_put oc now e"
  "\<lambda>e k. (e, kv_get no_faults e k)" "\<lambda>(oc, now) e. kv_del oc now e"
proof unfold_locales
  fix s k s' r
  assume "kv_inv s" and "(s, kv_get no_faults s k) = (s', r)"
  then show "kv_inv s' \<and> kv_abs s' = kv_abs s \<and> r = kv_abs s k"
    by (auto simp: kv_inv_def kv_get_abs)
qed (auto dest: kv_put_acked kv_put_refused kv_del_acked kv_del_refused)

section \<open>Properties\<close>

definition kv_fresh :: kv_engine where
  "kv_fresh = \<lparr>kv_file = [], kv_write_offset = 0, kv_keydir = []\<rparr>"

definition kv_ok_env :: kv_open_env where
  "kv_ok_env = \<lparr>oe_open_ok = True, oe_fstat_ok = True, oe_fstat2_ok = True, oe_faults = no_faults,
     oe_ftruncate_ok = True\<rparr>"

lemma kv_fresh_log: "kv_log [] kv_fresh" "kv_inv kv_fresh" "kv_clean kv_fresh" "kv_abs kv_fresh = Map.empty"
  by (auto simp: kv_fresh_def kv_log_def kv_inv_def kv_clean_def kv_abs_def intro!: exI [of _ "[]"])

lemma kv_ok_env_ok: "kv_open_ok kv_ok_env"
  by (simp add: kv_open_ok_def kv_ok_env_def)

lemma kv_log_file:
  "kv_log rs e \<Longrightarrow> kv_clean e \<Longrightarrow> kv_file e = log_bytes rs"
  by (simp add: kv_log_def kv_clean_def)

lemma kv_log_recs: "kv_log rs e \<Longrightarrow> r \<in> set rs \<Longrightarrow> rec_ok kv_body_len r"
  by (auto simp: kv_log_def kv_body_len_value)

lemma kv_reopen:
  assumes "kv_log rs e" and "kv_clean e" and "kv_open_ok env"
  shows "\<exists>e2. kv_open env (kv_file e) = Inr e2 \<and> kv_log rs e2 \<and> kv_clean e2"
  using kv_open_log [where rs = rs and tail = "[]", OF assms(3) kv_log_recs [OF assms(1)]]
  by (simp add: kv_log_file [OF assms(1,2)])

text \<open>Reopening a log to which any number of bytes of one more record were added.\<close>

lemma kv_open_partial_append:
  assumes "kv_open_ok env" and "\<And>r. r \<in> set rs \<Longrightarrow> rec_ok kv_body_len r" and ok: "rec_ok kv_body_len r"
  shows "\<exists>e'. kv_open env (log_bytes rs @ take n (rec_bytes r)) = Inr e' \<and> kv_clean e' \<and>
    kv_log (if n < rec_len r then rs else rs @ [r]) e'"
proof (cases "n < rec_len r")
  case True
  show ?thesis using kv_open_log [OF assms(1,2) parse_record_torn [OF ok True]] True by auto
next
  case False
  have "\<exists>e. kv_open env (log_bytes (rs @ [r]) @ []) = Inr e \<and> kv_log (rs @ [r]) e \<and> kv_clean e"
    by (rule kv_open_log) (use assms in auto)
  with False show ?thesis by auto
qed

text \<open>
  C6: Any sequence of \<open>put\<close>, \<open>get\<close> and \<open>del\<close> calls on the single-file engine, with any
  outcomes of the writes, gives the answers of an abstract map on which acknowledged calls take
  effect and refused calls do not, and keeps the engine invariant.
\<close>

theorem kv_run_refines:
  assumes "kv_inv e"
    and "store_run (\<lambda>(oc, now) e. kv_put oc now e) (\<lambda>e k. (e, kv_get no_faults e k))
           (\<lambda>(oc, now) e. kv_del oc now e) e ops = (e', rs)"
  shows "kv_inv e' \<and> map_run (kv_abs e) ops rs = Some (kv_abs e')"
  by (rule kvs.run_refines [OF assms])

theorem kv_run_refines_witness:
  "\<exists>e'. store_run (\<lambda>(oc, now) e. kv_put oc now e) (\<lambda>e k. (e, kv_get no_faults e k))
     (\<lambda>(oc, now) e. kv_del oc now e) kv_fresh
     [StorePut (None, 1) [107] [118], StoreGet [107], StoreDel (Some 9, 1) [107]]
     = (e', [Acked False, Got None, Acked False]) \<and> kv_inv e' \<and> kv_abs e' = Map.empty"
proof -
  let ?ops = "[StorePut (None, 1) [107] [118], StoreGet [107], StoreDel (Some 9, 1) [107]]"
  have run: "store_run (\<lambda>(oc, now) e. kv_put oc now e) (\<lambda>e k. (e, kv_get no_faults e k))
     (\<lambda>(oc, now) e. kv_del oc now e) kv_fresh ?ops = (kv_fresh, [Acked False, Got None, Acked False])"
    by (simp add: kv_put_cases kv_del_def kv_get_def) (simp add: kv_fresh_def)
  show ?thesis using run kv_run_refines [OF kv_fresh_log(2) run] kv_fresh_log(4) by auto
qed



text \<open>
  A \<open>del\<close> of a stored key is atomic with respect to a crash in the same sense: a torn
  tombstone is dropped at the next start and the key is still there, a complete one removes it.
\<close>

theorem kv_del_crash_atomic:
  assumes "kv_inv e" and "kv_clean e" and "kv_abs e key \<noteq> None" and "kv_open_ok env"
  shows "\<exists>e'. kv_open env (kv_file (fst (kv_del (Some n) now e key))) = Inr e' \<and> kv_inv e' \<and> kv_clean e' \<and>
    kv_abs e' = (if n < HEADER_SIZE + length key then kv_abs e else (kv_abs e)(key := None))"
proof -
  obtain rs where log: "kv_log rs e" using assms(1) by (auto simp: kv_inv_def)
  let ?r = "del_rec now key"
  have m: "map_of (kv_keydir e) key \<noteq> None" using assms(3) by (simp add: kv_abs_def)
  have lk: "length key < 2 ^ 32" by (rule kv_log_key_length [OF log m])
  have f: "kv_file e = log_bytes rs" "kv_write_offset e = length (log_bytes rs)"
    using kv_log_file [OF log assms(2)] log by (auto simp: kv_log_def)
  have disk: "kv_file (fst (kv_del (Some n) now e key)) = log_bytes rs @ take n (rec_bytes ?r)"
    using m by (auto simp: kv_del_cases [OF lk] Let_def f)
  obtain e' where "kv_open env (log_bytes rs @ take n (rec_bytes ?r)) = Inr e'" "kv_clean e'"
    and l: "kv_log (if n < rec_len ?r then rs else rs @ [?r]) e'"
    using kv_open_partial_append [OF assms(4) kv_log_recs [OF log] del_rec_ok [OF lk]] by blast
  then show ?thesis
    using kv_log_abs [OF l] by (auto simp: disk kv_inv_def kv_log_abs [OF log])
qed

lemma kv_put_example:
  "kv_inv (fst (kv_put (Some 100) 7 kv_fresh [107] [118]))" "kv_clean (fst (kv_put (Some 100) 7 kv_fresh [107] [118]))"
  "kv_abs (fst (kv_put (Some 100) 7 kv_fresh [107] [118])) = [[107] \<mapsto> [118]]"
proof -
  have a: "put_allowed [107] [118]" by (simp add: put_allowed_def)
  obtain e' where p: "kv_put (Some 100) 7 kv_fresh [107] [118] = (e', True)" and c: "kv_clean e'"
    using a by (simp add: kv_put_cases Let_def HEADER_SIZE_def kv_fresh_def kv_clean_def length_write_at)
  show "kv_inv (fst (kv_put (Some 100) 7 kv_fresh [107] [118]))"
    "kv_clean (fst (kv_put (Some 100) 7 kv_fresh [107] [118]))"
    "kv_abs (fst (kv_put (Some 100) 7 kv_fresh [107] [118])) = [[107] \<mapsto> [118]]"
    using kv_put_acked [OF kv_fresh_log(2) p] c by (simp_all add: p kv_fresh_log(4))
qed

theorem kv_del_crash_atomic_witness:
  "\<exists>e'. kv_open kv_ok_env (kv_file (fst (kv_del (Some 20) 8 (fst (kv_put (Some 100) 7 kv_fresh [107] [118])) [107]))) = Inr e'
     \<and> kv_inv e' \<and> kv_clean e' \<and> kv_abs e' = [[107] \<mapsto> [118]]"
  using kv_del_crash_atomic [OF kv_put_example(1,2) _ kv_ok_env_ok, of "[107]" 20 8]
  by (simp add: kv_put_example(3) HEADER_SIZE_def)

text \<open>
  C19: Recovery never fails and never guesses: for every file content whatsoever, opening it
  succeeds, keeps exactly the longest prefix of the file that is a sequence of intact records,
  truncates the rest, and the index it builds holds what those records say.
\<close>

theorem kv_open_any_file:
  assumes "kv_open_ok env"
  shows "\<exists>e rs tail. kv_open env f = Inr e \<and> kv_inv e \<and> kv_clean e \<and> f = log_bytes rs @ tail \<and>
    (\<forall>r \<in> set rs. rec_ok kv_body_len r) \<and> parse_record kv_body_len tail = None \<and>
    kv_file e = log_bytes rs \<and> kv_abs e = contents rs"
proof -
  obtain rs tail where d: "f = log_bytes rs @ tail" "\<forall>r \<in> set rs. rec_ok kv_body_len r"
    "parse_record kv_body_len tail = None"
    using log_decomposition [of f kv_body_len] by blast
  obtain e where "kv_open env f = Inr e" and l: "kv_log rs e" and c: "kv_clean e"
    using kv_open_log [OF assms, of rs tail] d by auto
  then show ?thesis using d kv_log_file [OF l c] kv_log_abs [OF l] by (auto simp: kv_inv_def)
qed

theorem kv_open_any_file_witness:
  "\<exists>e rs tail. kv_open kv_ok_env [1, 2, 3] = Inr e \<and> kv_inv e \<and> [1, 2, 3] = log_bytes rs @ tail \<and>
    parse_record kv_body_len tail = None \<and> kv_abs e = contents rs"
  using kv_open_any_file [OF kv_ok_env_ok, of "[1, 2, 3]"] by blast





text \<open>
  A refused \<open>put\<close> can surface later. After a short write of a record whose value embeds the
  image of another record, a smaller acknowledged \<open>put\<close> leaves that image directly behind the
  log, and the next start accepts it: a key that no acknowledged call wrote appears.
\<close>

theorem kv_phantom_after_refused_put:
  assumes "kv_inv e" and "kv_clean e" and "kv_open_ok env" and "put_allowed pk pv"
    and "length pk + length pv < 1000"
  shows "\<exists>e1 e2 e3. kv_put (Some (40 + length pk + length pv)) now e [] (rec_bytes (put_rec ts pk pv) @ [0]) = (e1, False)
    \<and> kv_put (Some 20) now e1 [] [] = (e2, True)
    \<and> kv_open env (kv_file e2) = Inr e3 \<and> kv_abs e3 = (kv_abs e)([] \<mapsto> [], pk \<mapsto> pv)"
proof -
  obtain rs where log: "kv_log rs e" using assms(1) by (auto simp: kv_inv_def)
  let ?ph = "put_rec ts pk pv" let ?big = "rec_bytes ?ph @ [0]"
  let ?r1 = "put_rec now [] ?big" let ?r2 = "put_rec now [] []" let ?n = "40 + length pk + length pv"
  have f: "kv_file e = log_bytes rs" "kv_write_offset e = length (log_bytes rs)"
    using kv_log_file [OF log assms(2)] log by (auto simp: kv_log_def)
  have a: "put_allowed [] ?big" "put_allowed [] []" using assms(5) by (simp_all add: put_allowed_def HEADER_SIZE_def)
  obtain h where h: "rec_bytes ?r1 = h @ ?big" "length h = 20" by (simp add: rec_bytes_def Let_def)
  have t: "take ?n (rec_bytes ?r1) = h @ rec_bytes ?ph" by (simp add: h HEADER_SIZE_def)
  let ?e1 = "e\<lparr>kv_file := log_bytes rs @ h @ rec_bytes ?ph\<rparr>"
  have p1: "kv_put (Some ?n) now e [] ?big = (?e1, False)"
    using a(1) by (simp add: kv_put_cases Let_def f t [simplified] HEADER_SIZE_def)
  have l1: "kv_log rs ?e1" by (rule kv_put_False_log [OF log p1])
  define e2 where "e2 = fst (kv_put (Some 20) now ?e1 [] [])"
  have p2: "kv_put (Some 20) now ?e1 [] [] = (e2, True)" and f2: "kv_file e2 = log_bytes (rs @ [?r2, ?ph]) @ []"
    using a(2) h(2) by (simp_all add: e2_def kv_put_cases Let_def f HEADER_SIZE_def write_at_append)
  have "\<exists>e3. kv_open env (log_bytes (rs @ [?r2, ?ph]) @ []) = Inr e3 \<and> kv_log (rs @ [?r2, ?ph]) e3 \<and> kv_clean e3"
    by (rule kv_open_log [OF assms(3)]) (use kv_log_recs [OF log] put_rec_ok(1) a(2) assms(4) in auto)
  then obtain e3 where o: "kv_open env (kv_file e2) = Inr e3" and l3: "kv_log (rs @ [?r2, ?ph]) e3"
    using f2 by auto
  have "kv_abs e3 = (kv_abs e)([] \<mapsto> [], pk \<mapsto> pv)"
    using kv_log_abs [OF l3] kv_log_abs [OF log] a(2) assms(4) by (simp add: contents_def)
  with p1 p2 o show ?thesis by blast
qed

theorem kv_phantom_after_refused_put_witness:
  "\<exists>e1 e2 e3. kv_put (Some 42) 1 kv_fresh [] (rec_bytes (put_rec 9 [112] [113]) @ [0]) = (e1, False)
    \<and> kv_put (Some 20) 1 e1 [] [] = (e2, True)
    \<and> kv_open kv_ok_env (kv_file e2) = Inr e3 \<and> kv_abs e3 [112] = Some [113]"
proof -
  have a: "put_allowed [112] [113]" by (simp add: put_allowed_def)
  show ?thesis
    using kv_phantom_after_refused_put [OF kv_fresh_log(2,3) kv_ok_env_ok a, of 1 9] by fastforce
qed

text \<open>
  A read error during recovery is taken for a torn record: when the first \<open>pread\<close> of the constructor
  fails, it cuts the data file to nothing and reports success, and all records are lost for good.
\<close>

theorem kv_read_error_erases:
  assumes "oe_open_ok env" and "oe_fstat_ok env" and "oe_fstat2_ok env" and "oe_ftruncate_ok env" and "oe_faults env 0"
  shows "kv_open env file = Inr kv_fresh"
proof -
  have "read_record kv_body_len (oe_faults env) file 0 = None" using assms(5) by (simp add: read_record_def pread_def)
  then have "kv_rebuild_loop (oe_faults env) file 0 [] = (0, [])" by (simp add: kv_rebuild_loop.simps)
  then show ?thesis using assms by (simp add: kv_open_def kv_rebuild_index_def kv_fresh_def ftruncate_def)
qed

end
