(* ===== verification/Power_Loss.thy ===== *)
theory Power_Loss
  imports Prelude
begin

text \<open>
  What a store promises about a loss of power, apart from how it keeps its data. A run of calls has an effect on an
  abstract map for each acknowledged call. Some calls are flushed: everything up to and including them is on stable
  storage. The contract \<open>durable_store\<close> says what one call does to the maps that a power loss may leave; a run then
  leaves the map after some prefix of the calls, one that is not shorter than the flushed calls. Both engines are
  instances, in \<open>Durability\<close> and \<open>Segmented_Durability\<close>.
\<close>

datatype call_effect = Stores bytes bytes | Removes bytes | Keeps

fun take_effect :: "(bytes \<rightharpoonup> bytes) \<Rightarrow> call_effect \<Rightarrow> bool \<Rightarrow> (bytes \<rightharpoonup> bytes)" where
  "take_effect m (Stores k v) ok = (if ok then m(k \<mapsto> v) else m)"
| "take_effect m (Removes k) ok = (if ok then m(k := None) else m)"
| "take_effect m Keeps ok = m"

lemma take_effect_refused [simp]: "take_effect m eff False = m"
  by (cases eff) simp_all

text \<open>The map after a sequence of calls with the given answers: acknowledged calls take effect.\<close>

fun acked_map :: "('op \<Rightarrow> call_effect) \<Rightarrow> (bytes \<rightharpoonup> bytes) \<Rightarrow> 'op list \<Rightarrow> bool list \<Rightarrow> (bytes \<rightharpoonup> bytes)" where
  "acked_map eff m (op # ops) (ok # oks) = acked_map eff (take_effect m (eff op) ok) ops oks"
| "acked_map eff m ops oks = m"

lemma acked_map_Nil [simp]: "acked_map eff m [] oks = m"
  by (cases oks) simp_all

text \<open>
  How many calls are durable: \<open>n\<close> is the number of calls before, \<open>s\<close> the number of durable ones among them. \<open>named\<close> says
  whether the file in use has its name on stable storage; \<open>naming\<close> how an acknowledged call changes that.
\<close>

fun durable_calls :: "('op \<Rightarrow> bool) \<Rightarrow> (bool \<Rightarrow> 'op \<Rightarrow> bool) \<Rightarrow> nat \<Rightarrow> nat \<Rightarrow> bool \<Rightarrow> 'op list \<Rightarrow> bool list \<Rightarrow> nat" where
  "durable_calls flushed naming n s named (op # ops) (ok # oks) =
     (let named' = (if ok then naming named op else named)
      in durable_calls flushed naming (Suc n) (if ok \<and> flushed op \<and> named' then Suc n else s) named' ops oks)"
| "durable_calls flushed naming n s named ops oks = s"

fun run_calls :: "('s \<Rightarrow> 'op \<Rightarrow> 's \<times> bool) \<Rightarrow> 's \<Rightarrow> 'op list \<Rightarrow> 's \<times> bool list" where
  "run_calls step s [] = (s, [])"
| "run_calls step s (op # ops) =
     (let (s1, ok) = step s op; (s2, oks) = run_calls step s1 ops in (s2, ok # oks))"

text \<open>\<open>inv P s\<close>: every map that a power loss in \<open>s\<close> may leave satisfies \<open>P\<close>.\<close>

locale durable_store =
  fixes inv :: "((bytes \<rightharpoonup> bytes) \<Rightarrow> bool) \<Rightarrow> 's \<Rightarrow> bool"
    and abs :: "'s \<Rightarrow> (bytes \<rightharpoonup> bytes)"
    and named :: "'s \<Rightarrow> bool"
    and step :: "'s \<Rightarrow> 'op \<Rightarrow> 's \<times> bool"
    and effect :: "'op \<Rightarrow> call_effect"
    and flushed :: "'op \<Rightarrow> bool"
    and naming :: "bool \<Rightarrow> 'op \<Rightarrow> bool"
    and whole :: "'op \<Rightarrow> bool"
  assumes inv_mono: "inv P s \<Longrightarrow> (\<And>m. P m \<Longrightarrow> Q m) \<Longrightarrow> inv Q s"
    and step_abs: "inv P s \<Longrightarrow> whole op \<Longrightarrow> step s op = (s', ok) \<Longrightarrow> abs s' = take_effect (abs s) (effect op) ok"
    and step_inv: "inv P s \<Longrightarrow> whole op \<Longrightarrow> step s op = (s', ok) \<Longrightarrow> inv (\<lambda>m. P m \<or> m = abs s') s'"
    and step_flushed: "inv P s \<Longrightarrow> whole op \<Longrightarrow> step s op = (s', True) \<Longrightarrow> flushed op \<Longrightarrow> naming (named s) op \<Longrightarrow>
          inv (\<lambda>m. m = abs s') s'"
    and step_named: "inv P s \<Longrightarrow> whole op \<Longrightarrow> step s op = (s', ok) \<Longrightarrow>
          named s' = (if ok then naming (named s) op else named s)"
begin

lemma run_inv:
  assumes "inv (\<lambda>m. \<exists>i. s \<le> i \<and> i \<le> n \<and> m = h i) d" and "s \<le> n" and "abs d = h n"
    and "\<forall>op \<in> set ops. whole op" and "run_calls step d ops = (d', oks)"
  shows "inv (\<lambda>m. \<exists>i. durable_calls flushed naming n s (named d) ops oks \<le> i \<and> i \<le> n + length ops \<and>
    m = (if i \<le> n then h i else acked_map effect (h n) (take (i - n) ops) (take (i - n) oks))) d'"
  using assms
proof (induction ops arbitrary: s n h d oks)
  case Nil
  then show ?case by (auto elim!: inv_mono)
next
  case (Cons op ops)
  obtain d1 ok oks1 where st: "step d op = (d1, ok)" and run: "run_calls step d1 ops = (d', oks1)"
    and oks: "oks = ok # oks1"
    using Cons.prems(5) by (auto simp: Let_def split: prod.splits)
  have wh: "whole op" and ops: "\<forall>op \<in> set ops. whole op" using Cons.prems(4) by simp_all
  note inv0 = Cons.prems(1)
  define ent where "ent = (if ok then naming (named d) op else named d)"
  define s1 where "s1 = (if ok \<and> flushed op \<and> ent then Suc n else s)"
  define h1 where "h1 i = (if i \<le> n then h i else take_effect (h n) (effect op) ok)" for i
  have s1: "s1 \<le> Suc n" using Cons.prems(2) by (simp add: s1_def)
  have last: "abs d1 = h1 (Suc n)" using step_abs [OF inv0 wh st] Cons.prems(3) by (simp add: h1_def)
  have inv1: "inv (\<lambda>m. \<exists>i. s1 \<le> i \<and> i \<le> Suc n \<and> m = h1 i) d1"
  proof (cases "ok \<and> flushed op \<and> ent")
    case True
    then have "inv (\<lambda>m. m = abs d1) d1" using st by (intro step_flushed [OF inv0 wh]) (simp_all add: ent_def)
    then show ?thesis by (rule inv_mono) (use True last in \<open>auto simp: s1_def\<close>)
  next
    case False
    show ?thesis
    proof (rule inv_mono [OF step_inv [OF inv0 wh st]])
      fix m
      assume "(\<exists>i. s \<le> i \<and> i \<le> n \<and> m = h i) \<or> m = abs d1"
      then show "\<exists>i. s1 \<le> i \<and> i \<le> Suc n \<and> m = h1 i"
      proof
        assume "\<exists>i. s \<le> i \<and> i \<le> n \<and> m = h i"
        then show ?thesis using False by (auto simp: s1_def h1_def)
      next
        assume "m = abs d1"
        then show ?thesis using s1 last by (intro exI [of _ "Suc n"]) simp
      qed
    qed
  qed
  have ent: "ent = named d1" using step_named [OF inv0 wh st] by (simp add: ent_def)
  have dc: "durable_calls flushed naming n s (named d) (op # ops) oks = durable_calls flushed naming (Suc n) s1 ent ops oks1"
    by (simp add: oks Let_def ent_def s1_def)
  show ?case
    unfolding dc ent
  proof (rule inv_mono [OF Cons.IH [OF inv1 s1 last ops run]])
    fix m
    assume "\<exists>i. durable_calls flushed naming (Suc n) s1 (named d1) ops oks1 \<le> i \<and> i \<le> Suc n + length ops \<and>
      m = (if i \<le> Suc n then h1 i else acked_map effect (h1 (Suc n)) (take (i - Suc n) ops) (take (i - Suc n) oks1))"
    then obtain i where i: "durable_calls flushed naming (Suc n) s1 (named d1) ops oks1 \<le> i" "i \<le> Suc n + length ops"
      "m = (if i \<le> Suc n then h1 i else acked_map effect (h1 (Suc n)) (take (i - Suc n) ops) (take (i - Suc n) oks1))"
      by blast
    have "m = (if i \<le> n then h i else acked_map effect (h n) (take (i - n) (op # ops)) (take (i - n) oks))"
      using i(3) by (cases "i - n") (auto simp: h1_def oks le_Suc_eq Suc_diff_le diff_Suc)
    with i(1,2) show "\<exists>i. durable_calls flushed naming (Suc n) s1 (named d1) ops oks1 \<le> i \<and> i \<le> n + length (op # ops) \<and>
      m = (if i \<le> n then h i else acked_map effect (h n) (take (i - n) (op # ops)) (take (i - n) oks))"
      by (intro exI [of _ i]) simp
  qed
qed

text \<open>From a state in which everything is on stable storage.\<close>

lemma run_leaves_prefix:
  assumes "inv (\<lambda>m. m = abs d) d" and "\<forall>op \<in> set ops. whole op" and "run_calls step d ops = (d', oks)"
  shows "inv (\<lambda>m. \<exists>i. durable_calls flushed naming 0 0 (named d) ops oks \<le> i \<and> i \<le> length ops \<and>
    m = acked_map effect (abs d) (take i ops) (take i oks)) d'"
proof -
  have "inv (\<lambda>m. \<exists>i. 0 \<le> i \<and> i \<le> (0 :: nat) \<and> m = abs d) d" using assms(1) by simp
  from run_inv [OF this le_refl refl assms(2,3)] show ?thesis
    by (rule inv_mono) (auto split: if_splits)
qed

end

end
