(* ===== verification/Durability.thy ===== *)
theory Durability
  imports KV_Engine Power_Loss
begin

text \<open>
  \<open>fsync\<close> and power loss for the single-file engine (\<open>kv_engine.hpp\<close>, with \<open>write_record\<close> and \<open>fsync_dir\<close> of
  \<open>record_format.hpp\<close>). \<open>KV_Engine\<close> has the file as the process sees it; here a file also has what is on
  stable storage, with the writes issued since in the order they were issued. \<open>fsync\<close> makes them stable; a loss of
  power keeps any number of them, the last one cut anywhere. \<open>compact\<close> renames a new file over the old one, and until
  the directory is synced a power loss may bring back either, so a disk also has the files that the directory on stable
  storage may still name. The outcome of each \<open>fsync\<close>, and of the \<open>open\<close> and \<open>fsync\<close> in \<open>fsync_dir\<close>, is an argument.
\<close>

section \<open>Files and stable storage\<close>

datatype file_change = Pwritten nat bytes | Truncated nat

record file_image =
  fi_stable :: bytes
  fi_pending :: "file_change list"

fun apply_change :: "file_change \<Rightarrow> bytes \<Rightarrow> bytes" where
  "apply_change (Pwritten off bs) f = write_at f off bs"
| "apply_change (Truncated n) f = ftruncate f n"

fun cut_change :: "nat \<Rightarrow> file_change \<Rightarrow> bytes \<Rightarrow> bytes" where
  "cut_change n (Pwritten off bs) f = write_at f off (take n bs)"
| "cut_change n (Truncated m) f = f"

text \<open>What the process reads, and what is left when the power fails after \<open>i\<close> pending changes and \<open>n\<close> bytes of the next.\<close>

definition fi_cached :: "file_image \<Rightarrow> bytes" where
  "fi_cached f = fold apply_change (fi_pending f) (fi_stable f)"

definition fi_after_loss :: "nat \<Rightarrow> nat \<Rightarrow> file_image \<Rightarrow> bytes" where
  "fi_after_loss i n f =
     (let kept = fold apply_change (take i (fi_pending f)) (fi_stable f)
      in case drop i (fi_pending f) of [] \<Rightarrow> kept | w # _ \<Rightarrow> cut_change n w kept)"

definition fi_change :: "file_change \<Rightarrow> file_image \<Rightarrow> file_image" where
  "fi_change w f = f\<lparr>fi_pending := fi_pending f @ [w]\<rparr>"

definition fi_fsync :: "bool \<Rightarrow> file_image \<Rightarrow> file_image" where
  "fi_fsync ok f = (if ok then \<lparr>fi_stable = fi_cached f, fi_pending = []\<rparr> else f)"

definition fi_pwrite :: "write_outcome \<Rightarrow> nat \<Rightarrow> bytes \<Rightarrow> file_image \<Rightarrow> file_image" where
  "fi_pwrite oc off bs f = (case oc of None \<Rightarrow> f | Some n \<Rightarrow> fi_change (Pwritten off (take n bs)) f)"

text \<open>
  \<open>write_record\<close> on such a file, with its last argument \<open>sync_after\<close>. The result of \<open>fsync\<close> is not looked at.
\<close>

definition fi_write_record ::
  "bool \<Rightarrow> bool \<Rightarrow> write_outcome \<Rightarrow> file_image \<Rightarrow> nat \<Rightarrow> bytes \<Rightarrow> bytes \<Rightarrow> u32 \<Rightarrow> u64 \<Rightarrow> file_image \<times> write_result" where
  "fi_write_record sync_after fsync_ok oc f offset key value_data vlen_field ts =
     (let f' = fi_pwrite oc offset (record_buffer key value_data vlen_field ts) f
      in case snd (write_record oc (fi_cached f) offset key value_data vlen_field ts) of
           WriteFailed \<Rightarrow> (f', WriteFailed)
         | Written value_pos record_len \<Rightarrow>
             (if sync_after then fi_fsync fsync_ok f' else f', Written value_pos record_len))"

section \<open>The engine on a disk\<close>

record kv_disk =
  kd_engine :: kv_engine
  kd_current :: file_image
  kd_previous :: "file_image list"

text \<open>\<open>fsync_dir\<close> gives up silently when the directory cannot be opened or synced.\<close>

definition fsync_dir :: "bool \<Rightarrow> bool \<Rightarrow> kv_disk \<Rightarrow> kv_disk" where
  "fsync_dir open_ok fsync_ok d = (if \<not> open_ok then d else if fsync_ok then d\<lparr>kd_previous := []\<rparr> else d)"

record disk_env =
  de_write :: write_outcome
  de_now :: u64
  de_fsync_ok :: bool

record disk_compact_env =
  dce_calls :: kv_compact_env
  dce_fsync_ok :: bool
  dce_dir_open_ok :: bool
  dce_dir_fsync_ok :: bool

definition kd_start :: "kv_open_env \<Rightarrow> bytes \<Rightarrow> kv_error + kv_disk" where
  "kd_start env file =
     (case kv_open env file of
        Inl err \<Rightarrow> Inl err
      | Inr e \<Rightarrow>
          let f = \<lparr>fi_stable = file, fi_pending = []\<rparr>
          in Inr \<lparr>kd_engine = e,
                  kd_current = (if oe_ftruncate_ok env then fi_change (Truncated (kv_write_offset e)) f else f),
                  kd_previous = []\<rparr>)"

definition kd_put :: "bool \<Rightarrow> disk_env \<Rightarrow> kv_disk \<Rightarrow> bytes \<Rightarrow> bytes \<Rightarrow> kv_disk \<times> bool" where
  "kd_put sync_on_write env d key value =
     (let e = kd_engine d; (e', ok) = kv_put (de_write env) (de_now env) e key value
      in if length key > 0xFFFFFFFF \<or> length value \<ge> unat COMPACTION_BASE then (d, ok)
         else (d\<lparr>kd_engine := e',
                 kd_current := fst (fi_write_record sync_on_write (de_fsync_ok env) (de_write env) (kd_current d)
                   (kv_write_offset e) key value (of_nat (length value)) (de_now env))\<rparr>, ok))"

definition kd_del :: "bool \<Rightarrow> disk_env \<Rightarrow> kv_disk \<Rightarrow> bytes \<Rightarrow> kv_disk \<times> bool" where
  "kd_del sync_on_write env d key =
     (let e = kd_engine d; (e', ok) = kv_del (de_write env) (de_now env) e key
      in if map_of (kv_keydir e) key = None then (d, ok)
         else (d\<lparr>kd_engine := e',
                 kd_current := fst (fi_write_record sync_on_write (de_fsync_ok env) (de_write env) (kd_current d)
                   (kv_write_offset e) key [] TOMBSTONE (de_now env))\<rparr>, ok))"

text \<open>
  In \<open>compact\<close> the records of the new file are pending as one sequence of bytes when \<open>fsync(tmp_fd)\<close> is called; its result
  is not looked at either. From the rename on the directory may name the new file or one of the files it named before.
\<close>

definition kd_compact :: "disk_compact_env \<Rightarrow> kv_disk \<Rightarrow> kv_disk \<times> bool" where
  "kd_compact env d =
     (let (e', ok) = kv_compact (dce_calls env) (kd_engine d)
      in if \<not> ok then (d\<lparr>kd_engine := e'\<rparr>, False)
         else let tmp = fi_fsync (dce_fsync_ok env) (fi_change (Pwritten 0 (kv_file e')) \<lparr>fi_stable = [], fi_pending = []\<rparr>)
              in (fsync_dir (dce_dir_open_ok env) (dce_dir_fsync_ok env)
                    \<lparr>kd_engine = e', kd_current = tmp, kd_previous = kd_current d # kd_previous d\<rparr>, True))"

datatype disk_op = DiskPut disk_env bytes bytes | DiskDel disk_env bytes | DiskCompact disk_compact_env

fun kd_step :: "bool \<Rightarrow> kv_disk \<Rightarrow> disk_op \<Rightarrow> kv_disk \<times> bool" where
  "kd_step sync d (DiskPut env k v) = kd_put sync env d k v"
| "kd_step sync d (DiskDel env k) = kd_del sync env d k"
| "kd_step sync d (DiskCompact env) = kd_compact env d"

text \<open>
  The file that a power loss leaves: of the current file (\<open>j = 0\<close>) or of one that the directory may
  still name, after \<open>i\<close> pending changes and \<open>n\<close> bytes of the next.
\<close>

definition power_loss :: "nat \<Rightarrow> nat \<Rightarrow> nat \<Rightarrow> kv_disk \<Rightarrow> bytes" where
  "power_loss j i n d = fi_after_loss i n ((kd_current d # kd_previous d) ! j)"

section \<open>The specification\<close>

fun disk_effect :: "disk_op \<Rightarrow> call_effect" where
  "disk_effect (DiskPut env k v) = Stores k v"
| "disk_effect (DiskDel env k) = Removes k"
| "disk_effect (DiskCompact env) = Keeps"

text \<open>
  A call is flushed when its \<open>fsync\<close> was made and succeeded. After a compaction whose directory sync failed the new
  file may have no name on stable storage, until a compaction succeeds with its directory sync.
\<close>

fun disk_flushed :: "bool \<Rightarrow> disk_op \<Rightarrow> bool" where
  "disk_flushed sync (DiskPut env k v) = (sync \<and> de_fsync_ok env)"
| "disk_flushed sync (DiskDel env k) = (sync \<and> de_fsync_ok env)"
| "disk_flushed sync (DiskCompact env) = dce_fsync_ok env"

fun disk_naming :: "bool \<Rightarrow> disk_op \<Rightarrow> bool" where
  "disk_naming named (DiskCompact env) = (dce_dir_open_ok env \<and> dce_dir_fsync_ok env)"
| "disk_naming named _ = named"

text \<open>
  Writes that happen as a whole or not at all (a short write is the subject of \<open>kv_phantom_after_refused_put\<close>), and a
  compaction whose new file reached the disk.
\<close>

fun whole_op :: "disk_op \<Rightarrow> bool" where
  "whole_op (DiskPut env k v) = (case de_write env of None \<Rightarrow> True | Some n \<Rightarrow> HEADER_SIZE + length k + length v \<le> n)"
| "whole_op (DiskDel env k) = (case de_write env of None \<Rightarrow> True | Some n \<Rightarrow> HEADER_SIZE + length k \<le> n)"
| "whole_op (DiskCompact env) = dce_fsync_ok env"

section \<open>Images\<close>

lemma fi_cached_change [simp]: "fi_cached (fi_change w f) = apply_change w (fi_cached f)"
  by (simp add: fi_cached_def fi_change_def)

lemma fi_cached_fsync [simp]: "fi_cached (fi_fsync ok f) = fi_cached f"
  by (simp add: fi_cached_def fi_fsync_def)

lemma fi_after_loss_all: "length (fi_pending f) \<le> i \<Longrightarrow> fi_after_loss i n f = fi_cached f"
  by (simp add: fi_after_loss_def fi_cached_def)

lemma fi_after_loss_synced [simp]: "fi_after_loss i n (fi_fsync True f) = fi_cached f"
  by (simp add: fi_after_loss_def fi_fsync_def)

lemma fi_after_loss_change:
  "fi_after_loss i n (fi_change w f) =
     (if i < length (fi_pending f) then fi_after_loss i n f
      else if i = length (fi_pending f) then cut_change n w (fi_cached f)
      else apply_change w (fi_cached f))"
proof (cases "i < length (fi_pending f)")
  case True
  then show ?thesis by (simp add: fi_after_loss_def fi_change_def Cons_nth_drop_Suc [symmetric])
next
  case False
  then show ?thesis by (cases "i - length (fi_pending f)") (auto simp: fi_after_loss_def fi_change_def fi_cached_def)
qed

text \<open>The two views of \<open>write_record\<close> agree.\<close>

lemma fi_write_record_cached:
  "(fi_cached (fst (fi_write_record sync ok oc f off k v vl ts)), snd (fi_write_record sync ok oc f off k v vl ts))
   = write_record oc (fi_cached f) off k v vl ts"
  by (auto simp: fi_write_record_def write_record_def pwrite_def fi_pwrite_def Let_def split: option.splits write_result.splits)

section \<open>What a power loss can leave\<close>

text \<open>
  Every file that a power loss can leave of \<open>f\<close> is a log whose contents satisfy \<open>P\<close>, with a tail that does not parse.
\<close>

definition loss_sound :: "((bytes \<rightharpoonup> bytes) \<Rightarrow> bool) \<Rightarrow> file_image \<Rightarrow> bool" where
  "loss_sound P f \<longleftrightarrow> (\<forall>i n. \<exists>rs tail. fi_after_loss i n f = log_bytes rs @ tail \<and>
     (\<forall>r \<in> set rs. rec_ok kv_body_len r) \<and> parse_record kv_body_len tail = None \<and> P (contents rs))"

definition kd_inv :: "((bytes \<rightharpoonup> bytes) \<Rightarrow> bool) \<Rightarrow> kv_disk \<Rightarrow> bool" where
  "kd_inv P d \<longleftrightarrow> (\<exists>rs. kv_log rs (kd_engine d)) \<and> kv_clean (kd_engine d) \<and> compactable (kd_engine d) \<and>
     fi_cached (kd_current d) = kv_file (kd_engine d) \<and> loss_sound P (kd_current d) \<and>
     (\<forall>f \<in> set (kd_previous d). loss_sound P f)"

lemma loss_soundI:
  assumes "\<And>i n. \<exists>rs tail. fi_after_loss i n f = log_bytes rs @ tail \<and>
     (\<forall>r \<in> set rs. rec_ok kv_body_len r) \<and> parse_record kv_body_len tail = None \<and> P (contents rs)"
  shows "loss_sound P f"
  using assms by (simp add: loss_sound_def)

lemma loss_sound_mono: "loss_sound P f \<Longrightarrow> (\<And>m. P m \<Longrightarrow> Q m) \<Longrightarrow> loss_sound Q f"
  unfolding loss_sound_def by meson

lemma kd_inv_mono: "kd_inv P d \<Longrightarrow> (\<And>m. P m \<Longrightarrow> Q m) \<Longrightarrow> kd_inv Q d"
  unfolding kd_inv_def using loss_sound_mono by blast

lemma loss_sound_open:
  assumes "loss_sound P f" and "kv_open_ok env"
  shows "\<exists>e. kv_open env (fi_after_loss i n f) = Inr e \<and> kv_inv e \<and> kv_clean e \<and> P (kv_abs e)"
proof -
  obtain rs tail where f: "fi_after_loss i n f = log_bytes rs @ tail" and rs: "\<forall>r \<in> set rs. rec_ok kv_body_len r"
    and tail: "parse_record kv_body_len tail = None" and P: "P (contents rs)"
    using assms(1) unfolding loss_sound_def by blast
  obtain e where "kv_open env (log_bytes rs @ tail) = Inr e" "kv_log rs e" "kv_clean e"
    using kv_open_log [OF assms(2) _ tail] rs by blast
  with P show ?thesis by (auto simp: f kv_inv_def kv_log_abs)
qed

text \<open>A synced log has lost nothing; an appended record is there or not.\<close>

lemma loss_sound_synced:
  assumes "kv_log rs e" and "kv_clean e" and "fi_cached f = kv_file e" and "P (kv_abs e)"
  shows "loss_sound P (fi_fsync True f)"
proof (rule loss_soundI)
  fix i n
  show "\<exists>rs tail. fi_after_loss i n (fi_fsync True f) = log_bytes rs @ tail \<and>
     (\<forall>r \<in> set rs. rec_ok kv_body_len r) \<and> parse_record kv_body_len tail = None \<and> P (contents rs)"
    by (rule exI [of _ rs], rule exI [of _ "[]"])
      (use assms kv_log_recs [OF assms(1)] in \<open>simp add: kv_log_file kv_log_abs\<close>)
qed

lemma log_contents_unique:
  assumes "log_bytes rs @ tail = log_bytes rs' @ tail'"
    and "\<forall>r \<in> set rs. rec_ok kv_body_len r" "parse_record kv_body_len tail = None"
    and "\<forall>r \<in> set rs'. rec_ok kv_body_len r" "parse_record kv_body_len tail' = None"
  shows "contents rs = contents rs'"
proof -
  obtain e where "kv_open kv_ok_env (log_bytes rs @ tail) = Inr e" "kv_log rs e"
    using kv_open_log [OF kv_ok_env_ok _ assms(3)] assms(2) by blast
  moreover obtain e' where "kv_open kv_ok_env (log_bytes rs' @ tail') = Inr e'" "kv_log rs' e'"
    using kv_open_log [OF kv_ok_env_ok _ assms(5)] assms(4) by blast
  ultimately show ?thesis using kv_log_abs [of rs e] kv_log_abs [of rs' e'] assms(1) by simp
qed

lemma loss_sound_cached:
  assumes "loss_sound P f" and "fi_cached f = log_bytes rs" and "\<forall>r \<in> set rs. rec_ok kv_body_len r"
  shows "P (contents rs)"
proof -
  obtain rs' tail where "log_bytes rs = log_bytes rs' @ tail" "\<forall>r \<in> set rs'. rec_ok kv_body_len r"
    "parse_record kv_body_len tail = None" "P (contents rs')"
    using assms(1) [unfolded loss_sound_def, rule_format, of "length (fi_pending f)" 0]
    by (auto simp: fi_after_loss_all assms(2))
  then show ?thesis using log_contents_unique [of rs "[]" rs' tail] assms(3) by simp
qed

lemma loss_sound_append:
  assumes P: "loss_sound P f" and f: "fi_cached f = log_bytes rs"
    and rs: "\<forall>r \<in> set rs. rec_ok kv_body_len r" and r: "rec_ok kv_body_len r"
  shows "loss_sound (\<lambda>m. P m \<or> m = contents (rs @ [r])) (fi_change (Pwritten (length (log_bytes rs)) (rec_bytes r)) f)"
proof (rule loss_soundI)
  fix i n
  let ?f = "fi_change (Pwritten (length (log_bytes rs)) (rec_bytes r)) f" let ?l = "length (fi_pending f)"
  let ?Q = "\<lambda>m. P m \<or> m = contents (rs @ [r])"
  show "\<exists>rs tail. fi_after_loss i n ?f = log_bytes rs @ tail \<and> (\<forall>r \<in> set rs. rec_ok kv_body_len r) \<and>
    parse_record kv_body_len tail = None \<and> ?Q (contents rs)"
  proof (cases "i < ?l \<or> i = ?l \<and> n < rec_len r")
    case early: True
    show ?thesis
    proof (cases "i < ?l")
      case True
      then show ?thesis using P unfolding loss_sound_def fi_after_loss_change by simp blast
    next
      case False
      have "P (contents rs)" by (rule loss_sound_cached [OF P f rs])
      with False early rs show ?thesis
        by (intro exI [of _ rs] exI [of _ "take n (rec_bytes r)"])
          (simp add: fi_after_loss_change f parse_record_torn [OF r])
    qed
  next
    case False
    have "fi_after_loss i n ?f = log_bytes (rs @ [r])"
      using False by (auto simp: fi_after_loss_change f min_def)
    with rs r show ?thesis by (intro exI [of _ "rs @ [r]"] exI [of _ "[]"]) simp
  qed
qed

section \<open>Steps\<close>

lemma fi_write_record_whole:
  assumes "record_buffer key value v ts = rec_bytes r" and "lr_key r = key" and "length key < 2 ^ 32" and "rec_len r \<le> n"
  shows "fst (fi_write_record sync ok (Some n) f off key value v ts) =
    (if sync then fi_fsync ok (fi_change (Pwritten off (rec_bytes r)) f) else fi_change (Pwritten off (rec_bytes r)) f)"
  using assms(4) by (simp add: fi_write_record_def write_record_bytes [OF assms(1-3)] assms(1) fi_pwrite_def Let_def)

lemma fi_write_record_none: "fst (fi_write_record sync ok None f off key value v ts) = f"
  by (simp add: fi_write_record_def write_record_def pwrite_def fi_pwrite_def Let_def)

text \<open>Appending one whole record to the engine's file and to its image.\<close>

definition appended :: "bool \<Rightarrow> bool \<Rightarrow> kv_disk \<Rightarrow> log_rec \<Rightarrow> kv_engine \<Rightarrow> kv_disk" where
  "appended sync ok d r e' =
     (let f = fi_change (Pwritten (kv_write_offset (kd_engine d)) (rec_bytes r)) (kd_current d)
      in d\<lparr>kd_engine := e', kd_current := (if sync then fi_fsync ok f else f)\<rparr>)"

lemma kd_inv_appended:
  assumes inv: "kd_inv P d" and r: "rec_ok kv_body_len r"
    and e': "\<And>rs. kv_log rs (kd_engine d) \<Longrightarrow> kv_log (rs @ [r]) e'"
    and grown: "kv_file e' = kv_file (kd_engine d) @ rec_bytes r" and c: "kv_clean e'" "compactable e'"
  shows "kd_inv (\<lambda>m. P m \<or> m = kv_abs e') (appended sync ok d r e')"
    and "sync \<Longrightarrow> ok \<Longrightarrow> kd_previous d = [] \<Longrightarrow> kd_inv (\<lambda>m. m = kv_abs e') (appended sync ok d r e')"
proof -
  obtain rs where log: "kv_log rs (kd_engine d)" and clean: "kv_clean (kd_engine d)"
    and cached: "fi_cached (kd_current d) = kv_file (kd_engine d)" and sound: "loss_sound P (kd_current d)"
    and prev: "\<forall>f \<in> set (kd_previous d). loss_sound P f"
    using inv by (auto simp: kd_inv_def)
  note file0 = kv_log_file [OF log clean]
  have off: "kv_write_offset (kd_engine d) = length (log_bytes rs)" using log by (simp add: kv_log_def)
  let ?f = "fi_change (Pwritten (length (log_bytes rs)) (rec_bytes r)) (kd_current d)"
  have abs: "contents (rs @ [r]) = kv_abs e'" by (rule kv_log_abs [OF e' [OF log], symmetric])
  have cached': "fi_cached ?f = kv_file e'" by (simp add: cached file0 grown)
  have "loss_sound (\<lambda>m. P m \<or> m = contents (rs @ [r])) ?f"
    by (rule loss_sound_append [OF sound cached [unfolded file0] _ r]) (use kv_log_recs [OF log] in blast)
  then have new: "loss_sound (\<lambda>m. P m \<or> m = kv_abs e') ?f" by (simp only: abs)
  have synced: "loss_sound Q (fi_fsync True ?f)" if "Q (kv_abs e')" for Q
    by (rule loss_sound_synced [where f = ?f and P = Q, OF e' [OF log] c(1) cached' that])
  have "loss_sound (\<lambda>m. P m \<or> m = kv_abs e') (if sync then fi_fsync ok ?f else ?f)"
    using new synced [of "\<lambda>m. P m \<or> m = kv_abs e'"] by (cases ok) (auto simp: fi_fsync_def [of False])
  then show "kd_inv (\<lambda>m. P m \<or> m = kv_abs e') (appended sync ok d r e')"
    using e' [OF log] c cached' prev
    by (auto simp: kd_inv_def appended_def Let_def off intro: loss_sound_mono)
  show "sync \<Longrightarrow> ok \<Longrightarrow> kd_previous d = [] \<Longrightarrow> kd_inv (\<lambda>m. m = kv_abs e') (appended sync ok d r e')"
    using e' [OF log] c cached' synced [of "\<lambda>m. m = kv_abs e'"]
    by (auto simp: kd_inv_def appended_def Let_def off)
qed

lemma update_set: "snd ` set (AList.update k v al) \<subseteq> insert v (snd ` set al)"
  by (induction al) auto

lemma delete_set: "snd ` set (AList.delete k al) \<subseteq> snd ` set al"
  by (induction al) auto

lemma kd_put_acked:
  assumes inv: "kd_inv P d" and whole: "whole_op (DiskPut env k v)" and step: "kd_put sync env d k v = (d', True)"
  obtains e' where "kv_abs e' = (kv_abs (kd_engine d))(k \<mapsto> v)" and "kd_engine d' = e'"
    and "kd_previous d' = kd_previous d" and "kd_inv (\<lambda>m. P m \<or> m = kv_abs e') d'"
    and "sync \<Longrightarrow> de_fsync_ok env \<Longrightarrow> kd_previous d = [] \<Longrightarrow> kd_inv (\<lambda>m. m = kv_abs e') d'"
proof -
  let ?e = "kd_engine d" let ?r = "put_rec (de_now env) k v"
  obtain e' where p: "kv_put (de_write env) (de_now env) ?e k v = (e', True)"
    using step by (auto simp: kd_put_def Let_def split: prod.splits if_splits)
  obtain rs where log: "kv_log rs ?e" using inv by (auto simp: kd_inv_def)
  have clean: "kv_clean ?e" and comp: "compactable ?e" using inv by (simp_all add: kd_inv_def)
  note a = kv_put_log(1) [OF log p]
  have sizes: "\<not> (length k > 0xFFFFFFFF \<or> length v \<ge> unat COMPACTION_BASE)"
    using a by (simp add: put_allowed_def COMPACTION_BASE_def)
  obtain n where n: "de_write env = Some n" "rec_len ?r \<le> n"
    and e': "e' = ?e\<lparr>kv_file := write_at (kv_file ?e) (kv_write_offset ?e) (rec_bytes ?r),
                  kv_write_offset := kv_write_offset ?e + rec_len ?r,
                  kv_keydir := AList.update k
                    \<lparr>le_pos = kv_write_offset ?e + HEADER_SIZE + length k,
                     le_size = of_nat (length v), le_ts = de_now env\<rparr> (kv_keydir ?e)\<rparr>"
    using p a by (auto simp: kv_put_cases Let_def split: option.splits if_splits)
  have lk: "length k < 2 ^ 32" using a by (simp add: put_allowed_def)
  have d': "d' = appended sync (de_fsync_ok env) d ?r e'"
    using step sizes lk n(2)
    by (auto simp: kd_put_def p [unfolded n(1)] Let_def n(1) appended_def fi_write_record_whole [OF put_record_buffer [OF a]])
  have grown: "kv_file e' = kv_file ?e @ rec_bytes ?r"
    using clean by (simp add: e' kv_clean_def flip: write_at_end)
  have clean': "kv_clean e'" using clean grown by (simp add: kv_clean_def e')
  have comp': "compactable e'"
    using comp put_vlen(2) [OF a] update_set [of k _ "kv_keydir ?e"]
    by (fastforce simp: compactable_def e')
  have log': "kv_log (rs @ [?r]) e'" if "kv_log rs ?e" for rs by (rule kv_put_log(2) [OF that p])
  note i = kd_inv_appended [OF inv put_rec_ok(1) [OF a] log' grown clean' comp', of sync "de_fsync_ok env"]
  show ?thesis
    by (rule that [of e'])
      (use i kv_put_acked [OF _ p] log in \<open>auto simp: d' appended_def Let_def kv_inv_def\<close>)
qed

lemma kd_put_refused:
  assumes "whole_op (DiskPut env k v)" and step: "kd_put sync env d k v = (d', False)"
  shows "d' = d"
proof (cases "put_allowed k v")
  case False
  then show ?thesis
    using step by (auto simp: kd_put_def Let_def put_allowed_def COMPACTION_BASE_def split: prod.splits)
next
  case True
  then have "de_write env = None"
    using step assms(1) by (auto simp: kd_put_def Let_def kv_put_cases split: option.splits prod.splits if_splits)
  with step True show ?thesis
    by (auto simp: kd_put_def Let_def kv_put_cases fi_write_record_none split: if_splits)
qed

lemma kd_del_acked:
  assumes inv: "kd_inv P d" and whole: "whole_op (DiskDel env k)" and step: "kd_del sync env d k = (d', True)"
  obtains e' where "kv_abs e' = (kv_abs (kd_engine d))(k := None)" and "kd_engine d' = e'"
    and "kd_previous d' = kd_previous d" and "kd_inv (\<lambda>m. P m \<or> m = kv_abs e') d'"
    and "sync \<Longrightarrow> de_fsync_ok env \<Longrightarrow> kd_previous d = [] \<Longrightarrow> kd_inv (\<lambda>m. m = kv_abs e') d'"
proof -
  let ?e = "kd_engine d" let ?r = "del_rec (de_now env) k"
  obtain e' where p: "kv_del (de_write env) (de_now env) ?e k = (e', True)"
    using step by (auto simp: kd_del_def Let_def split: prod.splits if_splits)
  obtain rs where log: "kv_log rs ?e" using inv by (auto simp: kd_inv_def)
  have clean: "kv_clean ?e" and comp: "compactable ?e" using inv by (simp_all add: kd_inv_def)
  note m = kv_del_log(1) [OF log p]
  have lk: "length k < 2 ^ 32" by (rule kv_log_key_length [OF log m])
  obtain n where n: "de_write env = Some n" "rec_len ?r \<le> n"
    and e': "e' = ?e\<lparr>kv_file := write_at (kv_file ?e) (kv_write_offset ?e) (rec_bytes ?r),
                  kv_write_offset := kv_write_offset ?e + rec_len ?r,
                  kv_keydir := AList.delete k (kv_keydir ?e)\<rparr>"
    using p m by (auto simp: kv_del_cases [OF lk] Let_def split: option.splits if_splits)
  have buf: "record_buffer k [] TOMBSTONE (de_now env) = rec_bytes ?r"
    by (simp add: record_buffer_tombstone [OF lk] del_rec_def)
  have d': "d' = appended sync (de_fsync_ok env) d ?r e'"
    using step m lk n(2)
    by (auto simp: kd_del_def p [unfolded n(1)] Let_def n(1) appended_def fi_write_record_whole [OF buf])
  have grown: "kv_file e' = kv_file ?e @ rec_bytes ?r"
    using clean by (simp add: e' kv_clean_def flip: write_at_end)
  have clean': "kv_clean e'" using clean grown by (simp add: kv_clean_def e')
  have comp': "compactable e'"
    using comp delete_set [of k "kv_keydir ?e"] by (fastforce simp: compactable_def e')
  have log': "kv_log (rs @ [?r]) e'" if "kv_log rs ?e" for rs by (rule kv_del_log(2) [OF that p])
  note i = kd_inv_appended [OF inv del_rec_ok [OF lk] log' grown clean' comp', of sync "de_fsync_ok env"]
  show ?thesis
    by (rule that [of e'])
      (use i kv_del_acked [OF _ p] log in \<open>auto simp: d' appended_def Let_def kv_inv_def\<close>)
qed

lemma kd_del_refused:
  assumes inv: "kd_inv P d" and "whole_op (DiskDel env k)" and step: "kd_del sync env d k = (d', False)"
  shows "d' = d"
proof (cases "map_of (kv_keydir (kd_engine d)) k = None")
  case True
  then show ?thesis using step by (auto simp: kd_del_def Let_def split: prod.splits)
next
  case False
  obtain rs where log: "kv_log rs (kd_engine d)" using inv by (auto simp: kd_inv_def)
  note lk = kv_log_key_length [OF log False]
  have "de_write env = None"
    using step assms(2) False
    by (auto simp: kd_del_def Let_def kv_del_cases [OF lk] split: option.splits prod.splits if_splits)
  with step False show ?thesis
    by (auto simp: kd_del_def Let_def kv_del_cases [OF lk] fi_write_record_none)
qed

lemma replay_entry:
  "replay off rs m k = Some en \<Longrightarrow> m k = Some en \<or> (\<exists>r \<in> set rs. le_size en = lr_vlen r)"
  by (induction rs arbitrary: off m) (fastforce simp: apply_rec_def split: if_splits)+

lemma kv_log_compactable_recs:
  assumes "kv_log rs e" and "\<And>r. r \<in> set rs \<Longrightarrow> lr_vlen r \<noteq> COMPACTION_BASE"
  shows "compactable e"
proof -
  have "le_size en \<noteq> COMPACTION_BASE" if "(k, en) \<in> set (kv_keydir e)" for k en
  proof -
    have d: "distinct (map fst (kv_keydir e))" and m: "map_of (kv_keydir e) = replay 0 rs Map.empty"
      using assms(1) by (simp_all add: kv_log_def)
    have "replay 0 rs Map.empty k = Some en" using map_of_is_SomeI [OF d that] by (simp only: m)
    from replay_entry [OF this] assms(2) show ?thesis by force
  qed
  then show ?thesis by (auto simp: compactable_def)
qed

lemma kd_compact_acked:
  assumes inv: "kd_inv P d" and fs: "dce_fsync_ok env" and step: "kd_compact env d = (d', True)"
  shows "kv_abs (kd_engine d') = kv_abs (kd_engine d)"
    and "kd_previous d' = (if dce_dir_open_ok env \<and> dce_dir_fsync_ok env then [] else kd_current d # kd_previous d)"
    and "kd_inv (\<lambda>m. P m \<or> m = kv_abs (kd_engine d)) d'"
    and "dce_dir_open_ok env \<Longrightarrow> dce_dir_fsync_ok env \<Longrightarrow> kd_inv (\<lambda>m. m = kv_abs (kd_engine d)) d'"
proof -
  let ?e = "kd_engine d"
  obtain e' where p: "kv_compact (dce_calls env) ?e = (e', True)"
    using step by (auto simp: kd_compact_def Let_def split: prod.splits if_splits)
  obtain rs where log: "kv_log rs ?e" using inv by (auto simp: kd_inv_def)
  have comp: "compactable ?e" and prev: "\<forall>f \<in> set (kd_current d # kd_previous d). loss_sound P f"
    using inv by (simp_all add: kd_inv_def)
  note c = kv_compact_log [OF log comp p]
  have comp': "compactable e'"
    by (rule kv_log_compactable_recs [OF c(1)])
      (use put_vlen(2) [OF kv_log_compactable [OF log comp]] in \<open>force simp: compact_rec_def\<close>)
  let ?f = "fi_fsync True (fi_change (Pwritten 0 (kv_file e')) \<lparr>fi_stable = [], fi_pending = []\<rparr>)"
  have cached: "fi_cached (fi_change (Pwritten 0 (kv_file e')) \<lparr>fi_stable = [], fi_pending = []\<rparr>) = kv_file e'"
    using write_at_end [of "[]" "kv_file e'"] by (simp add: fi_cached_def fi_change_def)
  have synced: "loss_sound Q ?f" if "Q (kv_abs ?e)" for Q
    by (rule loss_sound_synced [where P = Q, OF c(1,2) cached]) (simp add: c(3) that)
  have d': "d' = fsync_dir (dce_dir_open_ok env) (dce_dir_fsync_ok env)
      \<lparr>kd_engine = e', kd_current = ?f, kd_previous = kd_current d # kd_previous d\<rparr>"
    using step fs by (simp add: kd_compact_def p Let_def)
  show "kv_abs (kd_engine d') = kv_abs ?e" by (simp add: d' fsync_dir_def c(3))
  show "kd_previous d' = (if dce_dir_open_ok env \<and> dce_dir_fsync_ok env then [] else kd_current d # kd_previous d)"
    by (simp add: d' fsync_dir_def)
  show "kd_inv (\<lambda>m. P m \<or> m = kv_abs ?e) d'"
    using prev c(1,2) comp' cached synced [of "\<lambda>m. P m \<or> m = kv_abs ?e"]
    by (auto simp: kd_inv_def d' fsync_dir_def intro: loss_sound_mono)
  show "dce_dir_open_ok env \<Longrightarrow> dce_dir_fsync_ok env \<Longrightarrow> kd_inv (\<lambda>m. m = kv_abs ?e) d'"
    using c(1,2) comp' cached synced [of "\<lambda>m. m = kv_abs ?e"]
    by (auto simp: kd_inv_def d' fsync_dir_def)
qed

lemma kd_compact_refused: "kd_compact env d = (d', False) \<Longrightarrow> d' = d"
  by (auto simp: kd_compact_def kv_compact_def Let_def split: prod.splits if_splits option.splits)

lemma kd_step_inv:
  assumes inv: "kd_inv P d" and whole: "whole_op op" and step: "kd_step sync d op = (d', ok)"
  shows "kv_abs (kd_engine d') = take_effect (kv_abs (kd_engine d)) (disk_effect op) ok \<and>
    kd_inv (\<lambda>m. P m \<or> m = kv_abs (kd_engine d')) d' \<and>
    (ok \<longrightarrow> disk_flushed sync op \<longrightarrow> disk_naming (kd_previous d = []) op \<longrightarrow> kd_inv (\<lambda>m. m = kv_abs (kd_engine d')) d') \<and>
    (kd_previous d' = []) = (if ok then disk_naming (kd_previous d = []) op else kd_previous d = [])"
proof (cases ok)
  case False
  have "d' = d"
  proof (cases op)
    case (DiskPut env k v)
    show ?thesis by (rule kd_put_refused [of env k v sync]) (use step whole False in \<open>simp_all add: DiskPut\<close>)
  next
    case (DiskDel env k)
    show ?thesis by (rule kd_del_refused [OF inv, of env k sync]) (use step whole False in \<open>simp_all add: DiskDel\<close>)
  next
    case (DiskCompact env)
    show ?thesis by (rule kd_compact_refused [of env]) (use step False in \<open>simp add: DiskCompact\<close>)
  qed
  then show ?thesis using False by (auto intro: kd_inv_mono [OF inv])
next
  case True
  show ?thesis
  proof (cases op)
    case (DiskPut env k v)
    have s: "kd_put sync env d k v = (d', True)" using step True by (simp add: DiskPut)
    show ?thesis
      by (rule kd_put_acked [OF inv whole [unfolded DiskPut] s]) (auto simp: DiskPut True)
  next
    case (DiskDel env k)
    have s: "kd_del sync env d k = (d', True)" using step True by (simp add: DiskDel)
    show ?thesis
      by (rule kd_del_acked [OF inv whole [unfolded DiskDel] s]) (auto simp: DiskDel True)
  next
    case (DiskCompact env)
    have s: "kd_compact env d = (d', True)" and f: "dce_fsync_ok env" using step whole True by (simp_all add: DiskCompact)
    note c = kd_compact_acked [OF inv f s]
    show ?thesis using c(3,4) by (auto simp: DiskCompact True c(1,2))
  qed
qed

interpretation kds: durable_store kd_inv "\<lambda>d. kv_abs (kd_engine d)" "\<lambda>d. kd_previous d = []" "kd_step sync"
  disk_effect "disk_flushed sync" disk_naming whole_op for sync
proof (unfold_locales, goal_cases)
  case (1 P s Q)
  then show ?case by (rule kd_inv_mono)
next
  case (2 P s op s' ok)
  then show ?case by (rule conjunct1 [OF kd_step_inv])
next
  case (3 P s op s' ok)
  then show ?case by (rule conjunct1 [OF conjunct2 [OF kd_step_inv]])
next
  case (4 P s op s')
  from kd_step_inv [OF 4(1-3)] 4(4,5) show ?case by blast
next
  case (5 P s op s' ok)
  from kd_step_inv [OF 5] show ?case by blast
qed

lemma kd_start_inv:
  assumes "kd_start env file0 = Inr d" and "kv_open_ok env" and "compactable (kd_engine d)"
  shows "kd_inv (\<lambda>m. m = kv_abs (kd_engine d)) d" and "kd_previous d = []"
proof -
  obtain rs tail where f: "file0 = log_bytes rs @ tail" and rs: "\<forall>r \<in> set rs. rec_ok kv_body_len r"
    and tail: "parse_record kv_body_len tail = None"
    using log_decomposition [of file0 kv_body_len] by blast
  obtain e where e: "kv_open env file0 = Inr e" "kv_log rs e" "kv_clean e"
    using kv_open_log [OF assms(2) _ tail] rs f by blast
  have tr: "oe_ftruncate_ok env" using assms(2) by (simp add: kv_open_ok_def)
  have d: "d = \<lparr>kd_engine = e, kd_current =
      fi_change (Truncated (length (log_bytes rs))) \<lparr>fi_stable = file0, fi_pending = []\<rparr>, kd_previous = []\<rparr>"
    using assms(1) e(2) by (simp add: kd_start_def e(1) Let_def tr kv_log_def)
  show "kd_previous d = []" by (simp add: d)
  have cut: "ftruncate file0 (length (log_bytes rs)) = log_bytes rs" by (simp add: f)
  have cached: "fi_cached (kd_current d) = kv_file (kd_engine d)"
    by (simp add: d kv_log_file [OF e(2,3)] fi_cached_def fi_change_def cut)
  have "loss_sound (\<lambda>m. m = kv_abs e) (kd_current d)"
  proof (rule loss_soundI)
    fix i n
    have "fi_after_loss i n (kd_current d) = log_bytes rs @ (if i = 0 then tail else [])"
      by (cases i) (auto simp: d fi_after_loss_def fi_change_def cut f)
    then show "\<exists>rs tail. fi_after_loss i n (kd_current d) = log_bytes rs @ tail \<and>
     (\<forall>r \<in> set rs. rec_ok kv_body_len r) \<and> parse_record kv_body_len tail = None \<and> contents rs = kv_abs e"
      using rs tail kv_log_abs [OF e(2)] by (intro exI [of _ rs] exI [of _ "if i = 0 then tail else []"]) simp
  qed
  then show "kd_inv (\<lambda>m. m = kv_abs (kd_engine d)) d"
    using e assms(3) cached by (auto simp: kd_inv_def d)
qed

section \<open>Properties\<close>


abbreviation durable_example :: disk_op where
  "durable_example \<equiv> DiskPut \<lparr>de_write = Some 100, de_now = 7, de_fsync_ok = True\<rparr> [107] [118]"


text \<open>
  What the ignored results of \<open>fsync\<close> cost. A \<open>put\<close> with \<open>sync_on_write\<close> whose \<open>fsync\<close> fails is acknowledged and can be
  gone after a power loss; a \<open>compact\<close> whose \<open>fsync\<close> fails replaces the data file by one that may be empty on disk.
\<close>

theorem kv_put_failed_fsync_is_lost:
  assumes "kd_start env file0 = Inr d0" and "kv_open_ok env" and "put_allowed key v" and "\<not> de_fsync_ok wenv"
    and "de_write wenv = Some n" and "HEADER_SIZE + length key + length v \<le> n"
  shows "\<exists>d e'. kd_put True wenv d0 key v = (d, True) \<and>
    kv_open env (power_loss 0 0 0 d) = Inr e' \<and> kv_abs e' = kv_abs (kd_engine d0)"
proof -
  obtain e0 where e0: "kv_open env file0 = Inr e0" and d0: "d0 = \<lparr>kd_engine = e0,
      kd_current = fi_change (Truncated (kv_write_offset e0)) \<lparr>fi_stable = file0, fi_pending = []\<rparr>, kd_previous = []\<rparr>"
    using assms(1,2) by (auto simp: kd_start_def Let_def kv_open_ok_def split: sum.splits)
  have sizes: "\<not> (length key > 0xFFFFFFFF \<or> length v \<ge> unat COMPACTION_BASE)" and lk: "length key < 2 ^ 32"
    using assms(3) by (simp_all add: put_allowed_def COMPACTION_BASE_def)
  obtain d where "kd_put True wenv d0 key v = (d, True)" and "fi_stable (kd_current d) = file0"
    and "hd (fi_pending (kd_current d)) = Truncated (kv_write_offset e0)" and "fi_pending (kd_current d) \<noteq> []"
    using assms(3-6) sizes lk
    by (simp add: kd_put_def Let_def d0 kv_put_cases fi_write_record_whole [OF put_record_buffer [OF assms(3)]]
        fi_fsync_def fi_change_def)
  moreover from this have "power_loss 0 0 0 d = file0"
    by (cases "fi_pending (kd_current d)") (simp_all add: power_loss_def fi_after_loss_def)
  ultimately show ?thesis using e0 by (auto simp: d0)
qed

theorem kv_compact_failed_fsync_erases:
  assumes "kd_compact env d = (d', True)" and "\<not> dce_fsync_ok env" and "kv_open_ok oenv"
  shows "kv_open oenv (power_loss 0 0 0 d') = Inr kv_fresh"
proof -
  define e' where "e' = fst (kv_compact (dce_calls env) (kd_engine d))"
  have "kd_current d' = fi_change (Pwritten 0 (kv_file e')) \<lparr>fi_stable = [], fi_pending = []\<rparr>"
    using assms(1,2) by (auto simp: e'_def kd_compact_def Let_def fsync_dir_def fi_fsync_def split: prod.splits if_splits)
  then have "power_loss 0 0 0 d' = []" by (simp add: power_loss_def fi_after_loss_def fi_change_def write_at_def)
  then show ?thesis
    using assms(3) by (simp add: kv_open_def kv_open_ok_def kv_rebuild_index_def kv_rebuild_loop.simps read_record_parse
        kv_fresh_def ftruncate_def)
qed

end
