(* ===== verification/Segmented_Durability.thy ===== *)
theory Segmented_Durability
  imports Segmented_Properties Power_Loss
begin

text \<open>
  \<open>fsync\<close> and power loss for the segmented engine. Beside the engine a disk has, for each segment, the number of its
  bytes that are on stable storage: \<open>write_record\<close> syncs the active segment when \<open>sync_on_write\<close> is set, and
  \<open>seal_active_segment\<close> always does. A power loss cuts every segment anywhere behind its stable bytes. Hint files and
  the merged segment are renamed to their names only after an \<open>fsync\<close> that is checked, and directory changes
  are followed by \<open>fsync_dir\<close>; both are taken to be stable when made, and so is the truncation at a start.
\<close>

section \<open>The engine on a disk\<close>

record sg_disk =
  sd_engine :: segmented_engine
  sd_stable :: "nat \<Rightarrow> nat"

text \<open>Outcomes of the two calls of \<open>fsync\<close> in \<open>put\<close> and \<open>del\<close>: in \<open>seal_active_segment\<close> and in \<open>write_record\<close>.\<close>

record sync_env =
  se_seal_ok :: bool
  se_write_ok :: bool

definition sg_segment :: "segmented_engine \<Rightarrow> nat \<Rightarrow> bytes" where
  "sg_segment e segid = file_of (sg_dir e) (segment_path segid)"

text \<open>\<open>maybe_roll_segment\<close>: the seal syncs the old segment; a segment that is created has no bytes yet.\<close>

definition sd_roll :: "op_env \<Rightarrow> sync_env \<Rightarrow> sg_disk \<Rightarrow> nat \<Rightarrow> nat" where
  "sd_roll env senv d =
     (let e = sd_engine d; a = sg_active_id e in
      if sg_active_offset e \<ge> sg_threshold e then
        (let st = (if se_seal_ok senv then (sd_stable d)(a := length (sg_segment e a)) else sd_stable d)
         in if pe_open_ok env \<and> map_of (sg_dir e) (segment_path (a + 1)) = None then st(a + 1 := 0) else st)
      else sd_stable d)"

definition sd_written :: "bool \<Rightarrow> sync_env \<Rightarrow> segmented_engine \<Rightarrow> (nat \<Rightarrow> nat) \<Rightarrow> nat \<Rightarrow> nat" where
  "sd_written sync_on_write senv e' st =
     (if sync_on_write \<and> se_write_ok senv
      then st(sg_active_id e' := length (sg_segment e' (sg_active_id e'))) else st)"

definition sd_put :: "bool \<Rightarrow> op_env \<Rightarrow> sync_env \<Rightarrow> sg_disk \<Rightarrow> bytes \<Rightarrow> bytes \<Rightarrow> sg_disk \<times> (sg_error + bool)" where
  "sd_put sync_on_write env senv d key value =
     (let (e', r) = sg_put env (sd_engine d) key value
      in if length key > 0xFFFFFFFF \<or> length value \<ge> unat COMPACTION_BASE then (d, r)
         else (let st = sd_roll env senv d
               in (\<lparr>sd_engine = e', sd_stable = (if r = Inr True then sd_written sync_on_write senv e' st else st)\<rparr>, r)))"

definition sd_del :: "bool \<Rightarrow> op_env \<Rightarrow> sync_env \<Rightarrow> sg_disk \<Rightarrow> bytes \<Rightarrow> sg_disk \<times> (sg_error + bool)" where
  "sd_del sync_on_write env senv d key =
     (let (e', r) = sg_del env (sd_engine d) key
      in if map_of (sg_keydir (sd_engine d)) key = None then (d, r)
         else (let st = sd_roll env senv d
               in (\<lparr>sd_engine = e', sd_stable = (if r = Inr True then sd_written sync_on_write senv e' st else st)\<rparr>, r)))"

text \<open>\<open>compact\<close> syncs the merged segment, and nothing else.\<close>

definition sd_compact :: "sg_compact_env \<Rightarrow> sg_disk \<Rightarrow> directory + sg_disk \<times> bool" where
  "sd_compact cenv d =
     (let sealed = sg_sealed (sd_engine d)
      in case sg_compact 0 cenv (sd_engine d) of
           Inl dir \<Rightarrow> Inl dir
         | Inr (e', ok) \<Rightarrow>
             Inr (\<lparr>sd_engine = e',
                   sd_stable = (if ok \<and> sealed \<noteq> []
                                then (sd_stable d)(last sealed := length (sg_segment e' (last sealed)))
                                else sd_stable d)\<rparr>, ok))"

text \<open>The directory after a power loss that leaves at least \<open>n i\<close> bytes of segment \<open>i\<close>, where there are so many.\<close>

definition cut_file :: "(nat \<Rightarrow> nat) \<Rightarrow> string \<Rightarrow> bytes \<Rightarrow> bytes" where
  "cut_file keep name f = (case parse_segment_name name of None \<Rightarrow> f | Some i \<Rightarrow> take (keep i) f)"

definition sg_power_loss :: "(nat \<Rightarrow> nat) \<Rightarrow> sg_disk \<Rightarrow> directory" where
  "sg_power_loss n d =
     map (\<lambda>(name, f). (name, cut_file (\<lambda>i. max (sd_stable d i) (n i)) name f)) (sg_dir (sd_engine d))"

datatype seg_op = SegPut op_env sync_env bytes bytes | SegDel op_env sync_env bytes

fun sd_step :: "bool \<Rightarrow> sg_disk \<Rightarrow> seg_op \<Rightarrow> sg_disk \<times> bool" where
  "sd_step sync d (SegPut env senv k v) = (let (d', r) = sd_put sync env senv d k v in (d', r = Inr True))"
| "sd_step sync d (SegDel env senv k) = (let (d', r) = sd_del sync env senv d k in (d', r = Inr True))"

fun seg_effect :: "seg_op \<Rightarrow> call_effect" where
  "seg_effect (SegPut env senv k v) = Stores k v"
| "seg_effect (SegDel env senv k) = Removes k"

fun seg_flushed :: "bool \<Rightarrow> seg_op \<Rightarrow> bool" where
  "seg_flushed sync (SegPut env senv k v) = (sync \<and> se_write_ok senv)"
| "seg_flushed sync (SegDel env senv k) = (sync \<and> se_write_ok senv)"

text \<open>Writes that happen as a whole or not at all; a segment is created, and sealed with a working \<open>fsync\<close>.\<close>

fun seg_whole :: "seg_op \<Rightarrow> bool" where
  "seg_whole (SegPut env senv k v) =
     (pe_open_ok env \<and> se_seal_ok senv \<and>
      (case pe_write env of None \<Rightarrow> True | Some n \<Rightarrow> HEADER_SIZE + length k + length v \<le> n))"
| "seg_whole (SegDel env senv k) =
     (pe_open_ok env \<and> se_seal_ok senv \<and>
      (case pe_write env of None \<Rightarrow> True | Some n \<Rightarrow> HEADER_SIZE + length k \<le> n))"

section \<open>Cutting files\<close>

lemma map_of_power_loss:
  "map_of (sg_power_loss n d) name =
     map_option (cut_file (\<lambda>i. max (sd_stable d i) (n i)) name) (map_of (sg_dir (sd_engine d)) name)"
proof -
  have "map_of (map (\<lambda>(name, f). (name, g name f)) xs) name = map_option (g name) (map_of xs name)"
    for g :: "string \<Rightarrow> bytes \<Rightarrow> bytes" and xs
    by (induction xs) auto
  then show ?thesis by (simp add: sg_power_loss_def)
qed

lemma fst_power_loss: "map fst (sg_power_loss n d) = map fst (sg_dir (sd_engine d))"
  by (simp add: sg_power_loss_def split_def comp_def)

lemma dir_fits_power_loss: "dir_fits (sg_dir (sd_engine d)) \<Longrightarrow> dir_fits (sg_power_loss n d)"
  by (fastforce simp: dir_fits_def sg_power_loss_def cut_file_def min_less_iff_disj split: option.splits)

text \<open>A log cut anywhere is some of its records and a torn one.\<close>

lemma take_log_bytes:
  assumes "\<forall>r \<in> set rs. seg_rec r"
  shows "\<exists>j tail. j \<le> length rs \<and> take m (log_bytes rs) = log_bytes (take j rs) @ tail \<and> seg_parse tail = None \<and>
    (\<forall>s \<le> length rs. length (log_bytes (take s rs)) \<le> m \<longrightarrow> s \<le> j)"
  using assms
proof (induction rs arbitrary: m)
  case Nil
  then show ?case by (simp add: seg_parse_def)
next
  case (Cons r rs)
  show ?case
  proof (cases "m < rec_len r")
    case True
    have "s = 0" if "length (log_bytes (take s (r # rs))) \<le> m" for s
      using that True by (cases s) simp_all
    then show ?thesis
      using True seg_parse_torn [of r m] Cons.prems
      by (intro exI [of _ 0] exI [of _ "take m (rec_bytes r)"]) auto
  next
    case False
    obtain j tail where j: "j \<le> length rs" "take (m - rec_len r) (log_bytes rs) = log_bytes (take j rs) @ tail"
      "seg_parse tail = None" "\<forall>s \<le> length rs. length (log_bytes (take s rs)) \<le> m - rec_len r \<longrightarrow> s \<le> j"
      using Cons.IH [of "m - rec_len r"] Cons.prems by auto
    have "s \<le> Suc j" if "s \<le> length (r # rs)" "length (log_bytes (take s (r # rs))) \<le> m" for s
      using that j(4) by (cases s) auto
    then show ?thesis
      using False j(1-3) by (intro exI [of _ "Suc j"] exI [of _ tail]) simp
  qed
qed

lemma dir_log_cut:
  assumes log: "dir_log (init @ [(a, rs)]) d" and dist: "distinct (map fst d')"
    and seg: "\<And>i. i \<in> fst ` set init \<Longrightarrow> map_of d' (segment_path i) = map_of d (segment_path i)"
    and act: "map_of d' (segment_path a) = Some (log_bytes (take j rs) @ tail)"
    and dom: "\<And>name. map_of d' name \<noteq> None \<longleftrightarrow> map_of d name \<noteq> None"
    and hints: "\<And>i. map_of d' (hint_path i) = map_of d (hint_path i)" and hint: "map_of d (hint_path a) = None"
  shows "dir_log (init @ [(a, take j rs)]) d'"
proof -
  have old: "(\<exists>tail. seg_file d i rs0 tail) \<and> hint_ok d i rs0" if "(i, rs0) \<in> set (init @ [(a, rs)])" for i rs0
    using log that by (auto simp: dir_log_def)
  have "seg_file d' a (take j rs) tail"
    using old [of a rs] act by (auto simp: seg_file_def dest: in_set_takeD)
  moreover have "hint_ok d' a (take j rs)" by (simp add: hint_ok_def hints hint)
  moreover have "(\<exists>tail. seg_file d' i rs0 tail) \<and> hint_ok d' i rs0" if "(i, rs0) \<in> set init" for i rs0
    using old [of i rs0] that seg [of i] by (force simp: seg_file_def hint_ok_def hints)
  ultimately have files: "\<forall>(i, rs0) \<in> set (init @ [(a, take j rs)]). (\<exists>tail. seg_file d' i rs0 tail) \<and> hint_ok d' i rs0"
    by auto
  have "begins_marker (take j rs) \<Longrightarrow> begins_marker rs" by (cases j; cases rs) (auto simp: begins_marker_def)
  then have mark: "\<forall>(i, rs0) \<in> set (tl (init @ [(a, take j rs)])). \<not> begins_marker rs0"
    using log by (cases init) (auto simp: dir_log_def)
  show ?thesis
    unfolding dir_log_def dom hints
  proof (intro conjI)
    show "\<forall>i. map_of d (segment_path i) \<noteq> None \<longrightarrow>
        i \<in> fst ` set (init @ [(a, take j rs)]) \<or> superseded_id (init @ [(a, take j rs)]) i"
      using log superseded_last [of init a rs _ "take j rs"] by (simp add: dir_log_def)
  qed (use log files mark dist in \<open>simp_all add: dir_log_def hints\<close>)
qed

section \<open>What a power loss can leave\<close>

text \<open>
  The sealed segments are on stable storage and so are the first \<open>s\<close> records of the active one, which has no hint.
\<close>

definition sd_log :: "segments \<Rightarrow> nat \<Rightarrow> log_rec list \<Rightarrow> nat \<Rightarrow> sg_disk \<Rightarrow> bool" where
  "sd_log init a rs s d \<longleftrightarrow>
     sg_log (init @ [(a, rs)]) (sd_engine d) \<and> dir_clean (init @ [(a, rs)]) (sg_dir (sd_engine d)) \<and>
     sg_tight (sd_engine d) \<and> map_of (sg_dir (sd_engine d)) (hint_path a) = None \<and>
     (\<forall>i \<in> fst ` set init. length (sg_segment (sd_engine d) i) \<le> sd_stable d i) \<and>
     s \<le> length rs \<and> sd_stable d a = length (log_bytes (take s rs))"

definition cut_values :: "segments \<Rightarrow> nat \<Rightarrow> log_rec list \<Rightarrow> nat \<Rightarrow> (bytes \<rightharpoonup> bytes)" where
  "cut_values init a rs j = values_of (segs_placed (init @ [(a, take j rs)]))"

definition sd_inv :: "((bytes \<rightharpoonup> bytes) \<Rightarrow> bool) \<Rightarrow> sg_disk \<Rightarrow> bool" where
  "sd_inv P d \<longleftrightarrow> (\<exists>init a rs s. sd_log init a rs s d \<and> (\<forall>j. s \<le> j \<longrightarrow> j \<le> length rs \<longrightarrow> P (cut_values init a rs j)))"

lemma sd_inv_mono: "sd_inv P d \<Longrightarrow> (\<And>m. P m \<Longrightarrow> Q m) \<Longrightarrow> sd_inv Q d"
  unfolding sd_inv_def by meson

lemma sd_log_abs: "sd_log init a rs s d \<Longrightarrow> sg_abs (sd_engine d) = cut_values init a rs (length rs)"
  using sg_log_abs [of "init @ [(a, rs)]" "sd_engine d"] by (simp add: sd_log_def cut_values_def)

lemma sd_log_open:
  assumes log: "sd_log init a rs s d" and fits: "sg_fits (sd_engine d)" and ok: "sg_open_ok env"
  shows "\<exists>e' j. s \<le> j \<and> j \<le> length rs \<and> sg_open env th cap (sg_power_loss n d) = Inr e' \<and> sg_clean e' \<and>
    sg_abs e' = cut_values init a rs j \<and> length (log_bytes (take j rs)) \<le> max (sd_stable d a) (n a)"
proof -
  let ?e = "sd_engine d"
  define keep where "keep = (\<lambda>i. max (sd_stable d i) (n i))"
  have sl: "sg_log (init @ [(a, rs)]) ?e" and c: "dir_clean (init @ [(a, rs)]) (sg_dir ?e)" and t: "sg_tight ?e"
    and hint: "map_of (sg_dir ?e) (hint_path a) = None"
    and sealed: "\<forall>i \<in> fst ` set init. length (sg_segment ?e i) \<le> sd_stable d i"
    and s: "s \<le> length rs" "sd_stable d a = length (log_bytes (take s rs))"
    using log by (simp_all add: sd_log_def)
  have dl: "dir_log (init @ [(a, rs)]) (sg_dir ?e)" and id: "sg_active_id ?e = a" using sl by (simp_all add: sg_log_def)
  have sorted: "sorted_wrt (<) (map fst (init @ [(a, rs)]))" using dl unfolding dir_log_def by blast
  have recs: "\<forall>r \<in> set rs. seg_rec r" using dir_log_file [OF dl, of a rs] by (force simp: seg_file_def)
  obtain j tail where j: "j \<le> length rs" "take (keep a) (log_bytes rs) = log_bytes (take j rs) @ tail" "seg_parse tail = None"
    and sj: "\<forall>s \<le> length rs. length (log_bytes (take s rs)) \<le> keep a \<longrightarrow> s \<le> j"
    using take_log_bytes [OF recs, of "keep a"] by blast
  have "s \<le> j" using sj s by (simp add: keep_def)
  have "length (log_bytes (take j rs)) \<le> length (take (keep a) (log_bytes rs))" by (simp only: j(2) length_append le_add1)
  then have few: "length (log_bytes (take j rs)) \<le> max (sd_stable d a) (n a)" by (simp add: keep_def)
  let ?d = "sg_power_loss n d"
  have m: "map_of ?d name = map_option (cut_file keep name) (map_of (sg_dir ?e) name)" for name
    by (simp add: map_of_power_loss keep_def)
  have hints: "map_of ?d (hint_path i) = map_of (sg_dir ?e) (hint_path i)" for i
    by (cases "map_of (sg_dir ?e) (hint_path i)") (simp_all add: m cut_file_def)
  have segf: "map_of ?d (segment_path i) = map_option (take (keep i)) (map_of (sg_dir ?e) (segment_path i))"
    if mem: "i \<in> fst ` set (init @ [(a, rs)])" for i
  proof -
    obtain rs0 where "(i, rs0) \<in> set (init @ [(a, rs)])" using mem by force
    then have "i \<le> fst (last (init @ [(a, rs)]))" by (rule segs_le_last [OF _ sorted])
    then have "i \<le> a" by simp
    then have "i < 10 ^ 19" using fits id by (simp add: sg_fits_def)
    then show ?thesis
      by (cases "map_of (sg_dir ?e) (segment_path i)") (simp_all add: m cut_file_def parse_segment_path)
  qed
  have old: "map_of ?d (segment_path i) = map_of (sg_dir ?e) (segment_path i)" if "i \<in> fst ` set init" for i
  proof -
    have "length (sg_segment ?e i) \<le> keep i" using sealed that by (force simp: keep_def)
    then show ?thesis
      using segf [of i] that by (cases "map_of (sg_dir ?e) (segment_path i)") (auto simp: sg_segment_def file_of_def)
  qed
  have act: "map_of ?d (segment_path a) = Some (log_bytes (take j rs) @ tail)"
    using segf [of a] sg_tight_file [OF sl t refl] j(2) by simp
  have "dir_log (init @ [(a, take j rs)]) ?d"
    by (rule dir_log_cut [OF dl _ old act _ hints hint]) (use dir_log_distinct [OF dl] in \<open>auto simp: fst_power_loss m\<close>)
  moreover have "dir_clean (init @ [(a, take j rs)]) ?d"
    using c old act j(3) by (force simp: dir_clean_def)
  moreover have "dir_fits ?d" using fits by (simp add: sg_fits_def dir_fits_power_loss)
  ultimately show ?thesis
    using sg_reopen [OF _ _ ok, of "init @ [(a, take j rs)]" ?d th cap] fits id j(1) \<open>s \<le> j\<close> few
    by (auto simp: cut_values_def sg_fits_def)
qed

section \<open>Steps\<close>

lemma sd_roll_log:
  assumes log: "sd_log init a rs s d" and o: "pe_open_ok env" and seal: "se_seal_ok senv"
  obtains e1 init1 a1 rs1 s1 where "maybe_roll_segment env (sd_engine d) = (e1, None)"
    and "sd_log init1 a1 rs1 s1 \<lparr>sd_engine = e1, sd_stable = sd_roll env senv d\<rparr>"
    and "sg_active_offset e1 < sg_threshold e1 \<or> sg_active_offset e1 = 0"
    and "cut_values init1 a1 rs1 (length rs1) = cut_values init a rs (length rs)"
    and "\<forall>j. s1 \<le> j \<and> j \<le> length rs1 \<longrightarrow> (\<exists>j'. s \<le> j' \<and> j' \<le> length rs \<and> cut_values init1 a1 rs1 j = cut_values init a rs j')"
proof -
  let ?e = "sd_engine d"
  have sl: "sg_log (init @ [(a, rs)]) ?e" and c: "dir_clean (init @ [(a, rs)]) (sg_dir ?e)" and t: "sg_tight ?e"
    and sealed: "\<forall>i \<in> fst ` set init. length (sg_segment ?e i) \<le> sd_stable d i"
    using log by (simp_all add: sd_log_def)
  have id: "sg_active_id ?e = a" using sl by (simp add: sg_log_def)
  obtain e1 where roll: "maybe_roll_segment env ?e = (e1, None)" and cases:
    "sg_active_offset ?e < sg_threshold ?e \<and> e1 = ?e \<or>
      sg_threshold ?e \<le> sg_active_offset ?e \<and> sg_active_id e1 = sg_active_id ?e + 1 \<and> sg_active_offset e1 = 0 \<and>
      sg_log ((init @ [(a, rs)]) @ [(sg_active_id ?e + 1, [])]) e1 \<and>
      dir_clean ((init @ [(a, rs)]) @ [(sg_active_id ?e + 1, [])]) (sg_dir e1) \<and> sg_tight e1 \<and>
      map_of (sg_dir ?e) (segment_path (sg_active_id ?e + 1)) = None \<and>
      map_of (sg_dir e1) (hint_path (sg_active_id ?e + 1)) = None \<and>
      (\<forall>i \<in> fst ` set (init @ [(a, rs)]). map_of (sg_dir e1) (segment_path i) = map_of (sg_dir ?e) (segment_path i))"
    by (rule sg_roll_shape [OF sl c t o])
  from cases show thesis
  proof (elim disjE conjE, goal_cases)
    case 1
    have "sd_roll env senv d = sd_stable d" using 1(1) by (simp add: sd_roll_def Let_def)
    then have "sd_log init a rs s \<lparr>sd_engine = e1, sd_stable = sd_roll env senv d\<rparr>" using log 1(2) by (simp add: sd_log_def)
    from that [OF roll this] show thesis using 1 by blast
  next
    case 2
    have st: "sd_roll env senv d = (sd_stable d)(a := length (sg_segment ?e a), a + 1 := 0)"
      using 2(1,7) o seal by (simp add: sd_roll_def Let_def id)
    have same: "sg_segment e1 i = sg_segment ?e i" if "i \<in> fst ` set (init @ [(a, rs)])" for i
      using bspec [OF 2(9) that] by (simp add: sg_segment_def file_of_def)
    have "sorted_wrt (<) (map fst ((init @ [(a, rs)]) @ [(a + 1, [])]))" using 2(4) id by (simp add: sg_log_def dir_log_def)
    then have lt: "i < a" if "i \<in> fst ` set init" for i using that by (auto simp: sorted_wrt_append)
    have "length (sg_segment e1 i) \<le> sd_roll env senv d i" if "i \<in> fst ` set (init @ [(a, rs)])" for i
    proof (cases "i = a")
      case False
      then have i: "i \<in> fst ` set init" using that by auto
      then have "length (sg_segment (sd_engine d) i) \<le> sd_stable d i" "i < a" using sealed lt by blast+
      then show ?thesis using same [OF that] by (simp add: st)
    next
      case True
      then show ?thesis using same [of a] by (simp add: st)
    qed
    then have "sd_log (init @ [(a, rs)]) (a + 1) [] 0 \<lparr>sd_engine = e1, sd_stable = sd_roll env senv d\<rparr>"
      using 2(4,5,6,8) id by (simp add: sd_log_def) (simp add: st)
    moreover have "cut_values (init @ [(a, rs)]) (a + 1) [] 0 = cut_values init a rs (length rs)"
      by (simp add: cut_values_def)
    ultimately show thesis
      using 2(3) log by (intro that [OF roll, of "init @ [(a, rs)]" "a + 1" "[]" 0]) (auto simp: sd_log_def)
  qed
qed

lemma cut_values_append: "j \<le> length rs \<Longrightarrow> cut_values init a (rs @ [r]) j = cut_values init a rs j"
  by (simp add: cut_values_def)

lemma cut_values_snoc:
  "cut_values init a (rs @ [r]) (length (rs @ [r])) = value_step (cut_values init a rs (length rs)) (a, length (log_bytes rs), r)"
  by (simp add: cut_values_def placed_append del: append_assoc flip: append_assoc)

text \<open>One whole record on the active segment, and the sync after it.\<close>

lemma sd_append_log:
  assumes log: "sd_log init a rs s \<lparr>sd_engine = e, sd_stable = st\<rparr>" and r: "seg_rec r" "lr_vlen r \<noteq> COMPACTION_BASE"
    and roll: "sg_active_offset e < sg_threshold e \<or> sg_active_offset e = 0"
    and kd: "map_of kd = place_step (map_of (sg_keydir e)) (sg_active_id e, sg_active_offset e, r)" "distinct (map fst kd)"
    and c: "lru.coherent (value_step (values_of (segs_placed (init @ [(a, rs)]))) (sg_active_id e, sg_active_offset e, r)) c"
    and e': "e' = e\<lparr>sg_dir := AList.update (segment_path (sg_active_id e))
           (write_at (file_of (sg_dir e) (segment_path (sg_active_id e))) (sg_active_offset e) (rec_bytes r)) (sg_dir e),
         sg_active_offset := sg_active_offset e + rec_len r, sg_keydir := kd,
         sg_active_hints := sg_active_hints e @ [place_hint (sg_active_id e, sg_active_offset e, r)],
         sg_cache := c\<rparr>"
  shows "\<exists>s'. sd_log init a (rs @ [r]) s' \<lparr>sd_engine = e', sd_stable = sd_written sync senv e' st\<rparr> \<and>
    s \<le> s' \<and> s' = (if sync \<and> se_write_ok senv then length (rs @ [r]) else s)"
proof -
  have sl: "sg_log (init @ [(a, rs)]) e" and cl: "dir_clean (init @ [(a, rs)]) (sg_dir e)" and t: "sg_tight e"
    and hint: "map_of (sg_dir e) (hint_path a) = None"
    and sealed: "\<forall>i \<in> fst ` set init. length (sg_segment e i) \<le> st i"
    and s: "s \<le> length rs" "st a = length (log_bytes (take s rs))"
    using log by (simp_all add: sd_log_def)
  have a: "sg_active_id e = a" "sg_active_offset e = length (log_bytes rs)" using sl by (simp_all add: sg_log_def)
  have f: "file_of (sg_dir e) (segment_path a) = log_bytes rs" using sg_tight_file [OF sl t refl] by (simp add: file_of_def)
  have m: "map_of (sg_dir e') = (map_of (sg_dir e))(segment_path a \<mapsto> log_bytes (rs @ [r]))"
    by (simp add: e' a f update_conv')
  have noa: "a \<notin> fst ` set init" using sl by (auto simp: sg_log_def dir_log_def sorted_wrt_append)
  have "sg_log (init @ [(a, rs @ [r])]) e'"
    using sg_write_done(1) [OF sl r roll kd c e'] by (simp add: extend_last_def)
  moreover have "dir_clean (init @ [(a, rs @ [r])]) (sg_dir e')"
    using cl noa by (force simp: dir_clean_def m seg_parse_def)
  moreover have tight: "sg_segment e' a = log_bytes (rs @ [r])" by (simp add: sg_segment_def file_of_def m)
  then have "sg_tight e'" by (simp add: sg_tight_def sg_segment_def e' a)
  moreover have "map_of (sg_dir e') (hint_path a) = None" by (simp add: m hint)
  moreover have "length (sg_segment e' i) \<le> sd_written sync senv e' st i" if "i \<in> fst ` set init" for i
  proof -
    have i: "i \<noteq> a" using that noa by blast
    then have "sg_segment e' i = sg_segment e i" by (simp add: sg_segment_def file_of_def m)
    moreover have "length (sg_segment e i) \<le> st i" using sealed that by blast
    moreover have "sd_written sync senv e' st i = st i" using i by (simp add: sd_written_def e' a)
    ultimately show ?thesis by simp
  qed
  moreover have "sg_active_id e' = a" by (simp add: e' a)
  moreover have "length (log_bytes (take s (rs @ [r]))) = st a" using s by simp
  ultimately show ?thesis
    using s tight unfolding sd_log_def
    by (intro exI [of _ "if sync \<and> se_write_ok senv then length (rs @ [r]) else s"]) (auto simp: sd_written_def)
qed

lemma sg_put_whole:
  assumes a: "put_allowed key v" and roll: "maybe_roll_segment env e = (e1, None)"
    and w: "pe_write env = Some n" "HEADER_SIZE + length key + length v \<le> n"
  shows "sg_put env e key v =
    (e1\<lparr>sg_dir := AList.update (segment_path (sg_active_id e1))
           (write_at (file_of (sg_dir e1) (segment_path (sg_active_id e1))) (sg_active_offset e1)
             (rec_bytes (put_rec (pe_now env) key v))) (sg_dir e1),
        sg_active_offset := sg_active_offset e1 + rec_len (put_rec (pe_now env) key v),
        sg_keydir := AList.update key
          \<lparr>ke_segment_id = sg_active_id e1, ke_value_pos = sg_active_offset e1 + HEADER_SIZE + length key,
           ke_value_size = of_nat (length v), ke_timestamp = pe_now env\<rparr> (sg_keydir e1),
        sg_active_hints := sg_active_hints e1 @ [place_hint (sg_active_id e1, sg_active_offset e1, put_rec (pe_now env) key v)],
        sg_cache := lru_put (sg_cache e1) key v\<rparr>, Inr True)"
proof -
  have "length key < 2 ^ 32" and "\<not> (length key > 0xFFFFFFFF \<or> length v \<ge> unat COMPACTION_BASE)"
    using a by (simp_all add: put_allowed_def COMPACTION_BASE_def)
  then show ?thesis
    using w by (simp add: sg_put_def roll Let_def write_record_bytes [OF put_record_buffer [OF a] put_rec_simps(1)] place_hint_def)
qed

lemma sg_del_whole:
  assumes m: "map_of (sg_keydir e) key \<noteq> None" and lk: "length key < 2 ^ 32"
    and roll: "maybe_roll_segment env e = (e1, None)" and w: "pe_write env = Some n" "HEADER_SIZE + length key \<le> n"
  shows "sg_del env e key =
    (e1\<lparr>sg_dir := AList.update (segment_path (sg_active_id e1))
           (write_at (file_of (sg_dir e1) (segment_path (sg_active_id e1))) (sg_active_offset e1)
             (rec_bytes (del_rec (pe_now env) key))) (sg_dir e1),
        sg_active_offset := sg_active_offset e1 + rec_len (del_rec (pe_now env) key),
        sg_keydir := AList.delete key (sg_keydir e1),
        sg_active_hints := sg_active_hints e1 @ [place_hint (sg_active_id e1, sg_active_offset e1, del_rec (pe_now env) key)],
        sg_cache := lru_erase (sg_cache e1) key\<rparr>, Inr True)"
proof -
  have buf: "record_buffer key [] TOMBSTONE (pe_now env) = rec_bytes (del_rec (pe_now env) key)"
    using record_buffer_tombstone [OF lk] by (simp add: del_rec_def)
  show ?thesis
    using m w by (auto simp: sg_del_def roll Let_def write_record_bytes [OF buf del_rec_simps(1) lk] place_hint_def)
qed

text \<open>A call whose write stores nothing, after the rolling.\<close>

lemma sg_refused_none:
  assumes roll: "maybe_roll_segment env e = (e1, None)" and w: "pe_write env = None"
    and f: "map_of (sg_dir e1) (segment_path (sg_active_id e1)) \<noteq> None"
  shows "put_allowed key v \<Longrightarrow> sg_put env e key v = (e1, Inr False)"
    and "map_of (sg_keydir e) key \<noteq> None \<Longrightarrow> sg_del env e key = (e1, Inr False)"
proof -
  obtain g where g: "map_of (sg_dir e1) (segment_path (sg_active_id e1)) = Some g" using f by blast
  have u: "AList.update (segment_path (sg_active_id e1)) (file_of (sg_dir e1) (segment_path (sg_active_id e1))) (sg_dir e1) = sg_dir e1"
    using g by (simp add: file_of_def update_triv)
  show "put_allowed key v \<Longrightarrow> sg_put env e key v = (e1, Inr False)"
    by (auto simp: sg_put_def roll Let_def w write_record_def pwrite_def put_allowed_def COMPACTION_BASE_def u)
  show "map_of (sg_keydir e) key \<noteq> None \<Longrightarrow> sg_del env e key = (e1, Inr False)"
    by (auto simp: sg_del_def roll Let_def w write_record_def pwrite_def u)
qed

lemma sd_log_file: "sd_log init a rs s d \<Longrightarrow> map_of (sg_dir (sd_engine d)) (segment_path (sg_active_id (sd_engine d))) \<noteq> None"
  using sg_tight_file [of "init @ [(a, rs)]" "sd_engine d" init a rs] by (simp add: sd_log_def sg_log_def)

lemma sd_inv_stable: "sd_log init a rs (length rs) d \<Longrightarrow> sd_inv (\<lambda>m. m = sg_abs (sd_engine d)) d"
  unfolding sd_inv_def
  by (rule exI [of _ init], rule exI [of _ a], rule exI [of _ rs], rule exI [of _ "length rs"]) (auto simp: sd_log_abs)

text \<open>What an appended record does to the maps that a power loss may leave.\<close>

lemma sd_inv_append:
  assumes P: "\<And>j. s \<le> j \<Longrightarrow> j \<le> length rs \<Longrightarrow> P (cut_values init a rs j)"
    and log: "sd_log init a (rs @ [r]) s' d'" and s': "s \<le> s'" "sync \<Longrightarrow> s' = length (rs @ [r])"
  shows "sd_inv (\<lambda>m. P m \<or> m = sg_abs (sd_engine d')) d'"
    and "sync \<Longrightarrow> sd_inv (\<lambda>m. m = sg_abs (sd_engine d')) d'"
proof -
  have abs: "sg_abs (sd_engine d') = cut_values init a (rs @ [r]) (length (rs @ [r]))" by (rule sd_log_abs [OF log])
  have "P (cut_values init a (rs @ [r]) j) \<or> cut_values init a (rs @ [r]) j = sg_abs (sd_engine d')"
    if "s' \<le> j" "j \<le> length (rs @ [r])" for j
  proof (cases "j = length (rs @ [r])")
    case True
    show ?thesis by (rule disjI2) (simp only: abs True)
  next
    case False
    then have "j \<le> length rs" using that(2) by simp
    then show ?thesis using P [of j] that(1) s'(1) by (simp add: cut_values_append)
  qed
  then show "sd_inv (\<lambda>m. P m \<or> m = sg_abs (sd_engine d')) d'" using log unfolding sd_inv_def by blast
  show "sync \<Longrightarrow> sd_inv (\<lambda>m. m = sg_abs (sd_engine d')) d'" using sd_inv_stable log s'(2) by blast
qed

lemma sd_write_step:
  assumes log: "sd_log init a rs s \<lparr>sd_engine = e, sd_stable = st\<rparr>" and P: "\<And>j. s \<le> j \<Longrightarrow> j \<le> length rs \<Longrightarrow> P (cut_values init a rs j)"
    and r: "seg_rec r" "lr_vlen r \<noteq> COMPACTION_BASE" and roll: "sg_active_offset e < sg_threshold e \<or> sg_active_offset e = 0"
    and kd: "map_of kd = place_step (map_of (sg_keydir e)) (sg_active_id e, sg_active_offset e, r)" "distinct (map fst kd)"
    and c: "lru.coherent (value_step (values_of (segs_placed (init @ [(a, rs)]))) (sg_active_id e, sg_active_offset e, r)) c"
    and e': "e' = e\<lparr>sg_dir := AList.update (segment_path (sg_active_id e))
           (write_at (file_of (sg_dir e) (segment_path (sg_active_id e))) (sg_active_offset e) (rec_bytes r)) (sg_dir e),
         sg_active_offset := sg_active_offset e + rec_len r, sg_keydir := kd,
         sg_active_hints := sg_active_hints e @ [place_hint (sg_active_id e, sg_active_offset e, r)],
         sg_cache := c\<rparr>"
    and d': "d' = \<lparr>sd_engine = e', sd_stable = sd_written sync senv e' st\<rparr>"
  shows "value_step (cut_values init a rs (length rs)) (a, length (log_bytes rs), r) = sg_abs e' \<and>
    sd_inv (\<lambda>m. P m \<or> m = sg_abs e') d' \<and> (sync \<and> se_write_ok senv \<longrightarrow> sd_inv (\<lambda>m. m = sg_abs e') d')"
proof -
  have eng: "sd_engine d' = e'" by (simp add: d')
  obtain s' where log': "sd_log init a (rs @ [r]) s' d'" and s': "s \<le> s'"
    "sync \<and> se_write_ok senv \<longrightarrow> s' = length (rs @ [r])"
    using sd_append_log [OF log r roll kd c e', of sync senv] unfolding d' by force
  have "value_step (cut_values init a rs (length rs)) (a, length (log_bytes rs), r) = sg_abs e'"
    using sd_log_abs [OF log'] by (simp only: eng cut_values_snoc)
  then show ?thesis
    using sd_inv_append [where P = P, OF P log' s'(1), of "sync \<and> se_write_ok senv"] s'(2) by (simp add: eng)
qed

text \<open>\<open>put\<close> and \<open>del\<close> after the rolling: \<open>res\<close> is the result, \<open>r\<close> the record.\<close>

lemma sd_rolled:
  assumes inv: "sd_inv P d" and env: "pe_open_ok env" "se_seal_ok senv"
  obtains e1 init a rs s where "maybe_roll_segment env (sd_engine d) = (e1, None)"
    and "sd_log init a rs s \<lparr>sd_engine = e1, sd_stable = sd_roll env senv d\<rparr>"
    and "sg_active_offset e1 < sg_threshold e1 \<or> sg_active_offset e1 = 0"
    and "sg_abs (sd_engine d) = cut_values init a rs (length rs)"
    and "\<forall>j. s \<le> j \<and> j \<le> length rs \<longrightarrow> P (cut_values init a rs j)"
    and "sd_inv P \<lparr>sd_engine = e1, sd_stable = sd_roll env senv d\<rparr>" and "sg_abs e1 = sg_abs (sd_engine d)"
proof -
  obtain init a rs s where log: "sd_log init a rs s d" and P: "\<forall>j. s \<le> j \<longrightarrow> j \<le> length rs \<longrightarrow> P (cut_values init a rs j)"
    using inv by (auto simp: sd_inv_def)
  obtain e1 init1 a1 rs1 s1 where roll: "maybe_roll_segment env (sd_engine d) = (e1, None)"
    and log1: "sd_log init1 a1 rs1 s1 \<lparr>sd_engine = e1, sd_stable = sd_roll env senv d\<rparr>"
    and room: "sg_active_offset e1 < sg_threshold e1 \<or> sg_active_offset e1 = 0"
    and same: "cut_values init1 a1 rs1 (length rs1) = cut_values init a rs (length rs)"
    and sub: "\<forall>j. s1 \<le> j \<and> j \<le> length rs1 \<longrightarrow> (\<exists>j'. s \<le> j' \<and> j' \<le> length rs \<and> cut_values init1 a1 rs1 j = cut_values init a rs j')"
    by (rule sd_roll_log [OF log env])
  have P1: "\<forall>j. s1 \<le> j \<and> j \<le> length rs1 \<longrightarrow> P (cut_values init1 a1 rs1 j)" using sub P by metis
  have abs0: "sg_abs (sd_engine d) = cut_values init1 a1 rs1 (length rs1)" using sd_log_abs [OF log] same by simp
  show thesis
    by (rule that [OF roll log1 room abs0 P1])
      (use log1 P1 sd_log_abs [OF log1] abs0 in \<open>simp_all add: sd_inv_def, blast\<close>)
qed

lemma sd_put_step:
  assumes inv: "sd_inv P d" and whole: "seg_whole (SegPut env senv k v)" and step: "sd_put sync env senv d k v = (d', res)"
  shows "sg_abs (sd_engine d') = take_effect (sg_abs (sd_engine d)) (Stores k v) (res = Inr True) \<and>
    sd_inv (\<lambda>m. P m \<or> m = sg_abs (sd_engine d')) d' \<and>
    (res = Inr True \<longrightarrow> sync \<and> se_write_ok senv \<longrightarrow> sd_inv (\<lambda>m. m = sg_abs (sd_engine d')) d')"
proof (cases "put_allowed k v")
  case False
  then have "d' = d \<and> res = Inr False"
    using step by (auto simp: sd_put_def sg_put_def put_allowed_def COMPACTION_BASE_def split: prod.splits)
  then show ?thesis by (auto intro: sd_inv_mono [OF inv])
next
  case a: True
  have env: "pe_open_ok env" "se_seal_ok senv" using whole by simp_all
  obtain e1 init a1 rs s where roll: "maybe_roll_segment env (sd_engine d) = (e1, None)"
    and log: "sd_log init a1 rs s \<lparr>sd_engine = e1, sd_stable = sd_roll env senv d\<rparr>"
    and room: "sg_active_offset e1 < sg_threshold e1 \<or> sg_active_offset e1 = 0"
    and abs0: "sg_abs (sd_engine d) = cut_values init a1 rs (length rs)"
    and P: "\<forall>j. s \<le> j \<and> j \<le> length rs \<longrightarrow> P (cut_values init a1 rs j)"
    and inv1: "sd_inv P \<lparr>sd_engine = e1, sd_stable = sd_roll env senv d\<rparr>" "sg_abs e1 = sg_abs (sd_engine d)"
    by (rule sd_rolled [OF inv env])
  have sizes: "\<not> (length k > 0xFFFFFFFF \<or> length v \<ge> unat COMPACTION_BASE)"
    using a by (simp add: put_allowed_def COMPACTION_BASE_def)
  show ?thesis
  proof (cases "pe_write env")
    case None
    have "sg_put env (sd_engine d) k v = (e1, Inr False)"
      by (rule sg_refused_none(1) [OF roll None _ a]) (use sd_log_file [OF log] in simp)
    then have d': "d' = \<lparr>sd_engine = e1, sd_stable = sd_roll env senv d\<rparr>" "res = Inr False"
      using step sizes by (simp_all add: sd_put_def Let_def)
    then show ?thesis using inv1 by (auto elim: sd_inv_mono)
  next
    case (Some n)
    have n: "HEADER_SIZE + length k + length v \<le> n" using whole Some by simp
    define e' where "e' = fst (sg_put env (sd_engine d) k v)"
    note put = sg_put_whole [OF a roll Some n]
    have e': "sg_put env (sd_engine d) k v = (e', Inr True)" by (simp add: put e'_def)
    have d': "d' = \<lparr>sd_engine = e', sd_stable = sd_written sync senv e' (sd_roll env senv d)\<rparr>" and res: "res = Inr True"
      using step sizes by (auto simp: sd_put_def e' Let_def split: prod.splits)
    have sl: "sg_log (init @ [(a1, rs)]) e1" using log by (simp add: sd_log_def)
    let ?r = "put_rec (pe_now env) k v"
    let ?kd = "AList.update k \<lparr>ke_segment_id = sg_active_id e1, ke_value_pos = sg_active_offset e1 + HEADER_SIZE + length k,
           ke_value_size = of_nat (length v), ke_timestamp = pe_now env\<rparr> (sg_keydir e1)"
    have kd: "map_of ?kd = place_step (map_of (sg_keydir e1)) (sg_active_id e1, sg_active_offset e1, ?r)" "distinct (map fst ?kd)"
      using put_vlen [OF a] sl
      by (simp_all add: update_conv' place_step_def Let_def place_entry_def sg_log_def distinct_update)
    have c: "lru.coherent (value_step (values_of (segs_placed (init @ [(a1, rs)]))) (sg_active_id e1, sg_active_offset e1, ?r))
        (lru_put (sg_cache e1) k v)"
      using sl unfolding sg_log_def value_step_put [OF a] by (blast intro: lru.coherent_put)
    have "value_step (cut_values init a1 rs (length rs)) (a1, length (log_bytes rs), ?r) = sg_abs e' \<and>
      sd_inv (\<lambda>m. P m \<or> m = sg_abs e') d' \<and> (sync \<and> se_write_ok senv \<longrightarrow> sd_inv (\<lambda>m. m = sg_abs e') d')"
      by (rule sd_write_step [OF log _ seg_rec_put [OF a] room kd c _ d']) (use P in \<open>simp_all add: e'_def put\<close>)
    moreover have "sd_engine d' = e'" by (simp add: d')
    ultimately show ?thesis unfolding res abs0 value_step_put [OF a] by simp
  qed
qed

lemma sd_del_step:
  assumes inv: "sd_inv P d" and whole: "seg_whole (SegDel env senv k)" and step: "sd_del sync env senv d k = (d', res)"
  shows "sg_abs (sd_engine d') = take_effect (sg_abs (sd_engine d)) (Removes k) (res = Inr True) \<and>
    sd_inv (\<lambda>m. P m \<or> m = sg_abs (sd_engine d')) d' \<and>
    (res = Inr True \<longrightarrow> sync \<and> se_write_ok senv \<longrightarrow> sd_inv (\<lambda>m. m = sg_abs (sd_engine d')) d')"
proof (cases "map_of (sg_keydir (sd_engine d)) k = None")
  case True
  then have "d' = d \<and> res = Inr False"
    using step by (auto simp: sd_del_def sg_del_def split: prod.splits)
  then show ?thesis by (auto intro: sd_inv_mono [OF inv])
next
  case m: False
  obtain segs where "sg_log segs (sd_engine d)" using inv by (auto simp: sd_inv_def sd_log_def)
  then have lk: "length k < 2 ^ 32" using m by (rule sg_log_key_length)
  have env: "pe_open_ok env" "se_seal_ok senv" using whole by simp_all
  obtain e1 init a1 rs s where roll: "maybe_roll_segment env (sd_engine d) = (e1, None)"
    and log: "sd_log init a1 rs s \<lparr>sd_engine = e1, sd_stable = sd_roll env senv d\<rparr>"
    and room: "sg_active_offset e1 < sg_threshold e1 \<or> sg_active_offset e1 = 0"
    and abs0: "sg_abs (sd_engine d) = cut_values init a1 rs (length rs)"
    and P: "\<forall>j. s \<le> j \<and> j \<le> length rs \<longrightarrow> P (cut_values init a1 rs j)"
    and inv1: "sd_inv P \<lparr>sd_engine = e1, sd_stable = sd_roll env senv d\<rparr>" "sg_abs e1 = sg_abs (sd_engine d)"
    by (rule sd_rolled [OF inv env])
  show ?thesis
  proof (cases "pe_write env")
    case None
    have "sg_del env (sd_engine d) k = (e1, Inr False)"
      by (rule sg_refused_none(2) [OF roll None _ m]) (use sd_log_file [OF log] in simp)
    then have d': "d' = \<lparr>sd_engine = e1, sd_stable = sd_roll env senv d\<rparr>" "res = Inr False"
      using step m by (auto simp: sd_del_def Let_def)
    then show ?thesis using inv1 by (auto elim: sd_inv_mono)
  next
    case (Some n)
    have n: "HEADER_SIZE + length k \<le> n" using whole Some by simp
    define e' where "e' = fst (sg_del env (sd_engine d) k)"
    note del = sg_del_whole [OF m lk roll Some n]
    have e': "sg_del env (sd_engine d) k = (e', Inr True)" by (simp add: del e'_def)
    have d': "d' = \<lparr>sd_engine = e', sd_stable = sd_written sync senv e' (sd_roll env senv d)\<rparr>" and res: "res = Inr True"
      using step m by (auto simp: sd_del_def e' Let_def split: prod.splits)
    have sl: "sg_log (init @ [(a1, rs)]) e1" using log by (simp add: sd_log_def)
    let ?r = "del_rec (pe_now env) k"
    have kd: "map_of (AList.delete k (sg_keydir e1)) = place_step (map_of (sg_keydir e1)) (sg_active_id e1, sg_active_offset e1, ?r)"
      "distinct (map fst (AList.delete k (sg_keydir e1)))"
      using seg_rec_del(2) [of "pe_now env" k] sl by (simp_all add: delete_conv' place_step_def Let_def sg_log_def distinct_delete)
    have c: "lru.coherent (value_step (values_of (segs_placed (init @ [(a1, rs)]))) (sg_active_id e1, sg_active_offset e1, ?r))
        (lru_erase (sg_cache e1) k)"
      using sl unfolding sg_log_def value_step_del by (blast intro: lru.coherent_erase)
    have "value_step (cut_values init a1 rs (length rs)) (a1, length (log_bytes rs), ?r) = sg_abs e' \<and>
      sd_inv (\<lambda>m. P m \<or> m = sg_abs e') d' \<and> (sync \<and> se_write_ok senv \<longrightarrow> sd_inv (\<lambda>m. m = sg_abs e') d')"
      by (rule sd_write_step [OF log _ seg_rec_del(1) [OF lk] seg_rec_del(2) room kd c _ d']) (use P in \<open>simp_all add: e'_def del\<close>)
    moreover have "sd_engine d' = e'" by (simp add: d')
    ultimately show ?thesis unfolding res abs0 value_step_del by simp
  qed
qed

interpretation sds: durable_store sd_inv "\<lambda>d. sg_abs (sd_engine d)" "\<lambda>d. True" "sd_step sync"
  seg_effect "seg_flushed sync" "\<lambda>named op. named" seg_whole for sync
proof (unfold_locales, goal_cases)
  case (1 P s Q)
  then show ?case by (rule sd_inv_mono)
next
  case (2 P s op s' ok)
  then show ?case
    by (cases op) (auto dest: sd_put_step sd_del_step simp del: seg_whole.simps split: prod.splits)
next
  case (3 P s op s' ok)
  then show ?case
    by (cases op) (auto dest: sd_put_step sd_del_step simp del: seg_whole.simps split: prod.splits)
next
  case (4 P s op s')
  then show ?case
    by (cases op) (auto dest: sd_put_step sd_del_step simp del: seg_whole.simps split: prod.splits)
qed simp

section \<open>Properties\<close>

text \<open>Nothing follows the log, the active segment has no hint, and every byte of a segment is on stable storage.\<close>

definition sd_settled :: "sg_disk \<Rightarrow> bool" where
  "sd_settled d \<longleftrightarrow>
     sg_clean (sd_engine d) \<and> sg_tight (sd_engine d) \<and>
     map_of (sg_dir (sd_engine d)) (hint_path (sg_active_id (sd_engine d))) = None \<and>
     (\<forall>i \<in> set (sg_segment_fds (sd_engine d)). sd_stable d i = length (sg_segment (sd_engine d) i))"

lemma sg_clean_segs:
  assumes "sg_clean e"
  obtains init a rs where "sg_log (init @ [(a, rs)]) e" and "dir_clean (init @ [(a, rs)]) (sg_dir e)"
proof -
  obtain segs where s: "sg_log segs e" "dir_clean segs (sg_dir e)" using assms by (auto simp: sg_clean_def)
  then have "segs \<noteq> []" by (simp add: sg_log_def dir_log_def)
  then obtain init a rs where "segs = init @ [(a, rs)]" by (metis append_butlast_last_id surj_pair)
  with s that show thesis by blast
qed

lemma sd_settled_inv:
  assumes "sd_settled d"
  shows "sd_inv (\<lambda>m. m = sg_abs (sd_engine d)) d"
proof -
  have "sg_clean (sd_engine d)" using assms by (simp add: sd_settled_def)
  then obtain init a rs where log: "sg_log (init @ [(a, rs)]) (sd_engine d)" and c: "dir_clean (init @ [(a, rs)]) (sg_dir (sd_engine d))"
    by (rule sg_clean_segs)
  have t: "sg_tight (sd_engine d)" using assms by (simp add: sd_settled_def)
  have ids: "set (sg_segment_fds (sd_engine d)) = fst ` set (init @ [(a, rs)])" and id: "sg_active_id (sd_engine d) = a"
    using log by (simp_all add: sg_log_def)
  have st: "sd_stable d i = length (sg_segment (sd_engine d) i)" if "i \<in> fst ` set (init @ [(a, rs)])" for i
    using assms that unfolding sd_settled_def ids by blast
  have "sg_segment (sd_engine d) a = log_bytes rs"
    using sg_tight_file [OF log t refl] by (simp add: sg_segment_def file_of_def)
  then have "sd_log init a rs (length rs) d"
    using log c t assms st by (auto simp: sd_log_def sd_settled_def id)
  then show ?thesis by (rule sd_inv_stable)
qed


definition sd_two :: sg_disk where
  "sd_two = \<lparr>sd_engine = sg_two, sd_stable = \<lambda>i. if i = 0 then 22 else 0\<rparr>"

abbreviation seg_example :: seg_op where
  "seg_example \<equiv> SegPut (sg_ok_penv 100) \<lparr>se_seal_ok = True, se_write_ok = True\<rparr> [107] [119]"

lemma sd_two_settled: "sd_settled sd_two"
  using sg_two_facts(2,4)
  by (auto simp: sd_settled_def sd_two_def sg_two_def sg_segment_def file_of_def HEADER_SIZE_def)

text \<open>One \<open>put\<close> on a disk with a sealed segment.\<close>

definition sd_example :: "bool \<Rightarrow> sg_disk" where
  "sd_example sync = fst (sd_put sync (sg_ok_penv 100) \<lparr>se_seal_ok = True, se_write_ok = True\<rparr> sd_two [107] [119])"

lemma sd_example:
  shows "sd_put sync (sg_ok_penv 100) \<lparr>se_seal_ok = True, se_write_ok = True\<rparr> sd_two [107] [119] = (sd_example sync, Inr True)"
    and "sg_dir (sd_engine (sd_example sync)) =
      [(segment_path 0, rec_bytes (put_rec 1 [107] [118])), (segment_path 1, rec_bytes (put_rec 7 [107] [119]))]"
    and "sg_active_id (sd_engine (sd_example sync)) = 1" and "sg_segment_fds (sd_engine (sd_example sync)) = [1, 0]"
    and "sg_keydir (sd_engine (sd_example sync)) =
      [([107], \<lparr>ke_segment_id = 1, ke_value_pos = 21, ke_value_size = 1, ke_timestamp = 7\<rparr>)]"
    and "sd_log [(0, [put_rec 1 [107] [118]])] 1 [put_rec 7 [107] [119]] (if sync then 1 else 0) (sd_example sync)"
    and "sd_stable (sd_example False) 1 = 0" and "sg_fits (sd_engine (sd_example sync))"
proof -
  have a: "put_allowed [107] [119]" by (simp add: put_allowed_def)
  have roll: "maybe_roll_segment (sg_ok_penv 100) sg_two = (sg_two, None)" by (simp add: maybe_roll_segment_def sg_two_def)
  have w: "pe_write (sg_ok_penv 100) = Some 100" "HEADER_SIZE + length [107 :: byte] + length [119 :: byte] \<le> 100"
    by (simp_all add: sg_ok_penv_def HEADER_SIZE_def)
  note put = sg_put_whole [OF a roll w]
  define e where "e = fst (sg_put (sg_ok_penv 100) sg_two [107] [119])"
  have st: "sd_roll (sg_ok_penv 100) \<lparr>se_seal_ok = True, se_write_ok = True\<rparr> sd_two = sd_stable sd_two"
    by (simp add: sd_roll_def sd_two_def sg_two_def)
  have ex: "sd_example sync = \<lparr>sd_engine = e,
      sd_stable = sd_written sync \<lparr>se_seal_ok = True, se_write_ok = True\<rparr> e (sd_stable sd_two)\<rparr>" for sync
    using st by (simp add: sd_example_def sd_put_def sd_two_def put e_def Let_def COMPACTION_BASE_def)
  show "sd_put sync (sg_ok_penv 100) \<lparr>se_seal_ok = True, se_write_ok = True\<rparr> sd_two [107] [119] = (sd_example sync, Inr True)"
    by (simp add: sd_example_def sd_put_def sd_two_def put Let_def COMPACTION_BASE_def)
  show dd: "sg_dir (sd_engine (sd_example sync)) =
      [(segment_path 0, rec_bytes (put_rec 1 [107] [118])), (segment_path 1, rec_bytes (put_rec 7 [107] [119]))]"
    and id: "sg_active_id (sd_engine (sd_example sync)) = 1" and "sg_segment_fds (sd_engine (sd_example sync)) = [1, 0]"
    and "sg_keydir (sd_engine (sd_example sync)) =
      [([107], \<lparr>ke_segment_id = 1, ke_value_pos = 21, ke_value_size = 1, ke_timestamp = 7\<rparr>)]"
    using write_at_end [of "[]"] unfolding ex e_def put
    by (simp_all add: sg_two_def sg_ok_penv_def file_of_def HEADER_SIZE_def)
  show "sg_fits (sd_engine (sd_example sync))"
    by (simp add: sg_fits_def dd id dir_fits_def HEADER_SIZE_def)
  have log: "sd_log [(0, [put_rec 1 [107] [118]])] 1 [] 0 \<lparr>sd_engine = sg_two, sd_stable = sd_stable sd_two\<rparr>"
    using sg_two_log sg_two_facts(4) sd_two_settled
    by (simp add: sd_log_def sd_two_def sd_settled_def)
      (auto simp: dir_clean_def sg_two_def sg_segment_def file_of_def seg_parse_def HEADER_SIZE_def)
  have sl: "sg_log ([(0, [put_rec 1 [107] [118]])] @ [(1, [])]) sg_two" using sg_two_log by simp
  let ?r = "put_rec (pe_now (sg_ok_penv 100)) [107] [119]"
  let ?kd = "AList.update [107] \<lparr>ke_segment_id = sg_active_id sg_two, ke_value_pos = sg_active_offset sg_two + HEADER_SIZE + length [107 :: byte],
           ke_value_size = of_nat (length [119 :: byte]), ke_timestamp = pe_now (sg_ok_penv 100)\<rparr> (sg_keydir sg_two)"
  have kd: "map_of ?kd = place_step (map_of (sg_keydir sg_two)) (sg_active_id sg_two, sg_active_offset sg_two, ?r)" "distinct (map fst ?kd)"
    using put_vlen [OF a] sl
    by (simp_all add: update_conv' place_step_def Let_def place_entry_def sg_log_def distinct_update)
  have c: "lru.coherent (value_step (values_of (segs_placed ([(0, [put_rec 1 [107] [118]])] @ [(1, [])]))) (sg_active_id sg_two, sg_active_offset sg_two, ?r))
      (lru_put (sg_cache sg_two) [107] [119])"
    using sl unfolding sg_log_def value_step_put [OF a] by (blast intro: lru.coherent_put)
  have room: "sg_active_offset sg_two < sg_threshold sg_two \<or> sg_active_offset sg_two = 0" by (simp add: sg_two_def)
  have "pe_now (sg_ok_penv 100) = 7" by (simp add: sg_ok_penv_def)
  then show "sd_log [(0, [put_rec 1 [107] [118]])] 1 [put_rec 7 [107] [119]] (if sync then 1 else 0) (sd_example sync)"
    using sd_append_log [OF log seg_rec_put [OF a] room kd c, of e sync "\<lparr>se_seal_ok = True, se_write_ok = True\<rparr>"]
    by (cases sync) (simp_all add: ex e_def put)
  show "sd_stable (sd_example False) 1 = 0" by (simp add: ex sd_written_def sd_two_def)
qed


text \<open>A compaction leaves the files of the active segment alone.\<close>

lemma map_of_remove_segments:
  "name \<notin> segment_path ` set ids \<union> hint_path ` set ids \<Longrightarrow> map_of (foldl (remove_segment ok) d ids) name = map_of d name"
  by (induction ids arbitrary: d) (auto simp: remove_segment_def map_of_unlink)

lemma map_of_write_hint:
  "\<not> aux_name name \<Longrightarrow> name \<noteq> hint_path i \<Longrightarrow> map_of (fst (write_hint_file env i hints d)) name = map_of d name"
  by (auto simp: write_hint_file_def Let_def map_of_unlink update_conv' rename_def delete_conv' aux_name_def split: option.split)

lemma sg_compact_keeps:
  assumes run: "sg_compact 0 cenv e = Inr (e', True)" and name: "\<not> aux_name name"
    "name \<notin> segment_path ` set (sg_sealed e)" "name \<notin> hint_path ` set (sg_sealed e)"
  shows "map_of (sg_dir e') name = map_of (sg_dir e) name" and "sg_active_offset e' = sg_active_offset e"
proof -
  have "map_of (sg_dir e') name = map_of (sg_dir e) name \<and> sg_active_offset e' = sg_active_offset e"
  proof (cases "sg_sealed e = []")
    case True
    then show ?thesis using run by (simp add: sg_compact_def)
  next
    case False
    then have out: "last (sg_sealed e) \<in> set (sg_sealed e)" by simp
    have other: "name \<noteq> segment_path (last (sg_sealed e))" "name \<noteq> hint_path (last (sg_sealed e))"
      "name \<noteq> segment_path (last (sg_sealed e)) @ ''.compact.tmp''"
      using name out by (auto simp: aux_name_def)
    have sub: "name \<notin> segment_path ` set (filter Q (sg_sealed e)) \<union> hint_path ` set (filter Q (sg_sealed e))" for Q
      using name by auto
    obtain f x where m: "sg_merge cenv e = (f, Some x)"
      using run False by (auto simp: sg_compact_def Let_def split: if_splits prod.splits option.splits)
    obtain off hs where x: "x = (off, hs)" by (metis surj_pair)
    have env: "sce_open_ok cenv" "sce_fsync_ok cenv" "sce_rename_ok cenv"
      using run False by (auto simp: sg_compact_def Let_def m x split: if_splits)
    show ?thesis
      using run False other name(1)
      by (auto simp: sg_compact_def Let_def m x env sg_switch_def map_of_write_hint map_of_remove_segments [OF sub]
          map_of_rename map_of_unlink update_conv')
  qed
  then show "map_of (sg_dir e') name = map_of (sg_dir e) name" "sg_active_offset e' = sg_active_offset e" by simp_all
qed

text \<open>
  C18: \<open>compact\<close> relies on bytes that it does not sync. It drops the sealed record of a key whose newest record is in the
  active segment, and does not sync the active segment. When the power fails after a successful compaction and takes the
  active segment, exactly the keys with their newest record there are gone, also those whose older value had been on
  stable storage; all others have their value.
\<close>

theorem sg_compact_power_loss:
  assumes "sg_clean (sd_engine d)" and "sg_tight (sd_engine d)" and "sg_fits (sd_engine d')" and "sg_open_ok env"
    and "map_of (sg_dir (sd_engine d)) (hint_path (sg_active_id (sd_engine d))) = None"
    and "sg_sealed (sd_engine d) \<noteq> []" and "sce_unlink_ok cenv (hint_path (last (sg_sealed (sd_engine d))))"
    and "sd_compact cenv d = Inr (d', True)" and "sd_stable d (sg_active_id (sd_engine d)) = 0"
  shows "\<exists>e'. sg_open env th cap (sg_power_loss (\<lambda>_. 0) d') = Inr e' \<and> sg_clean e' \<and>
    (\<forall>k. sg_abs e' k =
      (if \<exists>en. map_of (sg_keydir (sd_engine d)) k = Some en \<and> ke_segment_id en = sg_active_id (sd_engine d)
       then None else sg_abs (sd_engine d) k))"
proof -
  let ?e = "sd_engine d" let ?e1 = "sd_engine d'"
  obtain init a rs where log: "sg_log (init @ [(a, rs)]) ?e" and c: "dir_clean (init @ [(a, rs)]) (sg_dir ?e)"
    by (rule sg_clean_segs [OF assms(1)])
  have id: "sg_active_id ?e = a" and kd: "map_of (sg_keydir ?e) = index_of (segs_placed (init @ [(a, rs)]))"
    using log by (simp_all add: sg_log_def)
  have sealed: "sg_sealed ?e = map fst init" by (rule sg_sealed_ids [OF log])
  then have ne: "init \<noteq> []" using assms(6) by simp
  define out where "out = fst (last init)"
  have last: "last (sg_sealed ?e) = out" using ne by (simp add: sealed out_def last_map)
  obtain e1 where run: "sg_compact 0 cenv ?e = Inr (e1, True)"
    and d': "d' = \<lparr>sd_engine = e1, sd_stable = (sd_stable d)(out := length (sg_segment e1 out))\<rparr>"
    using assms(6,8) by (auto simp: sd_compact_def Let_def last split: sum.splits)
  have len: "2 \<le> length (init @ [(a, rs)])" using ne by (cases init) simp_all
  obtain segs' where s': "sg_log segs' e1" "dir_clean segs' (sg_dir e1)" and m: "merged (init @ [(a, rs)]) segs'"
    using sg_compact_log [OF log assms(7), of 0] c len by (auto simp: run compact_result_def)
  obtain now recs where segs': "segs' = [(out, marker_rec now # recs)] @ [(a, rs)]"
    and live: "live (segs_placed init) (placed a 0 rs) recs"
    using m by (auto simp: merged_def out_def)
  have sorted: "sorted_wrt (<) (map fst (init @ [(a, rs)]))" using log by (simp add: sg_log_def dir_log_def)
  then have noa: "a \<notin> fst ` set init" by (auto simp: sorted_wrt_append)
  then have oa: "out \<noteq> a" using ne by (auto simp: out_def)
  note keeps = sg_compact_keeps [OF run, unfolded sealed]
  have actf: "map_of (sg_dir e1) (segment_path a) = map_of (sg_dir ?e) (segment_path a)"
    and hint: "map_of (sg_dir e1) (hint_path a) = None"
    using keeps(1) [of "segment_path a"] keeps(1) [of "hint_path a"] noa assms(5) by (auto simp: aux_name_def id image_iff)
  have "sg_tight e1"
    using sg_tight_file [OF log assms(2) refl] s'(1) by (simp add: sg_tight_def actf sg_log_def segs' file_of_def)
  then have "sd_log [(out, marker_rec now # recs)] a rs 0 d'"
    using s' hint oa assms(9) by (simp add: sd_log_def segs' d' id)
  from sd_log_open [OF this assms(3,4), of th cap "\<lambda>_. 0"] obtain e' j where o: "sg_open env th cap (sg_power_loss (\<lambda>_. 0) d') = Inr e'"
    "sg_clean e'" and abs: "sg_abs e' = cut_values [(out, marker_rec now # recs)] a rs j"
    and j: "length (log_bytes (take j rs)) \<le> max (sd_stable d' a) 0" by blast
  have "take j rs = []" using j oa assms(9) by (simp add: d' id)
  then have abs': "sg_abs e' = values_of (placed out 0 (marker_rec now # recs))" by (simp only: abs cut_values_def) simp
  have old: "sg_abs ?e = values_of (segs_placed init @ placed a 0 rs)" by (simp add: sg_log_abs [OF log])
  have "sg_abs e' k = (if \<exists>en. map_of (sg_keydir ?e) k = Some en \<and> ke_segment_id en = a then None else sg_abs ?e k)" for k
  proof (cases "k \<in> touched (placed a 0 rs)")
    case True
    then have "k \<notin> touched (placed out 0 (marker_rec now # recs))" using live_touched [OF live, of out 0 now] by simp
    then have none: "sg_abs e' k = None" using untouched by (simp add: abs' del: placed.simps)
    show ?thesis
    proof (cases "map_of (sg_keydir ?e) k")
      case None
      then have "sg_abs ?e k = None" by (simp add: sg_abs_def)
      with none None show ?thesis by simp
    next
      case (Some en)
      then have "index_of (placed a 0 rs) k = Some en" using True by (simp add: kd index_of_append)
      then obtain p where p: "p \<in> set (placed a 0 rs)" "en = place_entry p" by (rule index_of_Some)
      then have "ke_segment_id en = a" using placed_id [OF p(1)] by (simp add: place_entry_id)
      with Some none show ?thesis by simp
    qed
  next
    case False
    have "sg_abs e' k = sg_abs ?e k"
      using live_values [OF live, of out now] False unfolding old abs' by (metis values_of_append)
    moreover have "ke_segment_id en \<noteq> a" if "map_of (sg_keydir ?e) k = Some en" for en
    proof
      assume ida: "ke_segment_id en = a"
      have "index_of (segs_placed init) k = Some en" using that False by (simp add: kd index_of_append)
      then obtain p where p: "p \<in> set (segs_placed init)" "en = place_entry p" by (rule index_of_Some)
      obtain i off r where "p = (i, off, r)" by (metis prod_cases3)
      with p ida have "(a, off, r) \<in> set (segs_placed init)" by (simp add: place_entry_id)
      then obtain pre post where "(a, pre @ r # post) \<in> set init" by (rule segs_placed_split)
      then show False using noa by force
    qed
    ultimately show ?thesis by auto
  qed
  with o show ?thesis by (auto simp: id)
qed

text \<open>
  A value that was on stable storage is lost: the key has a synced record in segment 0, is overwritten without a sync, and
  a power loss right then would bring the old value back; after a compaction it brings back nothing.
\<close>

theorem sg_compact_power_loss_witness:
  "\<exists>d d' e0 e'. sd_put False (sg_ok_penv 100) \<lparr>se_seal_ok = True, se_write_ok = True\<rparr> sd_two [107] [119] = (d, Inr True) \<and>
    sg_open sg_ok_env 1 10 (sg_power_loss (\<lambda>_. 0) d) = Inr e0 \<and> sg_abs e0 = [[107] \<mapsto> [118]] \<and>
    sd_compact sg_ok_cenv d = Inr (d', True) \<and>
    sg_open sg_ok_env 1 10 (sg_power_loss (\<lambda>_. 0) d') = Inr e' \<and> sg_abs e' = Map.empty"
proof -
  let ?d = "sd_example False" let ?e = "sd_engine (sd_example False)"
  have log: "sd_log [(0, [put_rec 1 [107] [118]])] 1 [put_rec 7 [107] [119]] 0 ?d" using sd_example(6) [of False] by simp
  obtain e0 j where o: "sg_open sg_ok_env 1 10 (sg_power_loss (\<lambda>_. 0) ?d) = Inr e0"
    "sg_abs e0 = cut_values [(0, [put_rec 1 [107] [118]])] 1 [put_rec 7 [107] [119]] j"
    "length (log_bytes (take j [put_rec 7 [107] [119]])) \<le> 0"
    using sd_log_open [OF log sd_example(8) sg_ok_env_ok, of 1 10 "\<lambda>_. 0"] sd_example(7) by auto
  have a: "put_allowed [107] [118]" by (simp add: put_allowed_def)
  have "take j [put_rec 7 [107] [119]] = []" using o(3) by simp
  then have abs0: "sg_abs e0 = [[107] \<mapsto> [118]]"
    by (simp only: o(2) cut_values_def) (simp add: values_of_def value_step_put [OF a])
  have sealed: "sg_sealed ?e = [0]" by (simp add: sg_sealed_def sd_example(3,4))
  have items: "sg_items ?e = []" by (simp add: sg_items_def sd_example(3,5))
  let ?m = "rec_bytes (marker_rec 5)"
  have len: "rec_len (marker_rec 5) = HEADER_SIZE" by (simp add: rec_len_def)
  have merge: "sg_merge sg_ok_cenv ?e = (?m, Some (length ?m, []))"
    using write_at_end [of "[]" ?m]
    by (simp add: sg_merge_def items sg_ok_cenv_def write_record_bytes [OF marker_rec(2)] len HEADER_SIZE_def)
  let ?dir = "[(segment_path 0, ?m), (segment_path 1, rec_bytes (put_rec 7 [107] [119]))]"
  have env: "sce_open_ok sg_ok_cenv" "sce_fsync_ok sg_ok_cenv" "sce_rename_ok sg_ok_cenv" "sce_unlink_ok sg_ok_cenv name" for name
    by (simp_all add: sg_ok_cenv_def)
  obtain d' where run: "sd_compact sg_ok_cenv ?d = Inr (d', True)" and dir: "sg_dir (sd_engine d') = ?dir"
    and id: "sg_active_id (sd_engine d') = 1"
    by (simp add: sd_compact_def sg_compact_def Let_def sealed merge env sd_example(2,3) unlink_def rename_def sg_switch_def)
  have fits: "sg_fits (sd_engine d')" by (simp add: sg_fits_def dir id dir_fits_def len HEADER_SIZE_def)
  have clean: "sg_clean ?e" using log by (auto simp: sd_log_def sg_clean_def)
  have tight: "sg_tight ?e" using log by (simp add: sd_log_def)
  have hint: "map_of (sg_dir ?e) (hint_path (sg_active_id ?e)) = None" by (simp add: sd_example(2,3))
  have st: "sd_stable ?d (sg_active_id ?e) = 0"
    using sd_example(7) by (simp only: sd_example(3))
  have abs: "sg_abs ?e = [[107] \<mapsto> [119]]"
    using sd_log_abs [OF log] a by (simp add: cut_values_def values_of_def value_step_put put_allowed_def)
  obtain e' where "sg_open sg_ok_env 1 10 (sg_power_loss (\<lambda>_. 0) d') = Inr e'"
    and "\<forall>k. sg_abs e' k = (if \<exists>en. map_of (sg_keydir ?e) k = Some en \<and> ke_segment_id en = sg_active_id ?e
       then None else sg_abs ?e k)"
    using sg_compact_power_loss [OF clean tight fits sg_ok_env_ok hint _ _ run st, of 1 10] by (auto simp: sealed env)
  moreover from this(2) have "sg_abs e' = Map.empty" by (auto simp: sd_example(3,5) abs fun_eq_iff)
  ultimately show ?thesis using sd_example(1) o(1) abs0 run by blast
qed

end
