(* ===== verification/KV_Protocol.thy ===== *)
theory KV_Protocol
  imports Prelude
begin

text \<open>
  \<open>kv_protocol.hpp\<close>: the plaintext PUT/GET/DEL messages that travel inside the encrypted channel.
  \<open>enum class Op : uint8_t\<close> and \<open>enum class Status : uint8_t\<close> are bytes: \<open>static_cast\<close> from the
  wire accepts every byte, named or not. The encoders compute the size of their buffer in 32-bit
  arithmetic (\<open>1 + 4 + 4 + klen + vlen\<close> with \<open>uint32_t\<close> operands); \<open>None\<close> is the case in which
  that sum wraps and the \<open>memcpy\<close> calls would write past the end of the buffer.
\<close>

section \<open>The program\<close>

definition Op_Put :: byte where "Op_Put = 1"
definition Op_Get :: byte where "Op_Get = 2"
definition Op_Del :: byte where "Op_Del = 3"

definition Status_Ok :: byte where "Status_Ok = 0"
definition Status_NotFound :: byte where "Status_NotFound = 1"
definition Status_Error :: byte where "Status_Error = 2"

definition encode_request :: "byte \<Rightarrow> bytes \<Rightarrow> bytes \<Rightarrow> bytes option" where
  "encode_request op key v =
     (let klen = (of_nat (length key) :: u32);
          vlen = (if op = Op_Put then of_nat (length v) else (0 :: u32));
          size = unat (1 + 4 + 4 + klen + vlen)
      in if size < 9 + unat klen + unat vlen then None
         else Some (op # put_u32 klen @ put_u32 vlen @ take (unat klen) key @ take (unat vlen) v))"

record request =
  rq_op :: byte
  rq_key :: bytes
  rq_value :: bytes

definition decode_request :: "bytes \<Rightarrow> request option" where
  "decode_request buf =
     (if length buf < 9 then None
      else let op = buf ! 0;
               klen = unat (get_u32 (drop 1 buf));
               vlen = unat (get_u32 (drop 5 buf))
           in if length buf \<noteq> 9 + klen + vlen then None
              else Some \<lparr>rq_op = op, rq_key = take klen (drop 9 buf),
                         rq_value = (if vlen > 0 then take vlen (drop (9 + klen) buf) else [])\<rparr>)"

definition encode_response :: "byte \<Rightarrow> bytes \<Rightarrow> bytes option" where
  "encode_response status v =
     (let vlen = (of_nat (length v) :: u32);
          size = unat (1 + 4 + vlen)
      in if size < 5 + unat vlen then None
         else Some (status # put_u32 vlen @ take (unat vlen) v))"

record response =
  rs_status :: byte
  rs_value :: bytes

definition decode_response :: "bytes \<Rightarrow> response option" where
  "decode_response buf =
     (if length buf < 5 then None
      else let status = buf ! 0;
               vlen = unat (get_u32 (drop 1 buf))
           in if length buf \<noteq> 5 + vlen then None
              else Some \<lparr>rs_status = status, rs_value = (if vlen > 0 then take vlen (drop 5 buf) else [])\<rparr>)"

section \<open>Round trips\<close>

lemma u32_sum_wraps:
  "unat (a + b + c :: u32) = (unat a + unat b + unat c) mod 4294967296"
  by (simp add: unat_word_ariths mod_simps)

lemma encode_request_fits:
  assumes "9 + length key + (if op = Op_Put then length v else 0) < 2 ^ 32"
  shows "encode_request op key v =
    Some (op # put_u32 (of_nat (length key)) @ put_u32 (if op = Op_Put then of_nat (length v) else 0)
      @ key @ (if op = Op_Put then v else []))"
  using assms by (auto simp: encode_request_def Let_def u32_sum_wraps unat_of_nat)

lemma request_fields:
  "get_u32 (drop 1 (op # put_u32 k @ put_u32 v @ bs)) = k"
  "get_u32 (drop 5 (op # put_u32 k @ put_u32 v @ bs)) = v"
  "drop (9 + n) (op # put_u32 k @ put_u32 v @ bs) = drop n bs"
  by (simp_all add: add.commute [of 9] flip: drop_drop)

lemma decode_request_fits:
  assumes "9 + length key + (if op = Op_Put then length v else 0) < 2 ^ 32"
  obtains buf where "encode_request op key v = Some buf"
    and "decode_request buf = Some \<lparr>rq_op = op, rq_key = key, rq_value = (if op = Op_Put then v else [])\<rparr>"
proof -
  have k: "unat (of_nat (length key) :: u32) = length key" and v: "op = Op_Put \<Longrightarrow> unat (of_nat (length v) :: u32) = length v"
    using assms by (auto simp: unat_of_nat split: if_splits)
  have "Option.bind (encode_request op key v) decode_request
    = Some \<lparr>rq_op = op, rq_key = key, rq_value = (if op = Op_Put then v else [])\<rparr>"
    unfolding encode_request_fits [OF assms] Option.bind.simps decode_request_def Let_def request_fields k
    using v by auto
  then show thesis using that by (auto simp: bind_eq_Some_conv)
qed

lemma decode_response_fits:
  assumes "5 + length v < 2 ^ 32"
  obtains buf where "encode_response st v = Some buf" and "length buf = 5 + length v"
    and "decode_response buf = Some \<lparr>rs_status = st, rs_value = v\<rparr>"
proof -
  have v: "unat (of_nat (length v) :: u32) = length v"
    using assms by (simp add: unat_of_nat)
  have s: "unat (5 + (of_nat (length v) :: u32)) = 5 + length v"
    using assms by (simp add: unat_word_ariths unat_of_nat)
  have "encode_response st v = Some (st # put_u32 (of_nat (length v)) @ v)"
    by (simp add: encode_response_def Let_def v s)
  then show thesis
    by (rule that) (simp_all add: decode_response_def Let_def v)
qed

text \<open>
  A request that fits the 32-bit size computation survives encoding and decoding unchanged;
  the value is carried for PUT only.
\<close>

theorem decode_encode_request:
  assumes "9 + length key + (if op = Op_Put then length v else 0) < 2 ^ 32"
  shows "Option.bind (encode_request op key v) decode_request
    = Some \<lparr>rq_op = op, rq_key = key, rq_value = (if op = Op_Put then v else [])\<rparr>"
  by (rule decode_request_fits [OF assms]) simp

theorem decode_encode_request_witness:
  "Option.bind (encode_request Op_Put [107, 101, 121] [118]) decode_request
    = Some \<lparr>rq_op = Op_Put, rq_key = [107, 101, 121], rq_value = [118]\<rparr>"
  using decode_encode_request [of "[107, 101, 121]" Op_Put "[118]"] by simp

text \<open>
  A response that fits the 32-bit size computation survives encoding and decoding unchanged.
\<close>

theorem decode_encode_response:
  assumes "5 + length v < 2 ^ 32"
  shows "Option.bind (encode_response st v) decode_response = Some \<lparr>rs_status = st, rs_value = v\<rparr>"
  by (rule decode_response_fits [OF assms, of st]) simp

theorem decode_encode_response_witness:
  "Option.bind (encode_response Status_Ok [1, 2, 3]) decode_response = Some \<lparr>rs_status = Status_Ok, rs_value = [1, 2, 3]\<rparr>"
  using decode_encode_response [of "[1, 2, 3]" Status_Ok] by simp

text \<open>
  C40: The request encoder's buffer size is computed modulo \<open>2^32\<close>: for a PUT whose key and value
  lengths each fit 32 bits but together with the 9 header bytes reach \<open>2^32\<close>, the buffer is
  smaller than what is copied into it.
\<close>

theorem encode_request_size_wraps:
  assumes "length key < 2 ^ 32" and "length v < 2 ^ 32"
  shows "encode_request Op_Put key v = None \<longleftrightarrow> 2 ^ 32 \<le> 9 + length key + length v"
proof -
  have k: "unat (of_nat (length key) :: u32) = length key" "unat (of_nat (length v) :: u32) = length v"
    using assms by (simp_all add: unat_of_nat)
  have "n mod m < n \<longleftrightarrow> m \<le> n" if "0 < m" for n m :: nat
    using that mod_less [of n m] mod_less_divisor [of m n] by (cases "n < m") linarith+
  then show ?thesis
    by (simp add: encode_request_def Let_def u32_sum_wraps k)
qed

theorem encode_request_size_wraps_witness:
  "encode_request Op_Put (replicate (2 ^ 31) 0) (replicate (2 ^ 31) 0) = None"
  using encode_request_size_wraps [of "replicate (2 ^ 31) 0" "replicate (2 ^ 31) 0"] by simp

end
