(* ===== verification/Crypto_Utils.thy ===== *)
theory Crypto_Utils
  imports Prelude
begin

text \<open>
  \<open>crypto_utils.hpp\<close>: the wrappers around OpenSSL's AES-256-GCM and HKDF-SHA256. OpenSSL itself is
  a parameter, a record with one field per EVP call that the wrappers make: whether the call
  returns 1, or the bytes it produces. The wrappers (order of the calls, which calls are skipped
  for an empty message, the error exits) are translated as they are.
\<close>

definition AES_KEY_BYTES :: nat where "AES_KEY_BYTES = 32"
definition GCM_NONCE_BYTES :: nat where "GCM_NONCE_BYTES = 12"
definition GCM_TAG_BYTES :: nat where "GCM_TAG_BYTES = 16"

record evp =
  evp_ctx_new :: bool
  evp_init :: bool
  evp_set_ivlen :: "nat \<Rightarrow> bool"
  evp_init_key :: "bytes \<Rightarrow> bytes \<Rightarrow> bool"
  evp_encrypt_update :: "bytes \<Rightarrow> bytes \<Rightarrow> bytes \<Rightarrow> bytes option"
  evp_encrypt_final :: bool
  evp_get_tag :: "bytes \<Rightarrow> bytes \<Rightarrow> bytes \<Rightarrow> bytes option"
  evp_decrypt_update :: "bytes \<Rightarrow> bytes \<Rightarrow> bytes \<Rightarrow> bytes option"
  evp_set_tag :: "bytes \<Rightarrow> bool"
  evp_decrypt_final :: "bytes \<Rightarrow> bytes \<Rightarrow> bytes \<Rightarrow> bytes \<Rightarrow> bool"
  evp_hkdf_ctx :: bool
  evp_hkdf_setup :: "bytes \<Rightarrow> bytes \<Rightarrow> bytes \<Rightarrow> bool"
  evp_hkdf_derive :: "bytes \<Rightarrow> bytes \<Rightarrow> bytes \<Rightarrow> nat \<Rightarrow> bytes option"

datatype hkdf_error = HkdfContextFailed | HkdfDerivationFailed

definition hkdf_sha256 :: "evp \<Rightarrow> bytes \<Rightarrow> bytes \<Rightarrow> bytes \<Rightarrow> nat \<Rightarrow> hkdf_error + bytes" where
  "hkdf_sha256 ev ikm salt info okm_len =
     (if \<not> evp_hkdf_ctx ev then Inl HkdfContextFailed
      else if \<not> evp_hkdf_setup ev salt ikm info then Inl HkdfDerivationFailed
      else case evp_hkdf_derive ev salt ikm info okm_len of
        None \<Rightarrow> Inl HkdfDerivationFailed
      | Some okm \<Rightarrow> if length okm \<noteq> okm_len then Inl HkdfDerivationFailed else Inr okm)"

definition aes_gcm_encrypt :: "evp \<Rightarrow> bytes \<Rightarrow> bytes \<Rightarrow> bytes \<Rightarrow> (bytes \<times> bytes) option" where
  "aes_gcm_encrypt ev key plaintext nonce =
     (if \<not> evp_ctx_new ev then None
      else if \<not> (evp_init ev \<and> evp_set_ivlen ev GCM_NONCE_BYTES \<and> evp_init_key ev key nonce) then None
      else case (if plaintext = [] then Some [] else evp_encrypt_update ev key nonce plaintext) of
        None \<Rightarrow> None
      | Some ciphertext \<Rightarrow>
          if \<not> evp_encrypt_final ev then None
          else map_option (\<lambda>tag. (ciphertext, tag)) (evp_get_tag ev key nonce plaintext))"

definition aes_gcm_decrypt :: "evp \<Rightarrow> bytes \<Rightarrow> bytes \<Rightarrow> bytes \<Rightarrow> bytes \<Rightarrow> bytes option" where
  "aes_gcm_decrypt ev key ciphertext nonce tag =
     (if \<not> evp_ctx_new ev then None
      else if \<not> (evp_init ev \<and> evp_set_ivlen ev GCM_NONCE_BYTES \<and> evp_init_key ev key nonce) then None
      else case (if ciphertext = [] then Some [] else evp_decrypt_update ev key nonce ciphertext) of
        None \<Rightarrow> None
      | Some plaintext \<Rightarrow>
          if evp_set_tag ev tag \<and> evp_decrypt_final ev key nonce ciphertext tag then Some plaintext
          else None)"

text \<open>
  Documented behaviour of AES-256-GCM (NIST SP 800-38D) with every EVP call succeeding: the
  ciphertext is as long as the plaintext, the tag has 16 bytes, and authenticated decryption
  returns a plaintext exactly for the ciphertext and tag that encryption under the same key and
  nonce produces.
\<close>

definition gcm_law :: "evp \<Rightarrow> bool" where
  "gcm_law ev \<longleftrightarrow>
     (\<forall>key nonce pt. length nonce = GCM_NONCE_BYTES \<longrightarrow>
        (\<exists>ct tag. aes_gcm_encrypt ev key pt nonce = Some (ct, tag)
           \<and> length ct = length pt \<and> length tag = GCM_TAG_BYTES)) \<and>
     (\<forall>key nonce ct tag pt. length nonce = GCM_NONCE_BYTES \<longrightarrow>
        (aes_gcm_decrypt ev key ct nonce tag = Some pt \<longleftrightarrow> aes_gcm_encrypt ev key pt nonce = Some (ct, tag)))"

text \<open>
  An instance of the parameter that satisfies the law: a fixed one-byte keystream per nonce byte
  and a tag that is the nonce padded to 16 bytes. It has no cryptographic strength; it shows that
  the law is satisfiable and lets the channel be run on concrete data.
\<close>

definition toy_pad :: "bytes \<Rightarrow> bytes \<Rightarrow> bytes" where
  "toy_pad key bs = map (\<lambda>b. b XOR (case key of [] \<Rightarrow> 0 | k # _ \<Rightarrow> k)) bs"

definition toy_evp :: evp where
  "toy_evp = \<lparr>evp_ctx_new = True, evp_init = True, evp_set_ivlen = (\<lambda>n. n = 12), evp_init_key = (\<lambda>_ _. True),
     evp_encrypt_update = (\<lambda>key nonce pt. Some (toy_pad key pt)), evp_encrypt_final = True,
     evp_get_tag = (\<lambda>key nonce pt. Some (take 16 (nonce @ replicate 16 0))),
     evp_decrypt_update = (\<lambda>key nonce ct. Some (toy_pad key ct)), evp_set_tag = (\<lambda>t. length t = 16),
     evp_decrypt_final = (\<lambda>key nonce ct tag. tag = take 16 (nonce @ replicate 16 0)),
     evp_hkdf_ctx = True, evp_hkdf_setup = (\<lambda>_ _ _. True),
     evp_hkdf_derive = (\<lambda>salt ikm info n. Some (take n (toy_pad info ikm @ replicate n 0)))\<rparr>"

lemma toy_pad_pad [simp]: "toy_pad key (toy_pad key bs) = bs"
  by (simp add: toy_pad_def comp_def xor.assoc split: list.splits)

lemma length_toy_pad [simp]: "length (toy_pad key bs) = length bs"
  by (simp add: toy_pad_def)

lemma toy_pad_Nil [simp]: "toy_pad key bs = [] \<longleftrightarrow> bs = []"
  by (simp add: toy_pad_def)

lemma toy_encrypt: "aes_gcm_encrypt toy_evp key pt nonce = Some (toy_pad key pt, take 16 (nonce @ replicate 16 0))"
  by (simp add: aes_gcm_encrypt_def toy_evp_def GCM_NONCE_BYTES_def) (simp add: toy_pad_def)

lemma toy_decrypt:
  "aes_gcm_decrypt toy_evp key ct nonce tag =
     (if tag = take 16 (nonce @ replicate 16 0) then Some (toy_pad key ct) else None)"
  by (auto simp: aes_gcm_decrypt_def toy_evp_def GCM_NONCE_BYTES_def toy_pad_def)

lemma toy_gcm_law: "gcm_law toy_evp"
  unfolding gcm_law_def toy_encrypt toy_decrypt GCM_NONCE_BYTES_def GCM_TAG_BYTES_def
  by (auto simp: min_def)

end
