(* ===== verification/Secure_Channel.thy ===== *)
theory Secure_Channel
  imports Crypto_Utils
begin

text \<open>
  \<open>secure_channel.hpp\<close>: framing and the AEAD channel over a stream socket. A socket is the bytes
  that the peer has sent and that are not yet read, the bytes written so far, and two schedules:
  how many bytes each \<open>recv\<close> hands over at most, and what each \<open>send\<close> returns. An exhausted
  schedule is a connection that is gone. OpenSSL is the parameter record of \<open>Crypto_Utils\<close>.
\<close>

section \<open>Sockets\<close>

record sock =
  sk_in :: bytes
  sk_recv :: "nat list"
  sk_out :: bytes
  sk_send :: "int list"

fun read_exact_loop :: "nat list \<Rightarrow> bytes \<Rightarrow> nat \<Rightarrow> bytes option \<times> nat list \<times> bytes" where
  "read_exact_loop [] s n = (if n = 0 then Some [] else None, [], s)"
| "read_exact_loop (c # cs) s n =
     (if n = 0 then (Some [], c # cs, s)
      else let r = min c (min n (length s))
           in if r = 0 then (None, cs, s)
              else case read_exact_loop cs (drop r s) (n - r) of
                (res, cs', s') \<Rightarrow> (map_option (\<lambda>bs. take r s @ bs) res, cs', s'))"

definition read_exact :: "sock \<Rightarrow> nat \<Rightarrow> bytes option \<times> sock" where
  "read_exact sk n =
     (case read_exact_loop (sk_recv sk) (sk_in sk) n of
        (res, cs, s) \<Rightarrow> (res, sk\<lparr>sk_in := s, sk_recv := cs\<rparr>))"

fun write_exact_loop :: "int list \<Rightarrow> bytes \<Rightarrow> bytes \<Rightarrow> bool \<times> int list \<times> bytes" where
  "write_exact_loop [] out buf = (buf = [], [], out)"
| "write_exact_loop (w # ws) out buf =
     (if buf = [] then (True, w # ws, out)
      else if w \<le> 0 then (False, ws, out)
      else write_exact_loop ws (out @ take (nat w) buf) (drop (nat w) buf))"

definition write_exact :: "sock \<Rightarrow> bytes \<Rightarrow> bool \<times> sock" where
  "write_exact sk buf =
     (case write_exact_loop (sk_send sk) (sk_out sk) buf of
        (ok, ws, out) \<Rightarrow> (ok, sk\<lparr>sk_out := out, sk_send := ws\<rparr>))"

section \<open>The channel\<close>

datatype Role = Client | Server

definition MIN_FRAME_BYTES :: nat where "MIN_FRAME_BYTES = GCM_NONCE_BYTES + GCM_TAG_BYTES"
definition MAX_FRAME_BYTES :: nat where "MAX_FRAME_BYTES = 16 * 1024 * 1024"
definition MAX_PLAINTEXT_BYTES :: nat where "MAX_PLAINTEXT_BYTES = MAX_FRAME_BYTES - MIN_FRAME_BYTES"

definition UINT64_MAX :: u64 where "UINT64_MAX = 0xFFFFFFFFFFFFFFFF"

definition make_nonce :: "u64 \<Rightarrow> bytes" where
  "make_nonce counter =
     foldl (\<lambda>nonce i. nonce[11 - i := ucast (drop_bit (8 * i) counter)])
       (replicate GCM_NONCE_BYTES 0) [0..<8]"

text \<open>\<open>htonl\<close> followed by \<open>memcpy\<close>, and back.\<close>

definition put_be32 :: "u32 \<Rightarrow> bytes" where "put_be32 w = rev (put_u32 w)"
definition get_be32 :: "bytes \<Rightarrow> u32" where "get_be32 bs = get_u32 (rev (take 4 bs))"

record secure_channel =
  ch_send_key :: bytes
  ch_recv_key :: bytes
  ch_send_counter :: u64
  ch_recv_counter :: u64
  ch_broken :: bool

definition channel_new :: "Role \<Rightarrow> bytes \<Rightarrow> bytes \<Rightarrow> secure_channel" where
  "channel_new role client_write_key server_write_key =
     \<lparr>ch_send_key = (if role = Client then client_write_key else server_write_key),
      ch_recv_key = (if role = Client then server_write_key else client_write_key),
      ch_send_counter = 0, ch_recv_counter = 0, ch_broken = False\<rparr>"

fun write_all :: "sock \<Rightarrow> bytes list \<Rightarrow> bool \<times> sock" where
  "write_all sk [] = (True, sk)"
| "write_all sk (b # bs) =
     (case write_exact sk b of (False, sk') \<Rightarrow> (False, sk') | (True, sk') \<Rightarrow> write_all sk' bs)"

definition channel_send :: "evp \<Rightarrow> secure_channel \<Rightarrow> sock \<Rightarrow> bytes \<Rightarrow> secure_channel \<times> sock \<times> bool" where
  "channel_send ev ch sk plaintext =
     (if ch_broken ch \<or> ch_send_counter ch = UINT64_MAX then (ch, sk, False)
      else if length plaintext > MAX_PLAINTEXT_BYTES then (ch, sk, False)
      else let nonce = make_nonce (ch_send_counter ch)
           in case aes_gcm_encrypt ev (ch_send_key ch) plaintext nonce of
                None \<Rightarrow> (ch, sk, False)
              | Some (ciphertext, tag) \<Rightarrow>
                  let ch1 = ch\<lparr>ch_send_counter := ch_send_counter ch + 1\<rparr>;
                      frame_len = (of_nat (GCM_NONCE_BYTES + length ciphertext + GCM_TAG_BYTES) :: u32);
                      (ok, sk') = write_all sk [put_be32 frame_len, nonce, ciphertext, tag]
                  in (if ok then ch1 else ch1\<lparr>ch_broken := True\<rparr>, sk', ok))"

definition channel_receive :: "evp \<Rightarrow> secure_channel \<Rightarrow> sock \<Rightarrow> secure_channel \<times> sock \<times> bytes option" where
  "channel_receive ev ch sk =
     (if ch_broken ch \<or> ch_recv_counter ch = UINT64_MAX then (ch, sk, None)
      else let fail = ch\<lparr>ch_broken := True\<rparr>
           in case read_exact sk 4 of
                (None, sk1) \<Rightarrow> (fail, sk1, None)
              | (Some len_buf, sk1) \<Rightarrow>
                  let frame_len = unat (get_be32 len_buf)
                  in if frame_len < MIN_FRAME_BYTES \<or> frame_len > MAX_FRAME_BYTES then (fail, sk1, None)
                     else case read_exact sk1 frame_len of
                       (None, sk2) \<Rightarrow> (fail, sk2, None)
                     | (Some frame, sk2) \<Rightarrow>
                         let expected = make_nonce (ch_recv_counter ch)
                         in if take GCM_NONCE_BYTES frame \<noteq> expected then (fail, sk2, None)
                            else let ct_len = frame_len - MIN_FRAME_BYTES;
                                     ciphertext = take ct_len (drop GCM_NONCE_BYTES frame);
                                     tag = take GCM_TAG_BYTES (drop (GCM_NONCE_BYTES + ct_len) frame)
                                 in case aes_gcm_decrypt ev (ch_recv_key ch) ciphertext expected tag of
                                      None \<Rightarrow> (fail, sk2, None)
                                    | Some plaintext \<Rightarrow>
                                        (ch\<lparr>ch_recv_counter := ch_recv_counter ch + 1\<rparr>, sk2, Some plaintext))"

section \<open>Sockets: fragmentation does not matter\<close>

lemma read_exact_loop_Some:
  "read_exact_loop cs s n = (Some bs, cs', s') \<Longrightarrow> bs = take n s \<and> s' = drop n s \<and> n \<le> length s"
proof (induction cs s n arbitrary: bs cs' s' rule: read_exact_loop.induct)
  case (2 c cs s n)
  show ?case
  proof (cases "n = 0")
    case False
    define r where "r = min c (min n (length s))"
    have r: "r \<noteq> 0" using 2(2) False by (auto simp: r_def [symmetric] Let_def split: if_splits)
    obtain b where b: "read_exact_loop cs (drop r s) (n - r) = (Some b, cs', s')" and bs: "bs = take r s @ b"
      using 2(2) False r by (auto simp: r_def [symmetric] Let_def split: prod.splits)
    have "b = take (n - r) (drop r s) \<and> s' = drop (n - r) (drop r s) \<and> n - r \<le> length (drop r s)"
      by (rule 2(1) [OF False r_def _ b]) (use r in simp)
    moreover have "r \<le> n" "r \<le> length s" by (auto simp: r_def)
    ultimately show ?thesis
      by (auto simp: bs add.commute take_add [symmetric])
  qed (use 2 in auto)
qed (auto split: if_splits)

lemma read_exact_loop_ok:
  "n \<le> length s \<Longrightarrow> n \<le> length cs \<Longrightarrow> (\<forall>c \<in> set cs. 0 < c) \<Longrightarrow>
   \<exists>cs'. read_exact_loop cs s n = (Some (take n s), cs', drop n s) \<and> length cs \<le> length cs' + n \<and> set cs' \<subseteq> set cs"
proof (induction cs s n rule: read_exact_loop.induct)
  case (2 c cs s n)
  show ?case
  proof (cases "n = 0")
    case False
    define r where "r = min c (min n (length s))"
    have r: "0 < r" "r \<le> n" "r \<le> length s" using 2(2,4) False by (auto simp: r_def)
    obtain cs' where "read_exact_loop cs (drop r s) (n - r) = (Some (take (n - r) (drop r s)), cs', drop (n - r) (drop r s))"
      and "length cs \<le> length cs' + (n - r)" and "set cs' \<subseteq> set cs"
      using 2(1) [OF False r_def] 2(2-4) r by force
    moreover have "take r s @ take (n - r) (drop r s) = take n s"
      using r by (metis add_diff_cancel_left' le_add_diff_inverse take_add)
    ultimately show ?thesis
      using False r by (auto simp: r_def [symmetric] Let_def)
  qed auto
qed auto

lemma write_exact_loop_True:
  "write_exact_loop ws out buf = (True, ws', out') \<Longrightarrow> out' = out @ buf"
  by (induction ws out buf arbitrary: ws' out' rule: write_exact_loop.induct) (auto split: if_splits)

lemma write_exact_loop_prefix:
  "write_exact_loop ws out buf = (ok, ws', out') \<Longrightarrow> \<exists>k. out' = out @ take k buf"
proof (induction ws out buf arbitrary: ok ws' out' rule: write_exact_loop.induct)
  case (1 out buf)
  then show ?case by (auto intro: exI [of _ 0])
next
  case (2 w ws out buf)
  show ?case
  proof (cases "buf = [] \<or> w \<le> 0")
    case True
    with 2(2) show ?thesis by (auto intro: exI [of _ 0] split: if_splits)
  next
    case False
    then obtain k where "out' = (out @ take (nat w) buf) @ take k (drop (nat w) buf)"
      using 2 by auto
    then have "out' = out @ take (nat w + k) buf" by (simp add: take_add)
    then show ?thesis by blast
  qed
qed

lemma write_all_True:
  "write_all sk bs = (True, sk') \<Longrightarrow> sk_out sk' = sk_out sk @ concat bs \<and> sk_in sk' = sk_in sk \<and> sk_recv sk' = sk_recv sk"
proof (induction bs arbitrary: sk)
  case (Cons b bs)
  then show ?case
    by (auto simp: write_exact_def dest!: write_exact_loop_True split: prod.splits bool.splits)
qed simp

section \<open>Nonces and frames\<close>

lemma make_nonce_layout:
  "make_nonce c = replicate 4 0 @ rev (map (\<lambda>i. ucast (drop_bit (8 * i) c)) [0..<8])"
  by (simp add: make_nonce_def GCM_NONCE_BYTES_def upt_rec eval_nat_numeral)

lemma length_make_nonce [simp]: "length (make_nonce c) = GCM_NONCE_BYTES"
  by (simp add: make_nonce_layout GCM_NONCE_BYTES_def)

lemma make_nonce_inj: "make_nonce a = make_nonce b \<Longrightarrow> a = b"
proof -
  assume "make_nonce a = make_nonce b"
  then have e: "(ucast (drop_bit (8 * i) a) :: byte) = ucast (drop_bit (8 * i) b)" if "i < 8" for i
    using that by (auto simp: make_nonce_layout map_eq_conv)
  show "a = b"
  proof (rule bit_eqI)
    fix n
    assume "possible_bit TYPE(u64) n"
    then have n: "n div 8 < 8" by (simp add: possible_bit_def)
    have "bit (ucast (drop_bit (8 * (n div 8)) x) :: byte) (n mod 8) = bit x n" for x :: u64
      by (simp add: bit_simps)
    then show "bit a n = bit b n" using e [OF n] by metis
  qed
qed

lemma get_put_be32 [simp]: "get_be32 (put_be32 w) = w"
  using get_put_u32 [of w "[]"] by (simp add: put_be32_def get_be32_def)

lemma length_put_be32 [simp]: "length (put_be32 w) = 4"
  by (simp add: put_be32_def)

lemma put_get_be32: "length bs = 4 \<Longrightarrow> put_be32 (get_be32 bs) = bs"
  using le_val_bound [of "rev bs"] le_bytes_le_val [of "rev bs"]
  by (simp add: put_be32_def get_be32_def get_u32_def put_u32_def unat_of_nat rev_swap)

definition frame_bytes :: "u64 \<Rightarrow> bytes \<Rightarrow> bytes \<Rightarrow> bytes" where
  "frame_bytes counter ct tag =
     put_be32 (of_nat (GCM_NONCE_BYTES + length ct + GCM_TAG_BYTES)) @ make_nonce counter @ ct @ tag"

definition frame_ok :: "bytes \<Rightarrow> bytes \<Rightarrow> bool" where
  "frame_ok ct tag \<longleftrightarrow> length ct \<le> MAX_PLAINTEXT_BYTES \<and> length tag = GCM_TAG_BYTES"

lemmas channel_consts = GCM_NONCE_BYTES_def GCM_TAG_BYTES_def MIN_FRAME_BYTES_def MAX_FRAME_BYTES_def
  MAX_PLAINTEXT_BYTES_def

lemma frame_len_value:
  "frame_ok ct tag \<Longrightarrow> unat (of_nat (GCM_NONCE_BYTES + length ct + GCM_TAG_BYTES) :: u32) = 28 + length ct"
  by (simp add: frame_ok_def channel_consts unat_of_nat unat_word_ariths)

lemma split_three:
  assumes "length xs = a + b + c"
  shows "take a xs @ take b (drop a xs) @ take c (drop (a + b) xs) = xs"
proof -
  have "take c (drop (a + b) xs) = drop b (drop a xs)" using assms by (simp add: add.commute)
  then show ?thesis by simp
qed

lemma read_exact_Some:
  "read_exact sk n = (Some bs, sk') \<Longrightarrow>
   bs = take n (sk_in sk) \<and> sk_in sk' = drop n (sk_in sk) \<and> n \<le> length (sk_in sk) \<and> sk_out sk' = sk_out sk"
  by (auto simp: read_exact_def dest!: read_exact_loop_Some split: prod.splits)

text \<open>What acceptance of a message means.\<close>

lemma channel_receive_Some:
  assumes "channel_receive ev ch sk = (ch', sk', Some pt)"
  obtains ct tag where "\<not> ch_broken ch" and "ch_recv_counter ch \<noteq> UINT64_MAX"
    and "ch' = ch\<lparr>ch_recv_counter := ch_recv_counter ch + 1\<rparr>"
    and "sk_in sk = frame_bytes (ch_recv_counter ch) ct tag @ sk_in sk'" and "frame_ok ct tag"
    and "aes_gcm_decrypt ev (ch_recv_key ch) ct (make_nonce (ch_recv_counter ch)) tag = Some pt"
proof -
  obtain len_buf sk1 where r1: "read_exact sk 4 = (Some len_buf, sk1)"
    using assms by (auto simp: channel_receive_def Let_def split: if_splits prod.splits option.splits)
  define n where "n = unat (get_be32 len_buf)"
  have bounds: "28 \<le> n" "n \<le> 28 + MAX_PLAINTEXT_BYTES"
    using assms r1 by (auto simp: channel_receive_def Let_def n_def [symmetric] channel_consts split: if_splits)
  obtain frame sk2 where r2: "read_exact sk1 n = (Some frame, sk2)"
    using assms r1 by (auto simp: channel_receive_def Let_def n_def [symmetric] split: if_splits prod.splits option.splits)
  define ct where "ct = take (n - MIN_FRAME_BYTES) (drop GCM_NONCE_BYTES frame)"
  define tag where "tag = take GCM_TAG_BYTES (drop (GCM_NONCE_BYTES + (n - MIN_FRAME_BYTES)) frame)"
  have rest: "\<not> ch_broken ch" "ch_recv_counter ch \<noteq> UINT64_MAX" "sk' = sk2"
    "take GCM_NONCE_BYTES frame = make_nonce (ch_recv_counter ch)"
    "ch' = ch\<lparr>ch_recv_counter := ch_recv_counter ch + 1\<rparr>"
    "aes_gcm_decrypt ev (ch_recv_key ch) ct (make_nonce (ch_recv_counter ch)) tag = Some pt"
    using assms r1 r2 by (auto simp: channel_receive_def Let_def n_def [symmetric] ct_def tag_def split: if_splits option.splits)
  note s1 = read_exact_Some [OF r1] and s2 = read_exact_Some [OF r2]
  have lf: "length frame = n" and ll: "length len_buf = 4" using s1 s2 by auto
  have lens: "length ct = n - 28" "length tag = 16"
    using lf bounds by (auto simp: ct_def tag_def channel_consts)
  have ok: "frame_ok ct tag" using lens bounds by (simp add: frame_ok_def channel_consts)
  have "put_be32 (of_nat (GCM_NONCE_BYTES + length ct + GCM_TAG_BYTES)) = len_buf"
    using bounds lens ll by (simp add: n_def channel_consts put_get_be32)
  moreover have "frame = make_nonce (ch_recv_counter ch) @ ct @ tag"
  proof -
    have "take 12 frame @ take (n - 28) (drop 12 frame) @ take 16 (drop (12 + (n - 28)) frame) = frame"
      by (rule split_three) (use lf bounds in simp)
    then show ?thesis using rest(4) by (simp add: ct_def tag_def channel_consts del: append_take_drop_id)
  qed
  ultimately have "frame_bytes (ch_recv_counter ch) ct tag @ sk_in sk' = len_buf @ frame @ sk_in sk2"
    using rest(3) by (simp add: frame_bytes_def)
  also have "\<dots> = sk_in sk" using s1 s2 by simp
  finally show ?thesis using that [of ct tag] rest ok by simp
qed

text \<open>A socket that accepts \<open>n\<close> more bytes, in whatever portions.\<close>

definition send_ready :: "nat \<Rightarrow> sock \<Rightarrow> bool" where
  "send_ready n sk \<longleftrightarrow> n \<le> length (sk_send sk) \<and> (\<forall>w \<in> set (sk_send sk). 0 < w)"

lemma write_exact_loop_ok:
  "length buf \<le> length ws \<Longrightarrow> (\<forall>w \<in> set ws. 0 < w) \<Longrightarrow>
   \<exists>ws'. write_exact_loop ws out buf = (True, ws', out @ buf) \<and> length ws \<le> length ws' + length buf \<and> set ws' \<subseteq> set ws"
proof (induction ws out buf rule: write_exact_loop.induct)
  case (2 w ws out buf)
  show ?case
  proof (cases "buf = []")
    case False
    then have w: "0 < w" "\<not> w \<le> 0" "length (drop (nat w) buf) < length buf" using 2(3) by (cases buf; simp)+
    obtain ws' where ws': "write_exact_loop ws (out @ take (nat w) buf) (drop (nat w) buf) = (True, ws', (out @ take (nat w) buf) @ drop (nat w) buf)"
      "length ws \<le> length ws' + length (drop (nat w) buf)" "set ws' \<subseteq> set ws"
      using 2(1) [OF False w(2)] 2(2,3) w by fastforce
    have "Suc (length ws) \<le> length ws' + length buf" using ws'(2) w(3) by linarith
    then show ?thesis using ws' False w(2) by auto
  qed auto
qed auto

lemma write_exact_ok:
  assumes "send_ready (length buf + m) sk"
  shows "\<exists>sk'. write_exact sk buf = (True, sk') \<and> sk_out sk' = sk_out sk @ buf \<and> sk_in sk' = sk_in sk \<and>
    sk_recv sk' = sk_recv sk \<and> send_ready m sk'"
proof -
  obtain ws' where "write_exact_loop (sk_send sk) (sk_out sk) buf = (True, ws', sk_out sk @ buf)"
    and "length (sk_send sk) \<le> length ws' + length buf" and "set ws' \<subseteq> set (sk_send sk)"
    using write_exact_loop_ok [of buf "sk_send sk" "sk_out sk"] assms by (auto simp: send_ready_def)
  then show ?thesis using assms by (auto simp: write_exact_def send_ready_def)
qed

lemma write_all_ok:
  "send_ready (length (concat bs) + m) sk \<Longrightarrow>
   \<exists>sk'. write_all sk bs = (True, sk') \<and> sk_out sk' = sk_out sk @ concat bs \<and> sk_in sk' = sk_in sk \<and>
     sk_recv sk' = sk_recv sk \<and> send_ready m sk'"
proof (induction bs arbitrary: sk)
  case (Cons b bs)
  then obtain sk1 where 1: "write_exact sk b = (True, sk1)" "sk_out sk1 = sk_out sk @ b" "sk_in sk1 = sk_in sk"
    "sk_recv sk1 = sk_recv sk" "send_ready (length (concat bs) + m) sk1"
    using write_exact_ok [of b "length (concat bs) + m" sk] by (auto simp: add.assoc)
  then show ?case using Cons.IH [OF 1(5)] by auto
qed auto

text \<open>Conversely, a frame with the expected nonce and a valid tag is accepted.\<close>

definition recv_ready :: "nat \<Rightarrow> sock \<Rightarrow> bool" where
  "recv_ready n sk \<longleftrightarrow> n \<le> length (sk_recv sk) \<and> (\<forall>c \<in> set (sk_recv sk). 0 < c)"

lemma read_exact_ok:
  assumes "recv_ready (n + m) sk" and "n \<le> length (sk_in sk)"
  shows "\<exists>sk'. read_exact sk n = (Some (take n (sk_in sk)), sk') \<and> sk_in sk' = drop n (sk_in sk) \<and> recv_ready m sk'"
proof -
  obtain cs' where "read_exact_loop (sk_recv sk) (sk_in sk) n = (Some (take n (sk_in sk)), cs', drop n (sk_in sk))"
    and "length (sk_recv sk) \<le> length cs' + n" and "set cs' \<subseteq> set (sk_recv sk)"
    using read_exact_loop_ok [of n "sk_in sk" "sk_recv sk"] assms by (auto simp: recv_ready_def)
  then show ?thesis using assms(1) by (auto simp: read_exact_def recv_ready_def)
qed

lemma channel_receive_frame:
  assumes "\<not> ch_broken ch" and "ch_recv_counter ch \<noteq> UINT64_MAX"
    and fr: "sk_in sk = frame_bytes (ch_recv_counter ch) ct tag @ rest" "frame_ok ct tag"
    and dec: "aes_gcm_decrypt ev (ch_recv_key ch) ct (make_nonce (ch_recv_counter ch)) tag = Some pt"
    and rdy: "recv_ready (length (frame_bytes (ch_recv_counter ch) ct tag) + m) sk"
  shows "\<exists>sk'. channel_receive ev ch sk = (ch\<lparr>ch_recv_counter := ch_recv_counter ch + 1\<rparr>, sk', Some pt)
    \<and> sk_in sk' = rest \<and> recv_ready m sk'"
proof -
  let ?len = "of_nat (GCM_NONCE_BYTES + length ct + GCM_TAG_BYTES) :: u32"
  let ?frame = "make_nonce (ch_recv_counter ch) @ ct @ tag"
  have n: "unat ?len = 28 + length ct" by (rule frame_len_value [OF fr(2)])
  have lt: "length tag = 16" "length ct \<le> MAX_PLAINTEXT_BYTES" using fr(2) by (auto simp: frame_ok_def channel_consts)
  have lf: "length ?frame = 28 + length ct" using lt by (simp add: channel_consts)
  have total: "length (frame_bytes (ch_recv_counter ch) ct tag) = 4 + (28 + length ct)"
    using lf by (simp add: frame_bytes_def)
  have in0: "sk_in sk = put_be32 ?len @ ?frame @ rest" using fr(1) by (simp add: frame_bytes_def)
  obtain sk1 where r1: "read_exact sk 4 = (Some (put_be32 ?len), sk1)" "sk_in sk1 = ?frame @ rest"
    "recv_ready ((28 + length ct) + m) sk1"
    using read_exact_ok [of 4 "(28 + length ct) + m" sk] rdy total by (auto simp: in0 add.assoc)
  obtain sk2 where r2: "read_exact sk1 (28 + length ct) = (Some ?frame, sk2)" "sk_in sk2 = rest" "recv_ready m sk2"
    using read_exact_ok [OF r1(3)] lf by (auto simp: r1(2))
  have parts: "take GCM_NONCE_BYTES ?frame = make_nonce (ch_recv_counter ch)"
    "take (28 + length ct - MIN_FRAME_BYTES) (drop GCM_NONCE_BYTES ?frame) = ct"
    "take GCM_TAG_BYTES (drop (GCM_NONCE_BYTES + (28 + length ct - MIN_FRAME_BYTES)) ?frame) = tag"
    "\<not> (28 + length ct < MIN_FRAME_BYTES \<or> MAX_FRAME_BYTES < 28 + length ct)"
    using lt by (simp_all add: channel_consts)
  have "channel_receive ev ch sk = (ch\<lparr>ch_recv_counter := ch_recv_counter ch + 1\<rparr>, sk2, Some pt)"
    unfolding channel_receive_def Let_def r1(1) prod.case option.case get_put_be32 n r2(1) parts(1-3)
    using assms(1,2) parts(4) dec by simp
  with r2 show ?thesis by blast
qed

lemma channel_send_True:
  assumes "channel_send ev ch sk pt = (ch', sk', True)"
  obtains ct tag where "\<not> ch_broken ch" and "ch_send_counter ch \<noteq> UINT64_MAX" and "length pt \<le> MAX_PLAINTEXT_BYTES"
    and "aes_gcm_encrypt ev (ch_send_key ch) pt (make_nonce (ch_send_counter ch)) = Some (ct, tag)"
    and "ch' = ch\<lparr>ch_send_counter := ch_send_counter ch + 1\<rparr>"
    and "sk_out sk' = sk_out sk @ frame_bytes (ch_send_counter ch) ct tag"
proof -
  obtain ct tag where enc: "aes_gcm_encrypt ev (ch_send_key ch) pt (make_nonce (ch_send_counter ch)) = Some (ct, tag)"
    using assms by (auto simp: channel_send_def Let_def split: if_splits option.splits)
  have w: "write_all sk [put_be32 (of_nat (GCM_NONCE_BYTES + length ct + GCM_TAG_BYTES)),
      make_nonce (ch_send_counter ch), ct, tag] = (True, sk')"
    using assms enc by (auto simp: channel_send_def Let_def split: if_splits prod.splits)
  have "sk_out sk' = sk_out sk @ frame_bytes (ch_send_counter ch) ct tag"
    using write_all_True [OF w] by (simp add: frame_bytes_def)
  moreover have "ch' = ch\<lparr>ch_send_counter := ch_send_counter ch + 1\<rparr>" "\<not> ch_broken ch"
    "ch_send_counter ch \<noteq> UINT64_MAX" "length pt \<le> MAX_PLAINTEXT_BYTES"
    using assms enc by (auto simp: channel_send_def Let_def split: if_splits prod.splits)
  ultimately show ?thesis using that enc by blast
qed

section \<open>Runs\<close>

text \<open>
  Sending a list of messages until one is refused, and receiving until the channel refuses, at
  most \<open>n\<close> times. \<open>sealed\<close> describes the frames that a run of sends from a counter produces.
\<close>

fun send_run :: "evp \<Rightarrow> secure_channel \<Rightarrow> sock \<Rightarrow> bytes list \<Rightarrow> secure_channel \<times> sock \<times> bool" where
  "send_run ev ch sk [] = (ch, sk, True)"
| "send_run ev ch sk (m # ms) =
     (case channel_send ev ch sk m of
        (ch1, sk1, False) \<Rightarrow> (ch1, sk1, False)
      | (ch1, sk1, True) \<Rightarrow> send_run ev ch1 sk1 ms)"

fun receive_run :: "evp \<Rightarrow> secure_channel \<Rightarrow> sock \<Rightarrow> nat \<Rightarrow> secure_channel \<times> sock \<times> bytes list" where
  "receive_run ev ch sk 0 = (ch, sk, [])"
| "receive_run ev ch sk (Suc n) =
     (case channel_receive ev ch sk of
        (ch1, sk1, None) \<Rightarrow> (ch1, sk1, [])
      | (ch1, sk1, Some m) \<Rightarrow> (case receive_run ev ch1 sk1 n of (ch2, sk2, ms) \<Rightarrow> (ch2, sk2, m # ms)))"

fun sealed :: "evp \<Rightarrow> bytes \<Rightarrow> u64 \<Rightarrow> bytes list \<Rightarrow> bytes \<Rightarrow> bool" where
  "sealed ev key c [] bs \<longleftrightarrow> bs = []"
| "sealed ev key c (m # ms) bs \<longleftrightarrow>
     c \<noteq> UINT64_MAX \<and> (\<exists>ct tag rest. aes_gcm_encrypt ev key m (make_nonce c) = Some (ct, tag) \<and>
       frame_ok ct tag \<and> bs = frame_bytes c ct tag @ rest \<and> sealed ev key (c + 1) ms rest)"

lemma gcm_law_encrypt:
  assumes "gcm_law ev" and "aes_gcm_encrypt ev key pt (make_nonce c) = Some (ct, tag)"
  shows "length ct = length pt" and "length tag = GCM_TAG_BYTES"
    and "aes_gcm_decrypt ev key ct (make_nonce c) tag = Some pt"
  using assms unfolding gcm_law_def by (metis length_make_nonce option.inject prod.inject)+

lemma gcm_law_decrypt:
  assumes "gcm_law ev" and "aes_gcm_decrypt ev key ct (make_nonce c) tag = Some pt"
  shows "aes_gcm_encrypt ev key pt (make_nonce c) = Some (ct, tag)"
  using assms unfolding gcm_law_def by (metis length_make_nonce)

text \<open>A message of admissible length is sent over a working channel, as one frame.\<close>

lemma channel_send_ok:
  assumes "gcm_law ev" and "\<not> ch_broken ch" and "ch_send_counter ch \<noteq> UINT64_MAX" and "length pt \<le> MAX_PLAINTEXT_BYTES"
    and "send_ready (32 + length pt + m) sk"
  obtains ct tag sk' where "channel_send ev ch sk pt = (ch\<lparr>ch_send_counter := ch_send_counter ch + 1\<rparr>, sk', True)"
    and "sk_out sk' = sk_out sk @ frame_bytes (ch_send_counter ch) ct tag" and "sk_in sk' = sk_in sk" and "sk_recv sk' = sk_recv sk"
    and "send_ready m sk'" and "frame_ok ct tag" and "length ct = length pt"
    and "aes_gcm_encrypt ev (ch_send_key ch) pt (make_nonce (ch_send_counter ch)) = Some (ct, tag)"
proof -
  obtain ct tag where e: "aes_gcm_encrypt ev (ch_send_key ch) pt (make_nonce (ch_send_counter ch)) = Some (ct, tag)"
    using assms(1) by (auto simp: gcm_law_def) (metis length_make_nonce)
  note l = gcm_law_encrypt(1,2) [OF assms(1) e]
  let ?bs = "[put_be32 (of_nat (GCM_NONCE_BYTES + length ct + GCM_TAG_BYTES)), make_nonce (ch_send_counter ch), ct, tag]"
  have "length (concat ?bs) = 32 + length pt" using l by (simp add: length_put_be32 length_make_nonce channel_consts)
  then obtain sk' where w: "write_all sk ?bs = (True, sk')" "sk_out sk' = sk_out sk @ concat ?bs" "sk_in sk' = sk_in sk"
    "sk_recv sk' = sk_recv sk" "send_ready m sk'"
    using write_all_ok [of ?bs m sk] assms(5) by auto
  have "channel_send ev ch sk pt = (ch\<lparr>ch_send_counter := ch_send_counter ch + 1\<rparr>, sk', True)"
    using assms(2-4) e w(1) by (simp add: channel_send_def Let_def del: write_all.simps)
  then show ?thesis
    using that w(2-5) l assms(4) e by (simp add: frame_bytes_def frame_ok_def)
qed

lemma send_run_sealed:
  assumes "gcm_law ev" and "send_run ev ch sk ms = (ch', sk', True)"
  shows "\<exists>bs. sk_out sk' = sk_out sk @ bs \<and> sealed ev (ch_send_key ch) (ch_send_counter ch) ms bs"
  using assms(2)
proof (induction ms arbitrary: ch sk)
  case (Cons m ms)
  obtain ch1 sk1 where s: "channel_send ev ch sk m = (ch1, sk1, True)" and run: "send_run ev ch1 sk1 ms = (ch', sk', True)"
    using Cons.prems by (auto split: prod.splits bool.splits)
  obtain ct tag where c: "ch_send_counter ch \<noteq> UINT64_MAX" "length m \<le> MAX_PLAINTEXT_BYTES"
    "aes_gcm_encrypt ev (ch_send_key ch) m (make_nonce (ch_send_counter ch)) = Some (ct, tag)"
    "ch1 = ch\<lparr>ch_send_counter := ch_send_counter ch + 1\<rparr>" "sk_out sk1 = sk_out sk @ frame_bytes (ch_send_counter ch) ct tag"
    using channel_send_True [OF s] by metis
  have "frame_ok ct tag" using gcm_law_encrypt(1,2) [OF assms(1) c(3)] c(2) by (simp add: frame_ok_def)
  with Cons.IH [OF run] c show ?case by auto
qed simp

lemma receive_run_sealed:
  assumes "gcm_law ev" and "\<not> ch_broken ch" and "sealed ev (ch_recv_key ch) (ch_recv_counter ch) ms bs"
    and "sk_in sk = bs" and "recv_ready (length bs) sk"
  shows "\<exists>ch' sk'. receive_run ev ch sk (length ms) = (ch', sk', ms)"
  using assms(2-)
proof (induction ms arbitrary: ch sk bs)
  case (Cons m ms)
  obtain ct tag rest where c: "ch_recv_counter ch \<noteq> UINT64_MAX"
    "aes_gcm_encrypt ev (ch_recv_key ch) m (make_nonce (ch_recv_counter ch)) = Some (ct, tag)" "frame_ok ct tag"
    "bs = frame_bytes (ch_recv_counter ch) ct tag @ rest" "sealed ev (ch_recv_key ch) (ch_recv_counter ch + 1) ms rest"
    using Cons.prems(2) by auto
  let ?ch = "ch\<lparr>ch_recv_counter := ch_recv_counter ch + 1\<rparr>"
  obtain sk1 where r: "channel_receive ev ch sk = (?ch, sk1, Some m)" "sk_in sk1 = rest" "recv_ready (length rest) sk1"
    using channel_receive_frame [OF Cons.prems(1) c(1) Cons.prems(3) [unfolded c(4)] c(3) gcm_law_encrypt(3) [OF assms(1) c(2)]]
      Cons.prems(4) c(4) by auto
  obtain ch' sk' where "receive_run ev ?ch sk1 (length ms) = (ch', sk', ms)"
    using Cons.IH [of ?ch rest sk1] Cons.prems(1) c(5) r(2,3) by auto
  then show ?case using r(1) by simp
qed simp

text \<open>
  What a run of receives accepts is decided frame by frame: the \<open>i\<close>-th accepted message comes from
  a frame of the stream that carries the \<open>i\<close>-th counter value and that opens under it.
\<close>

lemma UINT64_MAX_Suc: "c \<noteq> UINT64_MAX \<Longrightarrow> unat (c + 1) = Suc (unat c)"
proof -
  assume "c \<noteq> UINT64_MAX"
  then have "unat c \<noteq> 0xFFFFFFFFFFFFFFFF" by (simp add: UINT64_MAX_def word_unat_eq_iff)
  then show ?thesis using unat_u64_less [of c] by (simp add: unat_word_ariths)
qed

lemma receive_run_frames:
  assumes "\<And>pre c ct tag rest pt. sk_in sk = pre @ frame_bytes c ct tag @ rest \<Longrightarrow> frame_ok ct tag \<Longrightarrow>
      aes_gcm_decrypt ev (ch_recv_key ch) ct (make_nonce c) tag = Some pt \<Longrightarrow> P (unat c) pt"
    and "receive_run ev ch sk n = (ch', sk', ms)"
  shows "\<forall>i < length ms. P (unat (ch_recv_counter ch) + i) (ms ! i)"
  using assms
proof (induction n arbitrary: ch sk ms)
  case (Suc n)
  show ?case
  proof (cases ms)
    case (Cons m ms1)
    obtain ch1 sk1 where r: "channel_receive ev ch sk = (ch1, sk1, Some m)" and run: "receive_run ev ch1 sk1 n = (ch', sk', ms1)"
      using Suc.prems(2) Cons by (auto split: prod.splits option.splits)
    obtain ct tag where c: "ch_recv_counter ch \<noteq> UINT64_MAX" "ch1 = ch\<lparr>ch_recv_counter := ch_recv_counter ch + 1\<rparr>"
      "sk_in sk = frame_bytes (ch_recv_counter ch) ct tag @ sk_in sk1" "frame_ok ct tag"
      "aes_gcm_decrypt ev (ch_recv_key ch) ct (make_nonce (ch_recv_counter ch)) tag = Some m"
      using channel_receive_Some [OF r] by metis
    have "\<forall>i < length ms1. P (unat (ch_recv_counter ch1) + i) (ms1 ! i)"
    proof (rule Suc.IH [OF _ run])
      fix pre d ct' tag' rest pt
      assume "sk_in sk1 = pre @ frame_bytes d ct' tag' @ rest" "frame_ok ct' tag'"
        "aes_gcm_decrypt ev (ch_recv_key ch1) ct' (make_nonce d) tag' = Some pt"
      then show "P (unat d) pt"
        using Suc.prems(1) [of "frame_bytes (ch_recv_counter ch) ct tag @ pre" d ct' tag' rest pt] c by simp
    qed
    moreover have "P (unat (ch_recv_counter ch)) m"
      using Suc.prems(1) [of "[]" "ch_recv_counter ch" ct tag "sk_in sk1" m] c by simp
    ultimately show ?thesis
      using UINT64_MAX_Suc [OF c(1)] by (auto simp: Cons c(2) nth_Cons' less_Suc_eq_0_disj)
  qed simp
qed simp

lemma channel_receive_None:
  "channel_receive ev ch sk = (ch', sk', None) \<Longrightarrow> \<not> ch_broken ch \<Longrightarrow> ch_recv_counter ch \<noteq> UINT64_MAX \<Longrightarrow>
   ch' = ch\<lparr>ch_broken := True\<rparr>"
  by (auto simp: channel_receive_def Let_def split: if_splits option.splits prod.splits)

section \<open>Properties\<close>

text \<open>
  C28: In-order delivery. Whatever a run of acknowledged sends wrote, a receiver that holds the
  same key and the same counter reads back exactly the messages, in order, however the stream is
  cut into pieces by the socket.
\<close>

theorem channel_delivers:
  assumes "gcm_law ev" and "send_run ev a sk1 ms = (a', sk1', True)"
    and "ch_recv_key b = ch_send_key a" and "ch_recv_counter b = ch_send_counter a" and "\<not> ch_broken b"
    and "sk_out sk1' = sk_out sk1 @ sk_in sk2" and "recv_ready (length (sk_in sk2)) sk2"
  shows "\<exists>b' sk2'. receive_run ev b sk2 (length ms) = (b', sk2', ms)"
proof -
  obtain bs where "sk_out sk1' = sk_out sk1 @ bs" and "sealed ev (ch_send_key a) (ch_send_counter a) ms bs"
    using send_run_sealed [OF assms(1,2)] by blast
  with assms show ?thesis by (intro receive_run_sealed [where bs = bs]) auto
qed

lemma write_exact_one:
  "sk_send sk = w # ws \<Longrightarrow> buf \<noteq> [] \<Longrightarrow> int (length buf) \<le> w \<Longrightarrow>
   write_exact sk buf = (True, sk\<lparr>sk_out := sk_out sk @ buf, sk_send := ws\<rparr>)"
  by (cases ws; cases buf) (auto simp: write_exact_def)

lemma toy_channel_send:
  assumes "\<not> ch_broken ch" and "ch_send_counter ch \<noteq> UINT64_MAX" and "m \<noteq> []" and "length m \<le> 100"
    and "sk_send sk = replicate 4 100 @ ws"
  shows "channel_send toy_evp ch sk m =
    (ch\<lparr>ch_send_counter := ch_send_counter ch + 1\<rparr>,
     sk\<lparr>sk_out := sk_out sk @ frame_bytes (ch_send_counter ch) (toy_pad (ch_send_key ch) m)
           (take 16 (make_nonce (ch_send_counter ch) @ replicate 16 0)), sk_send := ws\<rparr>, True)"
proof -
  let ?c = "ch_send_counter ch" let ?ct = "toy_pad (ch_send_key ch) m"
  let ?tag = "take 16 (make_nonce ?c @ replicate 16 0) :: bytes"
  let ?l = "put_be32 (of_nat (GCM_NONCE_BYTES + length ?ct + GCM_TAG_BYTES)) :: bytes"
  have ws: "sk_send sk = 100 # 100 # 100 # 100 # ws" using assms(5) by (simp add: numeral_eq_Suc)
  have "0 < length ?l" "0 < length (make_nonce ?c)" "0 < length ?ct" "0 < length ?tag"
    using assms(3) by (simp_all add: length_put_be32 length_make_nonce channel_consts)
  then have ne: "?l \<noteq> []" "make_nonce ?c \<noteq> []" "?ct \<noteq> []" "?tag \<noteq> []"
    unfolding length_greater_0_conv by this+
  have "write_all sk [?l, make_nonce ?c, ?ct, ?tag]
      = (True, sk\<lparr>sk_out := sk_out sk @ frame_bytes ?c ?ct ?tag, sk_send := ws\<rparr>)"
    using ws ne assms(4) by (simp add: write_exact_one frame_bytes_def channel_consts del: take_append)
  then show ?thesis
    using assms by (simp add: channel_send_def MAX_PLAINTEXT_BYTES_def
        MAX_FRAME_BYTES_def toy_encrypt Let_def channel_consts del: write_all.simps take_append)
qed

definition demo_key :: bytes where "demo_key = replicate 32 7"

theorem channel_delivers_witness:
  "\<exists>b' sk2'. receive_run toy_evp (channel_new Server demo_key demo_key)
     \<lparr>sk_in = frame_bytes 0 (toy_pad demo_key [104, 105]) (take 16 (make_nonce 0 @ replicate 16 0)),
      sk_recv = replicate 40 3, sk_out = [], sk_send = []\<rparr> 1 = (b', sk2', [[104, 105]])"
proof -
  let ?a = "channel_new Client demo_key demo_key" let ?b = "channel_new Server demo_key demo_key"
  let ?fr = "frame_bytes 0 (toy_pad demo_key [104, 105]) (take 16 (make_nonce 0 @ replicate 16 0))"
  let ?s1 = "\<lparr>sk_in = [], sk_recv = [], sk_out = [], sk_send = replicate 4 100\<rparr>"
  let ?s2 = "\<lparr>sk_in = ?fr, sk_recv = replicate 40 3, sk_out = [], sk_send = []\<rparr>"
  have len: "length ?fr = 34" by (simp add: frame_bytes_def channel_consts)
  have run: "send_run toy_evp ?a ?s1 [[104, 105]] = (?a\<lparr>ch_send_counter := 1\<rparr>, ?s1\<lparr>sk_out := ?fr, sk_send := []\<rparr>, True)"
    using toy_channel_send [of ?a "[104, 105]" ?s1 "[]"] by (simp add: channel_new_def UINT64_MAX_def)
  show ?thesis
    using channel_delivers [OF toy_gcm_law run, of ?b ?s2] len by (simp add: channel_new_def recv_ready_def)
qed



text \<open>
  C13: A frame with any other counter than the next expected one (a replayed, reordered or early
  frame), even a genuine one, is refused and breaks the channel for good: every later receive and
  send fails and changes nothing.
\<close>

theorem channel_rejects_replay:
  assumes "\<not> ch_broken ch" and "ch_recv_counter ch \<noteq> UINT64_MAX"
    and "sk_in sk = frame_bytes c ct tag @ rest" and "c \<noteq> ch_recv_counter ch"
  shows "\<exists>sk'. channel_receive ev ch sk = (ch\<lparr>ch_broken := True\<rparr>, sk', None) \<and>
    (\<forall>sk2. channel_receive ev (ch\<lparr>ch_broken := True\<rparr>) sk2 = (ch\<lparr>ch_broken := True\<rparr>, sk2, None)) \<and>
    (\<forall>sk2 m. channel_send ev (ch\<lparr>ch_broken := True\<rparr>) sk2 m = (ch\<lparr>ch_broken := True\<rparr>, sk2, False))"
proof -
  obtain ch' sk' res where r: "channel_receive ev ch sk = (ch', sk', res)" by (metis prod_cases3)
  have "res = None"
  proof (rule ccontr)
    assume "res \<noteq> None"
    then obtain pt where "channel_receive ev ch sk = (ch', sk', Some pt)" using r by auto
    then obtain ct' tag' where "sk_in sk = frame_bytes (ch_recv_counter ch) ct' tag' @ sk_in sk'"
      by (rule channel_receive_Some)
    then have "take 12 (drop 4 (sk_in sk)) = make_nonce (ch_recv_counter ch)" by (simp add: frame_bytes_def channel_consts)
    moreover have "take 12 (drop 4 (sk_in sk)) = make_nonce c" by (simp add: assms(3) frame_bytes_def channel_consts)
    ultimately show False using make_nonce_inj assms(4) by metis
  qed
  then have "channel_receive ev ch sk = (ch\<lparr>ch_broken := True\<rparr>, sk', None)"
    using r channel_receive_None [OF _ assms(1,2)] by simp
  then show ?thesis by (simp add: channel_receive_def channel_send_def)
qed

theorem channel_rejects_replay_witness:
  "\<exists>sk'. channel_receive toy_evp (channel_new Client demo_key demo_key)
     \<lparr>sk_in = frame_bytes 5 [1] (replicate 16 0), sk_recv = [100, 100], sk_out = [], sk_send = []\<rparr>
     = (channel_new Client demo_key demo_key\<lparr>ch_broken := True\<rparr>, sk', None)"
  using channel_rejects_replay [of "channel_new Client demo_key demo_key"
      "\<lparr>sk_in = frame_bytes 5 [1] (replicate 16 0), sk_recv = [100, 100], sk_out = [], sk_send = []\<rparr>" 5 "[1]"
      "replicate 16 0" "[]" toy_evp]
  by (auto simp: channel_new_def UINT64_MAX_def)


end
