(* ===== verification/Handshake.thy ===== *)
theory Handshake
  imports Secure_Channel
begin

text \<open>
  \<open>handshake.hpp\<close> with \<open>kem_interface.hpp\<close>: the server sends an ephemeral ML-KEM-768 public key, the
  client answers with an encapsulation, and both derive two direction-separated AES keys with
  HKDF. The three KEM calls are the record \<open>kem_api\<close> (\<open>None\<close> is a non-zero return value), so that
  the handshake can be composed with any implementation of them.
\<close>

definition PUBLIC_KEY_BYTES :: nat where "PUBLIC_KEY_BYTES = 1184"
definition SECRET_KEY_BYTES :: nat where "SECRET_KEY_BYTES = 2400"
definition CIPHERTEXT_BYTES :: nat where "CIPHERTEXT_BYTES = 1088"
definition SHARED_SECRET_BYTES :: nat where "SHARED_SECRET_BYTES = 32"

record kem_api =
  kem_keypair :: "(bytes \<times> bytes) option"
  kem_encapsulate :: "bytes \<Rightarrow> (bytes \<times> bytes) option"
  kem_decapsulate :: "bytes \<Rightarrow> bytes \<Rightarrow> bytes option"

definition string_bytes :: "string \<Rightarrow> bytes" where
  "string_bytes s = map (\<lambda>c. of_nat (of_char c)) s"

definition send_raw_frame :: "sock \<Rightarrow> bytes \<Rightarrow> bool \<times> sock" where
  "send_raw_frame sk data = write_all sk [put_be32 (of_nat (length data)), data]"

definition recv_raw_frame :: "sock \<Rightarrow> nat \<Rightarrow> bytes option \<times> sock" where
  "recv_raw_frame sk expected_len =
     (case read_exact sk 4 of
        (None, sk1) \<Rightarrow> (None, sk1)
      | (Some len_buf, sk1) \<Rightarrow>
          let len = unat (get_be32 len_buf)
          in if len \<noteq> expected_len then (None, sk1) else read_exact sk1 len)"

definition derive_directional_keys :: "evp \<Rightarrow> bytes \<Rightarrow> hkdf_error + bytes \<times> bytes" where
  "derive_directional_keys ev shared_secret =
     (let salt = string_bytes ''kv-engine-tunnel-v1''
      in case hkdf_sha256 ev shared_secret salt (string_bytes ''client_write_key'') AES_KEY_BYTES of
           Inl err \<Rightarrow> Inl err
         | Inr c2s \<Rightarrow>
             (case hkdf_sha256 ev shared_secret salt (string_bytes ''server_write_key'') AES_KEY_BYTES of
                Inl err \<Rightarrow> Inl err
              | Inr s2c \<Rightarrow> Inr (c2s, s2c)))"

datatype handshake_result = HsNone | HsThrow hkdf_error | HsChannel secure_channel

definition server_handshake :: "evp \<Rightarrow> kem_api \<Rightarrow> sock \<Rightarrow> handshake_result \<times> sock" where
  "server_handshake ev k sk =
     (case kem_keypair k of
        None \<Rightarrow> (HsNone, sk)
      | Some (pk, sec) \<Rightarrow>
          (case send_raw_frame sk pk of
             (False, sk1) \<Rightarrow> (HsNone, sk1)
           | (True, sk1) \<Rightarrow>
               (case recv_raw_frame sk1 CIPHERTEXT_BYTES of
                  (None, sk2) \<Rightarrow> (HsNone, sk2)
                | (Some ct, sk2) \<Rightarrow>
                    (case kem_decapsulate k sec ct of
                       None \<Rightarrow> (HsNone, sk2)
                     | Some shared_secret \<Rightarrow>
                         (case derive_directional_keys ev shared_secret of
                            Inl err \<Rightarrow> (HsThrow err, sk2)
                          | Inr (cw, sw) \<Rightarrow> (HsChannel (channel_new Server cw sw), sk2))))))"

definition client_handshake :: "evp \<Rightarrow> kem_api \<Rightarrow> sock \<Rightarrow> handshake_result \<times> sock" where
  "client_handshake ev k sk =
     (case recv_raw_frame sk PUBLIC_KEY_BYTES of
        (None, sk1) \<Rightarrow> (HsNone, sk1)
      | (Some pk, sk1) \<Rightarrow>
          (case kem_encapsulate k pk of
             None \<Rightarrow> (HsNone, sk1)
           | Some (ct, shared_secret) \<Rightarrow>
               (case send_raw_frame sk1 ct of
                  (False, sk2) \<Rightarrow> (HsNone, sk2)
                | (True, sk2) \<Rightarrow>
                    (case derive_directional_keys ev shared_secret of
                       Inl err \<Rightarrow> (HsThrow err, sk2)
                     | Inr (cw, sw) \<Rightarrow> (HsChannel (channel_new Client cw sw), sk2)))))"

section \<open>Agreement\<close>

definition raw_frame :: "bytes \<Rightarrow> bytes" where
  "raw_frame data = put_be32 (of_nat (length data)) @ data"

lemma recv_raw_frame_Some:
  assumes "recv_raw_frame sk n = (Some data, sk')" and "sk_in sk = raw_frame d @ rest" and "length d = n" and "n < 2 ^ 32"
  shows "data = d" and "sk_in sk' = rest"
proof -
  obtain lb sk1 where r1: "read_exact sk 4 = (Some lb, sk1)" and r2: "read_exact sk1 n = (Some data, sk')"
    using assms(1) by (auto simp: recv_raw_frame_def Let_def split: prod.splits option.splits if_splits)
  from read_exact_Some [OF r1] read_exact_Some [OF r2] assms(2,3)
  show "data = d" and "sk_in sk' = rest" by (simp_all add: raw_frame_def)
qed

lemma server_handshake_channel:
  assumes "server_handshake ev k sk = (HsChannel ch, sk')" and "kem_keypair k = Some (pk, sec)"
    and "sk_in sk = raw_frame ct @ rest" and "length ct = CIPHERTEXT_BYTES" and "kem_decapsulate k sec ct = Some ss"
  obtains cw sw where "derive_directional_keys ev ss = Inr (cw, sw)" and "ch = channel_new Server cw sw"
proof -
  obtain sk1 where w: "send_raw_frame sk pk = (True, sk1)"
    using assms(1,2) by (auto simp: server_handshake_def split: prod.splits bool.splits)
  obtain ct' sk2 where r: "recv_raw_frame sk1 CIPHERTEXT_BYTES = (Some ct', sk2)"
    using assms(1,2) w by (auto simp: server_handshake_def split: prod.splits option.splits)
  have "sk_in sk1 = raw_frame ct @ rest"
    using w assms(3) by (auto simp: send_raw_frame_def simp del: write_all.simps dest: write_all_True)
  then have "ct' = ct"
    using recv_raw_frame_Some(1) [OF r _ assms(4)] by (simp add: CIPHERTEXT_BYTES_def)
  then show ?thesis
    using assms(1,2,5) w r that by (auto simp: server_handshake_def split: sum.splits prod.splits)
qed

lemma client_handshake_channel:
  assumes "client_handshake ev k sk = (HsChannel ch, sk')"
    and "sk_in sk = raw_frame pk @ rest" and "length pk = PUBLIC_KEY_BYTES" and "kem_encapsulate k pk = Some (ct, ss)"
  obtains cw sw where "derive_directional_keys ev ss = Inr (cw, sw)" and "ch = channel_new Client cw sw"
    and "sk_out sk' = sk_out sk @ raw_frame ct"
proof -
  obtain pk' sk1 where r: "recv_raw_frame sk PUBLIC_KEY_BYTES = (Some pk', sk1)"
    using assms(1) by (auto simp: client_handshake_def split: prod.splits option.splits)
  have pk: "pk' = pk" using recv_raw_frame_Some(1) [OF r assms(2,3)] by (simp add: PUBLIC_KEY_BYTES_def)
  have out: "sk_out sk1 = sk_out sk"
    using r by (auto simp: recv_raw_frame_def Let_def split: prod.splits option.splits if_splits dest!: read_exact_Some)
  obtain sk2 where w: "send_raw_frame sk1 ct = (True, sk2)"
    using assms(1,4) r pk by (auto simp: client_handshake_def split: prod.splits bool.splits)
  have "sk_out sk2 = sk_out sk @ raw_frame ct"
    using write_all_True [OF w [unfolded send_raw_frame_def]] out by (simp add: raw_frame_def)
  then show ?thesis
    using assms(1,4) r pk w that by (auto simp: client_handshake_def split: sum.splits prod.splits)
qed

section \<open>Properties\<close>

text \<open>
  C27: Key agreement and direction separation. When each side reads what the other side wrote and
  the KEM decapsulates the encapsulated secret, the two channels are cross-connected: each side's
  receive key is the other side's send key, both start at counter zero and none is broken.
\<close>

theorem handshake_agreement:
  assumes "kem_keypair k = Some (pk, sec)" and "kem_encapsulate k pk = Some (ct, ss)" and "kem_decapsulate k sec ct = Some ss"
    and "length pk = PUBLIC_KEY_BYTES" and "length ct = CIPHERTEXT_BYTES"
    and "server_handshake ev k s1 = (HsChannel srv, s1')" and "sk_in s1 = raw_frame ct @ rest1"
    and "client_handshake ev k s2 = (HsChannel cli, s2')" and "sk_in s2 = raw_frame pk @ rest2"
  shows "ch_recv_key srv = ch_send_key cli \<and> ch_recv_key cli = ch_send_key srv \<and>
    ch_recv_counter srv = ch_send_counter cli \<and> ch_recv_counter cli = ch_send_counter srv \<and>
    \<not> ch_broken srv \<and> \<not> ch_broken cli"
proof -
  obtain cw sw where "derive_directional_keys ev ss = Inr (cw, sw)" and s: "srv = channel_new Server cw sw"
    by (rule server_handshake_channel [OF assms(6,1,7,5,3)])
  moreover obtain cw' sw' where "derive_directional_keys ev ss = Inr (cw', sw')" and c: "cli = channel_new Client cw' sw'"
    by (rule client_handshake_channel [OF assms(8,9,4,2)])
  ultimately show ?thesis by (simp add: channel_new_def)
qed

definition toy_kem :: kem_api where
  "toy_kem = \<lparr>kem_keypair = Some (replicate 1184 5, replicate 2400 6),
     kem_encapsulate = (\<lambda>pk. if length pk = 1184 then Some (replicate 1088 8, replicate 32 9) else None),
     kem_decapsulate = (\<lambda>sk ct. if length ct = 1088 then Some (replicate 32 9) else None)\<rparr>"

lemma toy_derive: "\<exists>cw sw. derive_directional_keys toy_evp ss = Inr (cw, sw)"
  by (simp add: derive_directional_keys_def hkdf_sha256_def toy_evp_def Let_def min_def)

lemma send_raw_frame_ok:
  "sk_send sk = [n, n] \<Longrightarrow> data \<noteq> [] \<Longrightarrow> int (length data) \<le> n \<Longrightarrow> 4 \<le> n \<Longrightarrow>
   send_raw_frame sk data = (True, sk\<lparr>sk_out := sk_out sk @ raw_frame data, sk_send := []\<rparr>)"
proof -
  assume a: "sk_send sk = [n, n]" "data \<noteq> []" "int (length data) \<le> n" "4 \<le> n"
  let ?l = "put_be32 (of_nat (length data))"
  have "?l \<noteq> []" using length_put_be32 [of "of_nat (length data)"] by (metis list.size(3) zero_neq_numeral)
  then have w: "write_exact sk ?l = (True, sk\<lparr>sk_out := sk_out sk @ ?l, sk_send := [n]\<rparr>)"
    using write_exact_one [OF a(1)] a(4) by simp
  have w2: "write_exact (sk\<lparr>sk_out := sk_out sk @ ?l, sk_send := [n]\<rparr>) data
      = (True, sk\<lparr>sk_out := sk_out sk @ ?l @ data, sk_send := []\<rparr>)"
    using a(2,3) by (subst write_exact_one [of _ n "[]"]) simp_all
  show ?thesis by (simp add: send_raw_frame_def w w2 raw_frame_def)
qed

lemma recv_raw_frame_ok:
  assumes "sk_in sk = raw_frame d" and "length d = n" and "n < 2 ^ 32" and "recv_ready (4 + n) sk"
  shows "\<exists>sk'. recv_raw_frame sk n = (Some d, sk') \<and> sk_send sk' = sk_send sk"
proof -
  obtain sk1 where r1: "read_exact sk 4 = (Some (put_be32 (of_nat n)), sk1)" "sk_in sk1 = d" "recv_ready (n + 0) sk1"
    using read_exact_ok [OF assms(4)] assms(1,2) by (auto simp: raw_frame_def)
  obtain sk2 where r2: "read_exact sk1 n = (Some d, sk2)"
    using read_exact_ok [OF r1(3)] assms(2) r1(2) by auto
  have "sk_send sk2 = sk_send sk"
    using r1(1) r2 by (auto simp: read_exact_def split: prod.splits)
  moreover have "unat (of_nat n :: u32) = n" using assms(3) by (simp add: unat_of_nat)
  ultimately show ?thesis
    using r1(1) r2 by (simp add: recv_raw_frame_def Let_def)
qed

theorem handshake_agreement_witness:
  "\<exists>srv s1' cli s2'.
    server_handshake toy_evp toy_kem \<lparr>sk_in = raw_frame (replicate 1088 8), sk_recv = replicate 1092 9, sk_out = [], sk_send = [2000, 2000]\<rparr>
      = (HsChannel srv, s1') \<and>
    client_handshake toy_evp toy_kem \<lparr>sk_in = raw_frame (replicate 1184 5), sk_recv = replicate 1188 9, sk_out = [], sk_send = [2000, 2000]\<rparr>
      = (HsChannel cli, s2') \<and>
    ch_recv_key srv = ch_send_key cli \<and> ch_recv_key cli = ch_send_key srv"
proof -
  let ?s1 = "\<lparr>sk_in = raw_frame (replicate 1088 8), sk_recv = replicate 1092 9, sk_out = [], sk_send = [2000, 2000]\<rparr>"
  let ?s2 = "\<lparr>sk_in = raw_frame (replicate 1184 5), sk_recv = replicate 1188 9, sk_out = [], sk_send = [2000, 2000]\<rparr>"
  let ?pk = "replicate 1184 5 :: bytes" let ?ct = "replicate 1088 8 :: bytes" let ?ss = "replicate 32 9 :: bytes"
  obtain cw sw where d: "derive_directional_keys toy_evp ?ss = Inr (cw, sw)" using toy_derive by blast
  have w1: "send_raw_frame ?s1 ?pk = (True, ?s1\<lparr>sk_out := raw_frame ?pk, sk_send := []\<rparr>)"
    by (subst send_raw_frame_ok [of _ 2000]) simp_all
  obtain sa where r1: "recv_raw_frame (?s1\<lparr>sk_out := raw_frame ?pk, sk_send := []\<rparr>) CIPHERTEXT_BYTES = (Some ?ct, sa)"
    using recv_raw_frame_ok [of "?s1\<lparr>sk_out := raw_frame ?pk, sk_send := []\<rparr>" ?ct 1088]
    by (auto simp: recv_ready_def CIPHERTEXT_BYTES_def)
  have srv: "server_handshake toy_evp toy_kem ?s1 = (HsChannel (channel_new Server cw sw), sa)"
    using w1 r1 d by (simp add: server_handshake_def toy_kem_def)
  obtain sb where r2: "recv_raw_frame ?s2 PUBLIC_KEY_BYTES = (Some ?pk, sb)" "sk_send sb = [2000, 2000]"
    using recv_raw_frame_ok [of ?s2 ?pk 1184] by (auto simp: recv_ready_def PUBLIC_KEY_BYTES_def)
  have w2: "send_raw_frame sb ?ct = (True, sb\<lparr>sk_out := sk_out sb @ raw_frame ?ct, sk_send := []\<rparr>)"
    by (rule send_raw_frame_ok [OF r2(2)]) simp_all
  have cli: "client_handshake toy_evp toy_kem ?s2
      = (HsChannel (channel_new Client cw sw), sb\<lparr>sk_out := sk_out sb @ raw_frame ?ct, sk_send := []\<rparr>)"
    using r2(1) w2 d by (simp add: client_handshake_def toy_kem_def)
  show ?thesis
    using handshake_agreement [OF _ _ _ _ _ srv _ cli, of ?pk "replicate 2400 6" ?ct ?ss "[]" "[]"] srv cli
    by (auto simp: toy_kem_def PUBLIC_KEY_BYTES_def CIPHERTEXT_BYTES_def)
qed

end
