(* ===== verification/Demo_Server.thy ===== *)
theory Demo_Server
  imports KV_Engine KV_Protocol Handshake
begin

text \<open>
  \<open>secure_kv_demo.cpp\<close>: the request loop of the server over a secure channel and the client's
  request/response exchange. One turn of the loop receives a message, decodes it, runs it on the
  single-file engine and sends the answer. The socket set-up in \<open>main\<close> and \<open>accept\<close> are not
  modelled; the connected socket is the argument.
\<close>

section \<open>The program\<close>

record turn_env =
  te_write :: write_outcome
  te_now :: u64

definition handle_request :: "turn_env \<Rightarrow> kv_engine \<Rightarrow> request \<Rightarrow> kv_engine \<times> byte \<times> bytes" where
  "handle_request env db req =
     (if rq_op req = Op_Put then
        (case kv_put (te_write env) (te_now env) db (rq_key req) (rq_value req) of
           (db', ok) \<Rightarrow> (db', if ok then Status_Ok else Status_Error, []))
      else if rq_op req = Op_Get then
        (case kv_get no_faults db (rq_key req) of
           Some v \<Rightarrow> (db, Status_Ok, v)
         | None \<Rightarrow> (db, Status_NotFound, []))
      else if rq_op req = Op_Del then
        (case kv_del (te_write env) (te_now env) db (rq_key req) of
           (db', ok) \<Rightarrow> (db', if ok then Status_Ok else Status_NotFound, []))
      else (db, Status_Error, []))"

record server =
  sv_db :: kv_engine
  sv_ch :: secure_channel
  sv_sk :: sock

datatype turn = Continue server | Closed server | BufferOverflow

definition send_response :: "evp \<Rightarrow> server \<Rightarrow> byte \<Rightarrow> bytes \<Rightarrow> turn" where
  "send_response ev sv status v =
     (case encode_response status v of
        None \<Rightarrow> BufferOverflow
      | Some buf \<Rightarrow>
          (case channel_send ev (sv_ch sv) (sv_sk sv) buf of
             (ch', sk', ok) \<Rightarrow> Continue (sv\<lparr>sv_ch := ch', sv_sk := sk'\<rparr>)))"

definition server_turn :: "evp \<Rightarrow> turn_env \<Rightarrow> server \<Rightarrow> turn" where
  "server_turn ev env sv =
     (case channel_receive ev (sv_ch sv) (sv_sk sv) of
        (ch1, sk1, None) \<Rightarrow> Closed (sv\<lparr>sv_ch := ch1, sv_sk := sk1\<rparr>)
      | (ch1, sk1, Some plaintext) \<Rightarrow>
          let sv1 = sv\<lparr>sv_ch := ch1, sv_sk := sk1\<rparr>
          in case decode_request plaintext of
               None \<Rightarrow> send_response ev sv1 Status_Error []
             | Some req \<Rightarrow>
                 (case handle_request env (sv_db sv) req of
                    (db', status, v) \<Rightarrow> send_response ev (sv1\<lparr>sv_db := db'\<rparr>) status v))"

fun run_server :: "evp \<Rightarrow> turn_env list \<Rightarrow> server \<Rightarrow> turn" where
  "run_server ev [] sv = Continue sv"
| "run_server ev (env # envs) sv =
     (case server_turn ev env sv of
        Continue sv' \<Rightarrow> run_server ev envs sv'
      | Closed sv' \<Rightarrow> Closed sv'
      | BufferOverflow \<Rightarrow> BufferOverflow)"

text \<open>
  \<open>client_request\<close> in its two halves, before and after the peer's turn, with the channel and socket as
  they are left; \<open>False\<close> and an inner \<open>None\<close> are the return value \<open>false\<close>, an outer \<open>None\<close> is the overflow of the
  encoder's buffer.
\<close>

definition client_request_send ::
  "evp \<Rightarrow> secure_channel \<Rightarrow> sock \<Rightarrow> byte \<Rightarrow> bytes \<Rightarrow> bytes \<Rightarrow> (secure_channel \<times> sock \<times> bool) option" where
  "client_request_send ev ch sk op key v =
     map_option (\<lambda>buf. channel_send ev ch sk buf) (encode_request op key v)"

definition client_request_receive ::
  "evp \<Rightarrow> secure_channel \<Rightarrow> sock \<Rightarrow> secure_channel \<times> sock \<times> response option" where
  "client_request_receive ev ch sk =
     (case channel_receive ev ch sk of
        (ch', sk', None) \<Rightarrow> (ch', sk', None)
      | (ch', sk', Some raw) \<Rightarrow> (ch', sk', decode_response raw))"

section \<open>The request handler\<close>



lemma channel_receive_sock:
  "channel_receive ev ch sk = (ch', sk', Some m) \<Longrightarrow> sk_out sk' = sk_out sk \<and> sk_send sk' = sk_send sk"
  by (auto simp: channel_receive_def read_exact_def Let_def split: if_splits option.splits prod.splits)

end
