(* ===== verification/Tunnel.thy ===== *)
theory Tunnel
  imports Demo_Server
begin

text \<open>
  The two ends of \<open>secure_kv_demo.cpp\<close> put together: the client's \<open>client_request\<close> with the server's
  turn between its two halves, over a network that delivers what was written, and the
  session of \<open>main\<close>. The sockets keep their schedules, so reads and writes may be cut
  anywhere; a peer that waits for bytes that never come is
  one whose connection is closed. An outer \<open>None\<close> is the overflow of an encoder's buffer.
\<close>

section \<open>The program\<close>

record tunnel =
  tn_db :: kv_engine
  tn_srv :: secure_channel
  tn_ssk :: sock
  tn_running :: bool
  tn_cli :: secure_channel
  tn_csk :: sock

text \<open>What the peer reads after a write has changed the other end's socket from \<open>before\<close> to \<open>after\<close>.\<close>

definition deliver :: "sock \<Rightarrow> sock \<Rightarrow> sock \<Rightarrow> sock" where
  "deliver before after peer = peer\<lparr>sk_in := sk_in peer @ drop (length (sk_out before)) (sk_out after)\<rparr>"

definition client_request ::
  "evp \<Rightarrow> turn_env \<Rightarrow> tunnel \<Rightarrow> byte \<Rightarrow> bytes \<Rightarrow> bytes \<Rightarrow> (tunnel \<times> response option) option" where
  "client_request ev env tn op key v =
     (case client_request_send ev (tn_cli tn) (tn_csk tn) op key v of
        None \<Rightarrow> None
      | Some (cli1, csk1, False) \<Rightarrow>
          Some (tn\<lparr>tn_cli := cli1, tn_csk := csk1, tn_ssk := deliver (tn_csk tn) csk1 (tn_ssk tn)\<rparr>, None)
      | Some (cli1, csk1, True) \<Rightarrow>
          let ssk0 = deliver (tn_csk tn) csk1 (tn_ssk tn);
              sv0 = \<lparr>sv_db = tn_db tn, sv_ch = tn_srv tn, sv_sk = ssk0\<rparr>
          in case (if tn_running tn then server_turn ev env sv0 else Closed sv0) of
               BufferOverflow \<Rightarrow> None
             | Closed sv \<Rightarrow>
                 (case client_request_receive ev cli1 (deliver ssk0 (sv_sk sv) csk1) of
                    (cli2, csk2, resp) \<Rightarrow>
                      Some (\<lparr>tn_db = sv_db sv, tn_srv = sv_ch sv, tn_ssk = sv_sk sv, tn_running = False,
                             tn_cli = cli2, tn_csk = csk2\<rparr>, resp))
             | Continue sv \<Rightarrow>
                 (case client_request_receive ev cli1 (deliver ssk0 (sv_sk sv) csk1) of
                    (cli2, csk2, resp) \<Rightarrow>
                      Some (\<lparr>tn_db = sv_db sv, tn_srv = sv_ch sv, tn_ssk = sv_sk sv, tn_running = True,
                             tn_cli = cli2, tn_csk = csk2\<rparr>, resp)))"

text \<open>A sequence of requests; a request that fails leaves the caller's response variable as it was.\<close>

type_synonym call = "turn_env \<times> byte \<times> bytes \<times> bytes"

fun client_session :: "evp \<Rightarrow> call list \<Rightarrow> tunnel \<Rightarrow> response \<Rightarrow> (tunnel \<times> response list) option" where
  "client_session ev [] tn r = Some (tn, [])"
| "client_session ev ((env, op, key, v) # calls) tn r =
     (case client_request ev env tn op key v of
        None \<Rightarrow> None
      | Some (tn1, resp) \<Rightarrow>
          let r1 = (case resp of None \<Rightarrow> r | Some x \<Rightarrow> x)
          in map_option (\<lambda>(tn2, rs). (tn2, r1 # rs)) (client_session ev calls tn1 r1))"

section \<open>A session is a run on the server's store\<close>

fun local_session :: "call list \<Rightarrow> kv_engine \<Rightarrow> kv_engine \<times> response list" where
  "local_session [] db = (db, [])"
| "local_session ((env, op, key, v) # calls) db =
     (case handle_request env db \<lparr>rq_op = op, rq_key = key, rq_value = (if op = Op_Put then v else [])\<rparr> of
        (db1, st, rv) \<Rightarrow>
          (case local_session calls db1 of (db2, rs) \<Rightarrow> (db2, \<lparr>rs_status = st, rs_value = rv\<rparr> # rs)))"

text \<open>The two channels are cross-connected and nothing is in flight.\<close>

definition linked :: "tunnel \<Rightarrow> bool" where
  "linked tn \<longleftrightarrow> tn_running tn \<and>
     ch_recv_key (tn_srv tn) = ch_send_key (tn_cli tn) \<and> ch_recv_key (tn_cli tn) = ch_send_key (tn_srv tn) \<and>
     ch_recv_counter (tn_srv tn) = ch_send_counter (tn_cli tn) \<and> ch_recv_counter (tn_cli tn) = ch_send_counter (tn_srv tn) \<and>
     \<not> ch_broken (tn_srv tn) \<and> \<not> ch_broken (tn_cli tn) \<and> sk_in (tn_ssk tn) = [] \<and> sk_in (tn_csk tn) = []"

text \<open>The sockets carry \<open>n\<close> more bytes in each direction, and the counters allow \<open>c\<close> more messages.\<close>

definition capacity :: "nat \<Rightarrow> nat \<Rightarrow> tunnel \<Rightarrow> bool" where
  "capacity n c tn \<longleftrightarrow>
     (\<forall>sk \<in> {tn_ssk tn, tn_csk tn}. recv_ready n sk \<and> send_ready n sk) \<and>
     unat (ch_send_counter (tn_cli tn)) + c < 2 ^ 64 \<and> unat (ch_send_counter (tn_srv tn)) + c < 2 ^ 64"

lemma ready_mono: "recv_ready n sk \<Longrightarrow> m \<le> n \<Longrightarrow> recv_ready m sk" "send_ready n sk \<Longrightarrow> m \<le> n \<Longrightarrow> send_ready m sk"
  by (auto simp: recv_ready_def send_ready_def)

lemma ready_update [simp]:
  "recv_ready n (sk\<lparr>sk_in := x\<rparr>) = recv_ready n sk" "send_ready n (sk\<lparr>sk_in := x\<rparr>) = send_ready n sk"
  by (simp_all add: recv_ready_def send_ready_def)

lemma counter_max:
  assumes "unat c + Suc k < 2 ^ 64"
  shows "c \<noteq> UINT64_MAX" and "unat (c + 1) + k < 2 ^ 64"
proof -
  show "c \<noteq> UINT64_MAX" using assms by (auto simp: UINT64_MAX_def)
  then show "unat (c + 1) + k < 2 ^ 64" using UINT64_MAX_Suc assms by simp
qed

lemma receive_sealed:
  assumes "gcm_law ev" and "\<not> ch_broken ch" and "ch_recv_counter ch \<noteq> UINT64_MAX"
    and "aes_gcm_encrypt ev (ch_recv_key ch) m (make_nonce (ch_recv_counter ch)) = Some (ct, tag)" and "frame_ok ct tag"
    and "sk_in sk = frame_bytes (ch_recv_counter ch) ct tag" and "recv_ready (32 + length m + k) sk"
  obtains sk' where "channel_receive ev ch sk = (ch\<lparr>ch_recv_counter := ch_recv_counter ch + 1\<rparr>, sk', Some m)"
    and "sk_in sk' = []" and "recv_ready k sk'" and "sk_out sk' = sk_out sk" and "sk_send sk' = sk_send sk"
proof -
  note l = gcm_law_encrypt [OF assms(1,4)]
  have len: "length (frame_bytes (ch_recv_counter ch) ct tag) = 32 + length m"
    using l by (simp add: frame_bytes_def length_put_be32 length_make_nonce channel_consts)
  have "sk_in sk = frame_bytes (ch_recv_counter ch) ct tag @ []" using assms(6) by simp
  from channel_receive_frame [OF assms(2,3) this assms(5) l(3), of k] assms(7)
  obtain sk' where r: "channel_receive ev ch sk = (ch\<lparr>ch_recv_counter := ch_recv_counter ch + 1\<rparr>, sk', Some m)"
    "sk_in sk' = []" "recv_ready k sk'" unfolding len by blast
  then show ?thesis using that channel_receive_sock [OF r(1)] by blast
qed

lemma client_request_linked:
  assumes law: "gcm_law ev" and link: "linked tn" and size: "9 + length key + length v \<le> MAX_PLAINTEXT_BYTES"
    and h: "handle_request env (tn_db tn) \<lparr>rq_op = op, rq_key = key, rq_value = (if op = Op_Put then v else [])\<rparr> = (db', st, rv)"
    and rsize: "5 + length rv \<le> MAX_PLAINTEXT_BYTES"
    and cap: "capacity (78 + length key + length v + length rv + k) (Suc c) tn"
  obtains tn' where "client_request ev env tn op key v = Some (tn', Some \<lparr>rs_status = st, rs_value = rv\<rparr>)"
    and "tn_db tn' = db'" and "linked tn'" and "capacity k c tn'"
proof -
  let ?srv = "tn_srv tn" and ?cli = "tn_cli tn" and ?ssk = "tn_ssk tn" and ?csk = "tn_csk tn"
  let ?n = "37 + length rv + k"
  have small: "9 + length key + (if op = Op_Put then length v else 0) < 2 ^ 32" "5 + length rv < 2 ^ 32"
    using size rsize by (simp_all add: channel_consts)
  obtain buf where buf: "encode_request op key v = Some buf"
    "decode_request buf = Some \<lparr>rq_op = op, rq_key = key, rq_value = (if op = Op_Put then v else [])\<rparr>"
    by (rule decode_request_fits [OF small(1)])
  have lb: "length buf \<le> 9 + length key + length v"
    using buf(1) encode_request_fits [OF small(1)] by auto
  obtain rbuf where rbuf: "encode_response st rv = Some rbuf" "length rbuf = 5 + length rv"
    "decode_response rbuf = Some \<lparr>rs_status = st, rs_value = rv\<rparr>"
    by (rule decode_response_fits [OF small(2)])
  have cs: "send_ready (78 + length key + length v + length rv + k) ?csk" "recv_ready (78 + length key + length v + length rv + k) ?csk"
    and ss: "send_ready (78 + length key + length v + length rv + k) ?ssk" "recv_ready (78 + length key + length v + length rv + k) ?ssk"
    and cnt: "unat (ch_send_counter ?cli) + Suc c < 2 ^ 64" "unat (ch_send_counter ?srv) + Suc c < 2 ^ 64"
    using cap by (simp_all add: capacity_def)
  have e1: "32 + length buf + ?n \<le> 78 + length key + length v + length rv + k" using lb by simp
  obtain ct tag csk1 where s1: "channel_send ev ?cli ?csk buf = (?cli\<lparr>ch_send_counter := ch_send_counter ?cli + 1\<rparr>, csk1, True)"
    "sk_out csk1 = sk_out ?csk @ frame_bytes (ch_send_counter ?cli) ct tag" "sk_in csk1 = sk_in ?csk" "sk_recv csk1 = sk_recv ?csk"
    "send_ready ?n csk1" "frame_ok ct tag" "length ct = length buf"
    "aes_gcm_encrypt ev (ch_send_key ?cli) buf (make_nonce (ch_send_counter ?cli)) = Some (ct, tag)"
    by (rule channel_send_ok [OF law _ counter_max(1) [OF cnt(1)] _ ready_mono(2) [OF cs(1) e1]])
      (use link lb size in \<open>simp_all add: linked_def\<close>)
  let ?ssk0 = "deliver ?csk csk1 ?ssk"
  have in0: "sk_in ?ssk0 = frame_bytes (ch_recv_counter ?srv) ct tag" using link s1(2) by (simp add: deliver_def linked_def)
  obtain ssk1 where r1: "channel_receive ev ?srv ?ssk0 = (?srv\<lparr>ch_recv_counter := ch_recv_counter ?srv + 1\<rparr>, ssk1, Some buf)"
    "sk_in ssk1 = []" "recv_ready ?n ssk1" "sk_out ssk1 = sk_out ?ssk0" "sk_send ssk1 = sk_send ?ssk0"
    by (rule receive_sealed [OF law _ _ _ s1(6) in0, of buf ?n])
      (use link s1(8) counter_max(1) [OF cnt(1)] ready_mono(1) [OF ss(2) e1] in \<open>simp_all add: linked_def deliver_def\<close>)
  let ?srv1 = "?srv\<lparr>ch_recv_counter := ch_recv_counter ?srv + 1\<rparr>"
  have sr: "send_ready (32 + length rbuf + k) ssk1"
    using ready_mono(2) [OF ss(1), of "32 + length rbuf + k"] rbuf(2) r1(5) by (simp add: send_ready_def deliver_def)
  obtain ct' tag' ssk2 where s2: "channel_send ev ?srv1 ssk1 rbuf = (?srv1\<lparr>ch_send_counter := ch_send_counter ?srv1 + 1\<rparr>, ssk2, True)"
    "sk_out ssk2 = sk_out ssk1 @ frame_bytes (ch_send_counter ?srv1) ct' tag'" "sk_in ssk2 = sk_in ssk1" "sk_recv ssk2 = sk_recv ssk1"
    "send_ready k ssk2" "frame_ok ct' tag'" "length ct' = length rbuf"
    "aes_gcm_encrypt ev (ch_send_key ?srv1) rbuf (make_nonce (ch_send_counter ?srv1)) = Some (ct', tag')"
    by (rule channel_send_ok [where ch = ?srv1, OF law _ _ _ sr]) (use link rbuf(2) rsize counter_max(1) [OF cnt(2)] in \<open>simp_all add: linked_def\<close>)
  let ?sv = "\<lparr>sv_db = db', sv_ch = ?srv1\<lparr>ch_send_counter := ch_send_counter ?srv1 + 1\<rparr>, sv_sk = ssk2\<rparr>"
  have turn: "server_turn ev env \<lparr>sv_db = tn_db tn, sv_ch = ?srv, sv_sk = ?ssk0\<rparr> = Continue ?sv"
    using r1(1) buf(2) h rbuf(1) s2(1) by (simp add: server_turn_def send_response_def)
  let ?cli1 = "?cli\<lparr>ch_send_counter := ch_send_counter ?cli + 1\<rparr>" and ?csk1 = "deliver ?ssk0 ssk2 csk1"
  have in1: "sk_in ?csk1 = frame_bytes (ch_recv_counter ?cli1) ct' tag'"
    using link s1(3) s2(2) r1(4) by (simp add: deliver_def linked_def)
  have rr: "recv_ready (32 + length rbuf + k) csk1"
    using ready_mono(1) [OF cs(2), of "32 + length rbuf + k"] rbuf(2) s1(4) by (simp add: recv_ready_def)
  obtain csk2 where r2: "channel_receive ev ?cli1 ?csk1 = (?cli1\<lparr>ch_recv_counter := ch_recv_counter ?cli1 + 1\<rparr>, csk2, Some rbuf)"
    "sk_in csk2 = []" "recv_ready k csk2" "sk_out csk2 = sk_out ?csk1" "sk_send csk2 = sk_send ?csk1"
    by (rule receive_sealed [OF law _ _ _ s2(6) in1, of rbuf k])
      (use link s2(8) counter_max(1) [OF cnt(2)] rr in \<open>simp_all add: linked_def deliver_def\<close>)
  define tn' where "tn' = \<lparr>tn_db = db', tn_srv = sv_ch ?sv, tn_ssk = ssk2, tn_running = True,
      tn_cli = ?cli1\<lparr>ch_recv_counter := ch_recv_counter ?cli1 + 1\<rparr>, tn_csk = csk2\<rparr>"
  have "tn_running tn" using link by (simp add: linked_def)
  then have "client_request ev env tn op key v = Some (tn', Some \<lparr>rs_status = st, rs_value = rv\<rparr>)"
    using buf(1) s1(1) turn r2(1) rbuf(3) by (simp add: client_request_def client_request_send_def client_request_receive_def tn'_def Let_def)
  moreover have "linked tn'" using link r2(2) s2(3) r1(2) by (simp add: linked_def tn'_def)
  moreover have "capacity k c tn'"
  proof -
    have "send_ready k csk2" using ready_mono(2) [OF s1(5), of k] r2(5) by (simp add: send_ready_def deliver_def)
    moreover have "recv_ready k ssk2" using ready_mono(1) [OF r1(3), of k] s2(4) by (simp add: recv_ready_def)
    ultimately show ?thesis
      using r2(3) s2(5) counter_max(2) [OF cnt(1)] counter_max(2) [OF cnt(2)] by (simp add: capacity_def tn'_def)
  qed
  ultimately show ?thesis using that [of tn'] by (simp add: tn'_def)
qed

text \<open>The bytes and the admissible sizes of a session.\<close>

fun session_cost :: "call list \<Rightarrow> response list \<Rightarrow> nat" where
  "session_cost ((env, op, key, v) # calls) (r # rs) =
     78 + length key + length v + length (rs_value r) + session_cost calls rs"
| "session_cost _ _ = 0"

definition session_fits :: "call list \<Rightarrow> response list \<Rightarrow> bool" where
  "session_fits calls rs \<longleftrightarrow>
     (\<forall>(env, op, key, v) \<in> set calls. 9 + length key + length v \<le> MAX_PLAINTEXT_BYTES) \<and>
     (\<forall>r \<in> set rs. 5 + length (rs_value r) \<le> MAX_PLAINTEXT_BYTES)"

lemma session_linked:
  "gcm_law ev \<Longrightarrow> linked tn \<Longrightarrow> local_session calls (tn_db tn) = (db', rs) \<Longrightarrow> session_fits calls rs \<Longrightarrow>
   capacity (session_cost calls rs + k) (length calls + c) tn \<Longrightarrow>
   \<exists>tn'. client_session ev calls tn r = Some (tn', rs) \<and> tn_db tn' = db' \<and> linked tn' \<and> capacity k c tn'"
proof (induction calls arbitrary: tn rs r)
  case (Cons call calls)
  obtain env op key v where call: "call = (env, op, key, v)" by (metis prod_cases4)
  obtain db1 st rv where h: "handle_request env (tn_db tn) \<lparr>rq_op = op, rq_key = key, rq_value = (if op = Op_Put then v else [])\<rparr> = (db1, st, rv)"
    by (metis prod_cases3)
  obtain rs2 where l: "local_session calls db1 = (db', rs2)" and rs: "rs = \<lparr>rs_status = st, rs_value = rv\<rparr> # rs2"
    using Cons.prems(3) h by (auto simp: call split: prod.splits)
  have fit: "9 + length key + length v \<le> MAX_PLAINTEXT_BYTES" "5 + length rv \<le> MAX_PLAINTEXT_BYTES" "session_fits calls rs2"
    using Cons.prems(4) by (auto simp: session_fits_def call rs)
  have cap: "capacity (78 + length key + length v + length rv + (session_cost calls rs2 + k)) (Suc (length calls + c)) tn"
    using Cons.prems(5) by (simp add: call rs add.assoc)
  obtain tn1 where 1: "client_request ev env tn op key v = Some (tn1, Some \<lparr>rs_status = st, rs_value = rv\<rparr>)"
    "tn_db tn1 = db1" "linked tn1" "capacity (session_cost calls rs2 + k) (length calls + c) tn1"
    by (rule client_request_linked [OF Cons.prems(1,2) fit(1) h fit(2) cap])
  show ?case using Cons.IH [OF Cons.prems(1) 1(3) _ fit(3) 1(4)] 1(1,2) l by (fastforce simp: call rs Let_def)
qed auto

text \<open>
  C5: A session over the tunnel is a session on the local store. However the network cuts the
  byte streams into pieces, every request of a session over two cross-connected channels is
  answered with the status and value that the handler computes on the server's store, in order, the
  store ends in the same state, and the channels stay usable.
\<close>

theorem session_is_local:
  assumes "gcm_law ev" and "linked tn" and "local_session calls (tn_db tn) = (db', rs)" and "session_fits calls rs"
    and "capacity (session_cost calls rs) (length calls) tn"
  shows "\<exists>tn'. client_session ev calls tn r = Some (tn', rs) \<and> tn_db tn' = db' \<and> linked tn'"
  using session_linked [OF assms(1-4), of 0 0 r] assms(5) by auto

lemma session_is_local_witness:
  "\<exists>tn'. client_session toy_evp [(\<lparr>te_write = None, te_now = 3\<rparr>, Op_Get, [1], [])]
      \<lparr>tn_db = kv_fresh, tn_srv = channel_new Server demo_key demo_key,
       tn_ssk = \<lparr>sk_in = [], sk_recv = replicate 200 1, sk_out = [], sk_send = replicate 200 1\<rparr>, tn_running = True,
       tn_cli = channel_new Client demo_key demo_key,
       tn_csk = \<lparr>sk_in = [], sk_recv = replicate 200 1, sk_out = [], sk_send = replicate 200 1\<rparr>\<rparr>
      \<lparr>rs_status = Status_Ok, rs_value = []\<rparr>
    = Some (tn', [\<lparr>rs_status = Status_NotFound, rs_value = []\<rparr>]) \<and> tn_db tn' = kv_fresh \<and> linked tn'"
proof -
  let ?sk = "\<lparr>sk_in = [], sk_recv = replicate 200 1, sk_out = [], sk_send = replicate 200 1\<rparr> :: sock"
  let ?calls = "[(\<lparr>te_write = None, te_now = 3\<rparr>, Op_Get, [1], [])] :: call list"
  let ?tn = "\<lparr>tn_db = kv_fresh, tn_srv = channel_new Server demo_key demo_key, tn_ssk = ?sk, tn_running = True,
      tn_cli = channel_new Client demo_key demo_key, tn_csk = ?sk\<rparr>"
  have op: "Op_Get \<noteq> Op_Put" by (simp add: Op_Get_def Op_Put_def)
  have "kv_get no_faults kv_fresh [1] = None" using kv_get_abs kv_fresh_log by (auto simp: kv_inv_def)
  then have l: "local_session ?calls (tn_db ?tn) = (kv_fresh, [\<lparr>rs_status = Status_NotFound, rs_value = []\<rparr>])"
    by (simp add: handle_request_def op)
  have "linked ?tn" by (simp add: linked_def channel_new_def)
  moreover have "session_fits ?calls [\<lparr>rs_status = Status_NotFound, rs_value = []\<rparr>]"
    by (simp add: session_fits_def channel_consts)
  moreover have "capacity (session_cost ?calls [\<lparr>rs_status = Status_NotFound, rs_value = []\<rparr>]) (length ?calls) ?tn"
    by (simp add: capacity_def channel_new_def recv_ready_def send_ready_def del: replicate.simps)
  ultimately show ?thesis using session_is_local [OF toy_gcm_law _ l] by simp
qed

section \<open>The session of \<open>main\<close>\<close>

definition demo_big :: bytes where
  "demo_big = replicate 5000 (of_nat (of_char CHR ''z''))"

definition demo_calls :: "(nat \<Rightarrow> turn_env) \<Rightarrow> call list" where
  "demo_calls env =
     [(env 0, Op_Put, string_bytes ''alpha'', string_bytes ''first-value''),
      (env 1, Op_Get, string_bytes ''alpha'', []),
      (env 2, Op_Put, string_bytes ''alpha'', string_bytes ''updated-value''),
      (env 3, Op_Get, string_bytes ''alpha'', []),
      (env 4, Op_Get, string_bytes ''does-not-exist'', []),
      (env 5, Op_Del, string_bytes ''alpha'', []),
      (env 6, Op_Get, string_bytes ''alpha'', []),
      (env 7, Op_Put, string_bytes ''big'', demo_big),
      (env 8, Op_Get, string_bytes ''big'', [])]"

definition demo_checks :: "response list \<Rightarrow> bool list" where
  "demo_checks r =
     [rs_status (r ! 0) = Status_Ok,
      rs_status (r ! 1) = Status_Ok \<and> rs_value (r ! 1) = string_bytes ''first-value'',
      rs_status (r ! 3) = Status_Ok \<and> rs_value (r ! 3) = string_bytes ''updated-value'',
      rs_status (r ! 4) = Status_NotFound,
      rs_status (r ! 5) = Status_Ok,
      rs_status (r ! 6) = Status_NotFound,
      rs_status (r ! 8) = Status_Ok \<and> rs_value (r ! 8) = demo_big]"

text \<open>The exit status of \<open>main\<close> after the handshake, with the initial contents of the variable \<open>r\<close>.\<close>

definition demo_main :: "evp \<Rightarrow> (nat \<Rightarrow> turn_env) \<Rightarrow> tunnel \<Rightarrow> response \<Rightarrow> (tunnel \<times> int) option" where
  "demo_main ev env tn r =
     map_option (\<lambda>(tn', rs).
         let checks = demo_checks rs;
             passed = length (filter id checks);
             total = length checks
         in (tn', if passed = total then 0 else 1))
       (client_session ev (demo_calls env) tn r)"

lemma handle_put:
  assumes "kv_inv db" and "put_allowed key v" and "te_write env = Some n" and "21 + length key + length v \<le> n"
  obtains db' where "handle_request env db \<lparr>rq_op = Op_Put, rq_key = key, rq_value = v\<rparr> = (db', Status_Ok, [])"
    and "kv_inv db'" and "kv_abs db' = (kv_abs db)(key \<mapsto> v)"
proof -
  have "\<exists>db'. kv_put (te_write env) (te_now env) db key v = (db', True)"
    using assms(2-4) by (simp add: kv_put_cases Let_def HEADER_SIZE_def)
  then obtain db' where p: "kv_put (te_write env) (te_now env) db key v = (db', True)" by blast
  then show ?thesis using that [of db'] kv_put_acked [OF assms(1) p] by (simp add: handle_request_def)
qed

lemma op_neq: "Op_Get \<noteq> Op_Put" "Op_Del \<noteq> Op_Get" "Op_Del \<noteq> Op_Put"
  by (simp_all add: Op_Put_def Op_Get_def Op_Del_def)

lemma handle_get:
  assumes "kv_inv db"
  shows "handle_request env db \<lparr>rq_op = Op_Get, rq_key = key, rq_value = v\<rparr> =
    (db, (case kv_abs db key of None \<Rightarrow> (Status_NotFound, []) | Some x \<Rightarrow> (Status_Ok, x)))"
proof -
  have "kv_get no_faults db key = kv_abs db key" using assms kv_get_abs by (auto simp: kv_inv_def)
  then show ?thesis by (simp add: handle_request_def op_neq split: option.splits)
qed

lemma handle_del:
  assumes "kv_inv db" and "kv_abs db key \<noteq> None" and "te_write env = Some n" and "21 + length key \<le> n" and "length key < 2 ^ 32"
  obtains db' where "handle_request env db \<lparr>rq_op = Op_Del, rq_key = key, rq_value = v\<rparr> = (db', Status_Ok, [])"
    and "kv_inv db'" and "kv_abs db' = (kv_abs db)(key := None)"
proof -
  have "map_of (kv_keydir db) key \<noteq> None" using assms(2) by (auto simp: kv_abs_def)
  then have "\<exists>db'. kv_del (te_write env) (te_now env) db key = (db', True)"
    unfolding kv_del_cases [OF assms(5)] using assms(3,4) by (simp add: Let_def HEADER_SIZE_def)
  then obtain db' where p: "kv_del (te_write env) (te_now env) db key = (db', True)" by blast
  then show ?thesis using that [of db'] kv_del_acked [OF assms(1) p] by (simp add: handle_request_def op_neq)
qed

lemma demo_keys:
  "string_bytes ''alpha'' \<noteq> string_bytes ''big''" "string_bytes ''alpha'' \<noteq> string_bytes ''does-not-exist''"
  "string_bytes ''big'' \<noteq> string_bytes ''does-not-exist''"
  "length (string_bytes ''alpha'') = 5" "length (string_bytes ''big'') = 3" "length (string_bytes ''does-not-exist'') = 14"
  "length (string_bytes ''first-value'') = 11" "length (string_bytes ''updated-value'') = 13" "length demo_big = 5000"
proof -
  show "length demo_big = 5000" by (simp add: demo_big_def)
  show l: "length (string_bytes ''alpha'') = 5" "length (string_bytes ''big'') = 3" "length (string_bytes ''does-not-exist'') = 14"
    "length (string_bytes ''first-value'') = 11" "length (string_bytes ''updated-value'') = 13"
    by (simp_all add: string_bytes_def)
  show "string_bytes ''alpha'' \<noteq> string_bytes ''big''" "string_bytes ''alpha'' \<noteq> string_bytes ''does-not-exist''"
    "string_bytes ''big'' \<noteq> string_bytes ''does-not-exist''"
    using l by (metis numeral_eq_iff num.distinct(1,3,5) num.inject)+
qed

text \<open>The answers of the local store to the script.\<close>

lemma demo_local:
  assumes db: "kv_inv db" and new: "kv_abs db (string_bytes ''does-not-exist'') = None"
    and env: "\<And>i. \<exists>n \<ge> 6000. te_write (env i) = Some n"
  obtains db' rs where "local_session (demo_calls env) db = (db', rs)" and "demo_checks rs = replicate 7 True"
    and "session_fits (demo_calls env) rs" and "session_cost (demo_calls env) rs \<le> 11000"
proof -
  let ?a = "string_bytes ''alpha''" and ?b = "string_bytes ''big''" and ?n = "string_bytes ''does-not-exist''"
    and ?f = "string_bytes ''first-value''" and ?u = "string_bytes ''updated-value''"
    and ?z = demo_big
  obtain n where n: "\<And>i. 6000 \<le> n i" "\<And>i. te_write (env i) = Some (n i)" using env by metis
  have allowed: "put_allowed ?a ?f" "put_allowed ?a ?u" "put_allowed ?b ?z" by (simp_all add: put_allowed_def demo_keys)
  obtain d0 where d0: "handle_request (env 0) db \<lparr>rq_op = Op_Put, rq_key = ?a, rq_value = ?f\<rparr> = (d0, Status_Ok, [])"
    "kv_inv d0" "kv_abs d0 = (kv_abs db)(?a \<mapsto> ?f)"
    by (rule handle_put [OF db allowed(1) n(2) [of 0]]) (use n(1) [of 0] in \<open>simp add: demo_keys\<close>)
  obtain d2 where d2: "handle_request (env 2) d0 \<lparr>rq_op = Op_Put, rq_key = ?a, rq_value = ?u\<rparr> = (d2, Status_Ok, [])"
    "kv_inv d2" "kv_abs d2 = (kv_abs d0)(?a \<mapsto> ?u)"
    by (rule handle_put [OF d0(2) allowed(2) n(2) [of 2]]) (use n(1) [of 2] in \<open>simp add: demo_keys\<close>)
  obtain d5 where d5: "handle_request (env 5) d2 \<lparr>rq_op = Op_Del, rq_key = ?a, rq_value = []\<rparr> = (d5, Status_Ok, [])"
    "kv_inv d5" "kv_abs d5 = (kv_abs d2)(?a := None)"
    by (rule handle_del [where key = ?a and v = "[]", OF d2(2) _ n(2) [of 5]]) (use n(1) [of 5] d2(3) in \<open>simp_all add: demo_keys\<close>)
  obtain d7 where d7: "handle_request (env 7) d5 \<lparr>rq_op = Op_Put, rq_key = ?b, rq_value = ?z\<rparr> = (d7, Status_Ok, [])"
    "kv_inv d7" "kv_abs d7 = (kv_abs d5)(?b \<mapsto> ?z)"
    by (rule handle_put [OF d5(2) allowed(3) n(2) [of 7]]) (use n(1) [of 7] in \<open>simp add: demo_keys\<close>)
  have g: "handle_request (env 1) d0 \<lparr>rq_op = Op_Get, rq_key = ?a, rq_value = []\<rparr> = (d0, Status_Ok, ?f)"
    "handle_request (env 3) d2 \<lparr>rq_op = Op_Get, rq_key = ?a, rq_value = []\<rparr> = (d2, Status_Ok, ?u)"
    "handle_request (env 4) d2 \<lparr>rq_op = Op_Get, rq_key = ?n, rq_value = []\<rparr> = (d2, Status_NotFound, [])"
    "handle_request (env 6) d5 \<lparr>rq_op = Op_Get, rq_key = ?a, rq_value = []\<rparr> = (d5, Status_NotFound, [])"
    "handle_request (env 8) d7 \<lparr>rq_op = Op_Get, rq_key = ?b, rq_value = []\<rparr> = (d7, Status_Ok, ?z)"
    using new demo_keys(1-3) by (simp_all add: handle_get d0(2,3) d2(2,3) d5(2,3) d7(2,3))
  let ?rs = "map (\<lambda>(st, v). \<lparr>rs_status = st, rs_value = v\<rparr>)
      [(Status_Ok, []), (Status_Ok, ?f), (Status_Ok, []), (Status_Ok, ?u), (Status_NotFound, []), (Status_Ok, []),
       (Status_NotFound, []), (Status_Ok, []), (Status_Ok, ?z)]"
  have "local_session (demo_calls env) db = (d7, ?rs)"
    by (simp add: demo_calls_def d0(1) d2(1) d5(1) d7(1) g op_neq del: One_nat_def replicate_Suc)
  moreover have "demo_checks ?rs = replicate 7 True" by (simp add: demo_checks_def numeral_eq_Suc del: replicate_Suc) simp
  moreover have "session_fits (demo_calls env) ?rs"
    by (simp add: session_fits_def demo_calls_def demo_keys channel_consts del: replicate_Suc)
  moreover have "session_cost (demo_calls env) ?rs \<le> 11000" by (simp add: demo_calls_def demo_keys del: replicate_Suc)
  ultimately show ?thesis using that by blast
qed

lemma demo_main_linked:
  assumes law: "gcm_law ev" and link: "linked tn" and db: "kv_inv (tn_db tn)" "kv_abs (tn_db tn) (string_bytes ''does-not-exist'') = None"
    and env: "\<And>i. \<exists>n \<ge> 6000. te_write (env i) = Some n" and cap: "capacity 11000 9 tn"
  obtains tn' where "demo_main ev env tn r = Some (tn', 0)" and "linked tn'"
proof -
  obtain db' rs where rs: "local_session (demo_calls env) (tn_db tn) = (db', rs)" "demo_checks rs = replicate 7 True"
    "session_fits (demo_calls env) rs" "session_cost (demo_calls env) rs \<le> 11000"
    by (rule demo_local [OF db env])
  have "length (demo_calls env) = 9" by (simp add: demo_calls_def)
  then have "capacity (session_cost (demo_calls env) rs + (11000 - session_cost (demo_calls env) rs)) (length (demo_calls env) + 0) tn"
    using cap rs(4) by simp
  from session_linked [OF law link rs(1,3) this, of r] obtain tn' where
    "client_session ev (demo_calls env) tn r = Some (tn', rs)" "linked tn'" by blast
  then show ?thesis using that [of tn'] by (simp add: demo_main_def rs(2))
qed

end
