(* ===== verification/Mlk_Verify.thy ===== *)
theory Mlk_Verify
  imports Prelude
begin

text \<open>
  \<open>mlkem_native/src/params.h\<close> for the parameter set 768 that the build selects, and
  \<open>mlkem_native/src/verify.h\<close>: integer conversions and the constant-time masks, selections,
  comparison and conditional move. C values of signed types are integers, with the conversions
  of the source written out; values of unsigned types are words of their width. A right shift of a
  negative value is arithmetic, as the source's portability notes require. The value barriers are
  modelled by their opt-blocker variant, with the blocker as an argument; the model is used with
  the blocker value 0 that the global has.
\<close>

unbundle bit_operations_syntax

section \<open>Parameters\<close>

type_synonym u16 = "16 word"

definition MLKEM_K :: nat where "MLKEM_K = 3"
definition MLKEM_N :: nat where "MLKEM_N = 256"
definition MLKEM_Q :: int where "MLKEM_Q = 3329"
definition MLKEM_Q_HALF :: int where "MLKEM_Q_HALF = (MLKEM_Q + 1) div 2"
definition MLKEM_UINT12_LIMIT :: int where "MLKEM_UINT12_LIMIT = 4096"
definition MLKEM_SYMBYTES :: nat where "MLKEM_SYMBYTES = 32"
definition MLKEM_SSBYTES :: nat where "MLKEM_SSBYTES = 32"
definition MLKEM_POLYBYTES :: nat where "MLKEM_POLYBYTES = 384"
definition MLKEM_POLYVECBYTES :: nat where "MLKEM_POLYVECBYTES = MLKEM_K * MLKEM_POLYBYTES"
definition MLKEM_POLYCOMPRESSEDBYTES_DV :: nat where "MLKEM_POLYCOMPRESSEDBYTES_DV = 128"
definition MLKEM_POLYCOMPRESSEDBYTES_DU :: nat where "MLKEM_POLYCOMPRESSEDBYTES_DU = 320"
definition MLKEM_ETA1 :: nat where "MLKEM_ETA1 = 2"
definition MLKEM_ETA2 :: nat where "MLKEM_ETA2 = 2"
definition MLKEM_POLYVECCOMPRESSEDBYTES_DU :: nat where
  "MLKEM_POLYVECCOMPRESSEDBYTES_DU = MLKEM_K * MLKEM_POLYCOMPRESSEDBYTES_DU"
definition MLKEM_INDCPA_MSGBYTES :: nat where "MLKEM_INDCPA_MSGBYTES = MLKEM_SYMBYTES"
definition MLKEM_INDCPA_PUBLICKEYBYTES :: nat where
  "MLKEM_INDCPA_PUBLICKEYBYTES = MLKEM_POLYVECBYTES + MLKEM_SYMBYTES"
definition MLKEM_INDCPA_SECRETKEYBYTES :: nat where "MLKEM_INDCPA_SECRETKEYBYTES = MLKEM_POLYVECBYTES"
definition MLKEM_INDCPA_BYTES :: nat where
  "MLKEM_INDCPA_BYTES = MLKEM_POLYVECCOMPRESSEDBYTES_DU + MLKEM_POLYCOMPRESSEDBYTES_DV"
definition MLKEM_INDCCA_PUBLICKEYBYTES :: nat where "MLKEM_INDCCA_PUBLICKEYBYTES = MLKEM_INDCPA_PUBLICKEYBYTES"
definition MLKEM_INDCCA_SECRETKEYBYTES :: nat where
  "MLKEM_INDCCA_SECRETKEYBYTES = MLKEM_INDCPA_SECRETKEYBYTES + MLKEM_INDCPA_PUBLICKEYBYTES + 2 * MLKEM_SYMBYTES"
definition MLKEM_INDCCA_CIPHERTEXTBYTES :: nat where "MLKEM_INDCCA_CIPHERTEXTBYTES = MLKEM_INDCPA_BYTES"

lemmas mlk_sizes = MLKEM_K_def MLKEM_ETA1_def MLKEM_ETA2_def MLKEM_N_def MLKEM_SYMBYTES_def MLKEM_SSBYTES_def MLKEM_POLYBYTES_def
  MLKEM_POLYVECBYTES_def MLKEM_POLYCOMPRESSEDBYTES_DV_def MLKEM_POLYCOMPRESSEDBYTES_DU_def
  MLKEM_POLYVECCOMPRESSEDBYTES_DU_def MLKEM_INDCPA_MSGBYTES_def MLKEM_INDCPA_PUBLICKEYBYTES_def
  MLKEM_INDCPA_SECRETKEYBYTES_def MLKEM_INDCPA_BYTES_def MLKEM_INDCCA_PUBLICKEYBYTES_def
  MLKEM_INDCCA_SECRETKEYBYTES_def MLKEM_INDCCA_CIPHERTEXTBYTES_def

lemmas mlk_q = MLKEM_Q_def MLKEM_Q_HALF_def

section \<open>Conversions\<close>

text \<open>The conversions \<open>(int16_t)x\<close> and \<open>(int32_t)x\<close> of an integer: reduction to two's complement.\<close>

abbreviation to_i16 :: "int \<Rightarrow> int" where "to_i16 \<equiv> signed_take_bit 15"
abbreviation to_i32 :: "int \<Rightarrow> int" where "to_i32 \<equiv> signed_take_bit 31"

definition is_i16 :: "int \<Rightarrow> bool" where "is_i16 x \<longleftrightarrow> - 32768 \<le> x \<and> x < 32768"

definition mlk_cast_uint16_to_int16 :: "u16 \<Rightarrow> int" where
  "mlk_cast_uint16_to_int16 x = sint x"

definition mlk_cast_int32_to_uint16 :: "int \<Rightarrow> u16" where
  "mlk_cast_int32_to_uint16 x = word_of_int (x AND 0xFFFF)"

definition mlk_cast_int16_to_uint16 :: "int \<Rightarrow> u16" where
  "mlk_cast_int16_to_uint16 x = mlk_cast_int32_to_uint16 x"

section \<open>Masks and selection\<close>

definition mlk_value_barrier_i32 :: "int \<Rightarrow> int \<Rightarrow> int" where
  "mlk_value_barrier_i32 blocker b = b XOR blocker"

definition mlk_value_barrier_u8 :: "byte \<Rightarrow> byte \<Rightarrow> byte" where
  "mlk_value_barrier_u8 blocker b = b XOR blocker"

definition mlk_ct_cmask_neg_i16 :: "int \<Rightarrow> u16" where
  "mlk_ct_cmask_neg_i16 x =
     (let tmp = mlk_value_barrier_i32 0 x; tmp = drop_bit 16 tmp in mlk_cast_int32_to_uint16 tmp)"

definition mlk_ct_cmask_nonzero_u16 :: "u16 \<Rightarrow> u16" where
  "mlk_ct_cmask_nonzero_u16 x =
     (let tmp = mlk_value_barrier_i32 0 (- uint x); tmp = drop_bit 16 tmp in mlk_cast_int32_to_uint16 tmp)"

definition mlk_ct_cmask_nonzero_u8 :: "byte \<Rightarrow> byte" where
  "mlk_ct_cmask_nonzero_u8 x = (let mask = mlk_ct_cmask_nonzero_u16 (ucast x) in ucast (mask AND 0xFF))"

definition mlk_ct_sel_int16 :: "int \<Rightarrow> int \<Rightarrow> u16 \<Rightarrow> int" where
  "mlk_ct_sel_int16 a b cond =
     (let au = mlk_cast_int16_to_uint16 a;
          bu = mlk_cast_int16_to_uint16 b;
          res = bu XOR (mlk_ct_cmask_nonzero_u16 cond AND (au XOR bu))
      in mlk_cast_uint16_to_int16 res)"

definition mlk_ct_sel_uint8 :: "byte \<Rightarrow> byte \<Rightarrow> byte \<Rightarrow> byte" where
  "mlk_ct_sel_uint8 a b cond = b XOR (mlk_ct_cmask_nonzero_u8 cond AND (a XOR b))"

section \<open>Array comparison and conditional move\<close>

fun mlk_ct_memcmp_loop :: "byte \<Rightarrow> byte \<Rightarrow> bytes \<Rightarrow> bytes \<Rightarrow> byte \<times> byte" where
  "mlk_ct_memcmp_loop r s (a # as) (b # bs) = mlk_ct_memcmp_loop (r OR (a XOR b)) (s XOR (a XOR b)) as bs"
| "mlk_ct_memcmp_loop r s _ _ = (r, s)"

definition mlk_ct_memcmp :: "bytes \<Rightarrow> bytes \<Rightarrow> byte" where
  "mlk_ct_memcmp a b =
     (case mlk_ct_memcmp_loop 0 0 a b of
        (r, s) \<Rightarrow> mlk_value_barrier_u8 0 (mlk_ct_cmask_nonzero_u8 r XOR s) XOR s)"

definition mlk_ct_cmov_zero :: "bytes \<Rightarrow> bytes \<Rightarrow> byte \<Rightarrow> bytes" where
  "mlk_ct_cmov_zero r x b = map2 (\<lambda>ri xi. mlk_ct_sel_uint8 ri xi b) r x"

definition mlk_zeroize :: "bytes \<Rightarrow> bytes" where
  "mlk_zeroize p = replicate (length p) 0"

section \<open>Correctness\<close>

lemma to_i16_id [simp]: "is_i16 x \<Longrightarrow> to_i16 x = x"
  by (simp add: is_i16_def signed_take_bit_int_eq_self)

lemma is_i16_to_i16 [simp]: "is_i16 (to_i16 x)"
  using signed_take_bit_int_greater_eq_minus_exp [of 15 x] signed_take_bit_int_less_exp [of 15 x] by (simp add: is_i16_def)

lemma to_i32_id: "- 2147483648 \<le> x \<Longrightarrow> x < 2147483648 \<Longrightarrow> to_i32 x = x"
  by (simp add: signed_take_bit_int_eq_self)

lemma cast_u16: "mlk_cast_int32_to_uint16 x = word_of_int x"
proof -
  have "x AND 65535 = take_bit 16 x" by (simp add: take_bit_eq_mask mask_eq_exp_minus_1)
  then show ?thesis by (simp add: mlk_cast_int32_to_uint16_def word_of_int_eq_iff)
qed

lemma cast_i16: "mlk_cast_uint16_to_int16 (word_of_int x) = to_i16 x"
  by (simp add: mlk_cast_uint16_to_int16_def signed_of_int)

lemma cast_u16_i16: "is_i16 x \<Longrightarrow> mlk_cast_uint16_to_int16 (mlk_cast_int16_to_uint16 x) = x"
  by (simp add: mlk_cast_int16_to_uint16_def cast_u16 cast_i16)

lemma cmask_neg: "is_i16 x \<Longrightarrow> mlk_ct_cmask_neg_i16 x = (if x < 0 then 0xFFFF else 0)"
proof -
  assume "is_i16 x"
  then have "x div 65536 = (if x < 0 then - 1 else 0)"
    by (auto simp: is_i16_def intro!: div_pos_pos_trivial int_div_pos_eq [where r = "x + 65536"])
  then show ?thesis
    by (simp add: mlk_ct_cmask_neg_i16_def mlk_value_barrier_i32_def cast_u16 drop_bit_int_def)
qed

lemma cmask_nonzero_u16: "mlk_ct_cmask_nonzero_u16 x = (if x = 0 then 0 else 0xFFFF)"
proof (cases "x = 0")
  case False
  then have "0 < uint x" using unsigned_greater_eq [of x] by (simp add: order_less_le uint_0_iff)
  moreover have "uint x < 65536" using unsigned_less [of x, where ?'a = int] by simp
  ultimately have "(- uint x) div 65536 = - 1" by (intro int_div_pos_eq [where r = "65536 - uint x"]) auto
  then show ?thesis using False
    by (simp add: mlk_ct_cmask_nonzero_u16_def mlk_value_barrier_i32_def cast_u16 drop_bit_int_def)
qed (simp add: mlk_ct_cmask_nonzero_u16_def mlk_value_barrier_i32_def cast_u16)

lemma ucast_0_iff: "(ucast (x :: byte) :: u16) = 0 \<longleftrightarrow> x = 0"
proof -
  have "unat x < 2 ^ 16" using unat_byte_less [of x] by (rule less_le_trans) simp
  then show ?thesis by (simp add: word_unat_eq_iff unsigned_ucast_eq unsigned_take_bit_eq take_bit_nat_eq_self del: unat_byte_less)
qed

lemma cmask_nonzero_u8: "mlk_ct_cmask_nonzero_u8 x = (if x = 0 then 0 else 0xFF)"
  by (simp add: mlk_ct_cmask_nonzero_u8_def cmask_nonzero_u16 Let_def ucast_0_iff)

lemma xor_select: "v XOR (u XOR v) = u" for u v :: "'a :: len word"
  by (rule bit_word_eqI) (auto simp: bit_simps)

lemma xor_eq_0_iff: "u XOR v = 0 \<longleftrightarrow> u = v" for u v :: "'a :: len word"
  by (metis xor_select xor.left_neutral xor_self_eq)

lemma ct_sel_int16:
  assumes "is_i16 a" and "is_i16 b"
  shows "mlk_ct_sel_int16 a b cond = (if cond = 0 then b else a)"
proof -
  have "(0xFFFF :: u16) = - 1" by simp
  then have m: "mlk_ct_cmask_nonzero_u16 cond = (if cond = 0 then 0 else - 1)" by (simp add: cmask_nonzero_u16)
  have "v XOR (u XOR v) = u" for u v :: u16 by (rule xor_select)
  then show ?thesis
    using assms by (simp add: mlk_ct_sel_int16_def Let_def m cast_u16_i16)
qed

lemma ct_sel_uint8: "mlk_ct_sel_uint8 a b cond = (if cond = 0 then b else a)"
proof -
  have "(0xFF :: byte) = - 1" by simp
  then have m: "mlk_ct_cmask_nonzero_u8 cond = (if cond = 0 then 0 else - 1)" by (simp add: cmask_nonzero_u8)
  have "v XOR (u XOR v) = u" for u v :: byte by (rule xor_select)
  then show ?thesis by (simp add: mlk_ct_sel_uint8_def m)
qed

lemma ct_memcmp_loop: 
  "length a = length b \<Longrightarrow> fst (mlk_ct_memcmp_loop r s a b) = 0 \<longleftrightarrow> r = 0 \<and> a = b"
  by (induction r s a b rule: mlk_ct_memcmp_loop.induct) (auto simp: or_eq_0_iff xor_eq_0_iff)

lemma ct_memcmp:
  assumes "length a = length b"
  shows "mlk_ct_memcmp a b = (if a = b then 0 else 0xFF)"
proof -
  obtain r s where l: "mlk_ct_memcmp_loop 0 0 a b = (r, s)" by fastforce
  have "r = 0 \<longleftrightarrow> a = b" using ct_memcmp_loop [OF assms, of 0 0] by (simp add: l)
  then show ?thesis
    by (simp add: mlk_ct_memcmp_def l mlk_value_barrier_u8_def cmask_nonzero_u8 xor.assoc)
qed

lemma ct_cmov_zero:
  assumes "length r = length x"
  shows "mlk_ct_cmov_zero r x b = (if b = 0 then x else r)"
  using assms by (simp add: mlk_ct_cmov_zero_def ct_sel_uint8 list_eq_iff_nth_eq)

text \<open>
  The branch-free primitives compute the plain conditionals: the comparison returns 0 exactly
  on equal arrays and 0xFF otherwise, and moving under its result copies \<open>x\<close> over \<open>r\<close> exactly when
  the compared arrays are equal; 16-bit selection picks \<open>u\<close> on a nonzero condition and \<open>v\<close> on zero.
\<close>

theorem ct_primitives_spec:
  assumes "length a = length b" and "length r = length x" and "is_i16 u" and "is_i16 v"
  shows "mlk_ct_memcmp a b = (if a = b then 0 else 0xFF)
    \<and> mlk_ct_cmov_zero r x (mlk_ct_memcmp a b) = (if a = b then x else r)
    \<and> mlk_ct_sel_int16 u v cond = (if cond = 0 then v else u)
    \<and> mlk_ct_sel_int16 u v (mlk_ct_cmask_neg_i16 v) = (if v < 0 then u else v)"
  using assms by (simp add: ct_memcmp ct_cmov_zero ct_sel_int16 cmask_neg)

theorem ct_primitives_spec_witness:
  "mlk_ct_cmov_zero [1, 2] [3, 4] (mlk_ct_memcmp [9, 8] [9, 8]) = [3, 4]
    \<and> mlk_ct_cmov_zero [1, 2] [3, 4] (mlk_ct_memcmp [9, 8] [9, 7]) = [1, 2]"
  using ct_primitives_spec [of "[9, 8]" "[9, 8]" "[1, 2]" "[3, 4]" 0 0 0] ct_primitives_spec [of "[9, 8]" "[9, 7]" "[1, 2]" "[3, 4]" 0 0 0]
  unfolding is_i16_def by auto

end
