(* ===== verification/Mlk_Keccak.thy ===== *)
theory Mlk_Keccak
  imports Mlk_Verify
begin

text \<open>
  \<open>mlkem_native/src/fips202/keccakf1600.c\<close>: the Keccak-f[1600] permutation, unrolled to two
  rounds per iteration, and the access to the state as bytes. The state is the list of its 25
  lanes. The two halves of the unrolled loop body are translated statement by statement; the
  correctness proof compares them with the five step mappings of FIPS 202. Byte access follows the
  portable variant of the source, which the little-endian one implements by aliasing. The four-way
  state of the batched functions is the list of its four 25-lane slices.
\<close>

section \<open>The program\<close>

definition MLK_KECCAK_NROUNDS :: nat where "MLK_KECCAK_NROUNDS = 24"

definition MLK_KECCAK_ROL :: "u64 \<Rightarrow> nat \<Rightarrow> u64" where
  "MLK_KECCAK_ROL a offset = push_bit offset a XOR drop_bit (64 - offset) a"

definition mlk_keccakf1600_extract_bytes :: "u64 list \<Rightarrow> nat \<Rightarrow> nat \<Rightarrow> bytes" where
  "mlk_keccakf1600_extract_bytes state offset len =
     map (\<lambda>i. ucast (drop_bit (8 * ((offset + i) mod 8)) (state ! ((offset + i) div 8)) AND 0xFF)) [0..<len]"

definition mlk_keccakf1600_xor_byte :: "bytes \<Rightarrow> nat \<Rightarrow> u64 list \<Rightarrow> nat \<Rightarrow> u64 list" where
  "mlk_keccakf1600_xor_byte data offset state i =
     state[(offset + i) div 8 := state ! ((offset + i) div 8) XOR push_bit (8 * ((offset + i) mod 8)) (ucast (data ! i))]"

definition mlk_keccakf1600_xor_bytes :: "u64 list \<Rightarrow> bytes \<Rightarrow> nat \<Rightarrow> nat \<Rightarrow> u64 list" where
  "mlk_keccakf1600_xor_bytes state data offset len = foldl (mlk_keccakf1600_xor_byte data offset) state [0..<len]"

definition mlk_KeccakF_RoundConstants :: "u64 list" where
  "mlk_KeccakF_RoundConstants =
    [0x0000000000000001, 0x0000000000008082, 0x800000000000808a, 0x8000000080008000,
     0x000000000000808b, 0x0000000080000001, 0x8000000080008081, 0x8000000000008009,
     0x000000000000008a, 0x0000000000000088, 0x0000000080008009, 0x000000008000000a,
     0x000000008000808b, 0x800000000000008b, 0x8000000000008089, 0x8000000000008003,
     0x8000000000008002, 0x8000000000000080, 0x000000000000800a, 0x800000008000000a,
     0x8000000080008081, 0x8000000000008080, 0x0000000080000001, 0x8000000080008008]"

definition keccak_round_A_E :: "u64 \<Rightarrow> u64 list \<Rightarrow> u64 list" where
  "keccak_round_A_E rc A =
    (let Aba = A ! 0; Abe = A ! 1; Abi = A ! 2; Abo = A ! 3; Abu = A ! 4;
         Aga = A ! 5; Age = A ! 6; Agi = A ! 7; Ago = A ! 8; Agu = A ! 9;
         Aka = A ! 10; Ake = A ! 11; Aki = A ! 12; Ako = A ! 13; Aku = A ! 14;
         Ama = A ! 15; Ame = A ! 16; Ami = A ! 17; Amo = A ! 18; Amu = A ! 19;
         Asa = A ! 20; Ase = A ! 21; Asi = A ! 22; Aso = A ! 23; Asu = A ! 24;
         BCa = Aba XOR Aga XOR Aka XOR Ama XOR Asa; BCe = Abe XOR Age XOR Ake XOR Ame XOR Ase;
         BCi = Abi XOR Agi XOR Aki XOR Ami XOR Asi; BCo = Abo XOR Ago XOR Ako XOR Amo XOR Aso;
         BCu = Abu XOR Agu XOR Aku XOR Amu XOR Asu; Da = BCu XOR MLK_KECCAK_ROL BCe 1;
         De = BCa XOR MLK_KECCAK_ROL BCi 1; Di = BCe XOR MLK_KECCAK_ROL BCo 1;
         Do = BCi XOR MLK_KECCAK_ROL BCu 1; Du = BCo XOR MLK_KECCAK_ROL BCa 1;
         Aba = Aba XOR Da; BCa = Aba;
         Age = Age XOR De; BCe = MLK_KECCAK_ROL Age 44;
         Aki = Aki XOR Di; BCi = MLK_KECCAK_ROL Aki 43;
         Amo = Amo XOR Do; BCo = MLK_KECCAK_ROL Amo 21;
         Asu = Asu XOR Du; BCu = MLK_KECCAK_ROL Asu 14;
         Eba = BCa XOR ((NOT BCe) AND BCi); Eba = Eba XOR rc;
         Ebe = BCe XOR ((NOT BCi) AND BCo); Ebi = BCi XOR ((NOT BCo) AND BCu);
         Ebo = BCo XOR ((NOT BCu) AND BCa); Ebu = BCu XOR ((NOT BCa) AND BCe);
         Abo = Abo XOR Do; BCa = MLK_KECCAK_ROL Abo 28;
         Agu = Agu XOR Du; BCe = MLK_KECCAK_ROL Agu 20;
         Aka = Aka XOR Da; BCi = MLK_KECCAK_ROL Aka 3;
         Ame = Ame XOR De; BCo = MLK_KECCAK_ROL Ame 45;
         Asi = Asi XOR Di; BCu = MLK_KECCAK_ROL Asi 61;
         Ega = BCa XOR ((NOT BCe) AND BCi); Ege = BCe XOR ((NOT BCi) AND BCo);
         Egi = BCi XOR ((NOT BCo) AND BCu); Ego = BCo XOR ((NOT BCu) AND BCa);
         Egu = BCu XOR ((NOT BCa) AND BCe); Abe = Abe XOR De;
         BCa = MLK_KECCAK_ROL Abe 1; Agi = Agi XOR Di;
         BCe = MLK_KECCAK_ROL Agi 6; Ako = Ako XOR Do;
         BCi = MLK_KECCAK_ROL Ako 25; Amu = Amu XOR Du;
         BCo = MLK_KECCAK_ROL Amu 8; Asa = Asa XOR Da;
         BCu = MLK_KECCAK_ROL Asa 18; Eka = BCa XOR ((NOT BCe) AND BCi);
         Eke = BCe XOR ((NOT BCi) AND BCo); Eki = BCi XOR ((NOT BCo) AND BCu);
         Eko = BCo XOR ((NOT BCu) AND BCa); Eku = BCu XOR ((NOT BCa) AND BCe);
         Abu = Abu XOR Du; BCa = MLK_KECCAK_ROL Abu 27;
         Aga = Aga XOR Da; BCe = MLK_KECCAK_ROL Aga 36;
         Ake = Ake XOR De; BCi = MLK_KECCAK_ROL Ake 10;
         Ami = Ami XOR Di; BCo = MLK_KECCAK_ROL Ami 15;
         Aso = Aso XOR Do; BCu = MLK_KECCAK_ROL Aso 56;
         Ema = BCa XOR ((NOT BCe) AND BCi); Eme = BCe XOR ((NOT BCi) AND BCo);
         Emi = BCi XOR ((NOT BCo) AND BCu); Emo = BCo XOR ((NOT BCu) AND BCa);
         Emu = BCu XOR ((NOT BCa) AND BCe); Abi = Abi XOR Di;
         BCa = MLK_KECCAK_ROL Abi 62; Ago = Ago XOR Do;
         BCe = MLK_KECCAK_ROL Ago 55; Aku = Aku XOR Du;
         BCi = MLK_KECCAK_ROL Aku 39; Ama = Ama XOR Da;
         BCo = MLK_KECCAK_ROL Ama 41; Ase = Ase XOR De;
         BCu = MLK_KECCAK_ROL Ase 2; Esa = BCa XOR ((NOT BCe) AND BCi);
         Ese = BCe XOR ((NOT BCi) AND BCo); Esi = BCi XOR ((NOT BCo) AND BCu);
         Eso = BCo XOR ((NOT BCu) AND BCa); Esu = BCu XOR ((NOT BCa) AND BCe)
     in [Eba, Ebe, Ebi, Ebo, Ebu,
         Ega, Ege, Egi, Ego, Egu,
         Eka, Eke, Eki, Eko, Eku,
         Ema, Eme, Emi, Emo, Emu,
         Esa, Ese, Esi, Eso, Esu])"

definition keccak_round_E_A :: "u64 \<Rightarrow> u64 list \<Rightarrow> u64 list" where
  "keccak_round_E_A rc E =
    (let Eba = E ! 0; Ebe = E ! 1; Ebi = E ! 2; Ebo = E ! 3; Ebu = E ! 4;
         Ega = E ! 5; Ege = E ! 6; Egi = E ! 7; Ego = E ! 8; Egu = E ! 9;
         Eka = E ! 10; Eke = E ! 11; Eki = E ! 12; Eko = E ! 13; Eku = E ! 14;
         Ema = E ! 15; Eme = E ! 16; Emi = E ! 17; Emo = E ! 18; Emu = E ! 19;
         Esa = E ! 20; Ese = E ! 21; Esi = E ! 22; Eso = E ! 23; Esu = E ! 24;
         BCa = Eba XOR Ega XOR Eka XOR Ema XOR Esa; BCe = Ebe XOR Ege XOR Eke XOR Eme XOR Ese;
         BCi = Ebi XOR Egi XOR Eki XOR Emi XOR Esi; BCo = Ebo XOR Ego XOR Eko XOR Emo XOR Eso;
         BCu = Ebu XOR Egu XOR Eku XOR Emu XOR Esu; Da = BCu XOR MLK_KECCAK_ROL BCe 1;
         De = BCa XOR MLK_KECCAK_ROL BCi 1; Di = BCe XOR MLK_KECCAK_ROL BCo 1;
         Do = BCi XOR MLK_KECCAK_ROL BCu 1; Du = BCo XOR MLK_KECCAK_ROL BCa 1;
         Eba = Eba XOR Da; BCa = Eba;
         Ege = Ege XOR De; BCe = MLK_KECCAK_ROL Ege 44;
         Eki = Eki XOR Di; BCi = MLK_KECCAK_ROL Eki 43;
         Emo = Emo XOR Do; BCo = MLK_KECCAK_ROL Emo 21;
         Esu = Esu XOR Du; BCu = MLK_KECCAK_ROL Esu 14;
         Aba = BCa XOR ((NOT BCe) AND BCi); Aba = Aba XOR rc;
         Abe = BCe XOR ((NOT BCi) AND BCo); Abi = BCi XOR ((NOT BCo) AND BCu);
         Abo = BCo XOR ((NOT BCu) AND BCa); Abu = BCu XOR ((NOT BCa) AND BCe);
         Ebo = Ebo XOR Do; BCa = MLK_KECCAK_ROL Ebo 28;
         Egu = Egu XOR Du; BCe = MLK_KECCAK_ROL Egu 20;
         Eka = Eka XOR Da; BCi = MLK_KECCAK_ROL Eka 3;
         Eme = Eme XOR De; BCo = MLK_KECCAK_ROL Eme 45;
         Esi = Esi XOR Di; BCu = MLK_KECCAK_ROL Esi 61;
         Aga = BCa XOR ((NOT BCe) AND BCi); Age = BCe XOR ((NOT BCi) AND BCo);
         Agi = BCi XOR ((NOT BCo) AND BCu); Ago = BCo XOR ((NOT BCu) AND BCa);
         Agu = BCu XOR ((NOT BCa) AND BCe); Ebe = Ebe XOR De;
         BCa = MLK_KECCAK_ROL Ebe 1; Egi = Egi XOR Di;
         BCe = MLK_KECCAK_ROL Egi 6; Eko = Eko XOR Do;
         BCi = MLK_KECCAK_ROL Eko 25; Emu = Emu XOR Du;
         BCo = MLK_KECCAK_ROL Emu 8; Esa = Esa XOR Da;
         BCu = MLK_KECCAK_ROL Esa 18; Aka = BCa XOR ((NOT BCe) AND BCi);
         Ake = BCe XOR ((NOT BCi) AND BCo); Aki = BCi XOR ((NOT BCo) AND BCu);
         Ako = BCo XOR ((NOT BCu) AND BCa); Aku = BCu XOR ((NOT BCa) AND BCe);
         Ebu = Ebu XOR Du; BCa = MLK_KECCAK_ROL Ebu 27;
         Ega = Ega XOR Da; BCe = MLK_KECCAK_ROL Ega 36;
         Eke = Eke XOR De; BCi = MLK_KECCAK_ROL Eke 10;
         Emi = Emi XOR Di; BCo = MLK_KECCAK_ROL Emi 15;
         Eso = Eso XOR Do; BCu = MLK_KECCAK_ROL Eso 56;
         Ama = BCa XOR ((NOT BCe) AND BCi); Ame = BCe XOR ((NOT BCi) AND BCo);
         Ami = BCi XOR ((NOT BCo) AND BCu); Amo = BCo XOR ((NOT BCu) AND BCa);
         Amu = BCu XOR ((NOT BCa) AND BCe); Ebi = Ebi XOR Di;
         BCa = MLK_KECCAK_ROL Ebi 62; Ego = Ego XOR Do;
         BCe = MLK_KECCAK_ROL Ego 55; Eku = Eku XOR Du;
         BCi = MLK_KECCAK_ROL Eku 39; Ema = Ema XOR Da;
         BCo = MLK_KECCAK_ROL Ema 41; Ese = Ese XOR De;
         BCu = MLK_KECCAK_ROL Ese 2; Asa = BCa XOR ((NOT BCe) AND BCi);
         Ase = BCe XOR ((NOT BCi) AND BCo); Asi = BCi XOR ((NOT BCo) AND BCu);
         Aso = BCo XOR ((NOT BCu) AND BCa); Asu = BCu XOR ((NOT BCa) AND BCe)
     in [Aba, Abe, Abi, Abo, Abu,
         Aga, Age, Agi, Ago, Agu,
         Aka, Ake, Aki, Ako, Aku,
         Ama, Ame, Ami, Amo, Amu,
         Asa, Ase, Asi, Aso, Asu])"

text \<open>Iteration \<open>i\<close> of the loop runs the rounds \<open>2 i\<close> and \<open>2 i + 1\<close>.\<close>

definition mlk_keccakf1600_permute :: "u64 list \<Rightarrow> u64 list" where
  "mlk_keccakf1600_permute state =
     foldl (\<lambda>A i. let E = keccak_round_A_E (mlk_KeccakF_RoundConstants ! (2 * i)) A
                  in keccak_round_E_A (mlk_KeccakF_RoundConstants ! (2 * i + 1)) E)
       state [0..<MLK_KECCAK_NROUNDS div 2]"

definition mlk_keccakf1600x4_extract_bytes :: "u64 list list \<Rightarrow> nat \<Rightarrow> nat \<Rightarrow> bytes list" where
  "mlk_keccakf1600x4_extract_bytes state offset len =
     map (\<lambda>k. mlk_keccakf1600_extract_bytes (state ! k) offset len) [0..<4]"

definition mlk_keccakf1600x4_xor_bytes :: "u64 list list \<Rightarrow> bytes list \<Rightarrow> nat \<Rightarrow> nat \<Rightarrow> u64 list list" where
  "mlk_keccakf1600x4_xor_bytes state data offset len =
     map (\<lambda>k. mlk_keccakf1600_xor_bytes (state ! k) (data ! k) offset len) [0..<4]"

definition mlk_keccakf1600x4_permute :: "u64 list list \<Rightarrow> u64 list list" where
  "mlk_keccakf1600x4_permute state = map (\<lambda>k. mlk_keccakf1600_permute (state ! k)) [0..<4]"

section \<open>The permutation of FIPS 202\<close>

text \<open>Lane \<open>(x, y)\<close> of the state array is element \<open>x + 5 y\<close> of the list.\<close>

definition lane :: "u64 list \<Rightarrow> nat \<Rightarrow> nat \<Rightarrow> u64" where
  "lane s x y = s ! (x mod 5 + 5 * (y mod 5))"

definition of_lanes :: "(nat \<Rightarrow> nat \<Rightarrow> u64) \<Rightarrow> u64 list" where
  "of_lanes f = map (\<lambda>i. f (i mod 5) (i div 5)) [0..<25]"

definition theta :: "u64 list \<Rightarrow> u64 list" where
  "theta s =
     (let C = (\<lambda>x. lane s x 0 XOR lane s x 1 XOR lane s x 2 XOR lane s x 3 XOR lane s x 4)
      in of_lanes (\<lambda>x y. lane s x y XOR (C ((x + 4) mod 5) XOR word_rotl 1 (C ((x + 1) mod 5)))))"

text \<open>The offset of lane \<open>(x, y)\<close>: \<open>(t + 1) (t + 2) / 2\<close> at step \<open>t\<close> of the walk from \<open>(1, 0)\<close>.\<close>

definition rho_walk :: "nat \<Rightarrow> nat \<times> nat" where
  "rho_walk t = ((\<lambda>(x, y). (y, (2 * x + 3 * y) mod 5)) ^^ t) (1, 0)"

definition rho_offset :: "nat \<Rightarrow> nat \<Rightarrow> nat" where
  "rho_offset x y =
     (case List.find (\<lambda>t. rho_walk t = (x, y)) [0..<24] of
        None \<Rightarrow> 0 | Some t \<Rightarrow> ((t + 1) * (t + 2) div 2) mod 64)"

definition rho :: "u64 list \<Rightarrow> u64 list" where
  "rho s = of_lanes (\<lambda>x y. word_rotl (rho_offset x y) (lane s x y))"

definition pi_step :: "u64 list \<Rightarrow> u64 list" where
  "pi_step s = of_lanes (\<lambda>x y. lane s (x + 3 * y) x)"

definition chi :: "u64 list \<Rightarrow> u64 list" where
  "chi s = of_lanes (\<lambda>x y. lane s x y XOR (NOT (lane s (x + 1) y) AND lane s (x + 2) y))"

text \<open>The round constants from the linear feedback shift register of FIPS 202, algorithm 5.\<close>

fun lfsr_step :: "bool list \<Rightarrow> bool list" where
  "lfsr_step [a, b, c, d, e, f, g, h] = [h, a, b, c, d \<noteq> h, e \<noteq> h, f \<noteq> h, g]"
| "lfsr_step R = R"

definition lfsr_init :: "bool list" where
  "lfsr_init = [True, False, False, False, False, False, False, False]"

definition rc_bit :: "nat \<Rightarrow> bool" where
  "rc_bit t = hd ((lfsr_step ^^ (t mod 255)) lfsr_init)"

definition round_constant :: "nat \<Rightarrow> u64" where
  "round_constant ir = foldl (\<lambda>w j. if rc_bit (j + 7 * ir) then w OR push_bit (2 ^ j - 1) 1 else w) 0 [0..<7]"

definition iota_step :: "nat \<Rightarrow> u64 list \<Rightarrow> u64 list" where
  "iota_step ir s = s[0 := s ! 0 XOR round_constant ir]"

definition keccak_rnd :: "u64 list \<Rightarrow> nat \<Rightarrow> u64 list" where
  "keccak_rnd s ir = iota_step ir (chi (pi_step (rho (theta s))))"

definition keccak_f :: "u64 list \<Rightarrow> u64 list" where
  "keccak_f s = foldl keccak_rnd s [0..<24]"

section \<open>Correctness of the unrolled rounds\<close>

lemma rol_rotl: "0 < n \<Longrightarrow> n < 64 \<Longrightarrow> MLK_KECCAK_ROL a n = word_rotl n a"
proof (rule bit_word_eqI)
  fix m assume a: "0 < n" "n < 64" "m < LENGTH(64)"
  have hi: "bit a k \<Longrightarrow> k < 64" for k using bit_imp_le_length [of a k] by simp
  show "bit (MLK_KECCAK_ROL a n) m = bit (word_rotl n a) m"
  proof (cases "n \<le> m")
    case True
    then have "m + (64 - n) = (m - n) + 64" using a by simp
    then have "(m + (64 - n)) mod 64 = m - n" using a by (simp only: mod_add_self2) simp
    then show ?thesis using a True hi [of "64 - n + m"] by (auto simp: MLK_KECCAK_ROL_def bit_simps)
  next
    case False
    then have "m + (64 - n) = 64 - n + m" "64 - n + m < 64" using a by auto
    then show ?thesis using a False by (simp add: MLK_KECCAK_ROL_def bit_simps)
  qed
qed

lemma lane_of_lanes: "lane (of_lanes f) x y = f (x mod 5) (y mod 5)"
proof -
  have "x mod 5 < 5" "y mod 5 < 5" by simp_all
  then have "x mod 5 + 5 * (y mod 5) < 25" by linarith
  then show ?thesis by (simp add: lane_def of_lanes_def)
qed

lemma of_lanes_list:
  "of_lanes f = [f 0 0, f 1 0, f 2 0, f 3 0, f 4 0, f 0 1, f 1 1, f 2 1, f 3 1, f 4 1, f 0 2, f 1 2, f 2 2, f 3 2, f 4 2,
     f 0 3, f 1 3, f 2 3, f 3 3, f 4 3, f 0 4, f 1 4, f 2 4, f 3 4, f 4 4]"
proof -
  have "[0..<25] = [0, 1, 2, 3, 4, 5, 6, 7, 8, 9, 10, 11, 12, 13, 14, 15, 16, 17, 18, 19, 20, 21, 22, 23, 24 :: nat]"
    by (simp add: upt_rec)
  then show ?thesis by (simp only: of_lanes_def list.map) simp
qed

lemma rho_offsets:
  "map (\<lambda>i. rho_offset (i mod 5) (i div 5)) [0..<25] =
     [0, 1, 62, 28, 27, 36, 44, 6, 55, 20, 3, 10, 43, 25, 39, 41, 45, 15, 21, 8, 18, 2, 61, 56, 14]"
  by code_simp

text \<open>The round constants by stepping the register seven times per round.\<close>

definition rc_word :: "bool list \<Rightarrow> u64" where
  "rc_word R = foldl (\<lambda>w j. if hd ((lfsr_step ^^ j) R) then w OR push_bit (2 ^ j - 1) 1 else w) 0 [0..<7]"

primrec rc_words :: "nat \<Rightarrow> bool list \<Rightarrow> u64 list" where
  "rc_words 0 R = []"
| "rc_words (Suc n) R = rc_word R # rc_words n ((lfsr_step ^^ 7) R)"

lemma rc_words: "rc_words n R = map (\<lambda>ir. rc_word ((lfsr_step ^^ (7 * ir)) R)) [0..<n]"
proof (induction n arbitrary: R)
  case (Suc n)
  have "(lfsr_step ^^ (7 * ir)) ((lfsr_step ^^ 7) R) = (lfsr_step ^^ (7 * Suc ir)) R" for ir
    by (simp only: mult_Suc_right add.commute [of 7] funpow_add comp_apply)
  then show ?case
    using Suc by (simp only: rc_words.simps upt_conv_Cons [of 0 "Suc n"] map_Suc_upt [symmetric] list.map) (simp add: comp_def)
qed simp

lemma round_constant_word:
  assumes "ir < 24"
  shows "round_constant ir = rc_word ((lfsr_step ^^ (7 * ir)) lfsr_init)"
  unfolding round_constant_def rc_word_def
proof (rule foldl_cong)
  fix w j assume "j \<in> set [0..<7 :: nat]"
  then have "(j + 7 * ir) mod 255 = j + 7 * ir" using assms by simp
  then show "(if rc_bit (j + 7 * ir) then w OR push_bit (2 ^ j - 1) 1 else w)
      = (if hd ((lfsr_step ^^ j) ((lfsr_step ^^ (7 * ir)) lfsr_init)) then w OR push_bit (2 ^ j - 1) 1 else w)" for w :: u64
    by (simp add: rc_bit_def funpow_add)
qed simp_all

lemma round_constants:
  assumes "ir < 24"
  shows "mlk_KeccakF_RoundConstants ! ir = round_constant ir"
proof -
  have "mlk_KeccakF_RoundConstants = rc_words 24 lfsr_init" by code_simp
  then have "mlk_KeccakF_RoundConstants ! ir = map (\<lambda>ir. rc_word ((lfsr_step ^^ (7 * ir)) lfsr_init)) [0..<24] ! ir"
    by (simp only: rc_words)
  also have "\<dots> = rc_word ((lfsr_step ^^ (7 * ir)) lfsr_init)" using assms by (subst nth_map) (auto simp del: upt_rec_numeral)
  finally show ?thesis using round_constant_word [OF assms] by simp
qed

lemma rho_offset_table:
  "rho_offset 0 0 = 0" "rho_offset 1 0 = 1" "rho_offset 2 0 = 62" "rho_offset 3 0 = 28" "rho_offset 4 0 = 27"
  "rho_offset 0 1 = 36" "rho_offset 1 1 = 44" "rho_offset 2 1 = 6" "rho_offset 3 1 = 55" "rho_offset 4 1 = 20"
  "rho_offset 0 2 = 3" "rho_offset 1 2 = 10" "rho_offset 2 2 = 43" "rho_offset 3 2 = 25" "rho_offset 4 2 = 39"
  "rho_offset 0 3 = 41" "rho_offset 1 3 = 45" "rho_offset 2 3 = 15" "rho_offset 3 3 = 21" "rho_offset 4 3 = 8"
  "rho_offset 0 4 = 18" "rho_offset 1 4 = 2" "rho_offset 2 4 = 61" "rho_offset 3 4 = 56" "rho_offset 4 4 = 14"
  by code_simp+

lemma rounds_as_steps:
  "chi (pi_step (rho (theta s))) = of_lanes (\<lambda>x y.
     (let C = (\<lambda>x. lane s x 0 XOR lane s x 1 XOR lane s x 2 XOR lane s x 3 XOR lane s x 4);
          T = (\<lambda>x y. lane s x y XOR (C ((x + 4) mod 5) XOR word_rotl 1 (C ((x + 1) mod 5))));
          B = (\<lambda>x y. word_rotl (rho_offset ((x + 3 * y) mod 5) (x mod 5)) (T ((x + 3 * y) mod 5) (x mod 5)))
      in B (x mod 5) (y mod 5) XOR (NOT (B ((x + 1) mod 5) (y mod 5)) AND B ((x + 2) mod 5) (y mod 5))))"
  by (simp add: chi_def pi_step_def rho_def theta_def lane_of_lanes Let_def)

lemma word_rotl_zero: "word_rotl 0 w = w" for w :: u64
  by (rule bit_word_eqI) (simp add: bit_simps)

lemmas lanes_eval = lane_def rho_offset_table [unfolded One_nat_def] rol_rotl word_rotl_zero numeral_2_eq_2 [symmetric]

lemma keccak_round_A_E: "keccak_round_A_E rc A = (chi (pi_step (rho (theta A))))[0 := chi (pi_step (rho (theta A))) ! 0 XOR rc]"
  unfolding rounds_as_steps of_lanes_list keccak_round_A_E_def Let_def by (simp add: lanes_eval)

lemma keccak_round_E_A: "keccak_round_E_A rc E = (chi (pi_step (rho (theta E))))[0 := chi (pi_step (rho (theta E))) ! 0 XOR rc]"
  unfolding rounds_as_steps of_lanes_list keccak_round_E_A_def Let_def by (simp add: lanes_eval)

lemma keccak_round:
  assumes "ir < 24"
  shows "keccak_round_A_E (mlk_KeccakF_RoundConstants ! ir) s = keccak_rnd s ir"
    and "keccak_round_E_A (mlk_KeccakF_RoundConstants ! ir) s = keccak_rnd s ir"
  by (simp_all only: keccak_round_A_E keccak_round_E_A round_constants [OF assms] keccak_rnd_def iota_step_def)

text \<open>
  The unrolled permutation is Keccak-f[1600]: on every state it equals 24 rounds of the step
  mappings theta, rho, pi, chi and iota of FIPS 202, with the rotation offsets of the lane walk and
  the round constants of the shift register.
\<close>

lemma permute_keccak_f: "mlk_keccakf1600_permute s = keccak_f s"
proof -
  have pairs: "foldl (\<lambda>A i. keccak_rnd (keccak_rnd A (2 * i)) (2 * i + 1)) s [0..<n] = foldl keccak_rnd s [0..<2 * n]" for n
    by (induction n) simp_all
  have "mlk_keccakf1600_permute s = foldl (\<lambda>A i. keccak_rnd (keccak_rnd A (2 * i)) (2 * i + 1)) s [0..<12]"
    unfolding mlk_keccakf1600_permute_def Let_def MLK_KECCAK_NROUNDS_def
    by (rule foldl_cong) (auto simp: keccak_round simp del: upt_rec_numeral)
  then show ?thesis using pairs [of 12] by (simp only: keccak_f_def) simp
qed

section \<open>The state as bytes\<close>

lemma length_xor_bytes [simp]: "length (mlk_keccakf1600_xor_bytes s d off n) = length s"
  unfolding mlk_keccakf1600_xor_bytes_def by (induction n) (auto simp: mlk_keccakf1600_xor_byte_def)

lemma length_extract_bytes [simp]: "length (mlk_keccakf1600_extract_bytes s off n) = n"
  by (simp add: mlk_keccakf1600_extract_bytes_def)

lemma length_keccak_f [simp]: "length (mlk_keccakf1600_permute s) = 25"
proof -
  have "length (foldl keccak_rnd s [0..<Suc n]) = 25" for n
    by (simp add: keccak_rnd_def iota_step_def chi_def of_lanes_def)
  from this [of 23] show ?thesis by (simp add: permute_keccak_f keccak_f_def)
qed

text \<open>Absorbing a concatenation is absorbing its parts at consecutive offsets; zero bytes change nothing.\<close>

lemma xor_bytes_append:
  "mlk_keccakf1600_xor_bytes s (a @ b) off (length a + n) =
     mlk_keccakf1600_xor_bytes (mlk_keccakf1600_xor_bytes s a off (length a)) b (off + length a) n"
proof (induction n)
  case 0
  have "foldl (mlk_keccakf1600_xor_byte (a @ b) off) s [0..<length a] = foldl (mlk_keccakf1600_xor_byte a off) s [0..<length a]"
    by (rule foldl_cong) (auto simp: mlk_keccakf1600_xor_byte_def nth_append)
  then show ?case by (simp add: mlk_keccakf1600_xor_bytes_def)
next
  case (Suc n)
  then show ?case by (simp add: mlk_keccakf1600_xor_bytes_def mlk_keccakf1600_xor_byte_def nth_append add.assoc)
qed

lemma xor_bytes_zero: "n \<le> k \<Longrightarrow> mlk_keccakf1600_xor_bytes s (replicate k 0) off n = s"
  unfolding mlk_keccakf1600_xor_bytes_def by (induction n) (auto simp: mlk_keccakf1600_xor_byte_def)

end
