(* ===== verification/Mlk_Fips202.thy ===== *)
theory Mlk_Fips202
  imports Mlk_Keccak Mlk_Verify
begin

text \<open>
  \<open>mlkem_native/src/fips202/fips202.c\<close>, \<open>fips202x4.c\<close> and \<open>symmetric.h\<close>: the Keccak sponge, the
  SHA-3 and SHAKE functions built on it, their four-way batched versions, and the hash functions
  of ML-KEM. Output buffers are return values. The wiping of contexts with \<open>mlk_zeroize\<close> concerns
  memory that is dead in the model. The correctness part states the sponge construction of FIPS 202
  with its padding and shows that the one-shot functions, and the batched ones, compute it.
\<close>

section \<open>The program\<close>

definition SHAKE128_RATE :: nat where "SHAKE128_RATE = 168"
definition SHAKE256_RATE :: nat where "SHAKE256_RATE = 136"
definition SHA3_256_RATE :: nat where "SHA3_256_RATE = 136"
definition SHA3_512_RATE :: nat where "SHA3_512_RATE = 72"

lemmas keccak_rates = SHAKE128_RATE_def SHAKE256_RATE_def SHA3_256_RATE_def SHA3_512_RATE_def

text \<open>The absorbing loop; the rate is a positive constant at every call.\<close>

function keccak_absorb_loop :: "nat \<Rightarrow> u64 list \<Rightarrow> bytes \<Rightarrow> u64 list \<times> bytes" where
  "keccak_absorb_loop r s m =
     (if 0 < r \<and> length m \<ge> r
      then let s = mlk_keccakf1600_xor_bytes s m 0 r;
               s = mlk_keccakf1600_permute s
           in keccak_absorb_loop r s (drop r m)
      else (s, m))"
  by pat_completeness auto
termination by (relation "measure (\<lambda>(r, s, m). length m)") auto

declare keccak_absorb_loop.simps [simp del]

definition mlk_keccak_absorb_once :: "nat \<Rightarrow> bytes \<Rightarrow> byte \<Rightarrow> u64 list" where
  "mlk_keccak_absorb_once r m p =
     (let s = replicate 25 0;
          (s, m) = keccak_absorb_loop r s m;
          mlen = length m;
          s = (if mlen > 0 then mlk_keccakf1600_xor_bytes s m 0 mlen else s)
      in if mlen = r - 1
         then mlk_keccakf1600_xor_bytes s [p OR 128] mlen 1
         else let s = mlk_keccakf1600_xor_bytes s [p] mlen 1
              in mlk_keccakf1600_xor_bytes s [128] (r - 1) 1)"

primrec mlk_keccak_squeezeblocks :: "nat \<Rightarrow> u64 list \<Rightarrow> nat \<Rightarrow> bytes \<times> u64 list" where
  "mlk_keccak_squeezeblocks 0 s r = ([], s)"
| "mlk_keccak_squeezeblocks (Suc nblocks) s r =
     (let s = mlk_keccakf1600_permute s;
          h = mlk_keccakf1600_extract_bytes s 0 r;
          (hs, s) = mlk_keccak_squeezeblocks nblocks s r
      in (h @ hs, s))"

function mlk_keccak_squeeze_once :: "nat \<Rightarrow> u64 list \<Rightarrow> nat \<Rightarrow> bytes" where
  "mlk_keccak_squeeze_once outlen s r =
     (if 0 < r \<and> outlen > 0
      then let s = mlk_keccakf1600_permute s;
               len = (if outlen < r then outlen else r);
               h = mlk_keccakf1600_extract_bytes s 0 len
           in h @ mlk_keccak_squeeze_once (outlen - len) s r
      else [])"
  by pat_completeness auto
termination by (relation "measure (\<lambda>(outlen, s, r). outlen)") auto

declare mlk_keccak_squeeze_once.simps [simp del]

definition mlk_shake128_absorb_once :: "bytes \<Rightarrow> u64 list" where
  "mlk_shake128_absorb_once input = mlk_keccak_absorb_once SHAKE128_RATE input 0x1F"

definition mlk_shake128_squeezeblocks :: "nat \<Rightarrow> u64 list \<Rightarrow> bytes \<times> u64 list" where
  "mlk_shake128_squeezeblocks nblocks state = mlk_keccak_squeezeblocks nblocks state SHAKE128_RATE"

definition mlk_shake256 :: "nat \<Rightarrow> bytes \<Rightarrow> bytes" where
  "mlk_shake256 outlen input =
     (let state = mlk_keccak_absorb_once SHAKE256_RATE input 0x1F in mlk_keccak_squeeze_once outlen state SHAKE256_RATE)"

definition mlk_sha3_256 :: "bytes \<Rightarrow> bytes" where
  "mlk_sha3_256 input =
     (let ctx = mlk_keccak_absorb_once SHA3_256_RATE input 0x06 in mlk_keccak_squeeze_once 32 ctx SHA3_256_RATE)"

definition mlk_sha3_512 :: "bytes \<Rightarrow> bytes" where
  "mlk_sha3_512 input =
     (let ctx = mlk_keccak_absorb_once SHA3_512_RATE input 0x06 in mlk_keccak_squeeze_once 64 ctx SHA3_512_RATE)"

text \<open>The batched functions take four inputs of the same length.\<close>

function keccak_absorb_loop_x4 :: "nat \<Rightarrow> u64 list list \<Rightarrow> bytes list \<Rightarrow> nat \<Rightarrow> u64 list list \<times> bytes list \<times> nat" where
  "keccak_absorb_loop_x4 r s ins inlen =
     (if 0 < r \<and> inlen \<ge> r
      then let s = mlk_keccakf1600x4_xor_bytes s ins 0 r;
               s = mlk_keccakf1600x4_permute s
           in keccak_absorb_loop_x4 r s (map (drop r) ins) (inlen - r)
      else (s, ins, inlen))"
  by pat_completeness auto
termination by (relation "measure (\<lambda>(r, s, ins, inlen). inlen)") auto

declare keccak_absorb_loop_x4.simps [simp del]

definition mlk_keccak_absorb_once_x4 :: "u64 list list \<Rightarrow> nat \<Rightarrow> bytes list \<Rightarrow> nat \<Rightarrow> byte \<Rightarrow> u64 list list" where
  "mlk_keccak_absorb_once_x4 s r ins inlen p =
     (let (s, ins, inlen) = keccak_absorb_loop_x4 r s ins inlen;
          s = (if inlen > 0 then mlk_keccakf1600x4_xor_bytes s ins 0 inlen else s)
      in if inlen = r - 1
         then mlk_keccakf1600x4_xor_bytes s (replicate 4 [p OR 128]) inlen 1
         else let s = mlk_keccakf1600x4_xor_bytes s (replicate 4 [p]) inlen 1
              in mlk_keccakf1600x4_xor_bytes s (replicate 4 [128]) (r - 1) 1)"

primrec mlk_keccak_squeezeblocks_x4 :: "nat \<Rightarrow> u64 list list \<Rightarrow> nat \<Rightarrow> bytes list \<times> u64 list list" where
  "mlk_keccak_squeezeblocks_x4 0 s r = (replicate 4 [], s)"
| "mlk_keccak_squeezeblocks_x4 (Suc nblocks) s r =
     (let s = mlk_keccakf1600x4_permute s;
          out = mlk_keccakf1600x4_extract_bytes s 0 r;
          (outs, s) = mlk_keccak_squeezeblocks_x4 nblocks s r
      in (map2 (@) out outs, s))"

definition mlk_shake128x4_absorb_once :: "bytes list \<Rightarrow> nat \<Rightarrow> u64 list list" where
  "mlk_shake128x4_absorb_once ins inlen =
     mlk_keccak_absorb_once_x4 (replicate 4 (replicate 25 0)) SHAKE128_RATE ins inlen 0x1F"

definition mlk_shake128x4_squeezeblocks :: "nat \<Rightarrow> u64 list list \<Rightarrow> bytes list \<times> u64 list list" where
  "mlk_shake128x4_squeezeblocks nblocks state = mlk_keccak_squeezeblocks_x4 nblocks state SHAKE128_RATE"

definition mlk_shake256x4_absorb_once :: "bytes list \<Rightarrow> nat \<Rightarrow> u64 list list" where
  "mlk_shake256x4_absorb_once ins inlen =
     mlk_keccak_absorb_once_x4 (replicate 4 (replicate 25 0)) SHAKE256_RATE ins inlen 0x1F"

definition mlk_shake256x4_squeezeblocks :: "nat \<Rightarrow> u64 list list \<Rightarrow> bytes list \<times> u64 list list" where
  "mlk_shake256x4_squeezeblocks nblocks state = mlk_keccak_squeezeblocks_x4 nblocks state SHAKE256_RATE"

definition mlk_shake256x4 :: "nat \<Rightarrow> bytes list \<Rightarrow> nat \<Rightarrow> bytes list" where
  "mlk_shake256x4 outlen ins inlen =
     (let nblocks = outlen div SHAKE256_RATE;
          statex = mlk_shake256x4_absorb_once ins inlen;
          (out, statex) = mlk_shake256x4_squeezeblocks nblocks statex;
          outlen = outlen - nblocks * SHAKE256_RATE
      in if outlen \<noteq> 0
         then let (tmp, statex) = mlk_shake256x4_squeezeblocks 1 statex
              in map2 (\<lambda>o' t. o' @ take outlen t) out tmp
         else out)"

subsection \<open>The hash functions of ML-KEM\<close>

definition mlk_hash_h :: "bytes \<Rightarrow> bytes" where "mlk_hash_h input = mlk_sha3_256 input"
definition mlk_hash_g :: "bytes \<Rightarrow> bytes" where "mlk_hash_g input = mlk_sha3_512 input"
definition mlk_hash_j :: "bytes \<Rightarrow> bytes" where "mlk_hash_j input = mlk_shake256 MLKEM_SYMBYTES input"

definition mlk_prf_eta :: "nat \<Rightarrow> bytes \<Rightarrow> bytes" where
  "mlk_prf_eta eta input = mlk_shake256 (eta * MLKEM_N div 4) input"

definition mlk_prf_eta1 :: "bytes \<Rightarrow> bytes" where "mlk_prf_eta1 input = mlk_prf_eta MLKEM_ETA1 input"
definition mlk_prf_eta2 :: "bytes \<Rightarrow> bytes" where "mlk_prf_eta2 input = mlk_prf_eta MLKEM_ETA2 input"

definition mlk_prf_eta1_x4 :: "bytes list \<Rightarrow> bytes list" where
  "mlk_prf_eta1_x4 input = mlk_shake256x4 (MLKEM_ETA1 * MLKEM_N div 4) input (MLKEM_SYMBYTES + 1)"

definition mlk_xof_absorb :: "bytes \<Rightarrow> u64 list" where
  "mlk_xof_absorb input = mlk_shake128_absorb_once input"

definition mlk_xof_squeezeblocks :: "nat \<Rightarrow> u64 list \<Rightarrow> bytes \<times> u64 list" where
  "mlk_xof_squeezeblocks nblocks ctx = mlk_shake128_squeezeblocks nblocks ctx"

definition mlk_xof_x4_absorb :: "bytes list \<Rightarrow> nat \<Rightarrow> u64 list list" where
  "mlk_xof_x4_absorb input inbytes = mlk_shake128x4_absorb_once input inbytes"

definition mlk_xof_x4_squeezeblocks :: "nat \<Rightarrow> u64 list list \<Rightarrow> bytes list \<times> u64 list list" where
  "mlk_xof_x4_squeezeblocks nblocks ctx = mlk_shake128x4_squeezeblocks nblocks ctx"

definition MLK_XOF_RATE :: nat where "MLK_XOF_RATE = SHAKE128_RATE"

section \<open>The sponge construction\<close>

text \<open>
  FIPS 202 on bytes: append the domain byte, pad with zeros to a multiple of the rate, set the top
  bit of the last byte; absorb block after block, each followed by Keccak-f[1600]; then squeeze
  a rate's worth of bytes, permuting in between.
\<close>

definition pad :: "nat \<Rightarrow> bytes \<Rightarrow> byte \<Rightarrow> bytes" where
  "pad r m p = (let z = m @ [p] @ replicate (r - 1 - length m mod r) 0 in butlast z @ [last z OR 128])"

definition absorb_block :: "nat \<Rightarrow> u64 list \<Rightarrow> bytes \<Rightarrow> u64 list" where
  "absorb_block r s b = keccak_f (mlk_keccakf1600_xor_bytes s b 0 r)"

definition blocks :: "nat \<Rightarrow> bytes \<Rightarrow> bytes list" where
  "blocks r m = map (\<lambda>i. take r (drop (r * i) m)) [0..<length m div r]"

definition sponge_squeeze :: "nat \<Rightarrow> nat \<Rightarrow> u64 list \<Rightarrow> bytes" where
  "sponge_squeeze r n s =
     take n (concat (map (\<lambda>i. mlk_keccakf1600_extract_bytes ((keccak_f ^^ i) s) 0 r) [0..<Suc (n div r)]))"

definition sponge :: "nat \<Rightarrow> byte \<Rightarrow> nat \<Rightarrow> bytes \<Rightarrow> bytes" where
  "sponge r p n m = sponge_squeeze r n (foldl (absorb_block r) (replicate 25 0) (blocks r (pad r m p)))"

lemma keccak_f_permute: "keccak_f = mlk_keccakf1600_permute"
  by (rule ext) (simp add: permute_keccak_f)

lemmas absorb_block_eq = absorb_block_def [unfolded keccak_f_permute]
lemmas sponge_squeeze_eq = sponge_squeeze_def [unfolded keccak_f_permute]

subsection \<open>Absorbing\<close>

lemma xor_bytes_take: "mlk_keccakf1600_xor_bytes s (take n m) off n = mlk_keccakf1600_xor_bytes s m off n"
  unfolding mlk_keccakf1600_xor_bytes_def by (rule foldl_cong) (auto simp: mlk_keccakf1600_xor_byte_def)

lemma blocks_Cons:
  assumes "0 < r" "r \<le> length m"
  shows "blocks r m = take r m # blocks r (drop r m)"
proof -
  obtain k where k: "length m div r = Suc k" using assms by (metis div_eq_0_iff not_less not0_implies_Suc less_not_refl2)
  then have "(length m - r) div r = k" using assms by (metis diff_Suc_1 le_div_geq)
  then show ?thesis using k assms
    by (auto simp: blocks_def map_upt_Suc drop_drop add.commute simp del: upt_Suc)
qed

lemma blocks_one: "length m = r \<Longrightarrow> 0 < r \<Longrightarrow> blocks r m = [m]"
  by (simp add: blocks_def)

lemma length_pad: "0 < r \<Longrightarrow> length m < r \<Longrightarrow> length (pad r m p) = r"
  by (simp add: pad_def)

lemma pad_drop:
  assumes "0 < r" "r \<le> length m"
  shows "pad r m p = take r m @ pad r (drop r m) p"
proof -
  have 1: "(length m - r) mod r = length m mod r" using assms by (metis le_mod_geq)
  have "m @ [p] @ replicate (r - 1 - length m mod r) 0 = take r m @ (drop r m @ [p] @ replicate (r - 1 - length m mod r) 0)"
    by (simp only: append_assoc [symmetric] append_take_drop_id)
  then show ?thesis unfolding pad_def Let_def using assms 1
    by (simp add: butlast_append)
qed

text \<open>What \<open>mlk_keccak_absorb_once\<close> does after its loop, on a remainder shorter than the rate, is to absorb the padded block.\<close>

lemma absorb_final:
  assumes "length m < r"
  shows "(let s = (if length m > 0 then mlk_keccakf1600_xor_bytes s m 0 (length m) else s)
      in if length m = r - 1
         then mlk_keccakf1600_xor_bytes s [p OR 128] (length m) 1
         else let s = mlk_keccakf1600_xor_bytes s [p] (length m) 1
              in mlk_keccakf1600_xor_bytes s [128] (r - 1) 1) =
     mlk_keccakf1600_xor_bytes s (pad r m p) 0 r"
proof -
  let ?s = "mlk_keccakf1600_xor_bytes s m 0 (length m)"
  have s: "(if length m > 0 then ?s else s) = ?s" by (simp add: mlk_keccakf1600_xor_bytes_def)
  show ?thesis
  proof (cases "length m = r - 1")
    case True
    then have "pad r m p = m @ [p OR 128]" using assms by (simp add: pad_def)
    then show ?thesis using True assms s xor_bytes_append [of s m "[p OR 128]" 0 1] by (simp add: Let_def)
  next
    case False
    define k where "k = r - 2 - length m"
    have k: "r = length m + (1 + (k + 1))" "r - 1 = length m + (1 + k)" using assms False by (auto simp: k_def)
    have "r - 1 - length m mod r = Suc k" using assms k by simp
    then have p: "pad r m p = m @ [p] @ replicate k 0 @ [128]"
      by (simp add: pad_def replicate_append_same [symmetric] butlast_append)
    have "mlk_keccakf1600_xor_bytes s (pad r m p) 0 r =
        mlk_keccakf1600_xor_bytes (mlk_keccakf1600_xor_bytes ?s [p] (length m) 1) [128] (r - 1) 1"
      unfolding p using xor_bytes_append [of s m "[p] @ replicate k 0 @ [128]" 0 "1 + (k + 1)"]
        xor_bytes_append [of ?s "[p]" "replicate k 0 @ [128]" "length m" "k + 1"]
        xor_bytes_append [of "mlk_keccakf1600_xor_bytes ?s [p] (length m) 1" "replicate k 0" "[128]" "length m + 1" 1]
      by (simp add: k xor_bytes_zero)
    then show ?thesis using False s by (simp add: Let_def)
  qed
qed

lemma absorb_loop_length: "0 < r \<Longrightarrow> length (snd (keccak_absorb_loop r s m)) < r"
  by (induction r s m rule: keccak_absorb_loop.induct) (subst keccak_absorb_loop.simps, auto simp: Let_def)

lemma absorb_loop_spec:
  "0 < r \<Longrightarrow> keccak_absorb_loop r s m = (s', m') \<Longrightarrow>
     foldl (absorb_block r) s' (blocks r (pad r m' p)) = foldl (absorb_block r) s (blocks r (pad r m p))"
proof (induction r s m rule: keccak_absorb_loop.induct)
  case (1 r s m)
  show ?case
  proof (cases "r \<le> length m")
    case True
    let ?s = "absorb_block r s (take r m)"
    have "keccak_absorb_loop r ?s (drop r m) = (s', m')"
      using 1 (3) \<open>0 < r\<close> True by (subst (asm) keccak_absorb_loop.simps) (simp add: Let_def absorb_block_eq xor_bytes_take)
    then have "foldl (absorb_block r) s' (blocks r (pad r m' p)) = foldl (absorb_block r) ?s (blocks r (pad r (drop r m) p))"
      using 1 (1) [OF _ refl refl] \<open>0 < r\<close> True unfolding absorb_block_eq by (simp add: xor_bytes_take)
    moreover have "blocks r (pad r m p) = take r m # blocks r (pad r (drop r m) p)"
      using \<open>0 < r\<close> True by (subst blocks_Cons) (auto simp: pad_drop)
    ultimately show ?thesis by simp
  next
    case False
    then show ?thesis using 1 (3) by (subst (asm) keccak_absorb_loop.simps) simp
  qed
qed

lemma absorb_once_spec:
  assumes "0 < r"
  shows "mlk_keccakf1600_permute (mlk_keccak_absorb_once r m p) =
     foldl (absorb_block r) (replicate 25 0) (blocks r (pad r m p))"
proof -
  obtain s' m' where l: "keccak_absorb_loop r (replicate 25 0) m = (s', m')" by force
  then have m': "length m' < r" using absorb_loop_length [OF assms, of "replicate 25 0" m] by simp
  have "mlk_keccak_absorb_once r m p = mlk_keccakf1600_xor_bytes s' (pad r m' p) 0 r"
    unfolding mlk_keccak_absorb_once_def absorb_final [OF m', symmetric] using l by (simp add: Let_def)
  moreover have "foldl (absorb_block r) s' (blocks r (pad r m' p)) = absorb_block r s' (pad r m' p)"
    by (simp add: blocks_one [OF length_pad [OF assms m'] assms])
  ultimately show ?thesis using absorb_loop_spec [OF assms l, of p] by (simp add: absorb_block_eq)
qed

subsection \<open>Squeezing\<close>

lemma take_extract: "n \<le> r \<Longrightarrow> take n (mlk_keccakf1600_extract_bytes s off r) = mlk_keccakf1600_extract_bytes s off n"
  by (simp add: mlk_keccakf1600_extract_bytes_def take_map)

lemma sponge_squeeze_less: "0 < r \<Longrightarrow> n < r \<Longrightarrow> sponge_squeeze r n s = mlk_keccakf1600_extract_bytes s 0 n"
  by (simp add: sponge_squeeze_eq take_extract)

lemma sponge_squeeze_ge:
  assumes "0 < r" "r \<le> n"
  shows "sponge_squeeze r n s = mlk_keccakf1600_extract_bytes s 0 r @ sponge_squeeze r (n - r) (mlk_keccakf1600_permute s)"
proof -
  obtain k where k: "n div r = Suc k" using assms by (metis div_eq_0_iff not_less not0_implies_Suc less_not_refl2)
  then have "(n - r) div r = k" using assms by (metis diff_Suc_1 le_div_geq)
  then show ?thesis using k assms
    by (simp add: sponge_squeeze_eq map_upt_Suc funpow_swap1 del: upt_Suc)
qed

lemma squeeze_once_spec: "0 < r \<Longrightarrow> mlk_keccak_squeeze_once n s r = sponge_squeeze r n (mlk_keccakf1600_permute s)"
proof (induction n s r rule: mlk_keccak_squeeze_once.induct)
  case (1 n s r)
  consider "n = 0" | "0 < n" "n < r" | "0 < n" "r \<le> n" by linarith
  then show ?case
  proof cases
    case 3
    then show ?thesis using 1 by (subst mlk_keccak_squeeze_once.simps) (simp add: Let_def sponge_squeeze_ge)
  qed (use 1 (2) in \<open>subst mlk_keccak_squeeze_once.simps, simp add: sponge_squeeze_less Let_def mlk_keccakf1600_extract_bytes_def
    mlk_keccak_squeeze_once.simps [of 0]\<close>)+
qed

lemma length_squeeze_once: "0 < r \<Longrightarrow> length (mlk_keccak_squeeze_once n s r) = n"
proof (induction n s r rule: mlk_keccak_squeeze_once.induct)
  case (1 n s r)
  then show ?case by (subst mlk_keccak_squeeze_once.simps) (auto simp: Let_def)
qed

lemma sponge_once:
  "0 < r \<Longrightarrow> mlk_keccak_squeeze_once n (mlk_keccak_absorb_once r m p) r = sponge r p n m"
  by (simp add: squeeze_once_spec absorb_once_spec sponge_def)

lemma squeezeblocks_squeeze: "0 < r \<Longrightarrow> fst (mlk_keccak_squeezeblocks k s r) = mlk_keccak_squeeze_once (k * r) s r"
proof (induction k arbitrary: s)
  case (Suc k)
  then show ?case by (subst mlk_keccak_squeeze_once.simps) (simp add: Let_def split_beta)
qed (simp add: mlk_keccak_squeeze_once.simps)

lemma squeezeblocks_Suc:
  "mlk_keccak_squeezeblocks (Suc k) s r =
     (let (h, s) = mlk_keccak_squeezeblocks k s r; (h', s) = mlk_keccak_squeezeblocks 1 s r in (h @ h', s))"
  by (induction k arbitrary: s) (simp_all add: Let_def split_beta)

text \<open>
  C38: The one-shot hash functions are the sponge construction of FIPS 202 over Keccak-f[1600] on a message of any
  length: SHA3-256 and SHA3-512 with domain byte 06 and 32 or 64 bytes of output, SHAKE256 with domain
  byte 1F and as many bytes as are asked for, and SHAKE128 squeezed block by block.
\<close>

theorem fips202_spec:
  "mlk_sha3_256 m = sponge 136 0x06 32 m \<and> mlk_sha3_512 m = sponge 72 0x06 64 m \<and>
   mlk_shake256 n m = sponge 136 0x1F n m \<and>
   fst (mlk_shake128_squeezeblocks k (mlk_shake128_absorb_once m)) = sponge 168 0x1F (k * 168) m"
  by (simp add: mlk_sha3_256_def mlk_sha3_512_def mlk_shake256_def mlk_shake128_squeezeblocks_def mlk_shake128_absorb_once_def
      keccak_rates sponge_once squeezeblocks_squeeze)

subsection \<open>The batched functions\<close>

text \<open>A batch of four: element \<open>k\<close> of the result of a batched step is the single step on element \<open>k\<close>.\<close>

lemmas x4_defs = mlk_keccakf1600x4_xor_bytes_def mlk_keccakf1600x4_permute_def mlk_keccakf1600x4_extract_bytes_def

lemma length_x4 [simp]:
  "length (mlk_keccakf1600x4_xor_bytes s d off n) = 4" "length (mlk_keccakf1600x4_permute s) = 4"
  "length (mlk_keccakf1600x4_extract_bytes s off n) = 4"
  by (simp_all add: x4_defs)

lemma nth_x4 [simp]:
  "k < 4 \<Longrightarrow> mlk_keccakf1600x4_xor_bytes s d off n ! k = mlk_keccakf1600_xor_bytes (s ! k) (d ! k) off n"
  "k < 4 \<Longrightarrow> mlk_keccakf1600x4_permute s ! k = mlk_keccakf1600_permute (s ! k)"
  "k < 4 \<Longrightarrow> mlk_keccakf1600x4_extract_bytes s off n ! k = mlk_keccakf1600_extract_bytes (s ! k) off n"
  by (simp_all add: x4_defs del: upt_rec_numeral)

lemma absorb_loop_x4:
  assumes "k < 4"
  shows "length s = 4 \<Longrightarrow> length ins = 4 \<Longrightarrow> \<forall>d \<in> set ins. length d = n \<Longrightarrow>
     keccak_absorb_loop_x4 r s ins n = (s', ins', n') \<Longrightarrow>
     (s' ! k, ins' ! k) = keccak_absorb_loop r (s ! k) (ins ! k) \<and> length (ins' ! k) = n' \<and> length s' = 4 \<and> length ins' = 4"
proof (induction r s ins n rule: keccak_absorb_loop_x4.induct)
  case (1 r s ins n)
  have n: "length (ins ! k) = n" using 1 (3,4) assms by simp
  show ?case
  proof (cases "0 < r \<and> r \<le> n")
    case True
    let ?s = "mlk_keccakf1600x4_permute (mlk_keccakf1600x4_xor_bytes s ins 0 r)"
    have l: "keccak_absorb_loop_x4 r ?s (map (drop r) ins) (n - r) = (s', ins', n')"
      using 1 (5) True by (subst (asm) keccak_absorb_loop_x4.simps) (simp add: Let_def)
    have d: "\<forall>d \<in> set (map (drop r) ins). length d = n - r" using 1 (4) by auto
    have "keccak_absorb_loop r (s ! k) (ins ! k) = keccak_absorb_loop r (?s ! k) (map (drop r) ins ! k)"
      using True n assms 1 (2,3) by (subst keccak_absorb_loop.simps) (simp add: Let_def)
    then show ?thesis using 1 (1) [OF True refl refl _ _ d l] 1 (3) by simp
  next
    case False
    then show ?thesis using 1 n assms
      by (subst (asm) keccak_absorb_loop_x4.simps) (auto simp: keccak_absorb_loop.simps)
  qed
qed

lemma absorb_once_x4:
  assumes "k < 4" "length ins = 4" "\<forall>d \<in> set ins. length d = n"
  shows "mlk_keccak_absorb_once_x4 (replicate 4 (replicate 25 0)) r ins n p ! k = mlk_keccak_absorb_once r (ins ! k) p"
    and "length (mlk_keccak_absorb_once_x4 (replicate 4 (replicate 25 0)) r ins n p) = 4"
proof -
  obtain s' ins' n' where l: "keccak_absorb_loop_x4 r (replicate 4 (replicate 25 0)) ins n = (s', ins', n')" by (metis prod_cases3)
  note loop = absorb_loop_x4 [OF assms (1) _ assms (2,3) l, simplified]
  have loop': "keccak_absorb_loop r (replicate 25 0) (ins ! k) = (s' ! k, ins' ! k)" and n': "length (ins' ! k) = n'"
    using loop assms (1) by auto
  show "mlk_keccak_absorb_once_x4 (replicate 4 (replicate 25 0)) r ins n p ! k = mlk_keccak_absorb_once r (ins ! k) p"
    unfolding mlk_keccak_absorb_once_x4_def mlk_keccak_absorb_once_def l Let_def loop' prod.case n'
    using assms (1) by simp
  show "length (mlk_keccak_absorb_once_x4 (replicate 4 (replicate 25 0)) r ins n p) = 4"
    by (simp add: mlk_keccak_absorb_once_x4_def Let_def split_beta)
qed

lemma squeezeblocks_x4:
  assumes "k < 4"
  shows "length s = 4 \<Longrightarrow>
    fst (mlk_keccak_squeezeblocks_x4 b s r) ! k = fst (mlk_keccak_squeezeblocks b (s ! k) r) \<and>
    snd (mlk_keccak_squeezeblocks_x4 b s r) ! k = snd (mlk_keccak_squeezeblocks b (s ! k) r) \<and>
    length (fst (mlk_keccak_squeezeblocks_x4 b s r)) = 4 \<and> length (snd (mlk_keccak_squeezeblocks_x4 b s r)) = 4"
proof (induction b arbitrary: s)
  case (Suc b)
  then show ?case using assms Suc.IH [of "mlk_keccakf1600x4_permute s"] by (simp add: Let_def split_beta)
qed (use assms in simp)

lemma squeezeblocks_once:
  "0 < r \<Longrightarrow> fst (mlk_keccak_squeezeblocks b s r) @ take n (fst (mlk_keccak_squeezeblocks 1 (snd (mlk_keccak_squeezeblocks b s r)) r)) =
     mlk_keccak_squeeze_once (b * r + n) s r" if "n < r"
proof (induction b arbitrary: s)
  case 0
  then show ?case using that by (subst mlk_keccak_squeeze_once.simps)
      (auto simp: Let_def take_extract mlk_keccak_squeeze_once.simps [of 0] mlk_keccakf1600_extract_bytes_def [of _ _ 0])
next
  case (Suc b)
  then show ?case by (subst mlk_keccak_squeeze_once.simps) (simp add: Let_def split_beta)
qed

text \<open>
  The four-way batched SHAKE256 computes, on four inputs of one length, exactly the four
  outputs of the one-shot SHAKE256, whatever the output length is relative to the block size.
\<close>

theorem shake256x4_spec:
  assumes "length ins = 4" "\<forall>d \<in> set ins. length d = inlen"
  shows "mlk_shake256x4 outlen ins inlen = map (mlk_shake256 outlen) ins"
proof (rule nth_equalityI)
  let ?a = "mlk_shake256x4_absorb_once ins inlen"
  let ?b = "outlen div SHAKE256_RATE" and ?n = "outlen - outlen div SHAKE256_RATE * SHAKE256_RATE"
  have r: "0 < SHAKE256_RATE" by (simp add: keccak_rates)
  have n: "?n < SHAKE256_RATE" "outlen = ?b * SHAKE256_RATE + ?n" using r by (simp_all add: minus_div_mult_eq_mod)
  have a: "length ?a = 4" using absorb_once_x4 (2) [of 0, OF _ assms] by (simp add: mlk_shake256x4_absorb_once_def)
  note sq = squeezeblocks_x4 [of _ ?a ?b SHAKE256_RATE, OF _ a]
  note sq' = squeezeblocks_x4 [of _ "snd (mlk_keccak_squeezeblocks_x4 ?b ?a SHAKE256_RATE)" 1 SHAKE256_RATE]
  show len: "length (mlk_shake256x4 outlen ins inlen) = length (map (mlk_shake256 outlen) ins)"
    using sq [of 0] sq' [of 0] assms (1)
    by (simp add: mlk_shake256x4_def mlk_shake256x4_squeezeblocks_def Let_def split_beta del: mlk_keccak_squeezeblocks_x4.simps)
  fix k assume "k < length (mlk_shake256x4 outlen ins inlen)"
  then have k: "k < 4" using len assms (1) by simp
  have abs: "?a ! k = mlk_keccak_absorb_once SHAKE256_RATE (ins ! k) 0x1F"
    using absorb_once_x4 (1) [OF k assms] by (simp add: mlk_shake256x4_absorb_once_def)
  have once: "mlk_shake256 outlen (ins ! k) = mlk_keccak_squeeze_once (?b * SHAKE256_RATE + ?n) (?a ! k) SHAKE256_RATE"
    using n (2) abs by (simp add: mlk_shake256_def)
  have "mlk_shake256x4 outlen ins inlen ! k = mlk_shake256 outlen (ins ! k)"
    unfolding once squeezeblocks_once [OF n (1) r, symmetric]
    using sq [OF k] sq' [OF k] k
    by (simp add: mlk_shake256x4_def mlk_shake256x4_squeezeblocks_def Let_def split_beta del: mlk_keccak_squeezeblocks_x4.simps mlk_keccak_squeezeblocks.simps)
  then show "mlk_shake256x4 outlen ins inlen ! k = map (mlk_shake256 outlen) ins ! k" using k assms (1) by simp
qed

lemma shake256x4_spec_witness:
  "mlk_shake256x4 200 [[1, 2], [3, 4], [5, 6], [7, 8]] 2 =
     [mlk_shake256 200 [1, 2], mlk_shake256 200 [3, 4], mlk_shake256 200 [5, 6], mlk_shake256 200 [7, 8]]"
  using shake256x4_spec [of "[[1, 2], [3, 4], [5, 6], [7, 8]]" 2 200] by simp

end
