(* ===== verification/Mlk_Poly.thy ===== *)
theory Mlk_Poly
  imports Mlk_Verify
begin

text \<open>
  \<open>mlkem_native/src/poly.h\<close> and \<open>poly.c\<close>: Montgomery and Barrett reduction, coefficient-wise
  operations, the number-theoretic transform and its inverse. A polynomial is the list of its
  256 \<open>int16_t\<close> coefficients as integers; every narrowing conversion of the source is a
  \<open>to_i16\<close>. Loops over the coefficients are \<open>map\<close>s; loops that update the array in place at
  several positions are folds over the loop counter. The functions with suffix \<open>_c\<close> of the
  source are the only ones built (no native backend), so a function and its \<open>_c\<close> variant are one
  definition here.
\<close>

section \<open>The program\<close>

type_synonym poly = "int list"

definition MLK_NTT_BOUND :: int where "MLK_NTT_BOUND = 8 * MLKEM_Q"
definition MLK_INVNTT_BOUND :: int where "MLK_INVNTT_BOUND = 8 * MLKEM_Q"

definition mlk_montgomery_reduce :: "int \<Rightarrow> int" where
  "mlk_montgomery_reduce a =
     (let QINV = (62209 :: u32);
          a_reduced = mlk_cast_int32_to_uint16 a;
          a_inverted = (ucast ((ucast a_reduced * QINV) AND 0xFFFF) :: u16);
          t = mlk_cast_uint16_to_int16 a_inverted;
          r = to_i32 (a - t * MLKEM_Q)
      in to_i16 (drop_bit 16 r))"

definition mlk_fqmul :: "int \<Rightarrow> int \<Rightarrow> int" where
  "mlk_fqmul a b = mlk_montgomery_reduce (a * b)"

definition mlk_barrett_reduce :: "int \<Rightarrow> int" where
  "mlk_barrett_reduce a =
     (let magic = 20159;
          t = drop_bit 26 (to_i32 (magic * a + push_bit 25 1))
      in to_i16 (a - t * MLKEM_Q))"

definition mlk_poly_tomont :: "poly \<Rightarrow> poly" where
  "mlk_poly_tomont r = map (\<lambda>c. mlk_fqmul c 1353) r"

definition mlk_scalar_signed_to_unsigned_q :: "int \<Rightarrow> int" where
  "mlk_scalar_signed_to_unsigned_q c = mlk_ct_sel_int16 (to_i16 (c + MLKEM_Q)) c (mlk_ct_cmask_neg_i16 c)"

definition mlk_poly_reduce :: "poly \<Rightarrow> poly" where
  "mlk_poly_reduce r = map (\<lambda>c. mlk_scalar_signed_to_unsigned_q (mlk_barrett_reduce c)) r"

definition mlk_poly_add :: "poly \<Rightarrow> poly \<Rightarrow> poly" where
  "mlk_poly_add r b = map2 (\<lambda>x y. to_i16 (x + y)) r b"

definition mlk_poly_sub :: "poly \<Rightarrow> poly \<Rightarrow> poly" where
  "mlk_poly_sub r b = map2 (\<lambda>x y. to_i16 (x - y)) r b"

definition mlk_zetas :: "int list" where
  "mlk_zetas =
    [-1044, -758,  -359,  -1517, 1493,  1422,  287,   202,  -171,  622,   1577,
     182,   962,   -1202, -1474, 1468,  573,   -1325, 264,  383,   -829,  1458,
     -1602, -130,  -681,  1017,  732,   608,   -1542, 411,  -205,  -1571, 1223,
     652,   -552,  1015,  -1293, 1491,  -282,  -1544, 516,  -8,    -320,  -666,
     -1618, -1162, 126,   1469,  -853,  -90,   -271,  830,  107,   -1421, -247,
     -951,  -398,  961,   -1508, -725,  448,   -1065, 677,  -1275, -1103, 430,
     555,   843,   -1251, 871,   1550,  105,   422,   587,  177,   -235,  -291,
     -460,  1574,  1653,  -246,  778,   1159,  -147,  -777, 1483,  -602,  1119,
     -1590, 644,   -872,  349,   418,   329,   -156,  -75,  817,   1097,  603,
     610,   1322,  -1285, -1465, 384,   -1215, -136,  1218, -1335, -874,  220,
     -1187, -1659, -1185, -1530, -1278, 794,   -1510, -854, -870,  478,   -108,
     -308,  996,   991,   958,   -1460, 1522,  1628]"

definition mlk_poly_mulcache_compute :: "poly \<Rightarrow> int list" where
  "mlk_poly_mulcache_compute a =
     concat (map (\<lambda>i. [mlk_fqmul (a ! (4 * i + 1)) (mlk_zetas ! (64 + i)),
                       mlk_fqmul (a ! (4 * i + 3)) (to_i16 (- (mlk_zetas ! (64 + i))))])
       [0..<MLKEM_N div 4])"

definition mlk_ntt_butterfly :: "int \<Rightarrow> nat \<Rightarrow> poly \<Rightarrow> nat \<Rightarrow> poly" where
  "mlk_ntt_butterfly zeta len r j =
     (let t = mlk_fqmul (r ! (j + len)) zeta;
          r = r[j + len := to_i16 (r ! j - t)];
          r = r[j := to_i16 (r ! j + t)]
      in r)"

definition mlk_ntt_butterfly_block :: "poly \<Rightarrow> int \<Rightarrow> nat \<Rightarrow> nat \<Rightarrow> poly" where
  "mlk_ntt_butterfly_block r zeta start len = foldl (mlk_ntt_butterfly zeta len) r [start..<start + len]"

text \<open>Iteration \<open>i\<close> of the block loop has \<open>start = 2 * len * i\<close> and \<open>k = 2^(layer-1) + i\<close>.\<close>

definition mlk_ntt_layer :: "poly \<Rightarrow> nat \<Rightarrow> poly" where
  "mlk_ntt_layer r layer =
     (let k = push_bit (layer - 1) 1;
          len = drop_bit layer MLKEM_N
      in foldl (\<lambda>r i. mlk_ntt_butterfly_block r (mlk_zetas ! (k + i)) (2 * len * i) len)
           r [0..<MLKEM_N div (2 * len)])"

definition mlk_poly_ntt :: "poly \<Rightarrow> poly" where
  "mlk_poly_ntt p = foldl mlk_ntt_layer p [1..<8]"

definition mlk_invntt_butterfly :: "int \<Rightarrow> nat \<Rightarrow> poly \<Rightarrow> nat \<Rightarrow> poly" where
  "mlk_invntt_butterfly zeta len r j =
     (let t = r ! j;
          r = r[j := mlk_barrett_reduce (to_i16 (t + r ! (j + len)))];
          r = r[j + len := to_i16 (r ! (j + len) - t)];
          r = r[j + len := mlk_fqmul (r ! (j + len)) zeta]
      in r)"

text \<open>Iteration \<open>i\<close> of the block loop has \<open>start = 2 * len * i\<close> and \<open>k = 2^layer - 1 - i\<close>.\<close>

definition mlk_invntt_layer :: "poly \<Rightarrow> nat \<Rightarrow> poly" where
  "mlk_invntt_layer r layer =
     (let len = drop_bit layer MLKEM_N;
          k = push_bit layer 1 - 1
      in foldl (\<lambda>r i. foldl (mlk_invntt_butterfly (mlk_zetas ! (k - i)) len) r [2 * len * i..<2 * len * i + len])
           r [0..<MLKEM_N div (2 * len)])"

definition mlk_poly_invntt_tomont :: "poly \<Rightarrow> poly" where
  "mlk_poly_invntt_tomont p =
     (let r = map (\<lambda>c. mlk_fqmul c 1441) p
      in foldl mlk_invntt_layer r (rev [1..<8]))"

section \<open>Montgomery and Barrett reduction\<close>

lemma mod_q_inv: "(169 * 65536 :: int) mod 3329 = 1" by simp

text \<open>The two bounds of a centred floor division used by both reductions.\<close>

lemma montgomery_t:
  obtains t where "mlk_montgomery_reduce a = to_i16 (drop_bit 16 (to_i32 (a - t * 3329)))"
    and "is_i16 t" and "(a - t * 3329) mod 65536 = 0"
proof
  let ?t = "to_i16 (a * 62209)"
  have "ucast (((ucast (word_of_int a :: u16) :: u32) * 62209) AND 0xFFFF) = (word_of_int (a * 62209) :: u16)"
  proof -
    have m: "x AND 0xFFFF = take_bit 16 x" for x :: u32
      by (simp add: take_bit_eq_mask mask_eq_exp_minus_1)
    have "uint ((ucast (word_of_int a :: u16) :: u32) * 62209) = (a mod 65536 * 62209) mod 4294967296"
      by (simp add: uint_word_ariths unsigned_ucast_eq uint_word_of_int take_bit_eq_mod mod_mod_cancel mod_simps)
    then show ?thesis
      unfolding m by (simp add: word_uint_eq_iff unsigned_ucast_eq unsigned_take_bit_eq take_bit_eq_mod uint_word_of_int uint_mod_distrib uint_word_ariths mod_mod_cancel mod_simps)
  qed
  then show "mlk_montgomery_reduce a = to_i16 (drop_bit 16 (to_i32 (a - ?t * 3329)))"
    unfolding mlk_montgomery_reduce_def Let_def cast_u16 MLKEM_Q_def by (simp only: cast_i16)
  show "is_i16 ?t" by simp
  have "?t mod 65536 = a * 62209 mod 65536"
    using take_bit_signed_take_bit [of 16 15 "a * 62209"] by (simp add: take_bit_eq_mod)
  then obtain k where "?t = a * 62209 + 65536 * k" by (metis mod_eqE mult.commute)
  then have "a - ?t * 3329 = 65536 * (- 3160 * a - 3329 * k)" by simp
  then show "(a - ?t * 3329) mod 65536 = 0" by (simp only: mod_mult_self1_is_0)
qed

lemma montgomery_reduce:
  assumes "\<bar>a\<bar> < 2147483647 - 32768 * 3329"
  shows "mlk_montgomery_reduce a * 65536 mod 3329 = a mod 3329"
    and "\<bar>mlk_montgomery_reduce a\<bar> * 65536 \<le> \<bar>a\<bar> + 32768 * 3329"
proof -
  obtain t where t: "mlk_montgomery_reduce a = to_i16 (drop_bit 16 (to_i32 (a - t * 3329)))" "is_i16 t" "(a - t * 3329) mod 65536 = 0"
    by (rule montgomery_t)
  have b: "\<bar>a - t * 3329\<bar> \<le> \<bar>a\<bar> + 32768 * 3329" using t(2) by (auto simp: is_i16_def)
  then have i: "to_i32 (a - t * 3329) = a - t * 3329" using assms by (intro to_i32_id) auto
  let ?r = "(a - t * 3329) div 65536"
  have r: "?r * 65536 = a - t * 3329" using t(3) by (simp add: dvd_div_mult_self mod_eq_0_iff_dvd)
  then have "is_i16 ?r" using b assms by (auto simp: is_i16_def)
  then have m: "mlk_montgomery_reduce a = ?r" by (simp add: t(1) i drop_bit_int_def)
  show "mlk_montgomery_reduce a * 65536 mod 3329 = a mod 3329"
    unfolding m r using mod_mult_self1 [of a "- t" 3329] by simp
  show "\<bar>mlk_montgomery_reduce a\<bar> * 65536 \<le> \<bar>a\<bar> + 32768 * 3329" unfolding m using r b by linarith
qed

lemma mod_q_scale: "x * 65536 mod 3329 = y mod 3329 \<Longrightarrow> x mod 3329 = y * 169 mod (3329 :: int)"
proof -
  assume "x * 65536 mod 3329 = y mod 3329"
  then have "x * 65536 * 169 mod 3329 = y * 169 mod 3329" by (metis mod_mult_left_eq)
  moreover have "x * 65536 * 169 = x + 3329 * (x * 3327)" by simp
  ultimately show ?thesis by (metis mod_mult_self2)
qed

lemma fqmul:
  assumes "is_i16 a" and "\<bar>b\<bar> < 1665"
  shows "mlk_fqmul a b mod 3329 = a * b * 169 mod 3329" and "\<bar>mlk_fqmul a b\<bar> < 3329"
proof -
  have "\<bar>a * b\<bar> \<le> 32768 * 1664"
    unfolding abs_mult using assms by (intro mult_mono) (auto simp: is_i16_def)
  then have "\<bar>a * b\<bar> < 2147483647 - 32768 * 3329" "\<bar>a * b\<bar> \<le> 54525952" by auto
  then show "mlk_fqmul a b mod 3329 = a * b * 169 mod 3329" "\<bar>mlk_fqmul a b\<bar> < 3329"
    using montgomery_reduce [of "a * b"] by (auto simp: mlk_fqmul_def intro!: mod_q_scale)
qed

lemma barrett_reduce:
  assumes "is_i16 a"
  shows "mlk_barrett_reduce a mod 3329 = a mod 3329" and "\<bar>mlk_barrett_reduce a\<bar> \<le> 1664"
proof -
  define t where "t = (20159 * a + 33554432) div 67108864"
  have "67108864 * t \<le> 20159 * a + 33554432" "20159 * a + 33554432 < 67108864 * (t + 1)"
    unfolding t_def by (auto simp: pos_mod_sign minus_mod_eq_mult_div [symmetric] algebra_simps intro: pos_mod_bound
        dest: pos_mod_bound)
  then have b: "\<bar>a - t * 3329\<bar> \<le> 1664" using assms by (auto simp: is_i16_def)
  have "to_i32 (20159 * a + push_bit 25 1) = 20159 * a + 33554432"
    using assms by (subst to_i32_id) (auto simp: is_i16_def push_bit_int_def)
  then have m: "mlk_barrett_reduce a = a - t * 3329"
    using to_i16_id [of "a - t * 3329"] b
    by (simp add: mlk_barrett_reduce_def Let_def MLKEM_Q_def t_def drop_bit_int_def is_i16_def abs_le_iff)
  show "mlk_barrett_reduce a mod 3329 = a mod 3329" using mod_mult_self1 [of a "- t" 3329] by (simp add: m)
  show "\<bar>mlk_barrett_reduce a\<bar> \<le> 1664" using b by (simp add: m)
qed

lemma signed_to_unsigned_q:
  assumes "\<bar>c\<bar> < 3329"
  shows "mlk_scalar_signed_to_unsigned_q c = c mod 3329"
proof -
  have "is_i16 c" "is_i16 (c + 3329)" using assms by (auto simp: is_i16_def)
  then have "mlk_scalar_signed_to_unsigned_q c = (if c < 0 then c + 3329 else c)"
    by (simp add: mlk_scalar_signed_to_unsigned_q_def MLKEM_Q_def ct_sel_int16 cmask_neg)
  also have "\<dots> = c mod 3329" using assms mod_pos_pos_trivial [of "c + 3329" 3329] by auto
  finally show ?thesis .
qed

lemma scalar_reduce: "is_i16 c \<Longrightarrow> mlk_scalar_signed_to_unsigned_q (mlk_barrett_reduce c) = c mod 3329"
  using barrett_reduce [of c] signed_to_unsigned_q [of "mlk_barrett_reduce c"] by auto

text \<open>
  Montgomery reduction. For every argument in the documented range the result times \<open>2^16\<close> is
  congruent to it modulo \<open>q\<close>, stays within the documented bound, and no intermediate value
  overflows; so Montgomery multiplication by a canonical factor is below \<open>q\<close> in absolute value.
\<close>

theorem montgomery_reduce_spec:
  assumes "\<bar>a\<bar> < 2147483647 - 32768 * MLKEM_Q" and "is_i16 x" and "\<bar>z\<bar> < MLKEM_Q_HALF"
  shows "mlk_montgomery_reduce a * 65536 mod MLKEM_Q = a mod MLKEM_Q
    \<and> \<bar>mlk_montgomery_reduce a\<bar> * 65536 \<le> \<bar>a\<bar> + 32768 * MLKEM_Q
    \<and> mlk_fqmul x z * 65536 mod MLKEM_Q = x * z mod MLKEM_Q \<and> \<bar>mlk_fqmul x z\<bar> < MLKEM_Q"
proof -
  have z: "\<bar>z\<bar> < 1665" using assms(3) by (simp add: mlk_q)
  have "\<bar>x * z\<bar> \<le> 32768 * 1664"
    unfolding abs_mult using assms(2) z by (intro mult_mono) (auto simp: is_i16_def)
  then show ?thesis
    using assms(1) montgomery_reduce [of a] montgomery_reduce [of "x * z"] fqmul(2) [OF assms(2) z]
    by (simp add: MLKEM_Q_def mlk_fqmul_def)
qed

theorem montgomery_reduce_spec_witness:
  "mlk_montgomery_reduce 1000000000 * 65536 mod MLKEM_Q = 1000000000 mod MLKEM_Q"
  using montgomery_reduce_spec [of 1000000000 0 0] by (simp add: mlk_q is_i16_def)

text \<open>
  Barrett reduction returns the centred representative of every 16-bit integer, and
  \<open>mlk_poly_reduce\<close> the canonical representative in \<open>[0, q)\<close> of every coefficient.
\<close>

theorem poly_reduce_spec:
  assumes "\<forall>c \<in> set p. is_i16 c"
  shows "mlk_poly_reduce p = map (\<lambda>c. c mod MLKEM_Q) p
    \<and> (\<forall>c \<in> set p. mlk_barrett_reduce c mod MLKEM_Q = c mod MLKEM_Q \<and> \<bar>mlk_barrett_reduce c\<bar> < MLKEM_Q_HALF)"
  using assms barrett_reduce by (force simp: mlk_poly_reduce_def scalar_reduce mlk_q)

theorem poly_reduce_spec_witness:
  "mlk_poly_reduce [- 32768, 5000, 32767] = [522, 1671, 2806]"
  using poly_reduce_spec [of "[- 32768, 5000, 32767]"] by (simp add: is_i16_def mlk_q)

end
