(* ===== verification/Mlk_Compress.thy ===== *)
theory Mlk_Compress
  imports Mlk_Poly
begin

text \<open>
  \<open>mlkem_native/src/compress.h\<close> and \<open>compress.c\<close>: coefficient compression by multiplication
  with a fixed-point reciprocal, decompression, and the packing of compressed, 12-bit and message
  coefficients into bytes. Intermediate values are words of the width the source gives them;
  iteration \<open>i\<close> of a packing loop is a function of the coefficients or bytes it reads, and the
  loop is the concatenation of its iterations. The functions for 5 and 11 bits are those of the
  parameter set 1024, which the source holds beside the ones for 768.
\<close>

section \<open>Scalars\<close>

definition mlk_scalar_compress_d1 :: "int \<Rightarrow> byte" where
  "mlk_scalar_compress_d1 u =
     (let d0 = (word_of_int u :: u32) * 1290168 in ucast (drop_bit 31 (d0 + push_bit 30 1)))"

definition mlk_scalar_compress_d4 :: "int \<Rightarrow> byte" where
  "mlk_scalar_compress_d4 u =
     (let d0 = (word_of_int u :: u32) * 1290160 in ucast (drop_bit 28 (d0 + push_bit 27 1)))"

definition mlk_scalar_decompress_d4 :: "byte \<Rightarrow> int" where
  "mlk_scalar_decompress_d4 u = to_i16 (uint (drop_bit 4 ((ucast u :: u32) * 3329 + 8)))"

definition mlk_scalar_compress_d5 :: "int \<Rightarrow> byte" where
  "mlk_scalar_compress_d5 u =
     (let d0 = (word_of_int u :: u32) * 1290176 in ucast (drop_bit 27 (d0 + push_bit 26 1)))"

definition mlk_scalar_decompress_d5 :: "byte \<Rightarrow> int" where
  "mlk_scalar_decompress_d5 u = to_i16 (uint (drop_bit 5 ((ucast u :: u32) * 3329 + 16)))"

definition mlk_scalar_compress_d10 :: "int \<Rightarrow> u16" where
  "mlk_scalar_compress_d10 u =
     (let d0 = (word_of_int u :: u64) * 2642263040;
          d0 = drop_bit 33 (d0 + push_bit 32 1)
      in ucast (d0 AND 0x3FF))"

definition mlk_scalar_decompress_d10 :: "u16 \<Rightarrow> int" where
  "mlk_scalar_decompress_d10 u = to_i16 (uint (drop_bit 10 ((ucast u :: u32) * 3329 + 512)))"

definition mlk_scalar_compress_d11 :: "int \<Rightarrow> u16" where
  "mlk_scalar_compress_d11 u =
     (let d0 = (word_of_int u :: u64) * 5284526080;
          d0 = drop_bit 33 (d0 + push_bit 32 1)
      in ucast (d0 AND 0x7FF))"

definition mlk_scalar_decompress_d11 :: "u16 \<Rightarrow> int" where
  "mlk_scalar_decompress_d11 u = to_i16 (uint (drop_bit 11 ((ucast u :: u32) * 3329 + 1024)))"

section \<open>Compressed polynomials\<close>

definition compress_d4_block :: "poly \<Rightarrow> nat \<Rightarrow> bytes" where
  "compress_d4_block a i =
     (let t = (\<lambda>j. mlk_scalar_compress_d4 (a ! (8 * i + j)))
      in [t 0 OR push_bit 4 (t 1), t 2 OR push_bit 4 (t 3), t 4 OR push_bit 4 (t 5), t 6 OR push_bit 4 (t 7)])"

definition mlk_poly_compress_d4 :: "poly \<Rightarrow> bytes" where
  "mlk_poly_compress_d4 a = concat (map (compress_d4_block a) [0..<MLKEM_N div 8])"

definition compress_d10_block :: "poly \<Rightarrow> nat \<Rightarrow> bytes" where
  "compress_d10_block a j =
     (let t = (\<lambda>k. mlk_scalar_compress_d10 (a ! (4 * j + k)))
      in [ucast (t 0 AND 0xFF),
          ucast (drop_bit 8 (t 0) OR (push_bit 2 (t 1) AND 0xFF)),
          ucast (drop_bit 6 (t 1) OR (push_bit 4 (t 2) AND 0xFF)),
          ucast (drop_bit 4 (t 2) OR (push_bit 6 (t 3) AND 0xFF)),
          ucast (drop_bit 2 (t 3))])"

definition mlk_poly_compress_d10 :: "poly \<Rightarrow> bytes" where
  "mlk_poly_compress_d10 a = concat (map (compress_d10_block a) [0..<MLKEM_N div 4])"

definition mlk_poly_decompress_d4 :: "bytes \<Rightarrow> poly" where
  "mlk_poly_decompress_d4 a =
     concat (map (\<lambda>i. [mlk_scalar_decompress_d4 (a ! i AND 0xF), mlk_scalar_decompress_d4 (drop_bit 4 (a ! i) AND 0xF)])
       [0..<MLKEM_N div 2])"

definition decompress_d10_block :: "bytes \<Rightarrow> nat \<Rightarrow> poly" where
  "decompress_d10_block a j =
     (let b = (\<lambda>k. ucast (a ! (5 * j + k)) :: u16)
      in map mlk_scalar_decompress_d10
         [0x3FF AND (b 0 OR push_bit 8 (b 1)),
          0x3FF AND (drop_bit 2 (b 1) OR push_bit 6 (b 2)),
          0x3FF AND (drop_bit 4 (b 2) OR push_bit 4 (b 3)),
          0x3FF AND (drop_bit 6 (b 3) OR push_bit 2 (b 4))])"

definition mlk_poly_decompress_d10 :: "bytes \<Rightarrow> poly" where
  "mlk_poly_decompress_d10 a = concat (map (decompress_d10_block a) [0..<MLKEM_N div 4])"

definition compress_d5_block :: "poly \<Rightarrow> nat \<Rightarrow> bytes" where
  "compress_d5_block a i =
     (let t = (\<lambda>j. mlk_scalar_compress_d5 (a ! (8 * i + j)))
      in [0xFF AND (t 0 OR push_bit 5 (t 1)),
          0xFF AND (drop_bit 3 (t 1) OR push_bit 2 (t 2) OR push_bit 7 (t 3)),
          0xFF AND (drop_bit 1 (t 3) OR push_bit 4 (t 4)),
          0xFF AND (drop_bit 4 (t 4) OR push_bit 1 (t 5) OR push_bit 6 (t 6)),
          0xFF AND (drop_bit 2 (t 6) OR push_bit 3 (t 7))])"

definition mlk_poly_compress_d5 :: "poly \<Rightarrow> bytes" where
  "mlk_poly_compress_d5 a = concat (map (compress_d5_block a) [0..<MLKEM_N div 8])"

definition compress_d11_block :: "poly \<Rightarrow> nat \<Rightarrow> bytes" where
  "compress_d11_block a j =
     (let t = (\<lambda>k. mlk_scalar_compress_d11 (a ! (8 * j + k)))
      in [ucast (t 0 AND 0xFF),
          ucast (drop_bit 8 (t 0) OR (push_bit 3 (t 1) AND 0xFF)),
          ucast (drop_bit 5 (t 1) OR (push_bit 6 (t 2) AND 0xFF)),
          ucast (drop_bit 2 (t 2) AND 0xFF),
          ucast (drop_bit 10 (t 2) OR (push_bit 1 (t 3) AND 0xFF)),
          ucast (drop_bit 7 (t 3) OR (push_bit 4 (t 4) AND 0xFF)),
          ucast (drop_bit 4 (t 4) OR (push_bit 7 (t 5) AND 0xFF)),
          ucast (drop_bit 1 (t 5) AND 0xFF),
          ucast (drop_bit 9 (t 5) OR (push_bit 2 (t 6) AND 0xFF)),
          ucast (drop_bit 6 (t 6) OR (push_bit 5 (t 7) AND 0xFF)),
          ucast (drop_bit 3 (t 7))])"

definition mlk_poly_compress_d11 :: "poly \<Rightarrow> bytes" where
  "mlk_poly_compress_d11 a = concat (map (compress_d11_block a) [0..<MLKEM_N div 8])"

definition decompress_d5_block :: "bytes \<Rightarrow> nat \<Rightarrow> poly" where
  "decompress_d5_block a i =
     (let b = (\<lambda>k. a ! (i * 5 + k))
      in map mlk_scalar_decompress_d5
         [0x1F AND b 0,
          0x1F AND (drop_bit 5 (b 0) OR push_bit 3 (b 1)),
          0x1F AND drop_bit 2 (b 1),
          0x1F AND (drop_bit 7 (b 1) OR push_bit 1 (b 2)),
          0x1F AND (drop_bit 4 (b 2) OR push_bit 4 (b 3)),
          0x1F AND drop_bit 1 (b 3),
          0x1F AND (drop_bit 6 (b 3) OR push_bit 2 (b 4)),
          0x1F AND drop_bit 3 (b 4)])"

definition mlk_poly_decompress_d5 :: "bytes \<Rightarrow> poly" where
  "mlk_poly_decompress_d5 a = concat (map (decompress_d5_block a) [0..<MLKEM_N div 8])"

definition decompress_d11_block :: "bytes \<Rightarrow> nat \<Rightarrow> poly" where
  "decompress_d11_block a j =
     (let b = (\<lambda>k. ucast (a ! (11 * j + k)) :: u16)
      in map mlk_scalar_decompress_d11
         [0x7FF AND (b 0 OR push_bit 8 (b 1)),
          0x7FF AND (drop_bit 3 (b 1) OR push_bit 5 (b 2)),
          0x7FF AND (drop_bit 6 (b 2) OR push_bit 2 (b 3) OR push_bit 10 (b 4)),
          0x7FF AND (drop_bit 1 (b 4) OR push_bit 7 (b 5)),
          0x7FF AND (drop_bit 4 (b 5) OR push_bit 4 (b 6)),
          0x7FF AND (drop_bit 7 (b 6) OR push_bit 1 (b 7) OR push_bit 9 (b 8)),
          0x7FF AND (drop_bit 2 (b 8) OR push_bit 6 (b 9)),
          0x7FF AND (drop_bit 5 (b 9) OR push_bit 3 (b 10))])"

definition mlk_poly_decompress_d11 :: "bytes \<Rightarrow> poly" where
  "mlk_poly_decompress_d11 a = concat (map (decompress_d11_block a) [0..<MLKEM_N div 8])"

section \<open>Uncompressed polynomials and messages\<close>

definition tobytes_block :: "poly \<Rightarrow> nat \<Rightarrow> bytes" where
  "tobytes_block a i =
     (let t0 = (word_of_int (a ! (2 * i)) :: u16);
          t1 = (word_of_int (a ! (2 * i + 1)) :: u16)
      in [ucast (t0 AND 0xFF), ucast (drop_bit 8 t0 OR (push_bit 4 t1 AND 0xF0)), ucast (drop_bit 4 t1)])"

definition mlk_poly_tobytes :: "poly \<Rightarrow> bytes" where
  "mlk_poly_tobytes a = concat (map (tobytes_block a) [0..<MLKEM_N div 2])"

definition frombytes_block :: "bytes \<Rightarrow> nat \<Rightarrow> poly" where
  "frombytes_block a i =
     (let t0 = (ucast (a ! (3 * i)) :: u16); t1 = (ucast (a ! (3 * i + 1)) :: u16); t2 = (ucast (a ! (3 * i + 2)) :: u16)
      in [sint (t0 OR (push_bit 8 t1 AND 0xFFF)), sint (drop_bit 4 t1 OR push_bit 4 t2)])"

definition mlk_poly_frombytes :: "bytes \<Rightarrow> poly" where
  "mlk_poly_frombytes a = concat (map (frombytes_block a) [0..<MLKEM_N div 2])"

definition frommsg_coeff :: "byte \<Rightarrow> nat \<Rightarrow> int" where
  "frommsg_coeff m j =
     (let mask = mlk_value_barrier_u8 0 (push_bit j 1) in mlk_ct_sel_int16 MLKEM_Q_HALF 0 (ucast (m AND mask)))"

definition mlk_poly_frommsg :: "bytes \<Rightarrow> poly" where
  "mlk_poly_frommsg msg = concat (map (\<lambda>i. map (frommsg_coeff (msg ! i)) [0..<8]) [0..<MLKEM_N div 8])"

definition mlk_poly_tomsg :: "poly \<Rightarrow> bytes" where
  "mlk_poly_tomsg r =
     map (\<lambda>i. foldl (\<lambda>m j. m OR push_bit j (mlk_scalar_compress_d1 (r ! (8 * i + j)))) 0 [0..<8]) [0..<MLKEM_N div 8]"

section \<open>Scalar correctness\<close>

text \<open>The rounding of FIPS 203: \<open>Compress_d\<close> and \<open>Decompress_d\<close>.\<close>

definition compress_q :: "nat \<Rightarrow> int \<Rightarrow> int" where
  "compress_q d u = ((u * 2 ^ d + 1664) div 3329) mod 2 ^ d"

definition decompress_q :: "nat \<Rightarrow> int \<Rightarrow> int" where
  "decompress_q d y = (y * 3329 + 2 ^ (d - 1)) div 2 ^ d"

lemma div_bounds: "0 < b \<Longrightarrow> b * (a div b) \<le> a \<and> a < b * (a div b) + b" for a b :: int
  using pos_mod_bound [of b a] pos_mod_sign [of b a] mult_div_mod_eq [of b a] by linarith

text \<open>
  Multiplying with \<open>M\<close>, an approximation of \<open>S D / 3329\<close>, and dividing by \<open>S\<close> rounds \<open>u D / 3329\<close>
  correctly when the accumulated error stays below the distance to the next rounding boundary.
\<close>

lemma reciprocal_division:
  assumes "- H < u * (M * 3329 - S * D)" and "u * (M * 3329 - S * D) < (if (u * D + 1664) mod 3329 = 3328 then H else 3 * H)"
    and "S = 2 * H" and "0 < H"
  shows "(u * M + H) div S = (u * D + 1664) div (3329 :: int)"
proof -
  define k where "k = (u * D + 1664) div 3329"
  define m where "m = u * D + 1664 - 3329 * k"
  have m: "m = (u * D + 1664) mod 3329" by (simp add: m_def k_def minus_mult_div_eq_mod)
  then have m3: "0 \<le> m" "m \<le> 3328" using pos_mod_bound [of 3329 "u * D + 1664"] by auto
  have x: "(u * M + H - S * k) * 3329 = u * (M * 3329 - S * D) + H * (2 * m + 1)"
    unfolding m_def assms(3) by (simp add: algebra_simps)
  have "0 \<le> H * (2 * m)" using m3(1) assms(4) by simp
  then have "0 < (u * M + H - S * k) * 3329" using assms(1) unfolding x by (simp add: algebra_simps)
  moreover have "(u * M + H - S * k) * 3329 < S * 3329"
  proof (cases "m = 3328")
    case True
    then show ?thesis using assms(2,3) m unfolding x by simp
  next
    case False
    then have "H * (2 * m + 1) \<le> H * 6655" using m3 assms(4) by (intro mult_left_mono) auto
    then show ?thesis using False assms(2,3) m unfolding x by simp
  qed
  ultimately have "(u * M + H) div S = k"
    by (intro int_div_pos_eq [where r = "u * M + H - S * k"]) (auto simp: zero_less_mult_iff)
  then show ?thesis by (simp add: k_def)
qed

lemma reciprocal_error:
  fixes e :: int
  assumes "0 \<le> u" and "u < 3329" and "\<bar>e\<bar> * 3328 < H"
  shows "- H < u * e" and "u * e < H"
proof -
  have "\<bar>u * e\<bar> \<le> 3328 * \<bar>e\<bar>" unfolding abs_mult using assms(1,2) by (intro mult_right_mono) auto
  then show "- H < u * e" "u * e < H" using assms(3) by linarith+
qed

lemma d5_boundary: "0 \<le> u \<Longrightarrow> u < 3329 \<Longrightarrow> (u * 32 + 1664) mod 3329 = 3328 \<Longrightarrow> u = (52 :: int)"
proof -
  assume a: "0 \<le> u" "u < 3329" "(u * 32 + 1664) mod 3329 = 3328"
  define k where "k = (u * 32 + 1664) div 3329"
  have e: "u * 32 + 1664 = 3329 * k + 3328" using a(3) mult_div_mod_eq [of 3329 "u * 32 + 1664"] by (simp add: k_def)
  define n where "n = u - 52 - 104 * k"
  have k: "k = 32 * n" using e by (simp add: n_def)
  have "0 \<le> k" "k < 32" using e a(1,2) by linarith+
  then have "n = 0" using k by linarith
  then have "k = 0" using k by simp
  then show "u = 52" using e by simp
qed

text \<open>
  The shape of all compressions: a product with the constant \<open>M\<close>, plus half of \<open>2^s\<close>, shifted down
  by \<open>s\<close>, all in words of \<open>n\<close> bits.
\<close>

lemma word_round:
  fixes M :: "'a :: len word"
  assumes "s + d \<le> LENGTH('a)"
  shows "take_bit d (uint (drop_bit s ((word_of_int u :: 'a word) * M + push_bit h 1)))
    = take_bit d ((u * uint M + 2 ^ h) div 2 ^ s)"
proof -
  have "(word_of_int u :: 'a word) * M + push_bit h 1 = word_of_int (u * uint M + 2 ^ h)"
    by (simp add: push_bit_eq_mult)
  then have "take_bit d (uint (drop_bit s ((word_of_int u :: 'a word) * M + push_bit h 1)))
      = take_bit d (drop_bit s (take_bit LENGTH('a) (u * uint M + 2 ^ h)))"
    by (simp add: unsigned_drop_bit_eq uint_word_of_int_eq del: of_int_add of_int_mult)
  also have "\<dots> = take_bit d (drop_bit s (u * uint M + 2 ^ h))"
    using assms by (simp add: take_bit_drop_bit min_def)
  finally show ?thesis by (simp add: drop_bit_int_def)
qed

lemma uint_ucast_small: "uint (ucast (w :: 'a :: len word) :: 'b :: len word) = take_bit LENGTH('b) (uint w)"
  by (simp add: unsigned_ucast_eq unsigned_take_bit_eq)

lemma and_mask_low: "w AND 0x3FF = take_bit 10 w" "w AND 0x7FF = take_bit 11 w" "w AND 0xFF = take_bit 8 w"
  "w AND 0xF = take_bit 4 w" "w AND 0x1F = take_bit 5 w" "w AND 0xFFF = take_bit 12 w" for w :: "'a :: len word"
  by (simp_all add: take_bit_eq_mask mask_eq_exp_minus_1)

lemma scalar_compress:
  assumes "0 \<le> u" and "u < 3329"
  shows "uint (mlk_scalar_compress_d1 u) = compress_q 1 u" and "uint (mlk_scalar_compress_d4 u) = compress_q 4 u"
    and "uint (mlk_scalar_compress_d5 u) = compress_q 5 u" and "uint (mlk_scalar_compress_d10 u) = compress_q 10 u"
    and "uint (mlk_scalar_compress_d11 u) = compress_q 11 u"
proof -
  have w32: "take_bit 8 (uint (drop_bit s (w :: u32))) = take_bit d (uint (drop_bit s w))"
    if "s + d = 32" "d \<le> 8" for s d w
  proof -
    have "min 32 (s + 8) = 32" "min 32 (s + d) = 32" "s = 32 - d" using that by auto
    then show ?thesis by (simp add: unsigned_drop_bit_eq take_bit_drop_bit add.commute)
  qed
  have c: "take_bit d ((u * M + 2 ^ h) div 2 ^ Suc h) = compress_q d u"
    if "\<bar>M * 3329 - 2 ^ Suc h * 2 ^ d\<bar> * 3328 < 2 ^ h" for d h M
  proof -
    note e = reciprocal_error [OF assms that]
    then have "u * (M * 3329 - 2 ^ Suc h * 2 ^ d) < (if (u * 2 ^ d + 1664) mod 3329 = 3328 then 2 ^ h else 3 * 2 ^ h)" by simp
    from reciprocal_division [OF e(1) this] show ?thesis by (simp add: compress_q_def take_bit_eq_mod)
  qed
  have "(u * 1290176 + 67108864) div 134217728 = (u * 32 + 1664) div 3329"
    by (rule reciprocal_division) (use assms d5_boundary [OF assms] in auto)
  then have c5: "take_bit 5 ((u * 1290176 + 67108864) div 134217728) = compress_q 5 u"
    by (simp add: compress_q_def take_bit_eq_mod)
  show "uint (mlk_scalar_compress_d1 u) = compress_q 1 u"
    using word_round [of 31 1 u "1290168 :: u32" 30] c [of 1290168 30 1]
    by (simp add: mlk_scalar_compress_d1_def Let_def uint_ucast_small w32 [of 31 1])
  show "uint (mlk_scalar_compress_d4 u) = compress_q 4 u"
    using word_round [of 28 4 u "1290160 :: u32" 27] c [of 1290160 27 4]
    by (simp add: mlk_scalar_compress_d4_def Let_def uint_ucast_small w32 [of 28 4])
  show "uint (mlk_scalar_compress_d5 u) = compress_q 5 u"
    using word_round [of 27 5 u "1290176 :: u32" 26] c5
    by (simp add: mlk_scalar_compress_d5_def Let_def uint_ucast_small w32 [of 27 5])
  show "uint (mlk_scalar_compress_d10 u) = compress_q 10 u"
    using word_round [of 33 10 u "2642263040 :: u64" 32] c [of 2642263040 32 10]
    by (simp add: mlk_scalar_compress_d10_def Let_def uint_ucast_small and_mask_low unsigned_take_bit_eq)
  show "uint (mlk_scalar_compress_d11 u) = compress_q 11 u"
    using word_round [of 33 11 u "5284526080 :: u64" 32] c [of 5284526080 32 11]
    by (simp add: mlk_scalar_compress_d11_def Let_def uint_ucast_small and_mask_low unsigned_take_bit_eq)
qed

lemma scalar_decompress:
  shows "uint y < 16 \<Longrightarrow> mlk_scalar_decompress_d4 y = decompress_q 4 (uint y)"
    and "uint y < 32 \<Longrightarrow> mlk_scalar_decompress_d5 y = decompress_q 5 (uint y)"
    and "uint z < 1024 \<Longrightarrow> mlk_scalar_decompress_d10 z = decompress_q 10 (uint z)"
    and "uint z < 2048 \<Longrightarrow> mlk_scalar_decompress_d11 z = decompress_q 11 (uint z)"
proof -
  have m: "uint ((ucast w :: u32) * 3329 + H) = uint w * 3329 + uint H"
    if "uint w < 2048" "uint H < 2048" for w :: "'a :: len word" and H :: u32
  proof -
    have "uint (ucast w :: u32) = uint w" using that(1) by (simp add: uint_ucast_small take_bit_int_eq_self)
    then show ?thesis using that by (simp add: uint_word_ariths mod_pos_pos_trivial)
  qed
  have d: "to_i16 ((x * 3329 + 2 ^ (d - 1)) div 2 ^ d) = decompress_q d x" if "0 \<le> x" "x < 2 ^ d" "0 < d" "d \<le> 11" for x :: int and d
  proof -
    have h: "(2 :: int) ^ d = 2 * 2 ^ (d - 1)" using that(3) by (cases d) auto
    have H: "(2 :: int) ^ (d - 1) \<le> 1024" using power_increasing [of "d - 1" 10 "2 :: int"] that(4) by auto
    have "(x * 3329 + 2 ^ (d - 1)) div 2 ^ d \<le> (2 ^ d * 3329) div 2 ^ d"
      using that H by (intro zdiv_mono1) (linarith, simp)
    moreover have "0 \<le> (x * 3329 + 2 ^ (d - 1)) div 2 ^ d" using that(1) by (simp add: pos_imp_zdiv_nonneg_iff)
    ultimately show ?thesis by (simp add: decompress_q_def is_i16_def)
  qed
  show "uint y < 16 \<Longrightarrow> mlk_scalar_decompress_d4 y = decompress_q 4 (uint y)"
    using m [of y 8] d [of "uint y" 4] by (simp add: mlk_scalar_decompress_d4_def unsigned_drop_bit_eq drop_bit_int_def take_bit_int_eq_self)
  show "uint y < 32 \<Longrightarrow> mlk_scalar_decompress_d5 y = decompress_q 5 (uint y)"
    using m [of y 16] d [of "uint y" 5] by (simp add: mlk_scalar_decompress_d5_def unsigned_drop_bit_eq drop_bit_int_def take_bit_int_eq_self)
  show "uint z < 1024 \<Longrightarrow> mlk_scalar_decompress_d10 z = decompress_q 10 (uint z)"
    using m [of z 512] d [of "uint z" 10] by (simp add: mlk_scalar_decompress_d10_def unsigned_drop_bit_eq drop_bit_int_def take_bit_int_eq_self)
  show "uint z < 2048 \<Longrightarrow> mlk_scalar_decompress_d11 z = decompress_q 11 (uint z)"
    using m [of z 1024] d [of "uint z" 11] by (simp add: mlk_scalar_decompress_d11_def unsigned_drop_bit_eq drop_bit_int_def take_bit_int_eq_self)
qed

lemma half_power: "0 < d \<Longrightarrow> (2 :: int) ^ d = 2 * 2 ^ (d - 1)" by (cases d) auto

lemma compress_decompress_q:
  assumes "0 < d" and "d \<le> 11" and "0 \<le> y" and "y < 2 ^ d"
  shows "compress_q d (decompress_q d y) = y" and "0 \<le> decompress_q d y" and "decompress_q d y < 3329"
proof -
  let ?H = "2 ^ (d - 1) :: int" let ?x = "decompress_q d y"
  have H: "0 < ?H" "?H \<le> 1024" using power_increasing [of "d - 1" 10 "2 :: int"] assms(2) by auto
  note D = half_power [OF assms(1)]
  have x: "2 ^ d * ?x \<le> y * 3329 + ?H" "y * 3329 + ?H < 2 ^ d * ?x + 2 ^ d"
    using div_bounds [of "2 ^ d" "y * 3329 + ?H"] by (simp_all add: decompress_q_def)
  have "(?x * 2 ^ d + 1664) div 3329 = y"
    by (rule int_div_pos_eq [where r = "?x * 2 ^ d + 1664 - 3329 * y"]) (use x H D in \<open>auto simp: mult.commute\<close>)
  then show "compress_q d ?x = y" using assms(3,4) by (simp add: compress_q_def)
  show "0 \<le> ?x" using assms(3) H by (simp add: decompress_q_def pos_imp_zdiv_nonneg_iff)
  have "2 ^ d * ?x < 2 ^ d * 3329" using x(1) assms(4) H by linarith
  then show "?x < 3329" by (simp only: mult_less_cancel_left_pos zero_less_power zero_less_numeral)
qed

lemma decompress_compress_q:
  assumes "0 < d" and "d \<le> 11" and "0 \<le> u" and "u < 3329"
  shows "\<exists>k \<in> {0, 1}. \<bar>decompress_q d (compress_q d u) + k * 3329 - u\<bar> * 2 ^ d \<le> 2 ^ (d - 1) + 1664"
proof -
  define y where "y = (u * 2 ^ d + 1664) div 3329"
  let ?H = "2 ^ (d - 1) :: int"
  note D = half_power [OF assms(1)]
  have y: "3329 * y \<le> u * 2 ^ d + 1664" "u * 2 ^ d + 1664 < 3329 * y + 3329"
    using div_bounds [of 3329 "u * 2 ^ d + 1664"] by (simp_all add: y_def)
  have u: "u * 2 ^ d \<le> 3328 * 2 ^ d" using assms(4) by (intro mult_right_mono) auto
  have y0: "0 \<le> y" using assms(3) by (simp add: y_def pos_imp_zdiv_nonneg_iff)
  show ?thesis
  proof (cases "y < 2 ^ d")
    case True
    then have c: "compress_q d u = y" using y0 by (simp add: compress_q_def flip: y_def)
    have x: "2 ^ d * decompress_q d y \<le> y * 3329 + ?H" "y * 3329 + ?H < 2 ^ d * decompress_q d y + 2 ^ d"
      using div_bounds [of "2 ^ d" "y * 3329 + ?H"] by (simp_all add: decompress_q_def)
    have e: "\<bar>decompress_q d y - u\<bar> * 2 ^ d = \<bar>2 ^ d * decompress_q d y - u * 2 ^ d\<bar>"
    proof -
      have "\<bar>decompress_q d y - u\<bar> * 2 ^ d = \<bar>(decompress_q d y - u) * 2 ^ d\<bar>" by (simp only: abs_mult power_abs abs_numeral)
      then show ?thesis by (simp only: left_diff_distrib mult.commute)
    qed
    have "\<bar>2 ^ d * decompress_q d y - u * 2 ^ d\<bar> \<le> ?H + 1664" using x y D by linarith
    then show ?thesis unfolding c using e by auto
  next
    case False
    have "y < 2 ^ d + 1"
    proof -
      have "3329 * y < 3329 * 2 ^ d + 3329" using y(1) u zero_less_power [of "2 :: int" d, OF zero_less_numeral] by linarith
      then show ?thesis by simp
    qed
    then have c: "compress_q d u = 0" using False by (simp add: compress_q_def flip: y_def)
    have z: "decompress_q d 0 = 0" using D by (simp add: decompress_q_def)
    have "\<bar>0 + 1 * 3329 - u\<bar> * 2 ^ d = 3329 * 2 ^ d - u * 2 ^ d" using assms(4) by (simp add: algebra_simps)
    also have "\<dots> \<le> ?H + 1664" using y False zero_less_power [of "2 :: int" "d - 1", OF zero_less_numeral] by linarith
    finally show ?thesis unfolding c z by (intro bexI [of _ 1]) auto
  qed
qed



text \<open>
  Compressing a decompressed value gives it back, and decompressing a compressed coefficient
  moves it, modulo \<open>q\<close>, by at most the rounding error \<open>q / 2^(d+1)\<close>: at most 2 for ten bits and 104
  for four bits, the widths used for the ciphertext.
\<close>

theorem compress_roundtrip:
  assumes "uint y < 16" and "uint z < 1024" and "0 \<le> u" and "u < MLKEM_Q"
  shows "mlk_scalar_compress_d4 (mlk_scalar_decompress_d4 y) = y
    \<and> mlk_scalar_compress_d10 (mlk_scalar_decompress_d10 z) = z
    \<and> (\<exists>k \<in> {0, 1}. \<bar>mlk_scalar_decompress_d4 (mlk_scalar_compress_d4 u) + k * MLKEM_Q - u\<bar> \<le> 104)
    \<and> (\<exists>k \<in> {0, 1}. \<bar>mlk_scalar_decompress_d10 (mlk_scalar_compress_d10 u) + k * MLKEM_Q - u\<bar> \<le> 2)"
proof -
  have u: "0 \<le> u" "u < 3329" using assms by (simp_all add: MLKEM_Q_def)
  have lt: "uint (mlk_scalar_compress_d4 u) < 16" "uint (mlk_scalar_compress_d10 u) < 1024"
    unfolding scalar_compress [OF u] by (simp_all add: compress_q_def)
  have e: "\<bar>x\<bar> \<le> b" if "\<bar>x\<bar> * c \<le> n" "n < c * (b + 1)" "0 < c" for x b c n :: int
  proof -
    have "c * \<bar>x\<bar> < c * (b + 1)" using that(1,2) by (simp only: mult.commute [of c] le_less_trans)
    then have "\<bar>x\<bar> < b + 1" using that(3) by (simp only: mult_less_cancel_left_pos)
    then show ?thesis by simp
  qed
  have "mlk_scalar_compress_d4 (mlk_scalar_decompress_d4 y) = y"
    using scalar_compress(2) scalar_decompress(1) [of y] compress_decompress_q [of 4 "uint y"] assms(1) by (simp add: word_uint_eq_iff)
  moreover have "mlk_scalar_compress_d10 (mlk_scalar_decompress_d10 z) = z"
    using scalar_compress(4) scalar_decompress(3) [of z] compress_decompress_q [of 10 "uint z"] assms(2) by (simp add: word_uint_eq_iff)
  moreover have "\<exists>k \<in> {0, 1}. \<bar>mlk_scalar_decompress_d4 (mlk_scalar_compress_d4 u) + k * MLKEM_Q - u\<bar> \<le> 104"
    using decompress_compress_q [of 4 u, OF _ _ u] e [where c = 16 and n = 1672 and b = 104]
    unfolding MLKEM_Q_def scalar_decompress(1) [OF lt(1)] scalar_compress(2) [OF u] by auto
  moreover have "\<exists>k \<in> {0, 1}. \<bar>mlk_scalar_decompress_d10 (mlk_scalar_compress_d10 u) + k * MLKEM_Q - u\<bar> \<le> 2"
    using decompress_compress_q [of 10 u, OF _ _ u] e [where c = 1024 and n = 2176 and b = 2]
    unfolding MLKEM_Q_def scalar_decompress(3) [OF lt(2)] scalar_compress(4) [OF u] by auto
  ultimately show ?thesis by blast
qed

theorem compress_roundtrip_witness:
  "mlk_scalar_compress_d10 (mlk_scalar_decompress_d10 1023) = 1023 \<and> mlk_scalar_compress_d4 (mlk_scalar_decompress_d4 9) = 9"
  using compress_roundtrip [of 9 1023 0] by (simp add: MLKEM_Q_def)

section \<open>Packing\<close>

lemma length_concat_blocks:
  "(\<And>i. i < n \<Longrightarrow> length (f i) = w) \<Longrightarrow> length (concat (map f [0..<n])) = w * n"
  by (induction n) auto

lemma nth_concat_blocks:
  "(\<And>i. i < n \<Longrightarrow> length (f i) = w) \<Longrightarrow> k < w \<Longrightarrow> i < n \<Longrightarrow> concat (map f [0..<n]) ! (w * i + k) = f i ! k"
proof (induction n)
  case (Suc n)
  have len: "length (concat (map f [0..<n])) = w * n" using Suc.prems(1) by (intro length_concat_blocks) auto
  show ?case
  proof (cases "i = n")
    case False
    then have "w * Suc i \<le> w * n" using Suc.prems(3) by (intro mult_le_mono2) auto
    then show ?thesis using False Suc len by (simp add: nth_append)
  qed (use Suc.prems len in \<open>simp add: nth_append\<close>)
qed simp

lemma Suc_Suc_diff_2: "2 \<le> n \<Longrightarrow> Suc (Suc (n - 2)) = n" by simp

lemma bit_below: "w = take_bit k w \<Longrightarrow> bit w n \<Longrightarrow> n < k" for w :: "'a :: len word"
  by (metis bit_take_bit_iff)

lemmas pack_bits = bit_simps Suc_Suc_diff_2 not_less

lemma unpack_d10:
  fixes t0 t1 t2 t3 :: u16
  assumes "t0 = take_bit 10 t0" and "t1 = take_bit 10 t1" and "t2 = take_bit 10 t2" and "t3 = take_bit 10 t3"
  defines "b0 \<equiv> ucast (t0 AND 0xFF) :: byte" and "b1 \<equiv> ucast (drop_bit 8 t0 OR (push_bit 2 t1 AND 0xFF)) :: byte"
    and "b2 \<equiv> ucast (drop_bit 6 t1 OR (push_bit 4 t2 AND 0xFF)) :: byte"
    and "b3 \<equiv> ucast (drop_bit 4 t2 OR (push_bit 6 t3 AND 0xFF)) :: byte" and "b4 \<equiv> ucast (drop_bit 2 t3) :: byte"
  shows "0x3FF AND (ucast b0 OR push_bit 8 (ucast b1)) = t0"
    and "0x3FF AND (drop_bit 2 (ucast b1) OR push_bit 6 (ucast b2)) = t1"
    and "0x3FF AND (drop_bit 4 (ucast b2) OR push_bit 4 (ucast b3)) = t2"
    and "0x3FF AND (drop_bit 6 (ucast b3) OR push_bit 2 (ucast b4)) = t3"
proof -
  note low = and.commute [of "0x3FF"] and_mask_low b0_def b1_def b2_def b3_def b4_def
  note hi = bit_below [OF assms(1)] bit_below [OF assms(2)] bit_below [OF assms(3)] bit_below [OF assms(4)]
  show "0x3FF AND (ucast b0 OR push_bit 8 (ucast b1)) = t0" unfolding low
    by (rule bit_word_eqI) (auto simp: pack_bits dest: hi)
  show "0x3FF AND (drop_bit 2 (ucast b1) OR push_bit 6 (ucast b2)) = t1" unfolding low
    by (rule bit_word_eqI) (auto simp: pack_bits dest: hi)
  show "0x3FF AND (drop_bit 4 (ucast b2) OR push_bit 4 (ucast b3)) = t2" unfolding low
    by (rule bit_word_eqI) (auto simp: pack_bits dest: hi)
  show "0x3FF AND (drop_bit 6 (ucast b3) OR push_bit 2 (ucast b4)) = t3" unfolding low
    by (rule bit_word_eqI) (auto simp: pack_bits dest: hi)
qed

lemma repack_d10:
  fixes b0 b1 b2 b3 b4 :: byte
  defines "t0 \<equiv> 0x3FF AND (ucast b0 OR push_bit 8 (ucast b1)) :: u16"
    and "t1 \<equiv> 0x3FF AND (drop_bit 2 (ucast b1) OR push_bit 6 (ucast b2)) :: u16"
    and "t2 \<equiv> 0x3FF AND (drop_bit 4 (ucast b2) OR push_bit 4 (ucast b3)) :: u16"
    and "t3 \<equiv> 0x3FF AND (drop_bit 6 (ucast b3) OR push_bit 2 (ucast b4)) :: u16"
  shows "ucast (t0 AND 0xFF) = b0" and "ucast (drop_bit 8 t0 OR (push_bit 2 t1 AND 0xFF)) = b1"
    and "ucast (drop_bit 6 t1 OR (push_bit 4 t2 AND 0xFF)) = b2"
    and "ucast (drop_bit 4 t2 OR (push_bit 6 t3 AND 0xFF)) = b3" and "ucast (drop_bit 2 t3) = b4"
proof -
  note low = and.commute [of "0x3FF"] and_mask_low t0_def t1_def t2_def t3_def
  have eight: "bit b n \<Longrightarrow> n < 8" for b :: byte and n using bit_imp_le_length [of b n] by simp
  show "ucast (t0 AND 0xFF) = b0" unfolding low by (rule bit_word_eqI) (auto simp: pack_bits)
  show "ucast (drop_bit 8 t0 OR (push_bit 2 t1 AND 0xFF)) = b1" unfolding low
    by (rule bit_word_eqI) (auto simp: pack_bits dest: eight)
  show "ucast (drop_bit 6 t1 OR (push_bit 4 t2 AND 0xFF)) = b2" unfolding low
    by (rule bit_word_eqI) (auto simp: pack_bits dest: eight)
  show "ucast (drop_bit 4 t2 OR (push_bit 6 t3 AND 0xFF)) = b3" unfolding low
    by (rule bit_word_eqI) (auto simp: pack_bits dest: eight)
  show "ucast (drop_bit 2 t3) = b4" unfolding low by (rule bit_word_eqI) (auto simp: pack_bits dest: eight)
qed

lemma unpack_d4:
  fixes t0 t1 :: byte
  assumes "t0 = take_bit 4 t0" and "t1 = take_bit 4 t1"
  shows "(t0 OR push_bit 4 t1) AND 0xF = t0" and "drop_bit 4 (t0 OR push_bit 4 t1) AND 0xF = t1"
proof -
  note hi = bit_below [OF assms(1)] bit_below [OF assms(2)]
  show "(t0 OR push_bit 4 t1) AND 0xF = t0" unfolding and_mask_low
    by (rule bit_word_eqI) (auto simp: pack_bits dest: hi)
  show "drop_bit 4 (t0 OR push_bit 4 t1) AND 0xF = t1" unfolding and_mask_low
    by (rule bit_word_eqI) (auto simp: pack_bits dest: hi)
qed

lemma repack_d4: "(b AND 0xF) OR push_bit 4 (drop_bit 4 b AND 0xF) = b" for b :: byte
proof -
  have eight: "bit b n \<Longrightarrow> n < 8" for n using bit_imp_le_length [of b n] by simp
  show ?thesis unfolding and_mask_low by (rule bit_word_eqI) (auto simp: pack_bits dest: eight)
qed

lemma unpack_12:
  fixes t0 t1 :: u16
  assumes "t0 = take_bit 12 t0" and "t1 = take_bit 12 t1"
  defines "b0 \<equiv> ucast (t0 AND 0xFF) :: byte" and "b1 \<equiv> ucast (drop_bit 8 t0 OR (push_bit 4 t1 AND 0xF0)) :: byte"
    and "b2 \<equiv> ucast (drop_bit 4 t1) :: byte"
  shows "ucast b0 OR (push_bit 8 (ucast b1) AND 0xFFF) = t0" and "drop_bit 4 (ucast b1) OR push_bit 4 (ucast b2) = t1"
proof -
  note hi = bit_below [OF assms(1)] bit_below [OF assms(2)]
  have f0: "push_bit 4 t1 AND 0xF0 = push_bit 4 (take_bit 4 t1)"
  proof -
    have "(0xF0 :: u16) = push_bit 4 0xF" by simp
    then show ?thesis by (simp only: push_bit_and [symmetric] and_mask_low)
  qed
  show "ucast b0 OR (push_bit 8 (ucast b1) AND 0xFFF) = t0" unfolding b0_def b1_def f0 and_mask_low
    by (rule bit_word_eqI) (auto simp: pack_bits dest: hi)
  show "drop_bit 4 (ucast b1) OR push_bit 4 (ucast b2) = t1" unfolding b2_def b1_def f0 and_mask_low
    apply (rule bit_word_eqI)
    subgoal for n by (cases "n < 4") (auto simp: pack_bits dest: hi)
    done
qed

lemma repack_12:
  fixes b0 b1 b2 :: byte
  defines "t0 \<equiv> ucast b0 OR (push_bit 8 (ucast b1) AND 0xFFF) :: u16" and "t1 \<equiv> drop_bit 4 (ucast b1) OR push_bit 4 (ucast b2) :: u16"
  shows "ucast (t0 AND 0xFF) = b0" and "ucast (drop_bit 8 t0 OR (push_bit 4 t1 AND 0xF0)) = b1" and "ucast (drop_bit 4 t1) = b2"
    and "take_bit 12 t0 = t0" and "take_bit 12 t1 = t1"
proof -
  have eight: "bit b n \<Longrightarrow> n < 8" for b :: byte and n using bit_imp_le_length [of b n] by simp
  have f0: "push_bit 4 t1 AND 0xF0 = push_bit 4 (take_bit 4 t1)"
  proof -
    have "(0xF0 :: u16) = push_bit 4 0xF" by simp
    then show ?thesis by (simp only: push_bit_and [symmetric] and_mask_low)
  qed
  note low = and_mask_low t0_def t1_def
  show "ucast (t0 AND 0xFF) = b0" unfolding low by (rule bit_word_eqI) (auto simp: pack_bits)
  show "ucast (drop_bit 8 t0 OR (push_bit 4 t1 AND 0xF0)) = b1" unfolding f0 unfolding low
    by (rule bit_word_eqI) (auto simp: pack_bits dest: eight)
  show "ucast (drop_bit 4 t1) = b2" unfolding low by (rule bit_word_eqI) (auto simp: pack_bits dest: eight)
  show "take_bit 12 t0 = t0" unfolding low by (rule bit_word_eqI) (auto simp: pack_bits dest: eight)
  show "take_bit 12 t1 = t1" unfolding low by (rule bit_word_eqI) (auto simp: pack_bits dest: eight)
qed

lemma concat_blocks_eq:
  assumes "length xs = w * n" and "\<And>i. i < n \<Longrightarrow> f i = map (\<lambda>k. xs ! (w * i + k)) [0..<w]"
  shows "concat (map f [0..<n]) = xs"
proof (rule nth_equalityI)
  have len: "\<And>i. i < n \<Longrightarrow> length (f i) = w" using assms(2) by simp
  show l: "length (concat (map f [0..<n])) = length xs" using assms(1) length_concat_blocks [OF len] by simp
  fix j assume "j < length (concat (map f [0..<n]))"
  then have j: "j < w * n" using l assms(1) by simp
  then have "0 < w" by (cases w) auto
  then have d: "j mod w < w" "j div w < n" using j by (auto intro: less_mult_imp_div_less simp: mult.commute)
  have "concat (map f [0..<n]) ! (w * (j div w) + j mod w) = f (j div w) ! (j mod w)"
    by (rule nth_concat_blocks) (use len d in auto)
  also have "\<dots> = xs ! (w * (j div w) + j mod w)" using assms(2) [OF d(2)] d(1) by simp
  finally show "concat (map f [0..<n]) ! j = xs ! j" by simp
qed

lemma take_bit_below: "uint w < 2 ^ k \<Longrightarrow> w = take_bit k w" for w :: "'a :: len word"
  by (simp add: word_uint_eq_iff unsigned_take_bit_eq take_bit_int_eq_self)

lemma scalar_compress_bits:
  assumes "0 \<le> u" and "u < 3329"
  shows "mlk_scalar_compress_d4 u = take_bit 4 (mlk_scalar_compress_d4 u)"
    and "mlk_scalar_compress_d10 u = take_bit 10 (mlk_scalar_compress_d10 u)"
  by (rule take_bit_below, simp add: scalar_compress [OF assms] compress_q_def)+

definition canonical :: "poly \<Rightarrow> bool" where
  "canonical p \<longleftrightarrow> length p = MLKEM_N \<and> (\<forall>c \<in> set p. 0 \<le> c \<and> c < MLKEM_Q)"

lemma canonical_nth: "canonical p \<Longrightarrow> j < 256 \<Longrightarrow> 0 \<le> p ! j \<and> p ! j < 3329"
  by (simp add: canonical_def MLKEM_N_def MLKEM_Q_def)

lemma canonical_length: "canonical p \<Longrightarrow> length p = 256"
  by (simp add: canonical_def MLKEM_N_def)

lemma poly_bytes:
  assumes "canonical p" and "length b = MLKEM_POLYBYTES"
  shows "mlk_poly_frombytes (mlk_poly_tobytes p) = p \<and> mlk_poly_tobytes (mlk_poly_frombytes b) = b
    \<and> (\<forall>c \<in> set (mlk_poly_frombytes b). 0 \<le> c \<and> c < MLKEM_UINT12_LIMIT)"
proof -
  have fr: "frombytes_block (mlk_poly_tobytes p) i = map (\<lambda>k. p ! (2 * i + k)) [0..<2]" if "i < 128" for i
  proof -
    have n: "mlk_poly_tobytes p ! (3 * i + k) = tobytes_block p i ! k" if "k < 3" for k
      unfolding mlk_poly_tobytes_def using \<open>i < 128\<close> that by (intro nth_concat_blocks) (auto simp: MLKEM_N_def tobytes_block_def Let_def)
    have c: "0 \<le> p ! (2 * i)" "p ! (2 * i) < 3329" "0 \<le> p ! Suc (2 * i)" "p ! Suc (2 * i) < 3329"
      using canonical_nth [OF assms(1), of "2 * i"] canonical_nth [OF assms(1), of "Suc (2 * i)"] that by auto
    have w: "(word_of_int x :: u16) = take_bit 12 (word_of_int x)" "sint (word_of_int x :: u16) = x" if "0 \<le> x" "x < 3329" for x
    proof -
      show "(word_of_int x :: u16) = take_bit 12 (word_of_int x)"
        using that by (intro take_bit_below) (simp add: uint_word_of_int_eq take_bit_int_eq_self)
      show "sint (word_of_int x :: u16) = x" using that by (simp add: signed_of_int signed_take_bit_int_eq_self)
    qed
    show ?thesis
      unfolding frombytes_block_def Let_def
      using n [of 0] n [of 1] n [of 2] w(2) [OF c(1,2)] w(2) [OF c(3,4)] unpack_12 [OF w(1) [OF c(1,2)] w(1) [OF c(3,4)]]
      by (simp add: tobytes_block_def Let_def upt_rec)
  qed
  have b: "length b = 384" using assms(2) by (simp add: MLKEM_POLYBYTES_def)
  have lf: "length (frombytes_block b i) = 2" for i by (simp add: frombytes_block_def Let_def)
  have nf: "mlk_poly_frombytes b ! (2 * i + k) = frombytes_block b i ! k" if "i < 128" "k < 2" for i k
    unfolding mlk_poly_frombytes_def using that by (intro nth_concat_blocks) (auto simp: MLKEM_N_def lf)
  have si: "(word_of_int (sint w) :: u16) = w" for w :: u16 by simp
  have to: "tobytes_block (mlk_poly_frombytes b) i = map (\<lambda>k. b ! (3 * i + k)) [0..<3]" if "i < 128" for i
  proof -
    have t: "mlk_poly_frombytes b ! (2 * i) = sint (ucast (b ! (3 * i)) OR (push_bit 8 (ucast (b ! (3 * i + 1))) AND 0xFFF) :: u16)"
      "mlk_poly_frombytes b ! (2 * i + 1) = sint (drop_bit 4 (ucast (b ! (3 * i + 1))) OR push_bit 4 (ucast (b ! (3 * i + 2))) :: u16)"
      using nf [OF that, of 0] nf [OF that, of 1] by (simp_all add: frombytes_block_def Let_def)
    have "[0..<3] = [0, 1, 2 :: nat]" by (simp add: upt_rec)
    then show ?thesis unfolding tobytes_block_def Let_def t si repack_12 by (simp only: list.map add_0_right)
  qed
  have bound: "0 \<le> sint w \<and> sint w < 4096" if "take_bit 12 w = w" for w :: u16
  proof -
    have "uint w = take_bit 12 (uint w)" using that by (metis unsigned_take_bit_eq)
    then have "uint w < 4096" using take_bit_int_less_exp [of 12 "uint w"] by simp
    moreover have "sint w = uint w"
      using calculation by (simp add: sint_uint) (rule signed_take_bit_int_eq_self, auto intro: order_trans [OF _ unsigned_greater_eq])
    ultimately show ?thesis by simp
  qed
  have "mlk_poly_frombytes (mlk_poly_tobytes p) = p"
    unfolding mlk_poly_frombytes_def by (rule concat_blocks_eq [where w = 2]) (use fr canonical_length [OF assms(1)] in \<open>auto simp: MLKEM_N_def\<close>)
  moreover have "mlk_poly_tobytes (mlk_poly_frombytes b) = b"
    unfolding mlk_poly_tobytes_def by (rule concat_blocks_eq [where w = 3]) (use to b in \<open>auto simp: MLKEM_N_def\<close>)
  moreover have "0 \<le> c \<and> c < 4096" if "c \<in> set (mlk_poly_frombytes b)" for c
    using that bound repack_12(4,5) by (auto simp: mlk_poly_frombytes_def frombytes_block_def Let_def)
  ultimately show ?thesis by (simp add: MLKEM_UINT12_LIMIT_def)
qed

text \<open>
  Packing of 12-bit coefficients. A canonical polynomial survives serialisation, and every
  384-byte string is the serialisation of exactly the 12-bit coefficients read from it.
\<close>

theorem poly_bytes_roundtrip:
  assumes "canonical p" and "length b = MLKEM_POLYBYTES"
  shows "mlk_poly_frombytes (mlk_poly_tobytes p) = p \<and> mlk_poly_tobytes (mlk_poly_frombytes b) = b
    \<and> (\<forall>c \<in> set (mlk_poly_frombytes b). 0 \<le> c \<and> c < MLKEM_UINT12_LIMIT)"
  using assms by (rule poly_bytes)

theorem poly_bytes_roundtrip_witness:
  "mlk_poly_frombytes (mlk_poly_tobytes (replicate 256 3328)) = replicate 256 3328"
  using poly_bytes_roundtrip [of "replicate 256 3328" "replicate 384 0"]
  by (simp add: canonical_def MLKEM_N_def MLKEM_Q_def MLKEM_POLYBYTES_def)

lemma decompress_compress_d10:
  assumes "canonical p"
  shows "mlk_poly_decompress_d10 (mlk_poly_compress_d10 p) = map (\<lambda>u. mlk_scalar_decompress_d10 (mlk_scalar_compress_d10 u)) p"
proof -
  have blk: "decompress_d10_block (mlk_poly_compress_d10 p) j
      = map (\<lambda>k. mlk_scalar_decompress_d10 (mlk_scalar_compress_d10 (p ! (4 * j + k)))) [0..<4]" if "j < 64" for j
  proof -
    have n: "mlk_poly_compress_d10 p ! (5 * j + k) = compress_d10_block p j ! k" if "k < 5" for k
      unfolding mlk_poly_compress_d10_def using \<open>j < 64\<close> that
      by (intro nth_concat_blocks) (auto simp: MLKEM_N_def compress_d10_block_def Let_def)
    have t: "mlk_scalar_compress_d10 (p ! (4 * j + k)) = take_bit 10 (mlk_scalar_compress_d10 (p ! (4 * j + k)))" if "k < 4" for k
      using canonical_nth [OF assms, of "4 * j + k"] that \<open>j < 64\<close> by (intro scalar_compress_bits) auto
    show ?thesis
      unfolding decompress_d10_block_def Let_def
      using n [of 0] n [of 1] n [of 2] n [of 3] n [of 4] unpack_d10 [OF t [of 0] t [of 1] t [of 2] t [of 3]]
      by (simp add: compress_d10_block_def Let_def upt_rec numeral_3_eq_3)
  qed
  show ?thesis
    unfolding mlk_poly_decompress_d10_def
    by (rule concat_blocks_eq [where w = 4]) (use blk canonical_length [OF assms] in \<open>auto simp: MLKEM_N_def\<close>)
qed

lemma compress_d4_nth:
  assumes "i < 128"
  shows "mlk_poly_compress_d4 p ! i = mlk_scalar_compress_d4 (p ! (2 * i)) OR push_bit 4 (mlk_scalar_compress_d4 (p ! (2 * i + 1)))"
proof -
  have "mlk_poly_compress_d4 p ! (4 * (i div 4) + i mod 4) = compress_d4_block p (i div 4) ! (i mod 4)"
    unfolding mlk_poly_compress_d4_def using assms by (intro nth_concat_blocks) (auto simp: MLKEM_N_def compress_d4_block_def Let_def)
  moreover have "compress_d4_block p q ! r
      = mlk_scalar_compress_d4 (p ! (8 * q + 2 * r)) OR push_bit 4 (mlk_scalar_compress_d4 (p ! (8 * q + (2 * r + 1))))" if "r < 4" for q r
  proof -
    have "r \<in> {0, 1, 2, 3}" using that by auto
    then show ?thesis by (auto simp: compress_d4_block_def Let_def eval_nat_numeral)
  qed
  moreover have "8 * (i div 4) + 2 * (i mod 4) = 2 * i" "8 * (i div 4) + (2 * (i mod 4) + 1) = 2 * i + 1" by presburger+
  ultimately show ?thesis by simp
qed

lemma decompress_compress_d4:
  assumes "canonical p"
  shows "mlk_poly_decompress_d4 (mlk_poly_compress_d4 p) = map (\<lambda>u. mlk_scalar_decompress_d4 (mlk_scalar_compress_d4 u)) p"
proof -
  let ?f = "\<lambda>u. mlk_scalar_decompress_d4 (mlk_scalar_compress_d4 u)"
  have blk: "[mlk_scalar_decompress_d4 (mlk_poly_compress_d4 p ! i AND 0xF), mlk_scalar_decompress_d4 (drop_bit 4 (mlk_poly_compress_d4 p ! i) AND 0xF)]
      = map (\<lambda>k. map ?f p ! (2 * i + k)) [0..<2]" if "i < 128" for i
  proof -
    have t: "mlk_scalar_compress_d4 (p ! j) = take_bit 4 (mlk_scalar_compress_d4 (p ! j))" if "j < 256" for j
      using canonical_nth [OF assms that] by (intro scalar_compress_bits) auto
    have "[0..<2] = [0, 1 :: nat]" by (simp add: upt_rec)
    then show ?thesis
      unfolding compress_d4_nth [OF that] using unpack_d4 [OF t t, of "2 * i" "2 * i + 1"] that canonical_length [OF assms] by simp
  qed
  show ?thesis
    unfolding mlk_poly_decompress_d4_def
    by (rule concat_blocks_eq [where w = 2]) (use blk canonical_length [OF assms] in \<open>simp_all add: MLKEM_N_def\<close>)
qed

lemma compress_decompress_d10:
  assumes "length b = 320"
  shows "mlk_poly_compress_d10 (mlk_poly_decompress_d10 b) = b"
proof -
  have blk: "compress_d10_block (mlk_poly_decompress_d10 b) j = map (\<lambda>k. b ! (5 * j + k)) [0..<5]" if "j < 64" for j
  proof -
    have n: "mlk_poly_decompress_d10 b ! (4 * j + k) = decompress_d10_block b j ! k" if "k < 4" for k
      unfolding mlk_poly_decompress_d10_def using \<open>j < 64\<close> that
      by (intro nth_concat_blocks) (auto simp: MLKEM_N_def decompress_d10_block_def Let_def)
    have rt: "mlk_scalar_compress_d10 (mlk_scalar_decompress_d10 (0x3FF AND w)) = 0x3FF AND w" for w
    proof -
      have "uint (0x3FF AND w) < 1024"
        using take_bit_int_less_exp [of 10 "uint w"] by (simp add: and.commute [of "0x3FF"] and_mask_low unsigned_take_bit_eq)
      then show ?thesis
        using scalar_compress(4) scalar_decompress(3) [of "0x3FF AND w"] compress_decompress_q [of 10 "uint (0x3FF AND w)"]
        by (simp add: word_uint_eq_iff)
    qed
    have t: "mlk_poly_decompress_d10 b ! (4 * j + 0) = mlk_scalar_decompress_d10 (0x3FF AND (ucast (b ! (5 * j + 0)) OR push_bit 8 (ucast (b ! (5 * j + 1)))))"
      "mlk_poly_decompress_d10 b ! (4 * j + 1) = mlk_scalar_decompress_d10 (0x3FF AND (drop_bit 2 (ucast (b ! (5 * j + 1))) OR push_bit 6 (ucast (b ! (5 * j + 2)))))"
      "mlk_poly_decompress_d10 b ! (4 * j + 2) = mlk_scalar_decompress_d10 (0x3FF AND (drop_bit 4 (ucast (b ! (5 * j + 2))) OR push_bit 4 (ucast (b ! (5 * j + 3)))))"
      "mlk_poly_decompress_d10 b ! (4 * j + 3) = mlk_scalar_decompress_d10 (0x3FF AND (drop_bit 6 (ucast (b ! (5 * j + 3))) OR push_bit 2 (ucast (b ! (5 * j + 4)))))"
      using n [of 0] n [of 1] n [of 2] n [of 3] by (simp_all add: decompress_d10_block_def Let_def)
    have "[0..<5] = [0, 1, 2, 3, 4 :: nat]" by (simp add: upt_rec)
    then show ?thesis unfolding compress_d10_block_def Let_def t rt repack_d10 by (simp only: list.map)
  qed
  show ?thesis
    unfolding mlk_poly_compress_d10_def
    by (rule concat_blocks_eq [where w = 5]) (use blk assms in \<open>auto simp: MLKEM_N_def\<close>)
qed

lemma compress_decompress_d4:
  assumes "length c = 128"
  shows "mlk_poly_compress_d4 (mlk_poly_decompress_d4 c) = c"
proof (rule nth_equalityI)
  show "length (mlk_poly_compress_d4 (mlk_poly_decompress_d4 c)) = length c"
    using assms length_concat_blocks [of 32 "compress_d4_block (mlk_poly_decompress_d4 c)" 4]
    by (simp add: mlk_poly_compress_d4_def MLKEM_N_def compress_d4_block_def Let_def)
  then show "mlk_poly_compress_d4 (mlk_poly_decompress_d4 c) ! i = c ! i" if "i < length (mlk_poly_compress_d4 (mlk_poly_decompress_d4 c))" for i
  proof -
    have i: "i < 128" using that assms \<open>length (mlk_poly_compress_d4 _) = _\<close> by simp
    let ?g = "\<lambda>i. [mlk_scalar_decompress_d4 (c ! i AND 0xF), mlk_scalar_decompress_d4 (drop_bit 4 (c ! i) AND 0xF)]"
    have n: "mlk_poly_decompress_d4 c ! (2 * i + k) = ?g i ! k" if "k < 2" for k
      unfolding mlk_poly_decompress_d4_def using i that by (intro nth_concat_blocks) (auto simp: MLKEM_N_def)
    have rt: "mlk_scalar_compress_d4 (mlk_scalar_decompress_d4 (w AND 0xF)) = w AND 0xF" for w
    proof -
      have "uint (w AND 0xF) < 16"
        using take_bit_int_less_exp [of 4 "uint w"] by (simp add: and_mask_low unsigned_take_bit_eq)
      then show ?thesis
        using scalar_compress(2) scalar_decompress(1) [of "w AND 0xF"] compress_decompress_q [of 4 "uint (w AND 0xF)"]
        by (simp add: word_uint_eq_iff)
    qed
    have t: "mlk_poly_decompress_d4 c ! (2 * i) = mlk_scalar_decompress_d4 (c ! i AND 0xF)"
      "mlk_poly_decompress_d4 c ! (2 * i + 1) = mlk_scalar_decompress_d4 (drop_bit 4 (c ! i) AND 0xF)"
      using n [of 0] n [of 1] by simp_all
    show ?thesis unfolding compress_d4_nth [OF i] t rt repack_d4 ..
  qed
qed

text \<open>
  Packing of compressed coefficients, the ciphertext format: decompressing a compressed
  canonical polynomial applies the scalar functions coefficient by coefficient, and every byte
  string of the right length is recovered exactly by decompressing and compressing it, so that
  re-encryption can be compared with a received ciphertext byte by byte.
\<close>

theorem poly_compress_roundtrip:
  assumes "canonical p" and "length b = MLKEM_POLYCOMPRESSEDBYTES_DU" and "length c = MLKEM_POLYCOMPRESSEDBYTES_DV"
  shows "mlk_poly_decompress_d10 (mlk_poly_compress_d10 p) = map (\<lambda>u. mlk_scalar_decompress_d10 (mlk_scalar_compress_d10 u)) p
    \<and> mlk_poly_decompress_d4 (mlk_poly_compress_d4 p) = map (\<lambda>u. mlk_scalar_decompress_d4 (mlk_scalar_compress_d4 u)) p
    \<and> mlk_poly_compress_d10 (mlk_poly_decompress_d10 b) = b \<and> mlk_poly_compress_d4 (mlk_poly_decompress_d4 c) = c"
  using assms by (simp add: decompress_compress_d10 decompress_compress_d4 compress_decompress_d10 compress_decompress_d4
      MLKEM_POLYCOMPRESSEDBYTES_DU_def MLKEM_POLYCOMPRESSEDBYTES_DV_def)

theorem poly_compress_roundtrip_witness:
  "mlk_poly_compress_d10 (mlk_poly_decompress_d10 (replicate 320 200)) = replicate 320 200"
  using poly_compress_roundtrip [of "replicate 256 0" "replicate 320 200" "replicate 128 0"]
  by (simp add: canonical_def MLKEM_N_def MLKEM_Q_def MLKEM_POLYCOMPRESSEDBYTES_DU_def MLKEM_POLYCOMPRESSEDBYTES_DV_def)

section \<open>Messages\<close>

lemma and_push_bit_1: "m AND push_bit j 1 = (if bit m j then push_bit j 1 else 0)" for m :: byte
  by (rule bit_word_eqI) (auto simp: bit_simps)

lemma frommsg_coeff: "j < 8 \<Longrightarrow> frommsg_coeff m j = (if bit m j then 1665 else 0)"
proof -
  assume j: "j < 8"
  have "bit (push_bit j (1 :: byte)) j" using j by (simp add: bit_simps)
  then have "push_bit j (1 :: byte) \<noteq> 0" using j by auto
  then show ?thesis
    unfolding frommsg_coeff_def mlk_value_barrier_u8_def Let_def xor.right_neutral and_push_bit_1
    by (simp add: ct_sel_int16 is_i16_def mlk_q ucast_0_iff)
qed

lemma frommsg_nth:
  assumes "i < 32" and "j < 8"
  shows "mlk_poly_frommsg msg ! (8 * i + j) = (if bit (msg ! i) j then 1665 else 0)"
proof -
  have "mlk_poly_frommsg msg ! (8 * i + j) = map (frommsg_coeff (msg ! i)) [0..<8] ! j"
    unfolding mlk_poly_frommsg_def using assms by (intro nth_concat_blocks) (auto simp: MLKEM_N_def)
  then show ?thesis using assms(2) by (simp add: frommsg_coeff)
qed

lemma compress_d1_noise:
  assumes "\<bar>e\<bar> \<le> 831" and "u = ((if b then 1665 else 0) + e) mod 3329"
  shows "mlk_scalar_compress_d1 u = of_bool b"
proof -
  have u: "0 \<le> u" "u < 3329" using assms(2) by auto
  have "u = (if b then 1665 + e else if 0 \<le> e then e else e + 3329)"
    using assms mod_pos_pos_trivial [of "e + 3329" 3329] by (auto simp: abs_le_iff)
  then have "(u * 2 + 1664) div 3329 mod 2 = of_bool b"
    using assms(1) int_div_pos_eq [of "u * 2 + 1664" 3329 "of_bool b + of_bool (\<not> b \<and> e < 0) * 2" "u * 2 + 1664 - 3329 * (of_bool b + of_bool (\<not> b \<and> e < 0) * 2)"]
    by (cases b; cases "0 \<le> e") auto
  then show ?thesis using scalar_compress(1) [OF u] by (simp add: word_uint_eq_iff compress_q_def)
qed

lemma or_bits_byte:
  "foldl (\<lambda>m j. m OR push_bit j (of_bool (bit (x :: byte) j))) (0 :: byte) [0..<8] = x"
proof (rule bit_word_eqI)
  fix n assume "n < LENGTH(8)"
  then have n: "n \<in> {0, 1, 2, 3, 4, 5, 6, 7}" by auto
  have u: "[0..<8] = [0, 1, 2, 3, 4, 5, 6, 7 :: nat]" by (simp add: upt_rec)
  show "bit (foldl (\<lambda>m j. m OR push_bit j (of_bool (bit x j))) (0 :: byte) [0..<8]) n = bit x n"
    unfolding u foldl.simps using n by (elim insertE emptyE; simp add: bit_simps)
qed

lemma tomsg_noise:
  assumes "length msg = MLKEM_INDCPA_MSGBYTES"
    and "\<forall>k < MLKEM_N. \<exists>e. \<bar>e\<bar> \<le> 831 \<and> r ! k = (mlk_poly_frommsg msg ! k + e) mod MLKEM_Q"
  shows "mlk_poly_tomsg r = msg"
proof (rule nth_equalityI)
  have len: "length msg = 32" using assms(1) by (simp add: mlk_sizes)
  then show "length (mlk_poly_tomsg r) = length msg" by (simp add: mlk_poly_tomsg_def MLKEM_N_def)
  fix i assume "i < length (mlk_poly_tomsg r)"
  then have i: "i < 32" by (simp add: mlk_poly_tomsg_def MLKEM_N_def)
  have c: "mlk_scalar_compress_d1 (r ! (8 * i + j)) = of_bool (bit (msg ! i) j)" if j: "j < 8" for j
  proof -
    have "8 * i + j < MLKEM_N" using i j by (simp add: MLKEM_N_def)
    then obtain e where e: "\<bar>e\<bar> \<le> 831" "r ! (8 * i + j) = (mlk_poly_frommsg msg ! (8 * i + j) + e) mod MLKEM_Q"
      using assms(2) by blast
    show ?thesis by (rule compress_d1_noise [OF e(1) e(2) [unfolded frommsg_nth [OF i j] MLKEM_Q_def]])
  qed
  have "mlk_poly_tomsg r ! i = foldl (\<lambda>m j. m OR push_bit j (mlk_scalar_compress_d1 (r ! (8 * i + j)))) 0 [0..<8]"
    using i by (simp add: mlk_poly_tomsg_def MLKEM_N_def)
  also have "\<dots> = foldl (\<lambda>m j. m OR push_bit j (of_bool (bit (msg ! i) j))) 0 [0..<8]"
    by (rule foldl_cong) (auto simp: c)
  finally show "mlk_poly_tomsg r ! i = msg ! i" unfolding or_bits_byte .
qed

text \<open>
  Message decoding tolerates noise: if every coefficient differs from the encoded message by at
  most 831 modulo \<open>q\<close>, just under a quarter of \<open>q\<close>, the message is recovered exactly.
\<close>

theorem tomsg_frommsg_noise:
  assumes "length msg = MLKEM_INDCPA_MSGBYTES"
    and "\<forall>k < MLKEM_N. \<exists>e. \<bar>e\<bar> \<le> 831 \<and> r ! k = (mlk_poly_frommsg msg ! k + e) mod MLKEM_Q"
  shows "mlk_poly_tomsg r = msg"
  using assms by (rule tomsg_noise)

theorem tomsg_frommsg_noise_witness:
  "mlk_poly_tomsg (map (\<lambda>c. (c + 800) mod 3329) (mlk_poly_frommsg (replicate 32 165))) = replicate 32 165"
proof -
  have "length (mlk_poly_frommsg (replicate 32 165)) = 256"
    using length_concat_blocks [of 32 "\<lambda>i. map (frommsg_coeff (replicate 32 165 ! i)) [0..<8]" 8]
    by (simp add: mlk_poly_frommsg_def MLKEM_N_def)
  then show ?thesis
    by (intro tomsg_frommsg_noise) (auto simp: mlk_sizes MLKEM_Q_def intro!: exI [of _ 800])
qed

end
