(* ===== verification/Mlk_Sampling.thy ===== *)
theory Mlk_Sampling
  imports Mlk_Fips202 Mlk_Compress
begin

text \<open>
  \<open>mlkem_native/src/sampling.c\<close>: rejection sampling of uniform polynomials from SHAKE128 output and
  sampling from the centered binomial distribution. The output polynomial is an array that is
  updated in place, so it is passed in and returned. The loop that squeezes further blocks until
  256 coefficients are found has no bound in the source; it is a partial function, with \<open>None\<close> for
  a run that does not end. \<open>mlk_poly_cbd3\<close> is the sampler of the parameter set 512, which the
  source holds beside the one for 768.
\<close>

section \<open>The program\<close>

subsection \<open>Rejection sampling\<close>

function rej_uniform_loop :: "poly \<Rightarrow> nat \<Rightarrow> nat \<Rightarrow> bytes \<Rightarrow> nat \<Rightarrow> nat \<Rightarrow> poly \<times> nat" where
  "rej_uniform_loop r target ctr buf pos buflen =
     (if ctr < target \<and> pos + 3 \<le> buflen
      then let val0 = uint ((drop_bit 0 (ucast (buf ! (pos + 0))) OR push_bit 8 (ucast (buf ! (pos + 1)))) AND 0xFFF :: u32);
               val1 = uint ((drop_bit 4 (ucast (buf ! (pos + 1))) OR push_bit 4 (ucast (buf ! (pos + 2)))) AND 0xFFF :: u32);
               (r, ctr) = (if val0 < MLKEM_Q then (r[ctr := val0], ctr + 1) else (r, ctr));
               (r, ctr) = (if ctr < target \<and> val1 < MLKEM_Q then (r[ctr := val1], ctr + 1) else (r, ctr))
           in rej_uniform_loop r target ctr buf (pos + 3) buflen
      else (r, ctr))"
  by pat_completeness auto
termination by (relation "measure (\<lambda>(r, target, ctr, buf, pos, buflen). buflen - pos)") auto

declare rej_uniform_loop.simps [simp del]

definition mlk_rej_uniform :: "poly \<Rightarrow> nat \<Rightarrow> nat \<Rightarrow> bytes \<Rightarrow> nat \<Rightarrow> poly \<times> nat" where
  "mlk_rej_uniform r target offset buf buflen = rej_uniform_loop r target offset buf 0 buflen"

definition MLKEM_GEN_MATRIX_NBLOCKS :: nat where
  "MLKEM_GEN_MATRIX_NBLOCKS = (12 * MLKEM_N div 8 * 2 ^ 12 div nat MLKEM_Q + MLK_XOF_RATE) div MLK_XOF_RATE"

partial_function (option) rej_uniform_blocks :: "poly \<Rightarrow> nat \<Rightarrow> u64 list \<Rightarrow> poly option" where
  "rej_uniform_blocks entry ctr state =
     (if ctr < MLKEM_N
      then let (buf, state) = mlk_xof_squeezeblocks 1 state;
               (entry, ctr) = mlk_rej_uniform entry MLKEM_N ctr buf MLK_XOF_RATE
           in rej_uniform_blocks entry ctr state
      else Some entry)"

definition mlk_poly_rej_uniform :: "poly \<Rightarrow> bytes \<Rightarrow> poly option" where
  "mlk_poly_rej_uniform entry seed =
     (let state = mlk_xof_absorb (take (MLKEM_SYMBYTES + 2) seed);
          (buf, state) = mlk_xof_squeezeblocks MLKEM_GEN_MATRIX_NBLOCKS state;
          (entry, ctr) = mlk_rej_uniform entry MLKEM_N 0 buf (MLKEM_GEN_MATRIX_NBLOCKS * MLK_XOF_RATE)
      in rej_uniform_blocks entry ctr state)"

definition rej_uniform_each :: "poly list \<Rightarrow> nat list \<Rightarrow> bytes list \<Rightarrow> nat \<Rightarrow> poly list \<times> nat list" where
  "rej_uniform_each vec ctr buf buflen =
     (let res = map (\<lambda>k. mlk_rej_uniform (vec ! k) MLKEM_N (ctr ! k) (buf ! k) buflen) [0..<4] in (map fst res, map snd res))"

partial_function (option) rej_uniform_blocks_x4 :: "poly list \<Rightarrow> nat list \<Rightarrow> u64 list list \<Rightarrow> poly list option" where
  "rej_uniform_blocks_x4 vec ctr statex =
     (if ctr ! 0 < MLKEM_N \<or> ctr ! 1 < MLKEM_N \<or> ctr ! 2 < MLKEM_N \<or> ctr ! 3 < MLKEM_N
      then let (buf, statex) = mlk_xof_x4_squeezeblocks 1 statex;
               (vec, ctr) = rej_uniform_each vec ctr buf MLK_XOF_RATE
           in rej_uniform_blocks_x4 vec ctr statex
      else Some vec)"

definition mlk_poly_rej_uniform_x4 :: "poly list \<Rightarrow> bytes list \<Rightarrow> poly list option" where
  "mlk_poly_rej_uniform_x4 vec seed =
     (let statex = mlk_xof_x4_absorb (map (take (MLKEM_SYMBYTES + 2)) seed) (MLKEM_SYMBYTES + 2);
          (buf, statex) = mlk_xof_x4_squeezeblocks MLKEM_GEN_MATRIX_NBLOCKS statex;
          (vec, ctr) = rej_uniform_each vec (replicate 4 0) buf (MLKEM_GEN_MATRIX_NBLOCKS * MLK_XOF_RATE)
      in rej_uniform_blocks_x4 vec ctr statex)"

subsection \<open>The centered binomial distribution\<close>

definition mlk_load32_littleendian :: "bytes \<Rightarrow> u32" where
  "mlk_load32_littleendian x =
     ucast (x ! 0) OR push_bit 8 (ucast (x ! 1)) OR push_bit 16 (ucast (x ! 2)) OR push_bit 24 (ucast (x ! 3))"

definition mlk_poly_cbd2 :: "bytes \<Rightarrow> poly" where
  "mlk_poly_cbd2 buf = concat (map (\<lambda>i.
     let t = mlk_load32_littleendian (drop (4 * i) buf);
         d = t AND 0x55555555;
         d = d + (drop_bit 1 t AND 0x55555555)
     in map (\<lambda>j. let a = uint (drop_bit (4 * j + 0) d AND 0x3);
                     b = uint (drop_bit (4 * j + 2) d AND 0x3)
                 in a - b) [0..<8]) [0..<MLKEM_N div 8])"

definition mlk_load24_littleendian :: "bytes \<Rightarrow> u32" where
  "mlk_load24_littleendian x = ucast (x ! 0) OR push_bit 8 (ucast (x ! 1)) OR push_bit 16 (ucast (x ! 2))"

definition mlk_poly_cbd3 :: "bytes \<Rightarrow> poly" where
  "mlk_poly_cbd3 buf = concat (map (\<lambda>i.
     let t = mlk_load24_littleendian (drop (3 * i) buf);
         d = t AND 0x00249249;
         d = d + (drop_bit 1 t AND 0x00249249);
         d = d + (drop_bit 2 t AND 0x00249249)
     in map (\<lambda>j. let a = uint (drop_bit (6 * j + 0) d AND 0x7);
                     b = uint (drop_bit (6 * j + 3) d AND 0x7)
                 in a - b) [0..<4]) [0..<MLKEM_N div 4])"

section \<open>Rejection sampling accepts the candidates below q, in order\<close>

text \<open>
  FIPS 203, algorithm 7: three bytes give two 12-bit candidates; the candidates below 3329 are kept
  in the order of the stream.
\<close>

fun candidates :: "bytes \<Rightarrow> int list" where
  "candidates (b0 # b1 # b2 # bs) =
     [uint b0 + 256 * (uint b1 mod 16), uint b1 div 16 + 16 * uint b2] @ candidates bs"
| "candidates _ = []"

definition accepted :: "bytes \<Rightarrow> int list" where
  "accepted bs = filter (\<lambda>d. d < 3329) (candidates bs)"

lemma candidates_append: "3 dvd length a \<Longrightarrow> candidates (a @ b) = candidates a @ candidates b"
proof (induction a rule: candidates.induct)
  case (1 b0 b1 b2 bs)
  have "length (b0 # b1 # b2 # bs) = 3 + length bs" by simp
  then have "3 dvd length bs" using 1 (2) by (metis dvd_add_triv_left_iff)
  then show ?case using 1 (1) by simp
qed (auto dest: dvd_imp_le)

lemma accepted_append: "3 dvd length a \<Longrightarrow> accepted (a @ b) = accepted a @ accepted b"
  by (simp add: accepted_def candidates_append)

lemma accepted_short: "length bs < 3 \<Longrightarrow> accepted bs = []"
  by (cases bs rule: candidates.cases) (auto simp: accepted_def)

lemma candidates_nonneg: "d \<in> set (candidates bs) \<Longrightarrow> 0 \<le> d"
  by (induction bs rule: candidates.induct) (auto simp: pos_imp_zdiv_nonneg_iff)

lemma accepted_range: "d \<in> set (accepted bs) \<Longrightarrow> 0 \<le> d \<and> d < MLKEM_Q"
  by (auto simp: accepted_def MLKEM_Q_def dest: candidates_nonneg)

lemma candidate_values:
  "uint ((drop_bit 0 (ucast b0) OR push_bit 8 (ucast b1)) AND 0xFFF :: u32) = uint (b0 :: byte) + 256 * (uint (b1 :: byte) mod 16)"
  "uint ((drop_bit 4 (ucast b1) OR push_bit 4 (ucast b2)) AND 0xFFF :: u32) = uint b1 div 16 + 16 * uint (b2 :: byte)"
proof -
  have m: "(0xFFF :: u32) = mask 12" by (simp add: mask_eq_exp_minus_1)
  have w: "\<not> bit b n" if "8 \<le> n" for b :: byte and n using that bit_imp_le_length [of b n] by auto
  have "uint b0 + 256 * (uint b1 mod 16) = uint b0 + push_bit 8 (take_bit 4 (uint b1))"
    by (simp add: push_bit_eq_mult take_bit_eq_mod)
  also have "\<dots> = uint b0 OR push_bit 8 (take_bit 4 (uint b1))"
    by (rule disjunctive_add_eq_or) (auto simp: bit_eq_iff bit_simps w)
  also have "\<dots> = uint ((drop_bit 0 (ucast b0) OR push_bit 8 (ucast b1)) AND 0xFFF :: u32)"
    unfolding m by (rule bit_eqI) (auto simp: bit_simps w dest: bit_imp_le_length)
  finally show "uint ((drop_bit 0 (ucast b0) OR push_bit 8 (ucast b1)) AND 0xFFF :: u32) = uint b0 + 256 * (uint b1 mod 16)" ..
  have "uint b1 div 16 + 16 * uint b2 = drop_bit 4 (uint b1) + push_bit 4 (uint b2)"
    by (simp add: push_bit_eq_mult drop_bit_eq_div)
  also have "\<dots> = drop_bit 4 (uint b1) OR push_bit 4 (uint b2)"
    by (rule disjunctive_add_eq_or) (auto simp: bit_eq_iff bit_simps w)
  also have "\<dots> = uint ((drop_bit 4 (ucast b1) OR push_bit 4 (ucast b2)) AND 0xFFF :: u32)"
    unfolding m by (rule bit_eqI) (auto simp: bit_simps w dest: bit_imp_le_length)
  finally show "uint ((drop_bit 4 (ucast b1) OR push_bit 4 (ucast b2)) AND 0xFFF :: u32) = uint b1 div 16 + 16 * uint b2" ..
qed

text \<open>\<open>filled\<close>: the first \<open>n\<close> entries of the array are the first \<open>n\<close> of the list, and \<open>n\<close> is as much of the list as fits.\<close>

definition filled :: "nat \<Rightarrow> int list \<Rightarrow> poly \<times> nat \<Rightarrow> bool" where
  "filled target xs s \<longleftrightarrow> target \<le> length (fst s) \<and> snd s = min target (length xs) \<and> take (snd s) (fst s) = take target xs"

lemma filled_keep:
  assumes "filled target xs (r, ctr)" "ctr < target"
  shows "filled target (xs @ [v]) (r[ctr := v], ctr + 1)"
proof -
  have c: "ctr = length xs" "ctr < length r" using assms by (auto simp: filled_def min_def split: if_splits)
  have "take (Suc ctr) (r[ctr := v]) = take ctr r @ [v]" using c (2) by (simp add: take_Suc_conv_app_nth)
  then show ?thesis using assms c by (auto simp: filled_def)
qed

lemma filled_full: "filled target xs (r, ctr) \<Longrightarrow> \<not> ctr < target \<Longrightarrow> filled target (xs @ ys) (r, ctr)"
  by (auto simp: filled_def)

lemma filled_maybe:
  assumes "filled target xs (r, ctr)"
  shows "filled target (xs @ (if v < MLKEM_Q then [v] else []))
    (if ctr < target \<and> v < MLKEM_Q then (r[ctr := v], ctr + 1) else (r, ctr))"
  using filled_keep [OF assms] filled_full [OF assms] assms by auto

lemma rej_uniform_loop_spec:
  "filled target xs (r, ctr) \<Longrightarrow> buflen \<le> length buf \<Longrightarrow>
     filled target (xs @ accepted (drop pos (take buflen buf))) (rej_uniform_loop r target ctr buf pos buflen)"
proof (induction r target ctr buf pos buflen arbitrary: xs rule: rej_uniform_loop.induct)
  case (1 r target ctr buf pos buflen)
  show ?case
  proof (cases "ctr < target \<and> pos + 3 \<le> buflen")
    case True
    define v0 where "v0 = uint ((drop_bit 0 (ucast (buf ! (pos + 0))) OR push_bit 8 (ucast (buf ! (pos + 1)))) AND 0xFFF :: u32)"
    define v1 where "v1 = uint ((drop_bit 4 (ucast (buf ! (pos + 1))) OR push_bit 4 (ucast (buf ! (pos + 2)))) AND 0xFFF :: u32)"
    have "drop pos (take buflen buf) = buf ! pos # buf ! (pos + 1) # buf ! (pos + 2) # drop (pos + 3) (take buflen buf)"
      using True \<open>buflen \<le> length buf\<close> by (simp add: Cons_nth_drop_Suc [symmetric] numeral_2_eq_2 numeral_3_eq_3)
    then have acc: "accepted (drop pos (take buflen buf)) =
        (if v0 < MLKEM_Q then [v0] else []) @ (if v1 < MLKEM_Q then [v1] else []) @ accepted (drop (pos + 3) (take buflen buf))"
      by (simp add: accepted_def MLKEM_Q_def v0_def v1_def candidate_values [simplified])
    obtain r0 c0 where e0: "(if v0 < MLKEM_Q then (r[ctr := v0], ctr + 1) else (r, ctr)) = (r0, c0)" by force
    obtain r1 c1 where e1: "(if c0 < target \<and> v1 < MLKEM_Q then (r0[c0 := v1], c0 + 1) else (r0, c0)) = (r1, c1)" by force
    have "filled target (xs @ (if v0 < MLKEM_Q then [v0] else [])) (r0, c0)"
      using filled_maybe [OF 1 (2), of v0] e0 True by simp
    from filled_maybe [OF this, of v1] e1
    have f: "filled target ((xs @ (if v0 < MLKEM_Q then [v0] else [])) @ (if v1 < MLKEM_Q then [v1] else [])) (r1, c1)" by simp
    have "rej_uniform_loop r target ctr buf pos buflen = rej_uniform_loop r1 target c1 buf (pos + 3) buflen"
      unfolding rej_uniform_loop.simps [of r target ctr buf pos buflen] v0_def [symmetric] v1_def [symmetric]
      by (simp only: True if_True simp_thms Let_def e0 e1 prod.case)
    then show ?thesis
      using 1 (1) [OF True v0_def v1_def _ refl _ refl f \<open>buflen \<le> length buf\<close>] e0 e1 acc by simp
  next
    case False
    then have "rej_uniform_loop r target ctr buf pos buflen = (r, ctr)"
      by (subst rej_uniform_loop.simps) (simp only: False if_False)
    moreover have "accepted (drop pos (take buflen buf)) = []" if "buflen < pos + 3"
      using that \<open>buflen \<le> length buf\<close> by (intro accepted_short) auto
    ultimately show ?thesis using False 1 (2,3) filled_full [OF 1 (2)] by (cases "buflen < pos + 3") auto
  qed
qed

text \<open>The output stream: \<open>k\<close> blocks of it, what is accepted in them, and the state after them.\<close>

abbreviation xof_blocks :: "u64 list \<Rightarrow> nat \<Rightarrow> bytes" where
  "xof_blocks s k \<equiv> fst (mlk_xof_squeezeblocks k s)"

abbreviation xof_state :: "u64 list \<Rightarrow> nat \<Rightarrow> u64 list" where
  "xof_state s k \<equiv> snd (mlk_xof_squeezeblocks k s)"

lemma xof_Suc:
  "xof_blocks s (Suc k) = xof_blocks s k @ xof_blocks (xof_state s k) 1" "xof_state (xof_state s k) 1 = xof_state s (Suc k)"
  unfolding mlk_xof_squeezeblocks_def mlk_shake128_squeezeblocks_def
  by (simp_all only: squeezeblocks_Suc [of k] Let_def split_beta fst_conv snd_conv)

lemma xof_length: "length (xof_blocks s k) = k * 168"
  by (simp add: mlk_xof_squeezeblocks_def mlk_shake128_squeezeblocks_def squeezeblocks_squeeze length_squeeze_once keccak_rates)

lemma xof_sponge: "xof_blocks (mlk_xof_absorb seed) k = sponge 168 0x1F (k * 168) seed"
  by (simp add: mlk_xof_squeezeblocks_def mlk_xof_absorb_def mlk_shake128_squeezeblocks_def mlk_shake128_absorb_once_def
      squeezeblocks_squeeze sponge_once keccak_rates)

lemma xof_accepted_Suc: "accepted (xof_blocks s (Suc k)) = accepted (xof_blocks s k) @ accepted (xof_blocks (xof_state s k) 1)"
proof -
  have "3 dvd length (xof_blocks s k)" using dvd_triv_right [of 3 "k * 56"] by (simp only: xof_length) simp
  then show ?thesis by (simp only: xof_Suc (1) accepted_append)
qed

lemma xof_accepted_mono: "k \<le> j \<Longrightarrow> \<exists>xs. accepted (xof_blocks s j) = accepted (xof_blocks s k) @ xs"
proof (induction j rule: dec_induct)
  case (step j)
  then show ?case using xof_accepted_Suc [where s = s and k = j] by fastforce
qed simp

lemma xof_accepted_take:
  assumes "k \<le> j" "n \<le> length (accepted (xof_blocks s k))"
  shows "n \<le> length (accepted (xof_blocks s j))" "take n (accepted (xof_blocks s j)) = take n (accepted (xof_blocks s k))"
  using xof_accepted_mono [OF assms (1), of s] assms (2) by auto

text \<open>\<open>sampling k\<close>: what the array holds once \<open>k\<close> blocks have been looked at.\<close>

definition sampling :: "u64 list \<Rightarrow> nat \<Rightarrow> poly \<times> nat \<Rightarrow> bool" where
  "sampling s k x \<longleftrightarrow> filled 256 (accepted (xof_blocks s k)) x \<and> length (fst x) = 256"

lemma length_rej_uniform_loop: "length (fst (rej_uniform_loop r target ctr buf pos buflen)) = length r"
proof (induction r target ctr buf pos buflen rule: rej_uniform_loop.induct)
  case (1 r target ctr buf pos buflen)
  then show ?case by (subst rej_uniform_loop.simps) (simp add: Let_def split_beta)
qed

lemma rej_uniform_sampling:
  assumes "filled 256 xs (r, ctr)" "length r = 256" "length b = n"
  shows "filled 256 (xs @ accepted b) (mlk_rej_uniform r MLKEM_N ctr b n) \<and> length (fst (mlk_rej_uniform r MLKEM_N ctr b n)) = 256"
  using rej_uniform_loop_spec [OF assms (1), of n b 0] assms
  by (simp add: mlk_rej_uniform_def length_rej_uniform_loop MLKEM_N_def)

lemma sampling_Suc:
  assumes "sampling s k (r, ctr)"
  shows "sampling s (Suc k) (mlk_rej_uniform r MLKEM_N ctr (xof_blocks (xof_state s k) 1) MLK_XOF_RATE)"
  using assms rej_uniform_sampling [of _ r ctr "xof_blocks (xof_state s k) 1" MLK_XOF_RATE]
  unfolding sampling_def xof_accepted_Suc [where s = s and k = k] by (auto simp: xof_length MLK_XOF_RATE_def keccak_rates)

lemma sampling_start:
  assumes "length r = 256"
  shows "sampling s MLKEM_GEN_MATRIX_NBLOCKS
    (mlk_rej_uniform r MLKEM_N 0 (xof_blocks s MLKEM_GEN_MATRIX_NBLOCKS) (MLKEM_GEN_MATRIX_NBLOCKS * MLK_XOF_RATE))"
  using assms rej_uniform_sampling [of "[]" r 0 "xof_blocks s MLKEM_GEN_MATRIX_NBLOCKS"]
  by (auto simp: sampling_def xof_length MLK_XOF_RATE_def keccak_rates filled_def)

lemma sampling_done:
  "sampling s k (r, ctr) \<Longrightarrow> ctr < MLKEM_N \<longleftrightarrow> length (accepted (xof_blocks s k)) < 256"
  "sampling s k (r, ctr) \<Longrightarrow> \<not> ctr < MLKEM_N \<Longrightarrow> r = take 256 (accepted (xof_blocks s k))"
  by (auto simp: sampling_def filled_def MLKEM_N_def)

lemma rej_uniform_blocks_Some:
  "rej_uniform_blocks entry ctr state = Some p \<Longrightarrow>
     \<forall>k. state = xof_state s k \<and> sampling s k (entry, ctr) \<longrightarrow>
       (\<exists>j \<ge> k. 256 \<le> length (accepted (xof_blocks s j)) \<and> p = take 256 (accepted (xof_blocks s j)))"
proof (induction entry ctr state p rule: rej_uniform_blocks.raw_induct [rotated 1, consumes 1])
  case (1 f entry ctr state p)
  show ?case
  proof (intro allI impI, elim conjE)
    fix k assume state: "state = xof_state s k" and inv: "sampling s k (entry, ctr)"
    show "\<exists>j \<ge> k. 256 \<le> length (accepted (xof_blocks s j)) \<and> p = take 256 (accepted (xof_blocks s j))"
    proof (cases "ctr < MLKEM_N")
      case True
      obtain r' c' where r': "mlk_rej_uniform entry MLKEM_N ctr (xof_blocks state 1) MLK_XOF_RATE = (r', c')" by force
      have f: "f r' c' (xof_state s (Suc k)) = Some p"
        using 1 (2) True r' state xof_Suc (2) [where s = s and k = k] by (simp add: Let_def split_beta)
      have "sampling s (Suc k) (r', c')" using sampling_Suc [OF inv] r' state by simp
      then show ?thesis using 1 (1) [OF f, rule_format, of "Suc k"] by (meson Suc_leD)
    next
      case False
      then show ?thesis using 1 (2) sampling_done [OF inv] by auto
    qed
  qed
qed

lemma rej_uniform_blocks_returns:
  "256 \<le> length (accepted (xof_blocks s j)) \<Longrightarrow> k \<le> j \<Longrightarrow> sampling s k (entry, ctr) \<Longrightarrow>
     rej_uniform_blocks entry ctr (xof_state s k) = Some (take 256 (accepted (xof_blocks s j)))"
proof (induction "j - k" arbitrary: k entry ctr)
  case 0
  then show ?case using sampling_done [of s k entry ctr] by (subst rej_uniform_blocks.simps) auto
next
  case (Suc n)
  show ?case
  proof (cases "ctr < MLKEM_N")
    case True
    obtain r' c' where r': "mlk_rej_uniform entry MLKEM_N ctr (xof_blocks (xof_state s k) 1) MLK_XOF_RATE = (r', c')" by force
    have "sampling s (Suc k) (r', c')" using sampling_Suc [OF Suc.prems (3)] r' by simp
    then have "rej_uniform_blocks r' c' (xof_state s (Suc k)) = Some (take 256 (accepted (xof_blocks s j)))"
      using Suc by auto
    then show ?thesis using True r' xof_Suc (2) [where s = s and k = k] by (subst rej_uniform_blocks.simps) (simp add: Let_def split_beta)
  next
    case False
    then show ?thesis
      using sampling_done [OF Suc.prems (3)] xof_accepted_take [OF Suc.prems (2), of 256 s] by (subst rej_uniform_blocks.simps) auto
  qed
qed

lemma rej_uniform_iff:
  assumes "length entry = 256"
  shows "mlk_poly_rej_uniform entry seed = Some p \<longleftrightarrow>
    (\<exists>k \<ge> MLKEM_GEN_MATRIX_NBLOCKS. let acc = accepted (xof_blocks (mlk_xof_absorb (take 34 seed)) k) in 256 \<le> length acc \<and> p = take 256 acc)"
proof -
  let ?s = "mlk_xof_absorb (take 34 seed)" and ?n = MLKEM_GEN_MATRIX_NBLOCKS
  obtain r c where rc: "mlk_rej_uniform entry MLKEM_N 0 (xof_blocks ?s ?n) (?n * MLK_XOF_RATE) = (r, c)" by force
  have inv: "sampling ?s ?n (r, c)" using sampling_start [OF assms, of ?s] rc by simp
  have "mlk_poly_rej_uniform entry seed = rej_uniform_blocks r c (xof_state ?s ?n)"
    using rc by (simp add: mlk_poly_rej_uniform_def MLKEM_SYMBYTES_def Let_def split_beta)
  then show ?thesis
    using rej_uniform_blocks_Some [of r c "xof_state ?s ?n" p ?s] rej_uniform_blocks_returns [OF _ _ inv] inv
    by (auto simp: Let_def)
qed

text \<open>
  C37: Rejection sampling of a matrix entry returns exactly when the SHAKE128 stream of the seed
  holds, after some number of blocks, 256 candidates below q, and then returns the first 256 of them in
  the order of the stream (FIPS 203, algorithm 7): a result is a canonical polynomial, it does not
  depend on what the array held, nor on where the block boundaries fall.
\<close>

theorem poly_rej_uniform_spec:
  assumes "length entry = MLKEM_N" "length seed = MLKEM_SYMBYTES + 2"
  shows "(mlk_poly_rej_uniform entry seed = Some p \<longleftrightarrow>
      (\<exists>k. 256 \<le> length (accepted (sponge 168 0x1F (k * 168) seed)) \<and> p = take 256 (accepted (sponge 168 0x1F (k * 168) seed))))
    \<and> (mlk_poly_rej_uniform entry seed = Some p \<longrightarrow> canonical p)"
proof -
  have seed: "take 34 seed = seed" using assms (2) by (simp add: mlk_sizes)
  note iff = rej_uniform_iff [OF assms (1) [unfolded MLKEM_N_def], of seed p, unfolded seed Let_def]
  have later: "\<exists>j \<ge> MLKEM_GEN_MATRIX_NBLOCKS. 256 \<le> length (accepted (xof_blocks s j)) \<and>
      take 256 (accepted (xof_blocks s k)) = take 256 (accepted (xof_blocks s j))"
    if "256 \<le> length (accepted (xof_blocks s k))" for s k
    using xof_accepted_take [of k "max k MLKEM_GEN_MATRIX_NBLOCKS" 256 s] that by (metis max.cobounded1 max.cobounded2)
  have 1: "mlk_poly_rej_uniform entry seed = Some p \<longleftrightarrow>
      (\<exists>k. 256 \<le> length (accepted (xof_blocks (mlk_xof_absorb seed) k)) \<and> p = take 256 (accepted (xof_blocks (mlk_xof_absorb seed) k)))"
    unfolding iff using later [where s = "mlk_xof_absorb seed"] by blast
  moreover have "canonical p" if "mlk_poly_rej_uniform entry seed = Some p"
    using that 1 by (auto simp: canonical_def MLKEM_N_def dest!: in_set_takeD accepted_range)
  ultimately show ?thesis by (simp only: xof_sponge) blast
qed

lemma poly_rej_uniform_spec_witness:
  "\<forall>p. mlk_poly_rej_uniform (replicate 256 0) (replicate 34 7) = Some p \<longleftrightarrow>
      (\<exists>k. 256 \<le> length (accepted (sponge 168 0x1F (k * 168) (replicate 34 7))) \<and>
        p = take 256 (accepted (sponge 168 0x1F (k * 168) (replicate 34 7))))"
  using poly_rej_uniform_spec [of "replicate 256 0" "replicate 34 7"] by (simp add: mlk_sizes)

subsection \<open>Four at a time\<close>

lemma xof_x4:
  assumes "length s = 4"
  shows "mlk_xof_x4_squeezeblocks k s = (map (\<lambda>i. xof_blocks (s ! i) k) [0..<4], map (\<lambda>i. xof_state (s ! i) k) [0..<4])"
proof -
  note sq = squeezeblocks_x4 [OF _ assms, of _ k SHAKE128_RATE]
  show ?thesis
    unfolding mlk_xof_x4_squeezeblocks_def mlk_shake128x4_squeezeblocks_def mlk_xof_squeezeblocks_def mlk_shake128_squeezeblocks_def
    by (rule prod_eqI; rule nth_equalityI; use sq sq [of 0] in simp)
qed

definition sampling_x4 :: "u64 list list \<Rightarrow> nat \<Rightarrow> poly list \<times> nat list \<Rightarrow> bool" where
  "sampling_x4 s k x \<longleftrightarrow> length (fst x) = 4 \<and> length (snd x) = 4 \<and> (\<forall>i < 4. sampling (s ! i) k (fst x ! i, snd x ! i))"

definition accepted_x4 :: "u64 list list \<Rightarrow> nat \<Rightarrow> bool" where
  "accepted_x4 s k \<longleftrightarrow> (\<forall>i < 4. 256 \<le> length (accepted (xof_blocks (s ! i) k)))"

abbreviation first_x4 :: "u64 list list \<Rightarrow> nat \<Rightarrow> poly list" where
  "first_x4 s k \<equiv> map (\<lambda>i. take 256 (accepted (xof_blocks (s ! i) k))) [0..<4]"

lemma sampling_x4_Suc:
  assumes "sampling_x4 s k (vec, ctr)"
  shows "sampling_x4 s (Suc k) (rej_uniform_each vec ctr (map (\<lambda>i. xof_blocks (xof_state (s ! i) k) 1) [0..<4]) MLK_XOF_RATE)"
  using assms sampling_Suc [of "s ! i" k "vec ! i" "ctr ! i" for i]
  by (simp add: sampling_x4_def rej_uniform_each_def Let_def)

lemma all_4: "(\<forall>i < 4. P i) \<longleftrightarrow> P 0 \<and> P 1 \<and> P 2 \<and> P (3 :: nat)"
  by (auto simp: numeral_eq_Suc less_Suc_eq)

lemma sampling_x4_done:
  assumes "sampling_x4 s k (vec, ctr)"
  shows "\<not> (ctr ! 0 < MLKEM_N \<or> ctr ! 1 < MLKEM_N \<or> ctr ! 2 < MLKEM_N \<or> ctr ! 3 < MLKEM_N) \<longleftrightarrow> accepted_x4 s k"
    and "accepted_x4 s k \<Longrightarrow> vec = first_x4 s k"
proof -
  have s: "sampling (s ! i) k (vec ! i, ctr ! i)" if "i < 4" for i using assms that by (simp add: sampling_x4_def)
  show "\<not> (ctr ! 0 < MLKEM_N \<or> ctr ! 1 < MLKEM_N \<or> ctr ! 2 < MLKEM_N \<or> ctr ! 3 < MLKEM_N) \<longleftrightarrow> accepted_x4 s k"
    using sampling_done (1) [OF s] by (simp add: accepted_x4_def all_4 not_less) 
  show "vec = first_x4 s k" if "accepted_x4 s k"
    using sampling_done [OF s] that assms by (intro nth_equalityI) (auto simp: accepted_x4_def sampling_x4_def not_less)
qed

lemma accepted_x4_mono:
  assumes "k \<le> j" "accepted_x4 s k"
  shows "accepted_x4 s j" "first_x4 s j = first_x4 s k"
  using xof_accepted_take [OF assms (1)] assms (2) by (auto simp: accepted_x4_def)

lemma rej_uniform_blocks_x4_step:
  assumes "length s = 4" "sampling_x4 s k (vec, ctr)"
  shows "\<exists>vec' ctr'. rej_uniform_each vec ctr (map (\<lambda>i. xof_blocks (xof_state (s ! i) k) 1) [0..<4]) MLK_XOF_RATE = (vec', ctr')
    \<and> sampling_x4 s (Suc k) (vec', ctr')
    \<and> mlk_xof_x4_squeezeblocks 1 (map (\<lambda>i. xof_state (s ! i) k) [0..<4]) =
       (map (\<lambda>i. xof_blocks (xof_state (s ! i) k) 1) [0..<4], map (\<lambda>i. xof_state (s ! i) (Suc k)) [0..<4])"
proof -
  have "mlk_xof_x4_squeezeblocks 1 (map (\<lambda>i. xof_state (s ! i) k) [0..<4]) =
       (map (\<lambda>i. xof_blocks (xof_state (s ! i) k) 1) [0..<4], map (\<lambda>i. xof_state (s ! i) (Suc k)) [0..<4])"
    by (simp only: xof_x4 length_map length_upt diff_zero) (simp add: xof_Suc (2) [simplified])
  then show ?thesis using sampling_x4_Suc [OF assms (2)] by (metis surj_pair)
qed

lemma rej_uniform_blocks_x4_Some:
  "rej_uniform_blocks_x4 vec ctr statex = Some ps \<Longrightarrow> length s = 4 \<Longrightarrow>
     \<forall>k. statex = map (\<lambda>i. xof_state (s ! i) k) [0..<4] \<and> sampling_x4 s k (vec, ctr) \<longrightarrow>
       (\<exists>j \<ge> k. accepted_x4 s j \<and> ps = first_x4 s j)"
proof (induction vec ctr statex ps rule: rej_uniform_blocks_x4.raw_induct [rotated 1, consumes 1])
  case (1 f vec ctr statex ps)
  show ?case
  proof (intro allI impI, elim conjE)
    fix k assume state: "statex = map (\<lambda>i. xof_state (s ! i) k) [0..<4]" and inv: "sampling_x4 s k (vec, ctr)"
    obtain vec' ctr' where step: "rej_uniform_each vec ctr (map (\<lambda>i. xof_blocks (xof_state (s ! i) k) 1) [0..<4]) MLK_XOF_RATE = (vec', ctr')"
      "sampling_x4 s (Suc k) (vec', ctr')" "mlk_xof_x4_squeezeblocks 1 (map (\<lambda>i. xof_state (s ! i) k) [0..<4]) =
       (map (\<lambda>i. xof_blocks (xof_state (s ! i) k) 1) [0..<4], map (\<lambda>i. xof_state (s ! i) (Suc k)) [0..<4])"
      using rej_uniform_blocks_x4_step [OF 1 (3) inv] by blast
    show "\<exists>j \<ge> k. accepted_x4 s j \<and> ps = first_x4 s j"
    proof (cases "accepted_x4 s k")
      case True
      then show ?thesis using 1 (2) sampling_x4_done [OF inv] by (metis option.inject order_refl)
    next
      case False
      then have f: "f vec' ctr' (map (\<lambda>i. xof_state (s ! i) (Suc k)) [0..<4]) = Some ps"
        using 1 (2) sampling_x4_done (1) [OF inv] by (simp only: state step Let_def prod.case) metis
      have "\<exists>j \<ge> Suc k. accepted_x4 s j \<and> ps = first_x4 s j"
        by (rule 1 (1) [OF f 1 (3), rule_format]) (use step (2) in simp)
      then show ?thesis using Suc_leD by blast
    qed
  qed
qed

lemma rej_uniform_blocks_x4_returns:
  "accepted_x4 s j \<Longrightarrow> k \<le> j \<Longrightarrow> length s = 4 \<Longrightarrow> sampling_x4 s k (vec, ctr) \<Longrightarrow>
     rej_uniform_blocks_x4 vec ctr (map (\<lambda>i. xof_state (s ! i) k) [0..<4]) = Some (first_x4 s j)"
proof (induction "j - k" arbitrary: k vec ctr)
  case 0
  then have "j = k" by simp
  then show ?case using 0 sampling_x4_done [OF 0 (5)] by (subst rej_uniform_blocks_x4.simps) simp
next
  case (Suc n)
  obtain vec' ctr' where step: "rej_uniform_each vec ctr (map (\<lambda>i. xof_blocks (xof_state (s ! i) k) 1) [0..<4]) MLK_XOF_RATE = (vec', ctr')"
    "sampling_x4 s (Suc k) (vec', ctr')" "mlk_xof_x4_squeezeblocks 1 (map (\<lambda>i. xof_state (s ! i) k) [0..<4]) =
     (map (\<lambda>i. xof_blocks (xof_state (s ! i) k) 1) [0..<4], map (\<lambda>i. xof_state (s ! i) (Suc k)) [0..<4])"
    using rej_uniform_blocks_x4_step [OF Suc.prems (3,4)] by blast
  show ?case
  proof (cases "accepted_x4 s k")
    case True
    then show ?thesis using sampling_x4_done [OF Suc.prems (4)] accepted_x4_mono [OF Suc.prems (2) True]
      by (subst rej_uniform_blocks_x4.simps) (simp only: if_False simp_thms)
  next
    case False
    have "rej_uniform_blocks_x4 vec' ctr' (map (\<lambda>i. xof_state (s ! i) (Suc k)) [0..<4]) = Some (first_x4 s j)"
      using Suc step (2) by auto
    moreover have c: "ctr ! 0 < MLKEM_N \<or> ctr ! 1 < MLKEM_N \<or> ctr ! 2 < MLKEM_N \<or> ctr ! 3 < MLKEM_N"
      using False sampling_x4_done (1) [OF Suc.prems (4)] by blast
    ultimately show ?thesis by (subst rej_uniform_blocks_x4.simps) (simp only: if_True step Let_def prod.case)
  qed
qed

lemma rej_uniform_x4_iff:
  assumes "length vec = 4" "\<forall>v \<in> set vec. length v = MLKEM_N" "length seeds = 4" "\<forall>d \<in> set seeds. length d = MLKEM_SYMBYTES + 2"
  shows "mlk_poly_rej_uniform_x4 vec seeds = Some ps \<longleftrightarrow>
    length ps = 4 \<and> (\<forall>i < 4. mlk_poly_rej_uniform (vec ! i) (seeds ! i) = Some (ps ! i))"
proof -
  let ?n = MLKEM_GEN_MATRIX_NBLOCKS and ?t = "map (take 34) seeds"
  let ?s = "mlk_xof_x4_absorb ?t 34"
  have abs: "?s ! i = mlk_xof_absorb (take 34 (seeds ! i))" if "i < 4" for i
    using absorb_once_x4 (1) [OF that, of ?t 34] assms (3,4) that
    by (simp add: mlk_xof_x4_absorb_def mlk_xof_absorb_def mlk_shake128x4_absorb_once_def mlk_shake128_absorb_once_def mlk_sizes)
  have len: "length ?s = 4"
    using absorb_once_x4 (2) [of 0 ?t 34] assms (3,4) by (simp add: mlk_xof_x4_absorb_def mlk_shake128x4_absorb_once_def mlk_sizes)
  let ?r = "rej_uniform_each vec (replicate 4 0) (map (\<lambda>i. xof_blocks (?s ! i) ?n) [0..<4]) (?n * MLK_XOF_RATE)"
  have inv: "sampling_x4 ?s ?n ?r"
    using sampling_start [of "vec ! i" for i] assms (1,2)
    by (simp add: sampling_x4_def rej_uniform_each_def Let_def MLKEM_N_def)
  have "mlk_poly_rej_uniform_x4 vec seeds = rej_uniform_blocks_x4 (fst ?r) (snd ?r) (map (\<lambda>i. xof_state (?s ! i) ?n) [0..<4])"
    by (simp add: mlk_poly_rej_uniform_x4_def mlk_sizes xof_x4 [OF len] Let_def split_beta)
  then have "mlk_poly_rej_uniform_x4 vec seeds = Some ps \<longleftrightarrow> (\<exists>j \<ge> ?n. accepted_x4 ?s j \<and> ps = first_x4 ?s j)"
    using rej_uniform_blocks_x4_Some [OF _ len] rej_uniform_blocks_x4_returns [OF _ _ len] inv by (metis surjective_pairing)
  also have "\<dots> \<longleftrightarrow> length ps = 4 \<and> (\<forall>i < 4. mlk_poly_rej_uniform (vec ! i) (seeds ! i) = Some (ps ! i))"
  proof
    assume "\<exists>j \<ge> ?n. accepted_x4 ?s j \<and> ps = first_x4 ?s j"
    then obtain j where "?n \<le> j" "accepted_x4 ?s j" "ps = first_x4 ?s j" by blast
    then show "length ps = 4 \<and> (\<forall>i < 4. mlk_poly_rej_uniform (vec ! i) (seeds ! i) = Some (ps ! i))"
      using assms (1,2) abs by (auto simp: rej_uniform_iff MLKEM_N_def accepted_x4_def Let_def)
  next
    assume ps: "length ps = 4 \<and> (\<forall>i < 4. mlk_poly_rej_uniform (vec ! i) (seeds ! i) = Some (ps ! i))"
    have ex: "\<exists>j \<ge> ?n. 256 \<le> length (accepted (xof_blocks (?s ! i) j)) \<and> ps ! i = take 256 (accepted (xof_blocks (?s ! i) j))" if "i < 4" for i
      using ps that assms (1,2) abs [OF that] rej_uniform_iff [of "vec ! i" "seeds ! i" "ps ! i"] by (simp add: MLKEM_N_def Let_def)
    then obtain j where j: "?n \<le> j i" "256 \<le> length (accepted (xof_blocks (?s ! i) (j i)))"
      "ps ! i = take 256 (accepted (xof_blocks (?s ! i) (j i)))" if "i < 4" for i by metis
    define m where "m = Max (j ` {..<4})"
    have m: "j i \<le> m" if "i < 4" for i unfolding m_def using that by (intro Max_ge) auto
    have "?n \<le> m" using j (1) [of 0] m [of 0] by simp
    moreover have "accepted_x4 ?s m" using xof_accepted_take (1) [OF m j (2)] by (simp add: accepted_x4_def)
    moreover have "ps = first_x4 ?s m"
      using ps xof_accepted_take (2) [OF m j (2)] j (3) by (intro nth_equalityI) auto
    ultimately show "\<exists>j \<ge> ?n. accepted_x4 ?s j \<and> ps = first_x4 ?s j" by blast
  qed
  finally show ?thesis .
qed

text \<open>
  Batched rejection sampling returns exactly when each of its four seeds, sampled alone, returns,
  and then its four polynomials are those of the four separate calls.
\<close>

theorem poly_rej_uniform_x4_spec:
  assumes "length vec = 4" "\<forall>v \<in> set vec. length v = MLKEM_N" "length seeds = 4" "\<forall>d \<in> set seeds. length d = MLKEM_SYMBYTES + 2"
  shows "mlk_poly_rej_uniform_x4 vec seeds = Some ps \<longleftrightarrow>
    length ps = 4 \<and> (\<forall>i < 4. mlk_poly_rej_uniform (vec ! i) (seeds ! i) = Some (ps ! i))"
  using assms by (rule rej_uniform_x4_iff)

lemma poly_rej_uniform_x4_spec_witness:
  "\<forall>ps. mlk_poly_rej_uniform_x4 (replicate 4 (replicate 256 0)) (replicate 4 (replicate 34 7)) = Some ps \<longleftrightarrow>
    length ps = 4 \<and> (\<forall>i. 4 \<le> i \<or> mlk_poly_rej_uniform (replicate 256 0) (replicate 34 7) = Some (ps ! i))"
  using poly_rej_uniform_x4_spec [of "replicate 4 (replicate 256 0)" "replicate 4 (replicate 34 7)"]
  by (auto simp: mlk_sizes not_le [symmetric])

section \<open>Binomial sampling counts bits\<close>

text \<open>FIPS 203, algorithm 8: the difference of two sums of \<open>eta\<close> consecutive bits of the stream.\<close>

definition stream_bit :: "bytes \<Rightarrow> nat \<Rightarrow> int" where
  "stream_bit buf k = of_bool (bit (buf ! (k div 8)) (k mod 8))"

definition cbd :: "nat \<Rightarrow> bytes \<Rightarrow> poly" where
  "cbd eta buf = map (\<lambda>c. (\<Sum>x<eta. stream_bit buf (2 * c * eta + x)) - (\<Sum>x<eta. stream_bit buf (2 * c * eta + eta + x))) [0..<256]"

text \<open>Adding shifted and masked copies of a word adds up the bits of each of its fields, without carries between fields.\<close>

lemma and_split:
  fixes x y :: nat
  shows "x AND y = (take_bit e x AND take_bit e y) + 2 ^ e * (drop_bit e x AND drop_bit e y)"
  using bits_ident [of e "x AND y"] by (simp add: push_bit_eq_mult mult.commute add.commute)

lemma and_field_mask:
  fixes x :: nat
  assumes "0 < e"
  shows "x AND (\<Sum>k<n. 2 ^ (e * k)) = (\<Sum>k<n. of_bool (bit x (e * k)) * 2 ^ (e * k))"
proof (induction n arbitrary: x)
  case (Suc n)
  let ?m = "\<Sum>k<n. 2 ^ (e * k) :: nat"
  have m: "(\<Sum>k<Suc n. 2 ^ (e * k)) = 1 + 2 ^ e * ?m"
    by (simp only: sum.lessThan_Suc_shift) (simp add: power_add sum_distrib_left)
  have e: "(1 :: nat) < 2 ^ e" using one_less_power [of "2 :: nat" e] assms by simp
  have "(1 + 2 ^ e * ?m) mod 2 ^ e = 1" "(1 + 2 ^ e * ?m) div 2 ^ e = ?m"
    using e by (simp_all only: div_mult_self2 mod_mult_self2 div_less mod_less)
  then have "take_bit e (1 + 2 ^ e * ?m) = 1" "drop_bit e (1 + 2 ^ e * ?m) = ?m"
    by (simp_all only: take_bit_eq_mod drop_bit_eq_div)
  then have "x AND (1 + 2 ^ e * ?m) = (take_bit e x AND 1) + 2 ^ e * (drop_bit e x AND ?m)"
    using and_split [of x "1 + 2 ^ e * ?m" e] by simp
  also have "take_bit e x AND 1 = of_bool (bit x 0)"
    using assms bit_take_bit_iff [of e x 0] by (simp add: and_one_eq bit_0 mod_2_eq_odd)
  also have "2 ^ e * (drop_bit e x AND ?m) = (\<Sum>k<n. of_bool (bit x (e * Suc k)) * 2 ^ (e * Suc k))"
    unfolding Suc.IH sum_distrib_left by (rule sum.cong) (auto simp: bit_simps power_add)
  finally show ?case unfolding m by (simp only: sum.lessThan_Suc_shift) (simp add: bit_simps)
qed simp

lemma digit_of_sum:
  fixes f :: "nat \<Rightarrow> nat"
  assumes "\<And>k. f k < b" "j < n"
  shows "(\<Sum>k<n. f k * b ^ k) div b ^ j mod b = f j"
  using assms
proof (induction j arbitrary: f n)
  case 0
  then obtain m where m: "n = Suc m" by (cases n) auto
  have "(\<Sum>k<n. f k * b ^ k) = f 0 + b * (\<Sum>k<m. f (Suc k) * b ^ k)"
    unfolding m by (simp only: sum.lessThan_Suc_shift) (simp add: sum_distrib_left mult.left_commute)
  then show ?case using 0 by simp
next
  case (Suc j)
  then obtain m where m: "n = Suc m" by (cases n) auto
  have "(\<Sum>k<n. f k * b ^ k) = f 0 + b * (\<Sum>k<m. f (Suc k) * b ^ k)"
    unfolding m by (simp only: sum.lessThan_Suc_shift) (simp add: sum_distrib_left mult.left_commute)
  moreover have "0 < b" using Suc.prems (1) [of 0] by simp
  ultimately have "(\<Sum>k<n. f k * b ^ k) div b = (\<Sum>k<m. f (Suc k) * b ^ k)" using Suc.prems (1) [of 0] by simp
  then show ?case using Suc.IH [of "\<lambda>k. f (Suc k)" m] Suc.prems m by (simp add: div_mult2_eq)
qed

lemma field_sum:
  fixes t :: nat
  assumes "0 < e" "j < n" "M = (\<Sum>k<n. 2 ^ (e * k))"
  shows "(\<Sum>s<e. drop_bit s t AND M) div 2 ^ (e * j) mod 2 ^ e = (\<Sum>s<e. of_bool (bit t (e * j + s)))"
proof -
  let ?f = "\<lambda>k. \<Sum>s<e. of_bool (bit t (e * k + s)) :: nat"
  have "(\<Sum>s<e. drop_bit s t AND M) = (\<Sum>s<e. \<Sum>k<n. of_bool (bit t (s + e * k)) * 2 ^ (e * k))"
    unfolding assms (3) and_field_mask [OF assms (1)] by (simp add: bit_simps)
  also have "\<dots> = (\<Sum>k<n. ?f k * (2 ^ e) ^ k)"
    by (subst sum.swap) (simp add: sum_distrib_right power_mult add.commute)
  finally have eq: "(\<Sum>s<e. drop_bit s t AND M) = (\<Sum>k<n. ?f k * (2 ^ e) ^ k)" .
  have "?f k < 2 ^ e" for k
  proof -
    have "?f k \<le> (\<Sum>s<e. 1)" by (intro sum_mono) simp
    also have "\<dots> < 2 ^ e" by simp
    finally show ?thesis .
  qed
  then show ?thesis unfolding eq power_mult by (intro digit_of_sum) (use assms in auto)
qed

lemma and_le_mask: "x AND y \<le> y" for x y :: nat
proof -
  have "int x AND int y \<le> int y" by (rule AND_upper2) simp
  then show ?thesis by (simp only: of_nat_and_eq [symmetric] of_nat_le_iff)
qed

lemma unat_drop_bit: "unat (drop_bit k w) = drop_bit k (unat w)" for w :: "'a :: len word"
  by (rule bit_eqI) (auto simp: bit_simps dest: bit_imp_le_length)

lemma word_field:
  fixes d t :: u32
  assumes "unat d = (\<Sum>s<e. drop_bit s (unat t) AND M)" "0 < e" "j < n" "M = (\<Sum>k<n. 2 ^ (e * k))" "m = mask e"
  shows "uint (drop_bit (e * j) d AND m) = (\<Sum>s<e. of_bool (bit t (e * j + s)))"
proof -
  have "uint (drop_bit (e * j) d AND m) = int (unat (take_bit e (drop_bit (e * j) d)))"
    by (simp add: assms (5) take_bit_eq_mask)
  also have "unat (take_bit e (drop_bit (e * j) d)) = unat d div 2 ^ (e * j) mod 2 ^ e"
    by (simp only: unsigned_take_bit_eq unat_drop_bit) (simp only: take_bit_eq_mod drop_bit_eq_div)
  also have "\<dots> = (\<Sum>s<e. of_bool (bit t (e * j + s)))"
    unfolding assms (1) field_sum [OF assms (2-4)] by (simp add: bit_simps bit_imp_le_length)
  finally show ?thesis by simp
qed

lemma sum_lt_2_3: "(\<Sum>s<2. f s) = f 0 + f (1 :: nat)" "(\<Sum>s<3. f s) = f 0 + f (1 :: nat) + f 2" for f :: "nat \<Rightarrow> 'a :: comm_monoid_add"
  by (simp_all add: numeral_3_eq_3 numeral_2_eq_2)

lemma cbd2_field:
  fixes t :: u32
  assumes "j < 16"
  shows "uint (drop_bit (2 * j) ((t AND 0x55555555) + (drop_bit 1 t AND 0x55555555)) AND 3) =
    (\<Sum>s<2. of_bool (bit t (2 * j + s)))"
proof (rule word_field [where M = "0x55555555" and n = 16])
  have "unat (t AND 0x55555555) = unat t AND 0x55555555" "unat (drop_bit 1 t AND 0x55555555) = drop_bit 1 (unat t) AND 0x55555555"
    by (simp_all add: unsigned_and_eq unat_drop_bit)
  then show "unat ((t AND 0x55555555) + (drop_bit 1 t AND 0x55555555)) = (\<Sum>s<2. drop_bit s (unat t) AND 0x55555555)"
    using and_le_mask [of "unat t" "0x55555555"] and_le_mask [of "drop_bit 1 (unat t)" "0x55555555"]
    unfolding sum_lt_2_3 by (subst unat_add_lem [THEN iffD1]) simp_all
qed (use assms in \<open>simp_all add: mask_eq_exp_minus_1 lessThan_nat_numeral\<close>)

lemma cbd3_field:
  fixes t :: u32
  assumes "j < 8"
  shows "uint (drop_bit (3 * j) ((t AND 0x00249249) + (drop_bit 1 t AND 0x00249249) + (drop_bit 2 t AND 0x00249249)) AND 7) =
    (\<Sum>s<3. of_bool (bit t (3 * j + s)))"
proof (rule word_field [where M = "0x00249249" and n = 8])
  have u: "unat (t AND 0x00249249) = unat t AND 0x00249249" "unat (drop_bit 1 t AND 0x00249249) = drop_bit 1 (unat t) AND 0x00249249"
    "unat (drop_bit 2 t AND 0x00249249) = drop_bit 2 (unat t) AND 0x00249249"
    by (simp_all add: unsigned_and_eq unat_drop_bit)
  note b = and_le_mask [of "unat t" "0x00249249"] and_le_mask [of "drop_bit 1 (unat t)" "0x00249249"]
    and_le_mask [of "drop_bit 2 (unat t)" "0x00249249"]
  have "unat ((t AND 0x00249249) + (drop_bit 1 t AND 0x00249249)) = (unat t AND 0x00249249) + (drop_bit 1 (unat t) AND 0x00249249)"
    using u b by (subst unat_add_lem [THEN iffD1]) simp_all
  then show "unat ((t AND 0x00249249) + (drop_bit 1 t AND 0x00249249) + (drop_bit 2 t AND 0x00249249)) =
      (\<Sum>s<3. drop_bit s (unat t) AND 0x00249249)"
    using u b unfolding sum_lt_2_3 by (subst unat_add_lem [THEN iffD1]) simp_all
qed (use assms in \<open>simp_all add: mask_eq_exp_minus_1 lessThan_nat_numeral\<close>)

lemma bit_load:
  "k < 32 \<Longrightarrow> 4 \<le> length x \<Longrightarrow> bit (mlk_load32_littleendian x) k = bit (x ! (k div 8)) (k mod 8)"
  "k < 24 \<Longrightarrow> 3 \<le> length x \<Longrightarrow> bit (mlk_load24_littleendian x) k = bit (x ! (k div 8)) (k mod 8)"
proof -
  have w: "\<not> bit b n" if "8 \<le> n" for b :: byte and n using that bit_imp_le_length [of b n] by auto
  define q r where "q = k div 8" and "r = k mod 8"
  have k: "k = 8 * q + r" "k div 8 = q" "k mod 8 = r" "r < 8" by (simp_all add: q_def r_def)
  have q: "q = 0 \<or> q = 1 \<or> q = 2 \<or> q = 3" if "k < 32" using that k (1) by linarith
  show "bit (mlk_load32_littleendian x) k = bit (x ! (k div 8)) (k mod 8)" if "k < 32"
    unfolding k (2,3) unfolding k (1) using q [OF that] k (4)
    by (elim disjE) (simp_all add: mlk_load32_littleendian_def bit_simps w)
  show "bit (mlk_load24_littleendian x) k = bit (x ! (k div 8)) (k mod 8)" if "k < 24"
    unfolding k (2,3) unfolding k (1) using q [OF less_trans [OF that], simplified] that k (1,4)
    by (elim disjE) (simp_all add: mlk_load24_littleendian_def bit_simps w)
qed

lemma stream_bit_load:
  "k < 32 \<Longrightarrow> 4 * i + 4 \<le> length buf \<Longrightarrow> of_bool (bit (mlk_load32_littleendian (drop (4 * i) buf)) k) = stream_bit buf (32 * i + k)"
  "k < 24 \<Longrightarrow> 3 * i + 3 \<le> length buf \<Longrightarrow> of_bool (bit (mlk_load24_littleendian (drop (3 * i) buf)) k) = stream_bit buf (24 * i + k)"
proof -
  have "(8 * a + k) div 8 = a + k div 8 \<and> (8 * a + k) mod 8 = k mod 8" for a by simp
  from this [of "4 * i"] this [of "3 * i"] show "k < 32 \<Longrightarrow> 4 * i + 4 \<le> length buf \<Longrightarrow> of_bool (bit (mlk_load32_littleendian (drop (4 * i) buf)) k) = stream_bit buf (32 * i + k)"
    "k < 24 \<Longrightarrow> 3 * i + 3 \<le> length buf \<Longrightarrow> of_bool (bit (mlk_load24_littleendian (drop (3 * i) buf)) k) = stream_bit buf (24 * i + k)"
    by (simp_all add: bit_load stream_bit_def)
qed

lemma cbd_spec:
  assumes "length b2 = 2 * MLKEM_N div 4" "length b3 = 3 * MLKEM_N div 4"
  shows "mlk_poly_cbd2 b2 = cbd 2 b2 \<and> mlk_poly_cbd3 b3 = cbd 3 b3
    \<and> length (cbd e b) = MLKEM_N \<and> (\<forall>c \<in> set (cbd e b). \<bar>c\<bar> \<le> int e)"
proof (intro conjI)
  show "mlk_poly_cbd2 b2 = cbd 2 b2"
    unfolding mlk_poly_cbd2_def
  proof (rule concat_blocks_eq [where w = 8])
    fix i assume i: "i < MLKEM_N div 8"
    let ?t = "mlk_load32_littleendian (drop (4 * i) b2)"
    let ?d = "(?t AND 0x55555555) + (drop_bit 1 ?t AND 0x55555555)"
    have f: "uint (drop_bit (2 * m) ?d AND 3) = stream_bit b2 (32 * i + 2 * m) + stream_bit b2 (32 * i + (2 * m + 1))" if "m < 16" for m
      unfolding cbd2_field [OF that] sum_lt_2_3 using that i assms (1) by (simp add: stream_bit_load MLKEM_N_def)
    have "uint (drop_bit (2 * (2 * j)) ?d AND 3) - uint (drop_bit (2 * (2 * j + 1)) ?d AND 3) = cbd 2 b2 ! (8 * i + j)" if "j < 8" for j
      using f [of "2 * j"] f [of "2 * j + 1"] that i by (simp add: cbd_def sum_lt_2_3 MLKEM_N_def)
    then show "(let t = ?t; d = t AND 0x55555555; d = d + (drop_bit 1 t AND 0x55555555)
        in map (\<lambda>j. let a = uint (drop_bit (4 * j + 0) d AND 0x3); b = uint (drop_bit (4 * j + 2) d AND 0x3) in a - b) [0..<8]) =
      map (\<lambda>k. cbd 2 b2 ! (8 * i + k)) [0..<8]"
      by (simp add: Let_def)
  qed (simp add: cbd_def MLKEM_N_def)
  show "mlk_poly_cbd3 b3 = cbd 3 b3"
    unfolding mlk_poly_cbd3_def
  proof (rule concat_blocks_eq [where w = 4])
    fix i assume i: "i < MLKEM_N div 4"
    let ?t = "mlk_load24_littleendian (drop (3 * i) b3)"
    let ?d = "(?t AND 0x00249249) + (drop_bit 1 ?t AND 0x00249249) + (drop_bit 2 ?t AND 0x00249249)"
    have f: "uint (drop_bit (3 * m) ?d AND 7) =
        stream_bit b3 (24 * i + 3 * m) + stream_bit b3 (24 * i + (3 * m + 1)) + stream_bit b3 (24 * i + (3 * m + 2))" if "m < 8" for m
      unfolding cbd3_field [OF that] sum_lt_2_3 using that i assms (2) by (simp add: stream_bit_load MLKEM_N_def)
    have "uint (drop_bit (3 * (2 * j)) ?d AND 7) - uint (drop_bit (3 * (2 * j + 1)) ?d AND 7) = cbd 3 b3 ! (4 * i + j)" if "j < 4" for j
      using f [of "2 * j"] f [of "2 * j + 1"] that i by (simp add: cbd_def sum_lt_2_3 MLKEM_N_def ac_simps)
    then show "(let t = ?t; d = t AND 0x00249249; d = d + (drop_bit 1 t AND 0x00249249); d = d + (drop_bit 2 t AND 0x00249249)
        in map (\<lambda>j. let a = uint (drop_bit (6 * j + 0) d AND 0x7); b = uint (drop_bit (6 * j + 3) d AND 0x7) in a - b) [0..<4]) =
      map (\<lambda>k. cbd 3 b3 ! (4 * i + k)) [0..<4]"
      by (simp add: Let_def add.commute)
  qed (simp add: cbd_def MLKEM_N_def)
  have bnd: "0 \<le> (\<Sum>x<e. stream_bit b (k + x)) \<and> (\<Sum>x<e. stream_bit b (k + x)) \<le> int e" for k
    using sum_mono [of "{..<e}" "\<lambda>x. stream_bit b (k + x)" "\<lambda>_. 1"] by (auto simp: stream_bit_def intro: sum_nonneg)
  have "\<bar>(\<Sum>x<e. stream_bit b (2 * c * e + x)) - (\<Sum>x<e. stream_bit b (2 * c * e + e + x))\<bar> \<le> int e" for c
    using bnd [of "2 * c * e"] bnd [of "2 * c * e + e"] by linarith
  then show "\<forall>c \<in> set (cbd e b). \<bar>c\<bar> \<le> int e" by (auto simp: cbd_def)
qed (simp add: cbd_def MLKEM_N_def)

text \<open>
  Both binomial samplers compute algorithm 8 of FIPS 203 on the bits of their input, so every
  coefficient lies between minus eta and eta.
\<close>

theorem poly_cbd_spec:
  assumes "length b2 = 2 * MLKEM_N div 4" "length b3 = 3 * MLKEM_N div 4"
  shows "mlk_poly_cbd2 b2 = cbd 2 b2 \<and> mlk_poly_cbd3 b3 = cbd 3 b3
    \<and> length (cbd e b) = MLKEM_N \<and> (\<forall>c \<in> set (cbd e b). \<bar>c\<bar> \<le> int e)"
  using assms by (rule cbd_spec)

lemma poly_cbd_spec_witness: "mlk_poly_cbd2 (replicate 128 0xE7) = cbd 2 (replicate 128 0xE7)"
  using poly_cbd_spec [of "replicate 128 0xE7" "replicate 192 0" 2 "replicate 128 0xE7"] by (simp add: MLKEM_N_def)

end
