(* ===== verification/Mlk_NTT.thy ===== *)
theory Mlk_NTT
  imports Mlk_Poly
begin

text \<open>
  Correctness of the number-theoretic transform of \<open>poly.c\<close>: the in-place butterfly loops as
  pointwise equations, the bounds of every layer (no 16-bit overflow anywhere), and that the
  inverse transform undoes the forward one up to the Montgomery factor.
\<close>

definition abs_bound :: "int \<Rightarrow> poly \<Rightarrow> bool" where
  "abs_bound B p \<longleftrightarrow> (\<forall>x \<in> set p. \<bar>x\<bar> < B)"

lemma abs_bound_nth: "abs_bound B p \<Longrightarrow> j < length p \<Longrightarrow> \<bar>p ! j\<bar> < B"
  by (auto simp: abs_bound_def)

lemma abs_boundI: "(\<And>j. j < length p \<Longrightarrow> \<bar>p ! j\<bar> < B) \<Longrightarrow> abs_bound B p"
  by (auto simp: abs_bound_def in_set_conv_nth)

lemma abs_bound_i16: "\<bar>x\<bar> < B \<Longrightarrow> B \<le> 32768 \<Longrightarrow> is_i16 x"
  by (auto simp: is_i16_def)

section \<open>In-place layers of disjoint pairs\<close>

text \<open>
  Both transforms apply, in each layer, a two-point function to the disjoint pairs of positions
  \<open>(j, j + len)\<close>.
\<close>

definition pair_step :: "(int \<Rightarrow> int \<Rightarrow> int) \<Rightarrow> (int \<Rightarrow> int \<Rightarrow> int) \<Rightarrow> nat \<Rightarrow> poly \<Rightarrow> nat \<Rightarrow> poly" where
  "pair_step A B len r j = r[j := A (r ! j) (r ! (j + len)), j + len := B (r ! j) (r ! (j + len))]"

lemma length_pair_steps [simp]: "length (foldl (pair_step A B len) r js) = length r"
  by (induction js arbitrary: r) (auto simp: pair_step_def)

lemma nth_pair_steps:
  assumes "0 < len" and "n \<le> len" and "s + 2 * len \<le> length r" and "j < length r"
  shows "foldl (pair_step A B len) r [s..<s + n] ! j =
    (if s \<le> j \<and> j < s + n then A (r ! j) (r ! (j + len))
     else if s + len \<le> j \<and> j < s + len + n then B (r ! (j - len)) (r ! j) else r ! j)"
  using assms(2,4)
proof (induction n arbitrary: j)
  case (Suc n)
  let ?r = "foldl (pair_step A B len) r [s..<s + n]"
  have old: "?r ! (s + n) = r ! (s + n)" "?r ! (s + n + len) = r ! (s + n + len)"
    using Suc.IH [of "s + n"] Suc.IH [of "s + n + len"] Suc.prems assms(1,3) by auto
  have e: "foldl (pair_step A B len) r [s..<s + Suc n] = pair_step A B len ?r (s + n)" by simp
  show ?case
    unfolding e pair_step_def [of _ _ _ ?r] old using Suc.IH [of j] Suc.prems assms(1,3)
    by (auto simp: nth_list_update less_Suc_eq)
qed auto

definition pair_layer :: "(nat \<Rightarrow> int \<Rightarrow> int \<Rightarrow> int) \<Rightarrow> (nat \<Rightarrow> int \<Rightarrow> int \<Rightarrow> int) \<Rightarrow> nat \<Rightarrow> nat \<Rightarrow> poly \<Rightarrow> poly" where
  "pair_layer A B len m r =
     foldl (\<lambda>r i. foldl (pair_step (A i) (B i) len) r [2 * len * i..<2 * len * i + len]) r [0..<m]"

lemma length_pair_layer [simp]: "length (pair_layer A B len m r) = length r"
  unfolding pair_layer_def by (induction m) auto

lemma nth_pair_layer_prefix:
  assumes "0 < len" and "2 * len * m \<le> length r" and "j < length r"
  shows "pair_layer A B len m r ! j =
    (if 2 * len * m \<le> j then r ! j
     else if j mod (2 * len) < len then A (j div (2 * len)) (r ! j) (r ! (j + len))
     else B (j div (2 * len)) (r ! (j - len)) (r ! j))"
  using assms(2,3)
proof (induction m arbitrary: j)
  case (Suc m)
  let ?r = "pair_layer A B len m r"
  have bnd: "2 * len * m + 2 * len \<le> length ?r" using Suc.prems(1) by (simp add: algebra_simps)
  have e: "pair_layer A B len (Suc m) r = foldl (pair_step (A m) (B m) len) ?r [2 * len * m..<2 * len * m + len]"
    by (simp add: pair_layer_def)
  have d: "j div (2 * len) = m" "j mod (2 * len) = j - 2 * len * m"
    if "2 * len * m \<le> j" "j < 2 * len * m + 2 * len"
    using that div_nat_eqI [of "2 * len" m j] by (auto simp: algebra_simps modulo_nat_def)
  have old: "?r ! i = r ! i" if "2 * len * m \<le> i" "i < length r" for i
    using Suc.IH [of i] that bnd by simp
  show ?case
    unfolding e using nth_pair_steps [OF assms(1) order.refl bnd, of j "A m" "B m"] Suc.IH [of j] Suc.prems bnd d old
    by (auto simp: algebra_simps not_less)
qed (simp add: pair_layer_def)

lemma nth_pair_layer:
  assumes "0 < len" and "2 * len * m = length r" and "j < length r"
  shows "pair_layer A B len m r ! j =
    (if j mod (2 * len) < len then A (j div (2 * len)) (r ! j) (r ! (j + len))
     else B (j div (2 * len)) (r ! (j - len)) (r ! j))"
  using nth_pair_layer_prefix [OF assms(1) _ assms(3), of m A B] assms(2,3) by simp

lemma foldl_cong_length:
  assumes "\<And>r j. length r = N \<Longrightarrow> j \<in> set js \<Longrightarrow> f r j = g r j" and "\<And>r j. length r = N \<Longrightarrow> length (g r j) = N"
    and "length r = N"
  shows "foldl f r js = foldl g r js"
  using assms(1,3) by (induction js arbitrary: r) (auto simp: assms(2))

section \<open>The layers of the source\<close>

lemma layer_arith:
  assumes "1 \<le> l" and "l \<le> (7 :: nat)"
  obtains "drop_bit l MLKEM_N = 2 ^ (8 - l)" and "MLKEM_N div (2 * 2 ^ (8 - l)) = 2 ^ (l - 1)"
    and "2 * 2 ^ (8 - l) * 2 ^ (l - 1) = (256 :: nat)"
proof -
  have "l \<in> {1, 2, 3, 4, 5, 6, 7}" using assms by auto
  then show thesis by (intro that) (auto simp: MLKEM_N_def drop_bit_nat_def)
qed

lemma ntt_layer_pair:
  assumes "length r = 256" and "1 \<le> l" and "l \<le> 7"
  shows "mlk_ntt_layer r l = pair_layer
    (\<lambda>i x y. to_i16 (x + mlk_fqmul y (mlk_zetas ! (2 ^ (l - 1) + i))))
    (\<lambda>i x y. to_i16 (x - mlk_fqmul y (mlk_zetas ! (2 ^ (l - 1) + i)))) (2 ^ (8 - l)) (2 ^ (l - 1)) r"
proof (rule layer_arith [OF assms(2,3)])
  let ?len = "2 ^ (8 - l) :: nat"
  assume a: "drop_bit l MLKEM_N = ?len" "MLKEM_N div (2 * ?len) = 2 ^ (l - 1)" "2 * ?len * 2 ^ (l - 1) = 256"
  have step: "mlk_ntt_butterfly z ?len r j = pair_step (\<lambda>x y. to_i16 (x + mlk_fqmul y z)) (\<lambda>x y. to_i16 (x - mlk_fqmul y z)) ?len r j"
    for z r j by (auto simp: mlk_ntt_butterfly_def pair_step_def Let_def list_update_swap)
  show ?thesis
    by (simp add: mlk_ntt_layer_def a pair_layer_def mlk_ntt_butterfly_block_def push_bit_nat_def step [abs_def] Let_def)
qed

lemma invntt_layer_pair:
  assumes "length r = 256" and "1 \<le> l" and "l \<le> 7"
  shows "mlk_invntt_layer r l = pair_layer
    (\<lambda>i x y. mlk_barrett_reduce (to_i16 (x + y)))
    (\<lambda>i x y. mlk_fqmul (to_i16 (y - x)) (mlk_zetas ! (2 ^ l - 1 - i))) (2 ^ (8 - l)) (2 ^ (l - 1)) r"
proof (rule layer_arith [OF assms(2,3)])
  let ?len = "2 ^ (8 - l) :: nat"
  assume a: "drop_bit l MLKEM_N = ?len" "MLKEM_N div (2 * ?len) = 2 ^ (l - 1)" "2 * ?len * 2 ^ (l - 1) = 256"
  have step: "mlk_invntt_butterfly z ?len r j
      = pair_step (\<lambda>x y. mlk_barrett_reduce (to_i16 (x + y))) (\<lambda>x y. mlk_fqmul (to_i16 (y - x)) z) ?len r j"
    if "j + ?len < length r" for z r j
    using that by (auto simp: mlk_invntt_butterfly_def pair_step_def Let_def)
  have bnd: "2 * ?len * i + 2 * ?len \<le> 256" if "i < 2 ^ (l - 1)" for i
    using that a(3) mult_le_mono2 [of "Suc i" "2 ^ (l - 1)" "2 * ?len"] by (simp add: algebra_simps)
  show ?thesis
    unfolding mlk_invntt_layer_def Let_def a pair_layer_def push_bit_nat_def mult_1
    by (rule foldl_cong_length [where N = 256], rule foldl_cong_length [where N = 256])
      (use bnd in \<open>fastforce intro!: step simp: pair_step_def assms(1)\<close>)+
qed

lemma zetas_bound: "i < 128 \<Longrightarrow> \<bar>mlk_zetas ! i\<bar> < 1665"
proof -
  have "list_all (\<lambda>z. \<bar>z\<bar> < 1665) mlk_zetas" "length mlk_zetas = 128" by code_simp+
  then show "i < 128 \<Longrightarrow> \<bar>mlk_zetas ! i\<bar> < 1665" by (simp add: list_all_length)
qed

text \<open>Position arithmetic of one layer, for a position \<open>j\<close> and \<open>len = 2^(8 - l)\<close>.\<close>

lemma layer_pos:
  assumes "1 \<le> l" and "l \<le> 7" and "j < (256 :: nat)"
  defines "len \<equiv> 2 ^ (8 - l) :: nat"
  shows "0 < len" and "2 * len * 2 ^ (l - 1) = 256" and "j div (2 * len) < 2 ^ (l - 1)"
    and "j mod (2 * len) < len \<Longrightarrow> j + len < 256" and "\<not> j mod (2 * len) < len \<Longrightarrow> len \<le> j"
proof -
  show len: "0 < len" by (simp add: len_def)
  show e: "2 * len * 2 ^ (l - 1) = 256" unfolding len_def by (rule layer_arith [OF assms(1,2)])
  show i: "j div (2 * len) < 2 ^ (l - 1)" using assms(3) e by (intro less_mult_imp_div_less) (simp add: algebra_simps)
  show "j + len < 256" if "j mod (2 * len) < len"
  proof -
    have "j + len < 2 * len * (j div (2 * len)) + 2 * len" using that mult_div_mod_eq [of "2 * len" j] by linarith
    also have "\<dots> \<le> 2 * len * 2 ^ (l - 1)" using i mult_le_mono2 [of "Suc (j div (2 * len))" "2 ^ (l - 1)" "2 * len"] by simp
    finally show ?thesis using e by simp
  qed
  show "len \<le> j" if "\<not> j mod (2 * len) < len" using that mod_less_eq_dividend [of j "2 * len"] by linarith
qed

lemma zeta_index: "1 \<le> l \<Longrightarrow> l \<le> 7 \<Longrightarrow> i < 2 ^ (l - 1) \<Longrightarrow> 2 ^ (l - 1) + i < (128 :: nat) \<and> 2 ^ l - 1 - i < (128 :: nat)"
proof -
  assume a: "1 \<le> l" "l \<le> 7" "i < (2 :: nat) ^ (l - 1)"
  have "(2 :: nat) ^ l = 2 * 2 ^ (l - 1)" using a(1) by (cases l) auto
  moreover have "(2 :: nat) ^ l \<le> 2 ^ 7" using a(2) by (intro power_increasing) auto
  ultimately show "2 ^ (l - 1) + i < (128 :: nat) \<and> 2 ^ l - 1 - i < (128 :: nat)" using a(3) by auto
qed

definition zeta :: "nat \<Rightarrow> int" where
  "zeta k = mlk_zetas ! k * 169 mod 3329"

lemma nth_ntt_layer:
  assumes "length r = 256" and "1 \<le> l" and "l \<le> 7" and "abs_bound B r" and "B \<le> 7 * 3329" and "j < 256"
  defines "len \<equiv> 2 ^ (8 - l) :: nat"
  defines "i \<equiv> j div (2 * len)"
  shows "mlk_ntt_layer r l ! j mod 3329 =
      (if j mod (2 * len) < len then r ! j + zeta (2 ^ (l - 1) + i) * r ! (j + len)
       else r ! (j - len) - zeta (2 ^ (l - 1) + i) * r ! j) mod 3329"
    and "\<bar>mlk_ntt_layer r l ! j\<bar> < B + 3329"
proof -
  let ?z = "mlk_zetas ! (2 ^ (l - 1) + i)"
  note pos = layer_pos [OF assms(2,3,6), folded len_def i_def]
  have z: "\<bar>?z\<bar> < 1665" using zetas_bound zeta_index [OF assms(2,3) pos(3)] by blast
  have eq: "mlk_ntt_layer r l ! j =
    (if j mod (2 * len) < len then to_i16 (r ! j + mlk_fqmul (r ! (j + len)) ?z) else to_i16 (r ! (j - len) - mlk_fqmul (r ! j) ?z))"
    using nth_pair_layer [OF pos(1), of "2 ^ (l - 1)" r j] pos(2) assms(1,6)
    unfolding ntt_layer_pair [OF assms(1-3)] len_def i_def by simp
  have f: "to_i16 (x + mlk_fqmul y ?z) mod 3329 = (x + zeta (2 ^ (l - 1) + i) * y) mod 3329"
      "to_i16 (x - mlk_fqmul y ?z) mod 3329 = (x - zeta (2 ^ (l - 1) + i) * y) mod 3329"
      "\<bar>to_i16 (x + mlk_fqmul y ?z)\<bar> < B + 3329" "\<bar>to_i16 (x - mlk_fqmul y ?z)\<bar> < B + 3329"
    if "\<bar>x\<bar> < B" "\<bar>y\<bar> < B" for x y
  proof -
    have m: "mlk_fqmul y ?z mod 3329 = zeta (2 ^ (l - 1) + i) * y mod 3329" "\<bar>mlk_fqmul y ?z\<bar> < 3329"
      using fqmul [OF abs_bound_i16 z, of y B] that assms(5) by (simp_all add: zeta_def mod_simps mult_ac)
    have "is_i16 (x + mlk_fqmul y ?z)" "is_i16 (x - mlk_fqmul y ?z)"
      using m(2) that assms(5) by (auto simp: is_i16_def)
    then have e: "to_i16 (x + mlk_fqmul y ?z) = x + mlk_fqmul y ?z" "to_i16 (x - mlk_fqmul y ?z) = x - mlk_fqmul y ?z"
      by (simp_all only: to_i16_id)
    show "to_i16 (x + mlk_fqmul y ?z) mod 3329 = (x + zeta (2 ^ (l - 1) + i) * y) mod 3329"
      unfolding e by (rule mod_add_cong [OF refl m(1)])
    show "to_i16 (x - mlk_fqmul y ?z) mod 3329 = (x - zeta (2 ^ (l - 1) + i) * y) mod 3329"
      unfolding e by (rule mod_diff_cong [OF refl m(1)])
    show "\<bar>to_i16 (x + mlk_fqmul y ?z)\<bar> < B + 3329" "\<bar>to_i16 (x - mlk_fqmul y ?z)\<bar> < B + 3329"
      unfolding e using m(2) that(1) by linarith+
  qed
  have b: "\<bar>r ! j\<bar> < B" "\<bar>r ! (j - len)\<bar> < B" "j mod (2 * len) < len \<Longrightarrow> \<bar>r ! (j + len)\<bar> < B"
    using abs_bound_nth [OF assms(4)] assms(1,6) pos(4) by auto
  show "mlk_ntt_layer r l ! j mod 3329 =
      (if j mod (2 * len) < len then r ! j + zeta (2 ^ (l - 1) + i) * r ! (j + len)
       else r ! (j - len) - zeta (2 ^ (l - 1) + i) * r ! j) mod 3329"
    unfolding eq using b f by (cases "j mod (2 * len) < len") simp_all
  show "\<bar>mlk_ntt_layer r l ! j\<bar> < B + 3329"
    unfolding eq using b f by (cases "j mod (2 * len) < len") simp_all
qed

lemma ntt_layer_bound:
  assumes "length r = 256" and "1 \<le> l" and "l \<le> 7" and "abs_bound B r" and "B \<le> 7 * 3329"
  shows "length (mlk_ntt_layer r l) = 256 \<and> abs_bound (B + 3329) (mlk_ntt_layer r l)"
proof -
  have len: "length (mlk_ntt_layer r l) = 256" using assms(1) by (simp add: ntt_layer_pair [OF assms(1-3)])
  show ?thesis using len nth_ntt_layer(2) [OF assms] by (auto intro: abs_boundI)
qed

section \<open>The forward transform\<close>

text \<open>
  After layer \<open>l\<close> block \<open>i\<close> holds the remainder of the polynomial modulo
  \<open>X^(2^(8-l)) - block_root l i\<close>.
\<close>

definition block_root :: "nat \<Rightarrow> nat \<Rightarrow> int" where
  "block_root l i = (if even i then zeta (2 ^ (l - 1) + i div 2) else - zeta (2 ^ (l - 1) + i div 2))"

lemma zeta_square:
  assumes "2 \<le> l" and "l \<le> 7" and "i < 2 ^ (l - 1)"
  shows "zeta (2 ^ (l - 1) + i) ^ 2 mod 3329 = block_root (l - 1) i mod 3329"
proof -
  have "\<forall>l \<in> set [2..<8]. \<forall>i \<in> set [0..<2 ^ (l - 1)]. zeta (2 ^ (l - 1) + i) ^ 2 mod 3329 = block_root (l - 1) i mod 3329"
    by code_simp
  moreover have "l < 8" using assms(2) by simp
  ultimately show ?thesis using assms(1,3) unfolding set_upt by force
qed

definition block_eval :: "poly \<Rightarrow> nat \<Rightarrow> nat \<Rightarrow> int" where
  "block_eval p l j =
     (\<Sum>m < 2 ^ l. p ! (j mod 2 ^ (8 - l) + m * 2 ^ (8 - l)) * block_root l (j div 2 ^ (8 - l)) ^ m)"

lemma mod_sum_cong:
  "(\<And>m. m \<in> A \<Longrightarrow> f m mod q = g m mod q) \<Longrightarrow> sum f A mod q = sum g A mod (q :: int)"
  by (metis (no_types, lifting) mod_sum_eq sum.cong)

lemma mod_lin_cong:
  fixes x y z q :: int
  assumes "x mod q = x' mod q" and "y mod q = y' mod q"
  shows "(x + z * y) mod q = (x' + z * y') mod q" and "(x - z * y) mod q = (x' - z * y') mod q"
  using assms by (metis mod_add_cong mod_mult_cong, metis mod_diff_cong mod_mult_cong)

lemma sum_even_odd: "(\<Sum>m < 2 * M. f m) = (\<Sum>m < M. f (2 * m)) + (\<Sum>m < M. f (2 * m + 1))" for f :: "nat \<Rightarrow> int"
  by (induction M) auto

lemma eval_split:
  fixes a :: "nat \<Rightarrow> int"
  assumes "w ^ 2 mod q = \<rho> mod q \<or> M = 1"
  shows "(\<Sum>m < 2 * M. a m * w ^ m) mod q = ((\<Sum>m < M. a (2 * m) * \<rho> ^ m) + w * (\<Sum>m < M. a (2 * m + 1) * \<rho> ^ m)) mod q"
proof -
  have pow: "(w ^ 2) ^ m mod q = \<rho> ^ m mod q" if "m < M" for m
    using assms that by (metis power_mod less_one power_0)
  have "(\<Sum>m < M. a (2 * m) * w ^ (2 * m)) mod q = (\<Sum>m < M. a (2 * m) * \<rho> ^ m) mod q"
    by (rule mod_sum_cong) (metis lessThan_iff mod_mult_right_eq pow power_mult)
  moreover have "(\<Sum>m < M. a (2 * m + 1) * w ^ (2 * m + 1)) mod q = (w * (\<Sum>m < M. a (2 * m + 1) * \<rho> ^ m)) mod q"
    unfolding sum_distrib_left
  proof (rule mod_sum_cong)
    fix m assume "m \<in> {..<M}"
    then have "(w * a (2 * m + 1)) * (w ^ 2) ^ m mod q = (w * a (2 * m + 1)) * \<rho> ^ m mod q"
      by (metis lessThan_iff mod_mult_right_eq pow)
    then show "a (2 * m + 1) * w ^ (2 * m + 1) mod q = w * (a (2 * m + 1) * \<rho> ^ m) mod q"
      by (simp add: mult_ac flip: power_mult)
  qed
  ultimately show ?thesis unfolding sum_even_odd by (rule mod_add_cong)
qed

text \<open>One layer turns the evaluations of layer \<open>l\<close> into those of layer \<open>l + 1\<close>.\<close>

lemma block_eval_layer:
  assumes "l \<le> 6" and "j < 256"
  defines "len \<equiv> 2 ^ (8 - Suc l) :: nat"
  defines "i \<equiv> j div (2 * len)"
  shows "block_eval p (Suc l) j mod 3329 =
    (if j mod (2 * len) < len then block_eval p l j + zeta (2 ^ l + i) * block_eval p l (j + len)
     else block_eval p l (j - len) - zeta (2 ^ l + i) * block_eval p l j) mod 3329"
proof -
  let ?o = "j mod (2 * len)" and ?z = "zeta (2 ^ l + i)" and ?rho = "block_root l i"
  have len2: "2 ^ (8 - l) = 2 * len" using assms(1) by (simp add: len_def Suc_diff_le flip: power_Suc)
  note pos = layer_pos [of "Suc l" j, folded len_def i_def] 
  have len: "0 < len" and i: "i < 2 ^ l" using pos(1,3) assms(1,2) by auto
  have j: "j = 2 * len * i + ?o" by (simp add: i_def)
  have root: "w ^ 2 mod 3329 = ?rho mod 3329 \<or> (2 :: nat) ^ l = 1" if "w = ?z \<or> w = - ?z" for w
    using zeta_square [of "Suc l" i] that i assms(1) by (cases l) auto
  have split: "(\<Sum>m < 2 ^ Suc l. p ! (c + m * len) * w ^ m) mod 3329 =
      ((\<Sum>m < 2 ^ l. p ! (c + m * (2 * len)) * ?rho ^ m) + w * (\<Sum>m < 2 ^ l. p ! (c + len + m * (2 * len)) * ?rho ^ m)) mod 3329"
    if "w = ?z \<or> w = - ?z" for w c
    using eval_split [OF root [OF that], of "\<lambda>m. p ! (c + m * len)"] by (simp add: algebra_simps)
  have be: "block_eval p (Suc l) j = (\<Sum>m < 2 ^ Suc l. p ! (j mod len + m * len) * block_root (Suc l) (j div len) ^ m)"
    "block_eval p l k = (\<Sum>m < 2 ^ l. p ! (k mod (2 * len) + m * (2 * len)) * block_root l (k div (2 * len)) ^ m)" for k
    unfolding block_eval_def len2 unfolding len_def by (rule refl)+
  have br: "block_root (Suc l) (2 * i) = ?z" "block_root (Suc l) (2 * i + 1) = - ?z" by (simp_all add: block_root_def)
  have minus: "x - y = x + - y" for x y :: int by simp
  show ?thesis
  proof (cases "?o < len")
    case True
    have d: "j mod len = ?o" "j div len = 2 * i"
      using True len by (subst j, simp add: mult.assoc mult.left_commute [of 2 len])+
    have d2: "(j + len) mod (2 * len) = ?o + len" "(j + len) div (2 * len) = i"
      using True len by (subst j, simp add: add.assoc)+
    show ?thesis
      unfolding be d d2 if_P [OF True] i_def [symmetric] br by (rule split) simp
  next
    case False
    have o: "?o - len < len" using False len mod_less_divisor [of "2 * len" j] by linarith
    have j': "j = (2 * i + 1) * len + (?o - len)" using False by (subst j) (simp add: algebra_simps)
    have "((2 * i + 1) * len + (?o - len)) mod len = ?o - len" "((2 * i + 1) * len + (?o - len)) div len = 2 * i + 1"
      unfolding mod_mult_self3 div_mult_self3 [OF less_imp_neq [OF len, symmetric]] using o by simp_all
    then have d: "j mod len = ?o - len" "j div len = 2 * i + 1" unfolding j' [symmetric] .
    have j'': "j - len = 2 * len * i + (?o - len)" using j' by (simp add: algebra_simps)
    have d2: "(j - len) mod (2 * len) = ?o - len" "(j - len) div (2 * len) = i"
      unfolding j'' using o len by simp_all
    show ?thesis
      unfolding be d d2 if_not_P [OF False] i_def [symmetric] br minus
      using split [of "- ?z" "?o - len"] False by (simp only: minus_mult_left [symmetric] le_add_diff_inverse2 not_less simp_thms)
  qed
qed

lemma ntt_layers:
  assumes "length p = 256" and "abs_bound 3329 p" and "l \<le> 7"
  defines "r \<equiv> foldl mlk_ntt_layer p [1..<Suc l]"
  shows "length r = 256" and "abs_bound ((int l + 1) * 3329) r"
    and "j < 256 \<Longrightarrow> r ! j mod 3329 = block_eval p l j mod 3329"
proof -
  have "length r = 256 \<and> abs_bound ((int l + 1) * 3329) r \<and> (\<forall>j < 256. r ! j mod 3329 = block_eval p l j mod 3329)"
    using assms(3) unfolding r_def
  proof (induction l)
    case 0
    then show ?case using assms(1,2) by (simp add: block_eval_def)
  next
    case (Suc l)
    let ?r = "foldl mlk_ntt_layer p [1..<Suc l]"
    have IH: "length ?r = 256" "abs_bound ((int l + 1) * 3329) ?r" "\<And>j. j < 256 \<Longrightarrow> ?r ! j mod 3329 = block_eval p l j mod 3329"
      using Suc by auto
    have l: "1 \<le> Suc l" "Suc l \<le> 7" and B: "(int l + 1) * 3329 \<le> 7 * 3329" using Suc.prems by auto
    have e: "foldl mlk_ntt_layer p [1..<Suc (Suc l)] = mlk_ntt_layer ?r (Suc l)" by simp
    have "mlk_ntt_layer ?r (Suc l) ! j mod 3329 = block_eval p (Suc l) j mod 3329" if "j < 256" for j
    proof -
      let ?len = "2 ^ (8 - Suc l) :: nat" let ?z = "zeta (2 ^ l + j div (2 * ?len))"
      note pos = layer_pos(4) [OF l that]
      have "j - ?len < 256" using that by simp
      then have "(if j mod (2 * ?len) < ?len then ?r ! j + ?z * ?r ! (j + ?len) else ?r ! (j - ?len) - ?z * ?r ! j) mod 3329
        = (if j mod (2 * ?len) < ?len then block_eval p l j + ?z * block_eval p l (j + ?len)
           else block_eval p l (j - ?len) - ?z * block_eval p l j) mod 3329"
        using mod_lin_cong(1) [OF IH(3) [OF that] IH(3) [OF pos], of ?z] mod_lin_cong(2) [OF IH(3) IH(3) [OF that], of "j - ?len" ?z]
        by (cases "j mod (2 * ?len) < ?len") (simp_all only: if_True if_False)
      note mid = this
      have "l \<le> 6" using l(2) by simp
      note be = block_eval_layer [OF this that, of p]
      show ?thesis
        using nth_ntt_layer(1) [OF IH(1) l IH(2) B that] unfolding diff_Suc_1 by (rule trans) (rule trans [OF mid be [symmetric]])
    qed
    moreover have "(int l + 1) * 3329 + 3329 = (int (Suc l) + 1) * 3329" by simp
    ultimately show ?case unfolding e using ntt_layer_bound [OF IH(1) l IH(2) B] by metis
  qed
  then show "length r = 256" "abs_bound ((int l + 1) * 3329) r" "j < 256 \<Longrightarrow> r ! j mod 3329 = block_eval p l j mod 3329"
    by auto
qed

text \<open>The root of block \<open>i\<close> after the last layer, \<open>17^(2 BitRev7(i) + 1)\<close> of FIPS 203.\<close>

definition bitrev7 :: "nat \<Rightarrow> nat" where
  "bitrev7 i = foldl (\<lambda>r k. 2 * r + (i div 2 ^ k) mod 2) 0 [0..<7]"

definition ntt_root :: "nat \<Rightarrow> int" where
  "ntt_root i = 17 ^ (2 * bitrev7 i + 1) mod 3329"

text \<open>The same root as a product of the seven powers selected by the bits of \<open>i\<close>.\<close>

definition root_product :: "nat \<Rightarrow> int" where
  "root_product i =
     foldl (\<lambda>x (k, c). if i div 2 ^ k mod 2 = 0 then x else x * c mod 3329) 17
       [(0, 3328), (1, 1729), (2, 2580), (3, 2642), (4, 1062), (5, 296), (6, 289)]"

lemma pow17_step:
  fixes b :: nat
  assumes "x mod 3329 = 17 ^ e mod (3329 :: int)" and "c = 17 ^ f mod (3329 :: int)"
  shows "(if b mod 2 = 0 then x else x * c mod 3329) mod 3329 = 17 ^ (e + f * (b mod 2)) mod (3329 :: int)"
proof (cases "b mod 2 = 0")
  case False
  then have "b mod 2 = 1" by simp
  then have "17 ^ (e + f * (b mod 2)) = (17 ^ e * 17 ^ f :: int)" by (simp add: power_add)
  moreover have "x * c mod 3329 = 17 ^ e * 17 ^ f mod 3329"
    by (rule mod_mult_cong [OF assms(1)]) (simp only: assms(2) mod_mod_trivial)
  ultimately show ?thesis using False by (simp only: if_False mod_mod_trivial)
qed (use assms in simp)

lemma root_product: "root_product i mod 3329 = ntt_root i"
proof -
  have "root_product i mod 3329 = 17 ^ (1 + 128 * (i div 2 ^ 0 mod 2) + 64 * (i div 2 ^ 1 mod 2) + 32 * (i div 2 ^ 2 mod 2)
      + 16 * (i div 2 ^ 3 mod 2) + 8 * (i div 2 ^ 4 mod 2) + 4 * (i div 2 ^ 5 mod 2) + 2 * (i div 2 ^ 6 mod 2)) mod 3329"
    unfolding root_product_def foldl.simps prod.case by (intro pow17_step) simp_all
  moreover have "2 * bitrev7 i + 1 = 1 + 128 * (i div 2 ^ 0 mod 2) + 64 * (i div 2 ^ 1 mod 2) + 32 * (i div 2 ^ 2 mod 2)
      + 16 * (i div 2 ^ 3 mod 2) + 8 * (i div 2 ^ 4 mod 2) + 4 * (i div 2 ^ 5 mod 2) + 2 * (i div 2 ^ 6 mod 2)"
    by (simp add: bitrev7_def upt_rec)
  ultimately show ?thesis by (simp only: ntt_root_def)
qed

lemma block_root_7:
  assumes "i < 128"
  shows "block_root 7 i mod 3329 = ntt_root i"
proof -
  have "\<forall>i \<in> set [0..<128]. block_root 7 i mod 3329 = root_product i mod 3329" by code_simp
  then show ?thesis using assms unfolding set_upt root_product by force
qed

lemma mod_eval_cong:
  assumes "w mod q = (v :: int) mod q"
  shows "(\<Sum>m < M. a m * w ^ m) mod q = (\<Sum>m < M. a m * v ^ m) mod (q :: int)"
proof (rule mod_sum_cong)
  fix m
  have "w ^ m mod q = v ^ m mod q" by (metis assms power_mod)
  then show "a m * w ^ m mod q = a m * v ^ m mod q" by (rule mod_mult_cong [OF refl])
qed

lemma block_eval_7:
  assumes "i < 128" and "b < 2"
  shows "block_eval p 7 (2 * i + b) mod 3329 = (\<Sum>m < 128. p ! (2 * m + b) * ntt_root i ^ m) mod 3329"
proof -
  have pos: "(2 * i + b) mod 2 = b" "(2 * i + b) div 2 = i" using assms by auto
  have "2 ^ (8 - 7) = (2 :: nat)" "2 ^ 7 = (128 :: nat)" by simp_all
  then have "block_eval p 7 (2 * i + b) = (\<Sum>m < 128. p ! (2 * m + b) * block_root 7 i ^ m)"
    unfolding block_eval_def by (simp only: pos) (simp only: add.commute mult.commute)
  also have "\<dots> mod 3329 = (\<Sum>m < 128. p ! (2 * m + b) * ntt_root i ^ m) mod 3329"
    by (rule mod_eval_cong) (metis block_root_7 [OF assms(1)] mod_mod_trivial)
  finally show ?thesis .
qed

lemma poly_ntt:
  assumes "length p = 256" and "abs_bound 3329 p"
  shows "length (mlk_poly_ntt p) = 256" and "abs_bound 26632 (mlk_poly_ntt p)"
    and "i < 128 \<Longrightarrow> b < 2 \<Longrightarrow>
      mlk_poly_ntt p ! (2 * i + b) mod 3329 = (\<Sum>m < 128. p ! (2 * m + b) * ntt_root i ^ m) mod 3329"
proof -
  have n: "mlk_poly_ntt p = foldl mlk_ntt_layer p [1..<Suc 7]" by (simp add: mlk_poly_ntt_def)
  note l = ntt_layers [OF assms, of 7, folded n]
  show "length (mlk_poly_ntt p) = 256" "abs_bound 26632 (mlk_poly_ntt p)" using l(1,2) by simp_all
  show "mlk_poly_ntt p ! (2 * i + b) mod 3329 = (\<Sum>m < 128. p ! (2 * m + b) * ntt_root i ^ m) mod 3329"
    if "i < 128" "b < 2"
    using l(3) [of "2 * i + b"] block_eval_7 [OF that, of p] that by simp
qed

text \<open>
  C33: The forward transform. For a polynomial with coefficients below \<open>q\<close> in absolute value, no
  step overflows, the result is bounded by \<open>8 q\<close>, and its pair of coefficients \<open>2i\<close>, \<open>2i + 1\<close> is
  the remainder modulo \<open>X^2 - 17^(2 BitRev7(i) + 1)\<close>, that is the number-theoretic transform of
  FIPS 203: even and odd part evaluated at that root.
\<close>

theorem poly_ntt_spec:
  assumes "length p = MLKEM_N" and "abs_bound MLKEM_Q p"
  shows "length (mlk_poly_ntt p) = MLKEM_N \<and> abs_bound MLK_NTT_BOUND (mlk_poly_ntt p)
    \<and> (\<forall>i < 128. \<forall>b < 2. mlk_poly_ntt p ! (2 * i + b) mod MLKEM_Q
          = (\<Sum>m < 128. p ! (2 * m + b) * ntt_root i ^ m) mod MLKEM_Q)"
  using poly_ntt [of p] assms by (simp add: MLKEM_N_def MLKEM_Q_def MLK_NTT_BOUND_def)

theorem poly_ntt_spec_witness:
  "abs_bound MLK_NTT_BOUND (mlk_poly_ntt (replicate 256 1))"
  using poly_ntt_spec [of "replicate 256 1"] by (simp add: MLKEM_N_def MLKEM_Q_def abs_bound_def)

section \<open>The inverse transform\<close>

text \<open>\<open>r\<close> is \<open>c\<close> times \<open>p\<close> modulo \<open>q\<close>, coefficient by coefficient.\<close>

definition scaled :: "int \<Rightarrow> poly \<Rightarrow> poly \<Rightarrow> bool" where
  "scaled c r p \<longleftrightarrow> length r = length p \<and> (\<forall>j < length p. r ! j mod 3329 = c * p ! j mod 3329)"

lemma zeta_inverse:
  assumes "1 \<le> l" and "l \<le> 7" and "i < 2 ^ (l - 1)"
  shows "zeta (2 ^ (l - 1) + i) * zeta (2 ^ l - 1 - i) mod 3329 = 3328"
proof -
  have "\<forall>l \<in> set [1..<8]. \<forall>i \<in> set [0..<2 ^ (l - 1)]. zeta (2 ^ (l - 1) + i) * zeta (2 ^ l - 1 - i) mod 3329 = 3328"
    by code_simp
  moreover have "l < 8" using assms(2) by simp
  ultimately show ?thesis using assms(1,3) unfolding set_upt by force
qed

lemma nth_invntt_layer:
  assumes "length r = 256" and "1 \<le> l" and "l \<le> 7" and "abs_bound 3329 r" and "j < 256"
  defines "len \<equiv> 2 ^ (8 - l) :: nat"
  defines "i \<equiv> j div (2 * len)"
  shows "mlk_invntt_layer r l ! j mod 3329 =
      (if j mod (2 * len) < len then r ! j + r ! (j + len) else (r ! j - r ! (j - len)) * zeta (2 ^ l - 1 - i)) mod 3329"
    and "\<bar>mlk_invntt_layer r l ! j\<bar> < 3329"
proof -
  let ?z = "mlk_zetas ! (2 ^ l - 1 - i)"
  note pos = layer_pos [OF assms(2,3,5), folded len_def i_def]
  have z: "\<bar>?z\<bar> < 1665" using zetas_bound zeta_index [OF assms(2,3) pos(3)] by blast
  have eq: "mlk_invntt_layer r l ! j =
    (if j mod (2 * len) < len then mlk_barrett_reduce (to_i16 (r ! j + r ! (j + len))) else mlk_fqmul (to_i16 (r ! j - r ! (j - len))) ?z)"
    using nth_pair_layer [OF pos(1), of "2 ^ (l - 1)" r j] pos(2) assms(1,5)
    unfolding invntt_layer_pair [OF assms(1-3)] len_def i_def by simp
  have b: "\<bar>r ! j\<bar> < 3329" "\<bar>r ! (j - len)\<bar> < 3329" "j mod (2 * len) < len \<Longrightarrow> \<bar>r ! (j + len)\<bar> < 3329"
    using abs_bound_nth [OF assms(4)] assms(1,5) pos(4) by auto
  have s: "is_i16 (r ! j - r ! (j - len))" "j mod (2 * len) < len \<Longrightarrow> is_i16 (r ! j + r ! (j + len))"
    using b by (auto simp: is_i16_def)
  note f = fqmul [OF s(1) z] 
  have f1: "mlk_fqmul (r ! j - r ! (j - len)) ?z mod 3329 = (r ! j - r ! (j - len)) * zeta (2 ^ l - 1 - i) mod 3329"
    unfolding f(1) zeta_def mult.assoc by (simp only: mod_mult_right_eq)
  show "mlk_invntt_layer r l ! j mod 3329 =
      (if j mod (2 * len) < len then r ! j + r ! (j + len) else (r ! j - r ! (j - len)) * zeta (2 ^ l - 1 - i)) mod 3329"
    unfolding eq using f1 s barrett_reduce(1) [OF s(2)] by (cases "j mod (2 * len) < len") (simp_all only: to_i16_id if_True if_False)
  show "\<bar>mlk_invntt_layer r l ! j\<bar> < 3329"
    unfolding eq using f(2) s barrett_reduce(2) [OF s(2)] by (cases "j mod (2 * len) < len") (auto simp: to_i16_id)
qed

lemma layer_partner:
  fixes j len :: nat
  assumes "0 < len"
  shows "j mod (2 * len) < len \<Longrightarrow> (j + len) mod (2 * len) = j mod (2 * len) + len \<and> (j + len) div (2 * len) = j div (2 * len)"
    and "\<not> j mod (2 * len) < len \<Longrightarrow> (j - len) mod (2 * len) = j mod (2 * len) - len \<and> (j - len) div (2 * len) = j div (2 * len)"
proof -
  let ?o = "j mod (2 * len)" and ?i = "j div (2 * len)"
  have dm: "(2 * len * i + c) mod (2 * len) = c \<and> (2 * len * i + c) div (2 * len) = i" if "c < 2 * len" for i c
    using that by simp
  have j: "j = 2 * len * ?i + ?o" by simp
  show "(j + len) mod (2 * len) = ?o + len \<and> (j + len) div (2 * len) = ?i" if "?o < len"
    using dm [of "?o + len" ?i] that by (simp add: add.assoc [symmetric])
  have "j - len = 2 * len * ?i + (?o - len)" if "\<not> ?o < len" using j that by linarith
  then show "(j - len) mod (2 * len) = ?o - len \<and> (j - len) div (2 * len) = ?i" if "\<not> ?o < len"
    using dm [of "?o - len" ?i] mod_less_divisor [of "2 * len" j] assms that by (metis less_imp_diff_less mult_pos_pos zero_less_numeral)
qed

lemma cong_add: "x mod q = c * (a + b) mod q \<Longrightarrow> y mod q = c * (a - b) mod q \<Longrightarrow> (x + y) mod q = 2 * c * a mod q"
  for x y a b c q :: int
  using mod_add_cong [of x q "c * (a + b)" y "c * (a - b)"] by (simp add: algebra_simps)

lemma cong_sub:
  fixes x y a b c q z z' :: int
  assumes "x mod q = c * (a - z * b) mod q" and "y mod q = c * (a + z * b) mod q" and "z * z' mod q = - 1 mod q"
  shows "(x - y) * z' mod q = 2 * c * b mod q"
proof -
  have "(x - y) mod q = (c * (a - z * b) - c * (a + z * b)) mod q" using assms(1,2) by (rule mod_diff_cong)
  then have "(x - y) * z' mod q = (c * (a - z * b) - c * (a + z * b)) * z' mod q" by (rule mod_mult_cong) (rule refl)
  also have "\<dots> = (- 2 * c * b) * (z * z') mod q" by (simp add: algebra_simps)
  also have "\<dots> = (- 2 * c * b) * - 1 mod q" by (rule mod_mult_cong [OF refl assms(3)])
  finally show ?thesis by simp
qed

lemma invntt_undo_layer:
  assumes "length p = 256" and "1 \<le> l" and "l \<le> 7" and "abs_bound B p" and "B \<le> 7 * 3329"
    and "abs_bound 3329 r" and "scaled c r (mlk_ntt_layer p l)"
  shows "scaled (2 * c) (mlk_invntt_layer r l) p \<and> abs_bound 3329 (mlk_invntt_layer r l)"
proof -
  have lr: "length r = 256" and s: "\<And>j. j < 256 \<Longrightarrow> r ! j mod 3329 = c * mlk_ntt_layer p l ! j mod 3329"
    using assms(7) ntt_layer_bound [OF assms(1-5)] by (auto simp: scaled_def)
  have li: "length (mlk_invntt_layer r l) = 256" using lr by (simp add: invntt_layer_pair [OF lr assms(2,3)])
  have "mlk_invntt_layer r l ! j mod 3329 = 2 * c * p ! j mod 3329" if j: "j < 256" for j
  proof -
    let ?len = "2 ^ (8 - l) :: nat" let ?i = "j div (2 * ?len)"
    let ?z = "zeta (2 ^ (l - 1) + ?i)" and ?z' = "zeta (2 ^ l - 1 - ?i)"
    note pos = layer_pos [OF assms(2,3) j] and partner = layer_partner [OF layer_pos(1) [OF assms(2,3) j], of j]
    note inv = nth_invntt_layer(1) [OF lr assms(2,3,6) j]
    have n: "r ! k mod 3329 = c * (if k mod (2 * ?len) < ?len then p ! k + zeta (2 ^ (l - 1) + k div (2 * ?len)) * p ! (k + ?len)
       else p ! (k - ?len) - zeta (2 ^ (l - 1) + k div (2 * ?len)) * p ! k) mod 3329" if "k < 256" for k
      using s [OF that] mod_mult_cong [OF refl nth_ntt_layer(1) [OF assms(1-5) that], of c] by (rule trans)
    show ?thesis
    proof (cases "j mod (2 * ?len) < ?len")
      case True
      note k = partner(1) [OF True] 
      have n1: "r ! j mod 3329 = c * (p ! j + ?z * p ! (j + ?len)) mod 3329" using n [OF j] unfolding if_P [OF True] .
      have n2: "r ! (j + ?len) mod 3329 = c * (p ! j - ?z * p ! (j + ?len)) mod 3329"
        using n [OF pos(4) [OF True]] by (simp only: k not_add_less2 if_False add_diff_cancel_right')
      show ?thesis unfolding inv if_P [OF True] by (rule cong_add [OF n1 n2])
    next
      case False
      note k = partner(2) [OF False] 
      have m: "j mod (2 * ?len) < 2 * ?len" by simp
      have lt: "j - ?len < 256" "j mod (2 * ?len) - ?len < ?len" "j - ?len + ?len = j"
        subgoal using j by simp
        subgoal using m False by linarith
        subgoal using pos(5) [OF False] by simp
        done
      have "?z * ?z' mod 3329 = - 1 mod 3329" using zeta_inverse [OF assms(2,3) pos(3)] by simp
      moreover have n1: "r ! j mod 3329 = c * (p ! (j - ?len) - ?z * p ! j) mod 3329" using n [OF j] unfolding if_not_P [OF False] .
      moreover have n2: "r ! (j - ?len) mod 3329 = c * (p ! (j - ?len) + ?z * p ! j) mod 3329"
        using n [OF lt(1)] by (simp only: k lt if_True)
      ultimately show ?thesis unfolding inv if_not_P [OF False] by (intro cong_sub)
    qed
  qed
  then show ?thesis
    using li assms(1) nth_invntt_layer(2) [OF lr assms(2,3,6)] by (auto simp: scaled_def intro: abs_boundI)
qed

lemma scaled_fqmul:
  assumes "\<forall>x \<in> set p. is_i16 x" and "\<bar>f\<bar> < 1665"
  shows "scaled (f * 169) (map (\<lambda>x. mlk_fqmul x f) p) p" and "abs_bound 3329 (map (\<lambda>x. mlk_fqmul x f) p)"
  using assms fqmul by (auto simp: scaled_def abs_bound_def mult_ac)

lemma invntt_layers:
  assumes "length p = 256" and "abs_bound 3329 p" and "l \<le> 7" and "abs_bound 3329 r"
    and "scaled c r (foldl mlk_ntt_layer p [1..<Suc l])"
  shows "scaled (2 ^ l * c) (foldl mlk_invntt_layer r (rev [1..<Suc l])) p
    \<and> abs_bound 3329 (foldl mlk_invntt_layer r (rev [1..<Suc l]))"
  using assms(3-)
proof (induction l arbitrary: r c)
  case (Suc l)
  let ?p = "foldl mlk_ntt_layer p [1..<Suc l]"
  note p = ntt_layers(1,2) [OF assms(1,2), of l]
  have "scaled (2 * c) (mlk_invntt_layer r (Suc l)) ?p \<and> abs_bound 3329 (mlk_invntt_layer r (Suc l))"
    using Suc.prems p by (intro invntt_undo_layer [where B = "(int l + 1) * 3329"]) auto
  then show ?case using Suc.IH [of "mlk_invntt_layer r (Suc l)" "2 * c"] Suc.prems(1) by (simp add: mult.assoc mult.left_commute)
qed simp

lemma invntt_ntt:
  assumes "length p = 256" and "abs_bound 3329 p"
  shows "scaled 65536 (mlk_poly_invntt_tomont (mlk_poly_ntt p)) p \<and> abs_bound 3329 (mlk_poly_invntt_tomont (mlk_poly_ntt p))"
proof -
  have n: "mlk_poly_ntt p = foldl mlk_ntt_layer p [1..<Suc 7]" by (simp add: mlk_poly_ntt_def)
  note l = ntt_layers [OF assms, of 7, folded n]
  have i: "\<forall>x \<in> set (mlk_poly_ntt p). is_i16 x" using l(2) by (auto simp: abs_bound_def is_i16_def)
  let ?m = "map (\<lambda>x. mlk_fqmul x 1441) (mlk_poly_ntt p)" and ?r = "mlk_poly_invntt_tomont (mlk_poly_ntt p)"
  have "?r = foldl mlk_invntt_layer ?m (rev [1..<Suc 7])"
    by (simp add: mlk_poly_invntt_tomont_def)
  then have "scaled (2 ^ 7 * (1441 * 169)) ?r p \<and> abs_bound 3329 ?r"
    using invntt_layers [OF assms _ scaled_fqmul(2) [OF i, of 1441], of 7 "1441 * 169", folded n] scaled_fqmul(1) [OF i, of 1441] by simp
  moreover have "2 ^ 7 * (1441 * 169) * x mod 3329 = 65536 * x mod 3329" for x :: int
    by (rule mod_mult_cong) simp_all
  ultimately show ?thesis by (simp add: scaled_def)
qed

text \<open>
  C34: The inverse transform. Applied to the forward transform of any polynomial with
  coefficients below \<open>q\<close> in absolute value it returns, without overflow and with coefficients
  below \<open>q\<close>, the polynomial times \<open>2^16\<close> modulo \<open>q\<close>, its Montgomery form.
\<close>

theorem invntt_ntt_roundtrip:
  assumes "length p = MLKEM_N" and "abs_bound MLKEM_Q p"
  defines "r \<equiv> mlk_poly_invntt_tomont (mlk_poly_ntt p)"
  shows "length r = MLKEM_N \<and> abs_bound MLKEM_Q r \<and> (\<forall>j < MLKEM_N. r ! j mod MLKEM_Q = 2 ^ 16 * p ! j mod MLKEM_Q)"
  using invntt_ntt [of p] assms by (simp add: scaled_def MLKEM_N_def MLKEM_Q_def)

theorem invntt_ntt_roundtrip_witness:
  "mlk_poly_invntt_tomont (mlk_poly_ntt (replicate 256 1)) ! 5 mod 3329 = 2285"
  using invntt_ntt_roundtrip [of "replicate 256 1"] by (simp add: MLKEM_N_def MLKEM_Q_def abs_bound_def)

end
