(* ===== verification/Mlk_Polyvec.thy ===== *)
theory Mlk_Polyvec
  imports Mlk_Sampling Mlk_NTT
begin

text \<open>
  \<open>mlkem_native/src/poly_k.h\<close> and \<open>poly_k.c\<close>: vectors of \<open>MLKEM_K\<close> polynomials, the scalar product in
  the transformed domain with its multiplication cache, and the sampling of noise polynomials. An
  output vector is a return value. The library builds without a batched Keccak backend, so
  \<open>mlk_poly_getnoise_eta1_4x\<close> takes its serial branch.
\<close>

section \<open>The program\<close>

type_synonym polyvec = "poly list"
type_synonym polymat = "polyvec list"
type_synonym mulcache = "int list"

definition mlk_poly_compress_du :: "poly \<Rightarrow> bytes" where
  "mlk_poly_compress_du a = mlk_poly_compress_d10 a"

definition mlk_poly_decompress_du :: "bytes \<Rightarrow> poly" where
  "mlk_poly_decompress_du a = mlk_poly_decompress_d10 a"

definition mlk_poly_compress_dv :: "poly \<Rightarrow> bytes" where
  "mlk_poly_compress_dv a = mlk_poly_compress_d4 a"

definition mlk_poly_decompress_dv :: "bytes \<Rightarrow> poly" where
  "mlk_poly_decompress_dv a = mlk_poly_decompress_d4 a"

definition mlk_polyvec_compress_du :: "polyvec \<Rightarrow> bytes" where
  "mlk_polyvec_compress_du a = concat (map (\<lambda>i. mlk_poly_compress_du (a ! i)) [0..<MLKEM_K])"

definition mlk_polyvec_decompress_du :: "bytes \<Rightarrow> polyvec" where
  "mlk_polyvec_decompress_du a =
     map (\<lambda>i. mlk_poly_decompress_du (take MLKEM_POLYCOMPRESSEDBYTES_DU (drop (i * MLKEM_POLYCOMPRESSEDBYTES_DU) a))) [0..<MLKEM_K]"

definition mlk_polyvec_tobytes :: "polyvec \<Rightarrow> bytes" where
  "mlk_polyvec_tobytes a = concat (map (\<lambda>i. mlk_poly_tobytes (a ! i)) [0..<MLKEM_K])"

definition mlk_polyvec_frombytes :: "bytes \<Rightarrow> polyvec" where
  "mlk_polyvec_frombytes a = map (\<lambda>i. mlk_poly_frombytes (take MLKEM_POLYBYTES (drop (i * MLKEM_POLYBYTES) a))) [0..<MLKEM_K]"

definition mlk_polyvec_ntt :: "polyvec \<Rightarrow> polyvec" where
  "mlk_polyvec_ntt r = map (\<lambda>i. mlk_poly_ntt (r ! i)) [0..<MLKEM_K]"

definition mlk_polyvec_invntt_tomont :: "polyvec \<Rightarrow> polyvec" where
  "mlk_polyvec_invntt_tomont r = map (\<lambda>i. mlk_poly_invntt_tomont (r ! i)) [0..<MLKEM_K]"

text \<open>One step of the inner loop: the four multiplications of component \<open>k\<close> for the pair of coefficients \<open>2i\<close>, \<open>2i + 1\<close>.\<close>

definition basemul_acc :: "polyvec \<Rightarrow> polyvec \<Rightarrow> mulcache list \<Rightarrow> nat \<Rightarrow> int \<times> int \<Rightarrow> nat \<Rightarrow> int \<times> int" where
  "basemul_acc a b b_cache i t k =
     (let (t0, t1) = t;
          t0 = t0 + a ! k ! (2 * i + 1) * b_cache ! k ! i;
          t0 = t0 + a ! k ! (2 * i) * b ! k ! (2 * i);
          t1 = t1 + a ! k ! (2 * i) * b ! k ! (2 * i + 1);
          t1 = t1 + a ! k ! (2 * i + 1) * b ! k ! (2 * i)
      in (t0, t1))"

definition mlk_polyvec_basemul_acc_montgomery_cached :: "polyvec \<Rightarrow> polyvec \<Rightarrow> mulcache list \<Rightarrow> poly" where
  "mlk_polyvec_basemul_acc_montgomery_cached a b b_cache =
     concat (map (\<lambda>i. let (t0, t1) = foldl (basemul_acc a b b_cache i) (0, 0) [0..<MLKEM_K]
                      in [mlk_montgomery_reduce t0, mlk_montgomery_reduce t1])
       [0..<MLKEM_N div 2])"

definition mlk_polyvec_mulcache_compute :: "polyvec \<Rightarrow> mulcache list" where
  "mlk_polyvec_mulcache_compute a = map (\<lambda>i. mlk_poly_mulcache_compute (a ! i)) [0..<MLKEM_K]"

definition mlk_polyvec_reduce :: "polyvec \<Rightarrow> polyvec" where
  "mlk_polyvec_reduce r = map (\<lambda>i. mlk_poly_reduce (r ! i)) [0..<MLKEM_K]"

definition mlk_polyvec_add :: "polyvec \<Rightarrow> polyvec \<Rightarrow> polyvec" where
  "mlk_polyvec_add r b = map (\<lambda>i. mlk_poly_add (r ! i) (b ! i)) [0..<MLKEM_K]"

definition mlk_polyvec_tomont :: "polyvec \<Rightarrow> polyvec" where
  "mlk_polyvec_tomont r = map (\<lambda>i. mlk_poly_tomont (r ! i)) [0..<MLKEM_K]"

definition mlk_poly_cbd_eta1 :: "bytes \<Rightarrow> poly" where
  "mlk_poly_cbd_eta1 buf = mlk_poly_cbd2 buf"

text \<open>The last output is absent when the caller passes a null pointer for it.\<close>

definition mlk_poly_getnoise_eta1_4x :: "bool \<Rightarrow> bytes \<Rightarrow> byte \<Rightarrow> byte \<Rightarrow> byte \<Rightarrow> byte \<Rightarrow> poly list" where
  "mlk_poly_getnoise_eta1_4x r3 seed nonce0 nonce1 nonce2 nonce3 =
     (let extkey = map (\<lambda>nonce. take MLKEM_SYMBYTES seed @ [nonce]) [nonce0, nonce1, nonce2, nonce3];
          buf0 = mlk_prf_eta1 (extkey ! 0);
          buf1 = mlk_prf_eta1 (extkey ! 1);
          buf2 = mlk_prf_eta1 (extkey ! 2)
      in [mlk_poly_cbd_eta1 buf0, mlk_poly_cbd_eta1 buf1, mlk_poly_cbd_eta1 buf2]
         @ (if r3 then let buf3 = mlk_prf_eta1 (extkey ! 3) in [mlk_poly_cbd_eta1 buf3] else []))"

text \<open>
  The noise functions of the other parameter sets: 512 and 1024 sample the second error with
  \<open>mlk_poly_getnoise_eta2\<close>, and 512, where \<open>MLKEM_ETA1\<close> is 3, takes two polynomials of either width at once.
\<close>

definition mlk_poly_cbd_eta2 :: "bytes \<Rightarrow> poly" where
  "mlk_poly_cbd_eta2 buf = mlk_poly_cbd2 buf"

definition mlk_poly_getnoise_eta2 :: "bytes \<Rightarrow> byte \<Rightarrow> poly" where
  "mlk_poly_getnoise_eta2 seed nonce =
     (let extkey = take MLKEM_SYMBYTES seed @ [nonce];
          buf = mlk_prf_eta2 extkey
      in mlk_poly_cbd_eta2 buf)"

definition mlk_poly_getnoise_eta1122_4x :: "bytes \<Rightarrow> byte \<Rightarrow> byte \<Rightarrow> byte \<Rightarrow> byte \<Rightarrow> poly \<times> poly \<times> poly \<times> poly" where
  "mlk_poly_getnoise_eta1122_4x seed nonce0 nonce1 nonce2 nonce3 =
     (let extkey = map (\<lambda>nonce. take MLKEM_SYMBYTES seed @ [nonce]) [nonce0, nonce1, nonce2, nonce3];
          buf0 = mlk_prf_eta 3 (extkey ! 0);
          buf1 = mlk_prf_eta 3 (extkey ! 1);
          buf2 = mlk_prf_eta2 (extkey ! 2);
          buf3 = mlk_prf_eta2 (extkey ! 3)
      in (mlk_poly_cbd3 buf0, mlk_poly_cbd3 buf1, mlk_poly_cbd_eta2 buf2, mlk_poly_cbd_eta2 buf3))"

section \<open>Vectors\<close>

text \<open>A vector of \<open>MLKEM_K\<close> polynomials that satisfy \<open>P\<close>.\<close>

definition polyvec_all :: "(poly \<Rightarrow> bool) \<Rightarrow> polyvec \<Rightarrow> bool" where
  "polyvec_all P v \<longleftrightarrow> length v = MLKEM_K \<and> (\<forall>p \<in> set v. P p)"

lemma polyvec_allI: "length v = MLKEM_K \<Longrightarrow> (\<And>i. i < MLKEM_K \<Longrightarrow> P (v ! i)) \<Longrightarrow> polyvec_all P v"
  by (auto simp: polyvec_all_def in_set_conv_nth)

lemma polyvec_all_nth: "polyvec_all P v \<Longrightarrow> i < MLKEM_K \<Longrightarrow> P (v ! i)"
  by (auto simp: polyvec_all_def)

lemma polyvec_all_length: "polyvec_all P v \<Longrightarrow> length v = MLKEM_K"
  by (simp add: polyvec_all_def)

lemma upt_K: "[0..<MLKEM_K] = [0, 1, 2]"
  by (simp add: MLKEM_K_def upt_rec)

lemma less_K: "i < MLKEM_K \<longleftrightarrow> i = 0 \<or> i = 1 \<or> i = 2"
  by (auto simp: MLKEM_K_def)

lemma polyvec_map: "length v = MLKEM_K \<Longrightarrow> map (\<lambda>i. f (v ! i)) [0..<MLKEM_K] = map f v"
  by (metis map_nth map_map comp_apply map_cong)

section \<open>The scalar product in the transformed domain\<close>

lemma length_mulcache: "length (mlk_poly_mulcache_compute b) = 128"
  unfolding mlk_poly_mulcache_compute_def by (subst length_concat_blocks [where w = 2]) (auto simp: MLKEM_N_def)

lemma mulcache:
  assumes "length b = 256" "\<forall>x \<in> set b. is_i16 x" "i < 128"
  shows "mlk_poly_mulcache_compute b ! i mod 3329 = ntt_root i * b ! (2 * i + 1) mod 3329"
    and "\<bar>mlk_poly_mulcache_compute b ! i\<bar> < 3329"
proof -
  define m c where "m = i div 2" and "c = i mod 2"
  have i: "i = 2 * m + c" "m < 64" "c < 2" using assms (3) by (auto simp: m_def c_def)
  let ?z = "mlk_zetas ! (64 + m)"
  have z: "\<bar>?z\<bar> < 1665" using zetas_bound i by auto
  have zm: "to_i16 (- ?z) = - ?z" using z by (intro to_i16_id) (auto simp: is_i16_def)
  have nth: "mlk_poly_mulcache_compute b ! i = [mlk_fqmul (b ! (4 * m + 1)) ?z, mlk_fqmul (b ! (4 * m + 3)) (- ?z)] ! c"
    unfolding mlk_poly_mulcache_compute_def i (1) using i (2,3) by (subst nth_concat_blocks) (auto simp: MLKEM_N_def zm)
  have b: "is_i16 (b ! (4 * m + 1))" "is_i16 (b ! (4 * m + 3))" using assms (1,2) i by auto
  have root: "block_root 7 i mod 3329 = ntt_root i" by (rule block_root_7 [OF assms (3)])
  have f: "mlk_fqmul (b ! (4 * m + 1)) ?z mod 3329 = zeta (64 + m) * b ! (4 * m + 1) mod 3329"
    "mlk_fqmul (b ! (4 * m + 3)) (- ?z) mod 3329 = - zeta (64 + m) * b ! (4 * m + 3) mod 3329"
  proof -
    show "mlk_fqmul (b ! (4 * m + 1)) ?z mod 3329 = zeta (64 + m) * b ! (4 * m + 1) mod 3329"
      unfolding fqmul (1) [OF b (1) z] zeta_def mod_mult_left_eq by (simp add: mult_ac)
    have "\<bar>- ?z\<bar> < 1665" using z by simp
    then have "mlk_fqmul (b ! (4 * m + 3)) (- ?z) mod 3329 = - (mlk_zetas ! (64 + m) * 169) * b ! (4 * m + 3) mod 3329"
      using fqmul (1) [OF b (2)] by (simp add: mult_ac)
    also have "\<dots> = - zeta (64 + m) * b ! (4 * m + 3) mod 3329"
      unfolding zeta_def by (metis mod_minus_eq mod_mult_left_eq)
    finally show "mlk_fqmul (b ! (4 * m + 3)) (- ?z) mod 3329 = - zeta (64 + m) * b ! (4 * m + 3) mod 3329" .
  qed
  have "mlk_poly_mulcache_compute b ! i mod 3329 = block_root 7 i * b ! (2 * i + 1) mod 3329"
  proof (cases "c = 0")
    case True
    then show ?thesis using f (1) i nth by (simp add: block_root_def)
  next
    case False
    then have "c = 1" using i (3) by simp
    then show ?thesis using f (2) i nth by (simp add: block_root_def numeral_3_eq_3)
  qed
  also have "\<dots> = ntt_root i * b ! (2 * i + 1) mod 3329" by (rule mod_mult_cong) (use root in auto)
  finally show "mlk_poly_mulcache_compute b ! i mod 3329 = ntt_root i * b ! (2 * i + 1) mod 3329" .
  show "\<bar>mlk_poly_mulcache_compute b ! i\<bar> < 3329"
    using nth i (3) fqmul (2) [OF b (1) z] fqmul (2) [OF b (2), of "- ?z"] z by (cases "c = 0") (auto simp: less_2_cases_iff)
qed

text \<open>A 12-bit vector, as read from a key, and a vector of 16-bit values.\<close>

definition coeffs12 :: "poly \<Rightarrow> bool" where
  "coeffs12 p \<longleftrightarrow> length p = MLKEM_N \<and> (\<forall>c \<in> set p. 0 \<le> c \<and> c < MLKEM_UINT12_LIMIT)"

definition coeffs16 :: "poly \<Rightarrow> bool" where
  "coeffs16 p \<longleftrightarrow> length p = MLKEM_N \<and> (\<forall>c \<in> set p. is_i16 c)"

lemma coeffs12_nth: "coeffs12 p \<Longrightarrow> j < 256 \<Longrightarrow> \<bar>p ! j\<bar> \<le> 4095"
proof -
  assume "coeffs12 p" "j < 256"
  then have "p ! j \<in> set p" "\<forall>c \<in> set p. 0 \<le> c \<and> c < 4096" by (simp_all add: coeffs12_def MLKEM_N_def MLKEM_UINT12_LIMIT_def)
  then have "0 \<le> p ! j \<and> p ! j < 4096" by blast
  then show ?thesis by simp
qed

lemma coeffs16_nth: "coeffs16 p \<Longrightarrow> j < 256 \<Longrightarrow> is_i16 (p ! j)"
  by (auto simp: coeffs16_def MLKEM_N_def)

lemma abs_prod_bound: "\<bar>x\<bar> \<le> 4095 \<Longrightarrow> is_i16 y \<Longrightarrow> \<bar>x * y\<bar> \<le> 4095 * 32768" for x y :: int
  unfolding abs_mult by (intro mult_mono) (auto simp: is_i16_def)

text \<open>The accumulators after \<open>n\<close> components: exact values, and the bound that excludes a 32-bit overflow.\<close>

lemma basemul_accumulate:
  assumes "polyvec_all coeffs12 a" "polyvec_all coeffs16 b" "i < 128" "n \<le> MLKEM_K"
  defines "c \<equiv> mlk_polyvec_mulcache_compute b"
  shows "foldl (basemul_acc a b c i) (0, 0) [0..<n] =
     (\<Sum>k<n. a ! k ! (2 * i + 1) * c ! k ! i + a ! k ! (2 * i) * b ! k ! (2 * i),
      \<Sum>k<n. a ! k ! (2 * i) * b ! k ! (2 * i + 1) + a ! k ! (2 * i + 1) * b ! k ! (2 * i))"
    and "\<bar>\<Sum>k<n. a ! k ! (2 * i + 1) * c ! k ! i + a ! k ! (2 * i) * b ! k ! (2 * i)\<bar> \<le> int n * (2 * 4095 * 32768)"
    and "\<bar>\<Sum>k<n. a ! k ! (2 * i) * b ! k ! (2 * i + 1) + a ! k ! (2 * i + 1) * b ! k ! (2 * i)\<bar> \<le> int n * (2 * 4095 * 32768)"
proof -
  show "foldl (basemul_acc a b c i) (0, 0) [0..<n] =
     (\<Sum>k<n. a ! k ! (2 * i + 1) * c ! k ! i + a ! k ! (2 * i) * b ! k ! (2 * i),
      \<Sum>k<n. a ! k ! (2 * i) * b ! k ! (2 * i + 1) + a ! k ! (2 * i + 1) * b ! k ! (2 * i))"
    by (induction n) (simp_all add: basemul_acc_def Let_def)
  have x: "\<bar>a ! k ! (2 * i)\<bar> \<le> 4095" "\<bar>a ! k ! (2 * i + 1)\<bar> \<le> 4095" "is_i16 (b ! k ! (2 * i))" "is_i16 (b ! k ! (2 * i + 1))"
    "is_i16 (c ! k ! i)" if "k < n" for k
  proof -
    have k: "k < MLKEM_K" using that assms (4) by simp
    have bk: "coeffs16 (b ! k)" by (rule polyvec_all_nth [OF assms (2) k])
    have ck: "c ! k = mlk_poly_mulcache_compute (b ! k)" using k by (simp add: c_def mlk_polyvec_mulcache_compute_def)
    have "\<bar>c ! k ! i\<bar> < 3329"
      unfolding ck by (rule mulcache (2)) (use bk assms (3) in \<open>auto simp: coeffs16_def MLKEM_N_def\<close>)
    then show "is_i16 (c ! k ! i)" by (auto simp: is_i16_def)
    show "\<bar>a ! k ! (2 * i)\<bar> \<le> 4095" "\<bar>a ! k ! (2 * i + 1)\<bar> \<le> 4095"
      using coeffs12_nth [OF polyvec_all_nth [OF assms (1) k]] assms (3) by auto
    show "is_i16 (b ! k ! (2 * i))" "is_i16 (b ! k ! (2 * i + 1))" using coeffs16_nth [OF bk] assms (3) by auto
  qed
  have sum: "\<bar>\<Sum>k<n. f k + g k\<bar> \<le> int n * (2 * 4095 * 32768)"
    if "\<And>k. k < n \<Longrightarrow> \<bar>f k\<bar> \<le> 4095 * 32768" "\<And>k. k < n \<Longrightarrow> \<bar>g k\<bar> \<le> 4095 * 32768" for f g :: "nat \<Rightarrow> int"
  proof -
    have "\<bar>\<Sum>k<n. f k + g k\<bar> \<le> (\<Sum>k<n. \<bar>f k + g k\<bar>)" by (rule sum_abs)
    also have "\<dots> \<le> (\<Sum>k<n. 2 * 4095 * 32768)"
    proof (rule sum_mono)
      fix k assume "k \<in> {..<n}"
      then show "\<bar>f k + g k\<bar> \<le> 2 * 4095 * 32768" using that [of k] abs_triangle_ineq [of "f k" "g k"] by simp
    qed
    finally show ?thesis by simp
  qed
  show "\<bar>\<Sum>k<n. a ! k ! (2 * i + 1) * c ! k ! i + a ! k ! (2 * i) * b ! k ! (2 * i)\<bar> \<le> int n * (2 * 4095 * 32768)"
    by (rule sum; rule abs_prod_bound) (use x in auto)
  show "\<bar>\<Sum>k<n. a ! k ! (2 * i) * b ! k ! (2 * i + 1) + a ! k ! (2 * i + 1) * b ! k ! (2 * i)\<bar> \<le> int n * (2 * 4095 * 32768)"
    by (rule sum; rule abs_prod_bound) (use x in auto)
qed

text \<open>
  The product of two linear polynomials modulo \<open>X^2 - root\<close>: the base multiplication of FIPS 203,
  algorithm 12.
\<close>

definition base_mul0 :: "nat \<Rightarrow> poly \<Rightarrow> poly \<Rightarrow> int" where
  "base_mul0 i f g = f ! (2 * i) * g ! (2 * i) + f ! (2 * i + 1) * g ! (2 * i + 1) * ntt_root i"

definition base_mul1 :: "nat \<Rightarrow> poly \<Rightarrow> poly \<Rightarrow> int" where
  "base_mul1 i f g = f ! (2 * i) * g ! (2 * i + 1) + f ! (2 * i + 1) * g ! (2 * i)"

lemma basemul:
  assumes "polyvec_all coeffs12 a" "polyvec_all coeffs16 b" "i < 128"
  defines "r \<equiv> mlk_polyvec_basemul_acc_montgomery_cached a b (mlk_polyvec_mulcache_compute b)"
  shows "r ! (2 * i) * 65536 mod 3329 = (\<Sum>k<MLKEM_K. base_mul0 i (a ! k) (b ! k)) mod 3329"
    and "r ! (2 * i + 1) * 65536 mod 3329 = (\<Sum>k<MLKEM_K. base_mul1 i (a ! k) (b ! k)) mod 3329"
    and "\<bar>r ! (2 * i)\<bar> \<le> 13949 \<and> \<bar>r ! (2 * i + 1)\<bar> \<le> 13949" and "length r = 256"
proof -
  let ?c = "mlk_polyvec_mulcache_compute b"
  define t0 where "t0 = (\<Sum>k<MLKEM_K. a ! k ! (2 * i + 1) * ?c ! k ! i + a ! k ! (2 * i) * b ! k ! (2 * i))"
  define t1 where "t1 = (\<Sum>k<MLKEM_K. a ! k ! (2 * i) * b ! k ! (2 * i + 1) + a ! k ! (2 * i + 1) * b ! k ! (2 * i))"
  note acc = basemul_accumulate [OF assms (1-3) order.refl]
  have b: "\<bar>t0\<bar> \<le> 805109760" "\<bar>t1\<bar> \<le> 805109760"
    using acc (2,3) unfolding t0_def t1_def by (simp_all only: MLKEM_K_def of_nat_numeral mult_numeral_1 arith_simps)
  have len: "length (let (t0, t1) = foldl (basemul_acc a b ?c i) (0, 0) [0..<MLKEM_K] in [mlk_montgomery_reduce t0, mlk_montgomery_reduce t1]) = 2" for i
    by (simp add: split_beta)
  have nth: "r ! (2 * i + j) = [mlk_montgomery_reduce t0, mlk_montgomery_reduce t1] ! j" if "j < 2" for j
    unfolding r_def mlk_polyvec_basemul_acc_montgomery_cached_def
    using that assms (3) acc (1) len by (subst nth_concat_blocks [where w = 2]) (auto simp: MLKEM_N_def t0_def t1_def)
  have n: "r ! (2 * i) = mlk_montgomery_reduce t0" "r ! (2 * i + 1) = mlk_montgomery_reduce t1"
    using nth [of 0] nth [of 1] by auto
  show "length r = 256"
    unfolding r_def mlk_polyvec_basemul_acc_montgomery_cached_def using len by (subst length_concat_blocks [where w = 2]) (auto simp: MLKEM_N_def)
  note m0 = montgomery_reduce [of t0] and m1 = montgomery_reduce [of t1]
  have "t0 mod 3329 = (\<Sum>k<MLKEM_K. base_mul0 i (a ! k) (b ! k)) mod 3329"
    unfolding t0_def
  proof (rule mod_sum_cong)
    fix k assume k: "k \<in> {..<MLKEM_K}"
    have "coeffs16 (b ! k)" using polyvec_all_nth [OF assms (2)] k by simp
    then have "?c ! k ! i mod 3329 = ntt_root i * b ! k ! (2 * i + 1) mod 3329"
      using mulcache (1) [of "b ! k" i] k assms (3) by (simp add: coeffs16_def MLKEM_N_def mlk_polyvec_mulcache_compute_def)
    then have "a ! k ! (2 * i + 1) * ?c ! k ! i mod 3329 = a ! k ! (2 * i + 1) * (ntt_root i * b ! k ! (2 * i + 1)) mod 3329"
      by (rule mod_mult_cong [OF refl])
    then have "(a ! k ! (2 * i + 1) * ?c ! k ! i + a ! k ! (2 * i) * b ! k ! (2 * i)) mod 3329 =
        (a ! k ! (2 * i + 1) * (ntt_root i * b ! k ! (2 * i + 1)) + a ! k ! (2 * i) * b ! k ! (2 * i)) mod 3329"
      by (rule mod_add_cong) (rule refl)
    then show "(a ! k ! (2 * i + 1) * ?c ! k ! i + a ! k ! (2 * i) * b ! k ! (2 * i)) mod 3329 = base_mul0 i (a ! k) (b ! k) mod 3329"
      by (simp only: base_mul0_def ac_simps)
  qed
  then show "r ! (2 * i) * 65536 mod 3329 = (\<Sum>k<MLKEM_K. base_mul0 i (a ! k) (b ! k)) mod 3329"
    unfolding n using m0 (1) b by linarith
  show "r ! (2 * i + 1) * 65536 mod 3329 = (\<Sum>k<MLKEM_K. base_mul1 i (a ! k) (b ! k)) mod 3329"
    unfolding n base_mul1_def t1_def [symmetric] using m1 (1) b by linarith
  show "\<bar>r ! (2 * i)\<bar> \<le> 13949 \<and> \<bar>r ! (2 * i + 1)\<bar> \<le> 13949" unfolding n using m0 (2) m1 (2) b by linarith
qed

text \<open>
  C35: The accumulated scalar product. For a vector of 12-bit coefficients and any vector of
  16-bit coefficients with its multiplication cache, the 32-bit accumulators do not overflow and the
  result is, in Montgomery form, the sum over the components of the products modulo
  \<open>X^2 - 17^(2 BitRev7(i) + 1)\<close> (FIPS 203, algorithms 11 and 12), small enough for the inverse transform.
\<close>

theorem basemul_acc_spec:
  assumes "polyvec_all coeffs12 a" "polyvec_all coeffs16 b" "i < 128"
  defines "r \<equiv> mlk_polyvec_basemul_acc_montgomery_cached a b (mlk_polyvec_mulcache_compute b)"
  shows "r ! (2 * i) * 2 ^ 16 mod MLKEM_Q = (\<Sum>k<MLKEM_K. base_mul0 i (a ! k) (b ! k)) mod MLKEM_Q
    \<and> r ! (2 * i + 1) * 2 ^ 16 mod MLKEM_Q = (\<Sum>k<MLKEM_K. base_mul1 i (a ! k) (b ! k)) mod MLKEM_Q
    \<and> length r = MLKEM_N \<and> is_i16 (r ! (2 * i)) \<and> is_i16 (r ! (2 * i + 1))
    \<and> (\<forall>n. MLKEM_K < n \<or>
        (let (t0, t1) = foldl (basemul_acc a b (mlk_polyvec_mulcache_compute b) i) (0, 0) [0..<n] in \<bar>t0\<bar> < 2 ^ 31 \<and> \<bar>t1\<bar> < 2 ^ 31))"
proof -
  have "let (t0, t1) = foldl (basemul_acc a b (mlk_polyvec_mulcache_compute b) i) (0, 0) [0..<n] in \<bar>t0\<bar> < 2 ^ 31 \<and> \<bar>t1\<bar> < 2 ^ 31"
    if n: "n \<le> MLKEM_K" for n
  proof -
    have "int n * (2 * 4095 * 32768) \<le> 3 * (2 * 4095 * 32768)" using n by (intro mult_right_mono) (simp_all add: MLKEM_K_def)
    then have "int n * (2 * 4095 * 32768) < 2 ^ 31" by simp
    then show ?thesis
      using basemul_accumulate (2,3) [OF assms (1-3) n] unfolding basemul_accumulate (1) [OF assms (1-3) n] Let_def prod.case
      by (meson le_less_trans)
  qed
  then have acc: "\<forall>n. MLKEM_K < n \<or>
      (let (t0, t1) = foldl (basemul_acc a b (mlk_polyvec_mulcache_compute b) i) (0, 0) [0..<n] in \<bar>t0\<bar> < 2 ^ 31 \<and> \<bar>t1\<bar> < 2 ^ 31)"
    by (meson not_less)
  note bm = basemul [OF assms (1-3), folded r_def]
  have "is_i16 (r ! (2 * i))" "is_i16 (r ! (2 * i + 1))" using bm (3) by (auto simp: is_i16_def)
  moreover have "(2 :: int) ^ 16 = 65536" by simp
  ultimately show ?thesis using bm (1,2,4) acc by (simp only: MLKEM_Q_def MLKEM_N_def simp_thms)
qed

lemma basemul_acc_spec_witness:
  "mlk_polyvec_basemul_acc_montgomery_cached (replicate 3 (replicate 256 4095)) (replicate 3 (replicate 256 (- 32768)))
     (mlk_polyvec_mulcache_compute (replicate 3 (replicate 256 (- 32768)))) ! 1 * 65536 mod 3329 = 2232"
proof -
  have "polyvec_all coeffs12 (replicate 3 (replicate 256 4095))" "polyvec_all coeffs16 (replicate 3 (replicate 256 (- 32768)))"
    by (simp_all add: polyvec_all_def coeffs12_def coeffs16_def MLKEM_K_def MLKEM_N_def MLKEM_UINT12_LIMIT_def is_i16_def)
  from basemul_acc_spec [OF this, of 0] show ?thesis
    by (simp add: MLKEM_Q_def MLKEM_K_def base_mul1_def numeral_3_eq_3 del: replicate.simps)
qed

section \<open>Noise polynomials\<close>

lemma length_sponge: "0 < r \<Longrightarrow> length (sponge r p n m) = n"
  by (metis sponge_once length_squeeze_once)

lemma length_shake256: "length (mlk_shake256 n m) = n"
  by (simp add: mlk_shake256_def length_squeeze_once keccak_rates)

text \<open>\<open>SamplePolyCBD(PRF(seed, nonce))\<close> of FIPS 203: the binomial sampler on SHAKE256 of the seed and the nonce.\<close>

definition noise_poly :: "nat \<Rightarrow> bytes \<Rightarrow> byte \<Rightarrow> poly" where
  "noise_poly eta seed n = cbd eta (sponge 136 0x1F (eta * MLKEM_N div 4) (seed @ [n]))"

lemma noise_poly_small: "length (noise_poly eta seed n) = MLKEM_N \<and> (\<forall>c \<in> set (noise_poly eta seed n). \<bar>c\<bar> \<le> int eta)"
  using cbd_spec [of "replicate 128 0" "replicate 192 0"] by (simp add: noise_poly_def MLKEM_N_def)

lemma prf_eta_noise:
  "mlk_poly_cbd2 (mlk_prf_eta 2 (seed @ [n])) = noise_poly 2 seed n" "mlk_poly_cbd3 (mlk_prf_eta 3 (seed @ [n])) = noise_poly 3 seed n"
proof -
  have s: "mlk_prf_eta eta m = sponge 136 0x1F (eta * MLKEM_N div 4) m" for eta m
    by (simp add: mlk_prf_eta_def mlk_shake256_def sponge_once keccak_rates)
  have "length (sponge 136 0x1F k m) = k" for k m by (simp add: length_sponge)
  then show "mlk_poly_cbd2 (mlk_prf_eta 2 (seed @ [n])) = noise_poly 2 seed n"
    "mlk_poly_cbd3 (mlk_prf_eta 3 (seed @ [n])) = noise_poly 3 seed n"
    using cbd_spec [of "mlk_prf_eta 2 (seed @ [n])" "mlk_prf_eta 3 (seed @ [n])"] by (simp_all add: s noise_poly_def)
qed

lemmas noise_functions = mlk_poly_getnoise_eta1_4x_def mlk_poly_getnoise_eta2_def mlk_poly_getnoise_eta1122_4x_def
  mlk_prf_eta1_def mlk_prf_eta2_def mlk_poly_cbd_eta1_def mlk_poly_cbd_eta2_def MLKEM_ETA1_def MLKEM_ETA2_def

text \<open>
  Three polynomials are produced, and the fourth exactly when
  the caller asks for it; every coefficient is at most 2 in absolute value.
\<close>

theorem getnoise_eta1_4x_spec:
  assumes "length seed = MLKEM_SYMBYTES"
  shows "mlk_poly_getnoise_eta1_4x r3 seed n0 n1 n2 n3 = map (noise_poly 2 seed) ([n0, n1, n2] @ (if r3 then [n3] else []))
    \<and> (\<forall>p \<in> set (mlk_poly_getnoise_eta1_4x r3 seed n0 n1 n2 n3). length p = MLKEM_N \<and> (\<forall>c \<in> set p. \<bar>c\<bar> \<le> 2))"
  using assms noise_poly_small [of 2] by (simp add: noise_functions prf_eta_noise Let_def)

theorem getnoise_others_spec:
  assumes "length seed = MLKEM_SYMBYTES"
  shows "mlk_poly_getnoise_eta2 seed n0 = noise_poly 2 seed n0
    \<and> mlk_poly_getnoise_eta1122_4x seed n0 n1 n2 n3 = (noise_poly 3 seed n0, noise_poly 3 seed n1, noise_poly 2 seed n2, noise_poly 2 seed n3)"
  using assms by (simp add: noise_functions prf_eta_noise Let_def)

lemma getnoise_eta1_4x_spec_witness:
  "mlk_poly_getnoise_eta1_4x False (replicate 32 1) 3 4 5 6 = map (noise_poly 2 (replicate 32 1)) [3, 4, 5]"
  using getnoise_eta1_4x_spec [of "replicate 32 1" False 3 4 5 6] by (simp add: MLKEM_SYMBYTES_def del: replicate.simps)

end
