(* ===== verification/Mlk_Indcpa.thy ===== *)
theory Mlk_Indcpa
  imports Mlk_Polyvec "HOL-Library.Monad_Syntax"
begin

text \<open>
  \<open>mlkem_native/src/indcpa.c\<close>: the public-key encryption scheme K-PKE under ML-KEM. Sampling the
  matrix may not end, so key generation and encryption return an option. The arrays of
  \<open>MLK_ALLOC\<close> are on the stack in this configuration: the allocation cannot fail, and what the
  matrix holds before it is filled is given as zero, on which the result does not depend
  (\<open>gen_matrix_spec\<close>). \<open>mlk_polymat_permute_bitrev_to_custom\<close> is empty without a native backend.
\<close>

section \<open>The program\<close>

subsection \<open>Serialisation\<close>

definition mlk_pack_pk :: "polyvec \<Rightarrow> bytes \<Rightarrow> bytes" where
  "mlk_pack_pk pk seed = mlk_polyvec_tobytes pk @ take MLKEM_SYMBYTES seed"

definition mlk_unpack_pk :: "bytes \<Rightarrow> polyvec \<times> bytes" where
  "mlk_unpack_pk packedpk = (mlk_polyvec_frombytes packedpk, take MLKEM_SYMBYTES (drop MLKEM_POLYVECBYTES packedpk))"

definition mlk_pack_sk :: "polyvec \<Rightarrow> bytes" where
  "mlk_pack_sk sk = mlk_polyvec_tobytes sk"

definition mlk_unpack_sk :: "bytes \<Rightarrow> polyvec" where
  "mlk_unpack_sk packedsk = mlk_polyvec_frombytes packedsk"

definition mlk_pack_ciphertext :: "polyvec \<Rightarrow> poly \<Rightarrow> bytes" where
  "mlk_pack_ciphertext b v = mlk_polyvec_compress_du b @ mlk_poly_compress_dv v"

definition mlk_unpack_ciphertext :: "bytes \<Rightarrow> polyvec \<times> poly" where
  "mlk_unpack_ciphertext c =
     (mlk_polyvec_decompress_du c,
      mlk_poly_decompress_dv (take MLKEM_POLYCOMPRESSEDBYTES_DV (drop MLKEM_POLYVECCOMPRESSEDBYTES_DU c)))"

subsection \<open>The matrix\<close>

definition mat_get :: "polymat \<Rightarrow> nat \<Rightarrow> poly" where
  "mat_get a i = a ! (i div MLKEM_K) ! (i mod MLKEM_K)"

definition mat_set :: "polymat \<Rightarrow> nat \<Rightarrow> poly \<Rightarrow> polymat" where
  "mat_set a i p = a[i div MLKEM_K := (a ! (i div MLKEM_K))[i mod MLKEM_K := p]]"

definition seed_ext :: "bytes \<Rightarrow> bool \<Rightarrow> nat \<Rightarrow> bytes" where
  "seed_ext seed transposed i =
     (let x = of_nat (i div MLKEM_K);
          y = of_nat (i mod MLKEM_K)
      in take MLKEM_SYMBYTES seed @ (if transposed then [x, y] else [y, x]))"

definition gen_matrix_four :: "bytes \<Rightarrow> bool \<Rightarrow> nat \<Rightarrow> polymat \<Rightarrow> polymat option" where
  "gen_matrix_four seed transposed i a =
     do { ps \<leftarrow> mlk_poly_rej_uniform_x4 (map (\<lambda>j. mat_get a (i + j)) [0..<4]) (map (\<lambda>j. seed_ext seed transposed (i + j)) [0..<4]);
          Some (foldl (\<lambda>a j. mat_set a (i + j) (ps ! j)) a [0..<4]) }"

definition gen_matrix_one :: "bytes \<Rightarrow> bool \<Rightarrow> nat \<Rightarrow> polymat \<Rightarrow> polymat option" where
  "gen_matrix_one seed transposed i a =
     do { p \<leftarrow> mlk_poly_rej_uniform (mat_get a i) (seed_ext seed transposed i); Some (mat_set a i p) }"

primrec each_entry :: "(nat \<Rightarrow> polymat \<Rightarrow> polymat option) \<Rightarrow> nat list \<Rightarrow> polymat \<Rightarrow> polymat option" where
  "each_entry f [] a = Some a"
| "each_entry f (i # is) a = do { a \<leftarrow> f i a; each_entry f is a }"

definition mlk_polymat_permute_bitrev_to_custom :: "polymat \<Rightarrow> polymat" where
  "mlk_polymat_permute_bitrev_to_custom a = a"

definition mlk_gen_matrix :: "polymat \<Rightarrow> bytes \<Rightarrow> bool \<Rightarrow> polymat option" where
  "mlk_gen_matrix a seed transposed =
     do { a \<leftarrow> each_entry (gen_matrix_four seed transposed) (map (\<lambda>i. 4 * i) [0..<MLKEM_K * MLKEM_K div 4]) a;
          a \<leftarrow> each_entry (gen_matrix_one seed transposed) [MLKEM_K * MLKEM_K div 4 * 4..<MLKEM_K * MLKEM_K] a;
          Some (mlk_polymat_permute_bitrev_to_custom a) }"

definition mlk_matvec_mul :: "polymat \<Rightarrow> polyvec \<Rightarrow> mulcache list \<Rightarrow> polyvec" where
  "mlk_matvec_mul a v vc = map (\<lambda>i. mlk_polyvec_basemul_acc_montgomery_cached (a ! i) v vc) [0..<MLKEM_K]"

subsection \<open>Noise\<close>

definition mlk_keypair_getnoise_eta1 :: "bytes \<Rightarrow> polyvec \<times> polyvec" where
  "mlk_keypair_getnoise_eta1 seed =
     (let pv = mlk_poly_getnoise_eta1_4x False seed 0 1 2 0xFF;
          e = mlk_poly_getnoise_eta1_4x False seed 3 4 5 0xFF
      in (pv, e))"

definition mlk_enc_getnoise_eta1_eta2 :: "bytes \<Rightarrow> polyvec \<times> polyvec \<times> poly" where
  "mlk_enc_getnoise_eta1_eta2 coins =
     (let sp = mlk_poly_getnoise_eta1_4x False coins 0 1 2 0xFF;
          r = mlk_poly_getnoise_eta1_4x True coins 3 4 5 6
      in (sp, take 3 r, r ! 3))"

subsection \<open>Key generation, encryption, decryption\<close>

definition fresh_polymat :: polymat where
  "fresh_polymat = replicate MLKEM_K (replicate MLKEM_K (replicate MLKEM_N 0))"

definition mlk_indcpa_keypair_derand :: "bytes \<Rightarrow> (bytes \<times> bytes) option" where
  "mlk_indcpa_keypair_derand coins =
     (let coins_with_domain_separator = take MLKEM_SYMBYTES coins @ [of_nat MLKEM_K];
          buf = mlk_hash_g coins_with_domain_separator;
          publicseed = take MLKEM_SYMBYTES buf;
          noiseseed = drop MLKEM_SYMBYTES buf
      in do {
        a \<leftarrow> mlk_gen_matrix fresh_polymat publicseed False;
        let (skpv, e) = mlk_keypair_getnoise_eta1 noiseseed;
        let skpv = mlk_polyvec_ntt skpv;
        let e = mlk_polyvec_ntt e;
        let skpv_cache = mlk_polyvec_mulcache_compute skpv;
        let pkpv = mlk_matvec_mul a skpv skpv_cache;
        let pkpv = mlk_polyvec_tomont pkpv;
        let pkpv = mlk_polyvec_add pkpv e;
        let pkpv = mlk_polyvec_reduce pkpv;
        let skpv = mlk_polyvec_reduce skpv;
        Some (mlk_pack_pk pkpv publicseed, mlk_pack_sk skpv)
      })"

definition mlk_indcpa_enc :: "bytes \<Rightarrow> bytes \<Rightarrow> bytes \<Rightarrow> bytes option" where
  "mlk_indcpa_enc m pk coins =
     (let (pkpv, seed) = mlk_unpack_pk pk;
          k = mlk_poly_frommsg m
      in do {
        at \<leftarrow> mlk_gen_matrix fresh_polymat seed True;
        let (sp, ep, epp) = mlk_enc_getnoise_eta1_eta2 coins;
        let sp = mlk_polyvec_ntt sp;
        let sp_cache = mlk_polyvec_mulcache_compute sp;
        let b = mlk_matvec_mul at sp sp_cache;
        let v = mlk_polyvec_basemul_acc_montgomery_cached pkpv sp sp_cache;
        let b = mlk_polyvec_invntt_tomont b;
        let v = mlk_poly_invntt_tomont v;
        let b = mlk_polyvec_add b ep;
        let v = mlk_poly_add v epp;
        let v = mlk_poly_add v k;
        let b = mlk_polyvec_reduce b;
        let v = mlk_poly_reduce v;
        Some (mlk_pack_ciphertext b v)
      })"

definition mlk_indcpa_dec :: "bytes \<Rightarrow> bytes \<Rightarrow> bytes" where
  "mlk_indcpa_dec c sk =
     (let (b, v) = mlk_unpack_ciphertext c;
          skpv = mlk_unpack_sk sk;
          b = mlk_polyvec_ntt b;
          b_cache = mlk_polyvec_mulcache_compute b;
          sb = mlk_polyvec_basemul_acc_montgomery_cached skpv b b_cache;
          sb = mlk_poly_invntt_tomont sb;
          v = mlk_poly_sub v sb;
          v = mlk_poly_reduce v
      in mlk_poly_tomsg v)"

section \<open>The matrix is sampled entry by entry\<close>

text \<open>Entry \<open>(i, j)\<close> of the matrix of a seed: FIPS 203 puts the column index first.\<close>

definition sample_ntt :: "bytes \<Rightarrow> nat \<Rightarrow> nat \<Rightarrow> poly option" where
  "sample_ntt seed i j = mlk_poly_rej_uniform (replicate MLKEM_N 0) (seed @ [of_nat j, of_nat i])"

lemma rej_uniform_fresh:
  "length entry = 256 \<Longrightarrow> mlk_poly_rej_uniform entry s = mlk_poly_rej_uniform (replicate MLKEM_N 0) s"
  by (rule option_eqI) (simp add: rej_uniform_iff MLKEM_N_def)

lemma seed_ext_sample:
  "length seed = 32 \<Longrightarrow> mlk_poly_rej_uniform (replicate MLKEM_N 0) (seed_ext seed transposed m) =
     (if transposed then sample_ntt seed (m mod MLKEM_K) (m div MLKEM_K) else sample_ntt seed (m div MLKEM_K) (m mod MLKEM_K))"
  by (simp add: seed_ext_def sample_ntt_def Let_def MLKEM_SYMBYTES_def)

definition mat_shape :: "polymat \<Rightarrow> bool" where
  "mat_shape a \<longleftrightarrow> length a = MLKEM_K \<and> (\<forall>i < MLKEM_K. length (a ! i) = MLKEM_K \<and> (\<forall>j < MLKEM_K. length (a ! i ! j) = MLKEM_N))"

lemma less_9_div_mod: "m < 9 \<Longrightarrow> m div MLKEM_K < MLKEM_K \<and> m mod MLKEM_K < MLKEM_K"
  by (auto simp: MLKEM_K_def)

lemma mat_get_length: "mat_shape a \<Longrightarrow> m < 9 \<Longrightarrow> length (mat_get a m) = 256"
  using less_9_div_mod [of m] by (auto simp: mat_shape_def mat_get_def MLKEM_N_def)

lemma mat_shape_set: "mat_shape a \<Longrightarrow> i < 9 \<Longrightarrow> length p = 256 \<Longrightarrow> mat_shape (mat_set a i p)"
  using less_9_div_mod [of i] by (auto simp: mat_shape_def mat_set_def MLKEM_N_def nth_list_update)

lemma mat_get_set:
  assumes "mat_shape a" "i < 9" "m < 9"
  shows "mat_get (mat_set a i p) m = (if m = i then p else mat_get a m)"
proof -
  have "m = i" if "m div MLKEM_K = i div MLKEM_K" "m mod MLKEM_K = i mod MLKEM_K" using that by (metis div_mult_mod_eq)
  then show ?thesis
    using assms less_9_div_mod [of i] less_9_div_mod [of m] by (auto simp: mat_shape_def mat_set_def mat_get_def nth_list_update)
qed

text \<open>Filling a run of entries with the values of \<open>f\<close>.\<close>

abbreviation fill :: "(nat \<Rightarrow> poly option) \<Rightarrow> polymat \<Rightarrow> nat list \<Rightarrow> polymat" where
  "fill f a is \<equiv> foldl (\<lambda>a m. mat_set a m (the (f m))) a is"

lemma fill:
  assumes "mat_shape a" "\<forall>m \<in> set is. m < 9 \<and> (\<exists>p. f m = Some p \<and> length p = 256)"
  shows "mat_shape (fill f a is) \<and> (\<forall>m < 9. mat_get (fill f a is) m = (if m \<in> set is then the (f m) else mat_get a m))"
  using assms
proof (induction "is" arbitrary: a)
  case (Cons i "is")
  then have "mat_shape (mat_set a i (the (f i)))" using mat_shape_set [OF Cons.prems (1), of i "the (f i)"] by auto
  then show ?case using Cons mat_get_set [OF Cons.prems (1), of i] by auto
qed auto

lemma gen_matrix_four:
  fixes seed transposed
  defines "f \<equiv> \<lambda>m. mlk_poly_rej_uniform (replicate MLKEM_N 0) (seed_ext seed transposed m)"
  assumes "mat_shape a" "i + 3 < 9" "length seed = 32"
  shows "gen_matrix_four seed transposed i a =
    (if \<forall>m \<in> set [i..<i + 4]. f m \<noteq> None then Some (fill f a [i..<i + 4]) else None)"
proof -
  let ?v = "map (\<lambda>j. mat_get a (i + j)) [0..<4]" and ?s = "map (\<lambda>j. seed_ext seed transposed (i + j)) [0..<4]"
  have v: "\<forall>v \<in> set ?v. length v = MLKEM_N" using mat_get_length [OF assms (2)] assms (3) by (auto simp: MLKEM_N_def)
  have s: "\<forall>d \<in> set ?s. length d = MLKEM_SYMBYTES + 2" using assms (4) by (auto simp: seed_ext_def MLKEM_SYMBYTES_def Let_def)
  have "mlk_poly_rej_uniform (?v ! j) (?s ! j) = f (i + j)" if "j < 4" for j
    using that mat_get_length [OF assms (2), of "i + j"] assms (3) unfolding f_def by (subst rej_uniform_fresh) auto
  then have x4: "mlk_poly_rej_uniform_x4 ?v ?s = Some ps \<longleftrightarrow> length ps = 4 \<and> (\<forall>j < 4. f (i + j) = Some (ps ! j))" for ps
    using rej_uniform_x4_iff [of ?v ?s ps] v s by simp
  have run: "[i..<i + 4] = map (\<lambda>j. i + j) [0..<4]" by (simp add: map_add_upt add.commute)
  show ?thesis
  proof (cases "\<forall>m \<in> set [i..<i + 4]. f m \<noteq> None")
    case True
    let ?ps = "map (\<lambda>j. the (f (i + j))) [0..<4]"
    have "mlk_poly_rej_uniform_x4 ?v ?s = Some ?ps" using True by (subst x4) auto
    moreover have "foldl (\<lambda>a j. mat_set a (i + j) (?ps ! j)) a [0..<4] = fill f a [i..<i + 4]"
      unfolding run foldl_map by (rule foldl_cong) auto
    ultimately show ?thesis using True by (simp add: gen_matrix_four_def del: upt_rec_numeral)
  next
    case False
    then obtain m where "f m = None" "i \<le> m" "m < i + 4" by auto
    then have "m - i < 4" "f (i + (m - i)) = None" by auto
    then have "mlk_poly_rej_uniform_x4 ?v ?s = None" by (metis not_Some_eq x4)
    then show ?thesis using False by (simp add: gen_matrix_four_def del: upt_rec_numeral)
  qed
qed

lemma gen_matrix_one:
  fixes seed transposed
  defines "f \<equiv> \<lambda>m. mlk_poly_rej_uniform (replicate MLKEM_N 0) (seed_ext seed transposed m)"
  assumes "mat_shape a" "i < 9"
  shows "gen_matrix_one seed transposed i a = (if f i \<noteq> None then Some (mat_set a i (the (f i))) else None)"
  using rej_uniform_fresh [OF mat_get_length [OF assms (2,3)], of "seed_ext seed transposed i"]
  by (auto simp: gen_matrix_one_def f_def)

lemma mat_eqI:
  assumes "mat_shape a" "mat_shape b" "\<And>m. m < 9 \<Longrightarrow> mat_get a m = mat_get b m"
  shows "a = b"
proof (rule nth_equalityI, goal_cases)
  case 1
  then show ?case using assms (1,2) by (simp add: mat_shape_def)
next
  case i: (2 i)
  show ?case
  proof (rule nth_equalityI, goal_cases)
    case 1
    then show ?case using i assms (1,2) by (simp add: mat_shape_def)
  next
    case j: (2 j)
    have "i < 3" "j < 3" using i j assms (1) by (auto simp: mat_shape_def MLKEM_K_def)
    moreover have "(3 * i + j) div 3 = i" "(3 * i + j) mod 3 = j" using \<open>j < 3\<close> by auto
    ultimately show ?case using assms (3) [of "3 * i + j"] by (simp add: mat_get_def MLKEM_K_def)
  qed
qed

lemma gen_matrix:
  fixes seed transposed
  defines "f \<equiv> \<lambda>m. mlk_poly_rej_uniform (replicate MLKEM_N 0) (seed_ext seed transposed m)"
  assumes "mat_shape a" "length seed = 32"
  shows "mlk_gen_matrix a seed transposed = (if \<forall>m < 9. f m \<noteq> None then Some (fill f a [0..<9]) else None)"
    and "\<forall>m < 9. f m \<noteq> None \<Longrightarrow> mat_shape (fill f a [0..<9]) \<and> (\<forall>m < 9. mat_get (fill f a [0..<9]) m = the (f m))"
proof -
  have len: "length p = 256" if "f m = Some p" for m p
    using that unfolding f_def by (auto simp: rej_uniform_iff MLKEM_N_def Let_def)
  have ok: "\<forall>m \<in> set is. m < 9 \<and> (\<exists>p. f m = Some p \<and> length p = 256)" if "\<forall>m \<in> set is. m < 9 \<and> f m \<noteq> None" for "is"
    using that len by blast
  have a0: "mat_shape (fill f a [0..<4])" if "\<forall>m \<in> set [0..<4]. f m \<noteq> None"
    using fill [OF assms (2) ok, of "[0..<4]"] that by auto
  have a1: "mat_shape (fill f (fill f a [0..<4]) [4..<8])" if "\<forall>m \<in> set [0..<4]. f m \<noteq> None" "\<forall>m \<in> set [4..<8]. f m \<noteq> None"
    using fill [OF a0 ok, of "[4..<8]"] that by auto
  have idx: "map (\<lambda>i. 4 * i) [0..<MLKEM_K * MLKEM_K div 4] = [0, 4]" "[MLKEM_K * MLKEM_K div 4 * 4..<MLKEM_K * MLKEM_K] = [8]"
    by (simp_all add: MLKEM_K_def upt_rec)
  have split: "[0..<9] = [0..<4] @ [4..<8] @ [8]" by (simp add: upt_rec)
  have all: "(\<forall>m < 9. f m \<noteq> None) \<longleftrightarrow> (\<forall>m \<in> set [0..<4]. f m \<noteq> None) \<and> (\<forall>m \<in> set [4..<8]. f m \<noteq> None) \<and> f 8 \<noteq> None"
  proof -
    have "m < 9 \<longleftrightarrow> m \<in> set [0..<4] \<or> m \<in> set [4..<8] \<or> m = 8" for m :: nat by auto
    then show ?thesis by blast
  qed
  have four: "gen_matrix_four seed transposed i a = (if \<forall>m \<in> set [i..<i + 4]. f m \<noteq> None then Some (fill f a [i..<i + 4]) else None)"
    if "mat_shape a" "i + 3 < 9" for a i
    unfolding f_def by (rule gen_matrix_four [OF that assms (3)])
  have one: "gen_matrix_one seed transposed 8 a = (if f 8 \<noteq> None then Some (mat_set a 8 (the (f 8))) else None)" if "mat_shape a" for a
    unfolding f_def by (rule gen_matrix_one [OF that]) simp
  show "mlk_gen_matrix a seed transposed = (if \<forall>m < 9. f m \<noteq> None then Some (fill f a [0..<9]) else None)"
    unfolding mlk_gen_matrix_def idx all
    using four [OF assms (2), of 0] four [OF a0, of 4] one [OF a1]
    by (auto simp: split mlk_polymat_permute_bitrev_to_custom_def simp del: upt_rec_numeral)
  show "mat_shape (fill f a [0..<9]) \<and> (\<forall>m < 9. mat_get (fill f a [0..<9]) m = the (f m))" if "\<forall>m < 9. f m \<noteq> None"
    using fill [OF assms (2) ok, of "[0..<9]"] that by auto
qed

lemma gen_matrix_iff:
  assumes "mat_shape a" "length seed = MLKEM_SYMBYTES"
  shows "mlk_gen_matrix a seed transposed = Some A \<longleftrightarrow>
    length A = MLKEM_K \<and> (\<forall>i < MLKEM_K. length (A ! i) = MLKEM_K) \<and>
    (\<forall>i < MLKEM_K. \<forall>j < MLKEM_K. Some (A ! i ! j) = (if transposed then sample_ntt seed j i else sample_ntt seed i j))"
proof -
  have s: "length seed = 32" using assms (2) by (simp add: MLKEM_SYMBYTES_def)
  let ?f = "\<lambda>m. mlk_poly_rej_uniform (replicate MLKEM_N 0) (seed_ext seed transposed m)"
  let ?g = "\<lambda>i j. if transposed then sample_ntt seed j i else sample_ntt seed i j"
  note g = gen_matrix [OF assms (1) s, of transposed]
  have f: "?f m = ?g (m div MLKEM_K) (m mod MLKEM_K)" for m by (simp only: seed_ext_sample [OF s])
  have len: "length p = MLKEM_N" if "?g i j = Some p" for i j p
    using that by (auto simp: sample_ntt_def rej_uniform_iff MLKEM_N_def Let_def split: if_splits)
  have ij: "?f (3 * i + j) = ?g i j \<and> mat_get a (3 * i + j) = a ! i ! j \<and> 3 * i + j < 9"
    if "i < MLKEM_K" "j < MLKEM_K" for i j a
  proof -
    have d: "(3 * i + j) div MLKEM_K = i" "(3 * i + j) mod MLKEM_K = j" using that by (auto simp: MLKEM_K_def)
    then show ?thesis using that unfolding f mat_get_def d by (auto simp: MLKEM_K_def)
  qed
  show ?thesis
  proof
    assume "mlk_gen_matrix a seed transposed = Some A"
    then have d: "\<forall>m < 9. ?f m \<noteq> None" and A: "A = fill ?f a [0..<9]" unfolding g (1) by (auto split: if_splits)
    have sh: "mat_shape A" and e: "\<And>m. m < 9 \<Longrightarrow> mat_get A m = the (?f m)" using g (2) [OF d] A by auto
    have "Some (A ! i ! j) = ?g i j" if "i < MLKEM_K" "j < MLKEM_K" for i j
      using ij [OF that, of A] e [of "3 * i + j"] d by (metis option.exhaust_sel)
    then show "length A = MLKEM_K \<and> (\<forall>i < MLKEM_K. length (A ! i) = MLKEM_K) \<and> (\<forall>i < MLKEM_K. \<forall>j < MLKEM_K. Some (A ! i ! j) = ?g i j)"
      using sh by (simp add: mat_shape_def)
  next
    assume A: "length A = MLKEM_K \<and> (\<forall>i < MLKEM_K. length (A ! i) = MLKEM_K) \<and> (\<forall>i < MLKEM_K. \<forall>j < MLKEM_K. Some (A ! i ! j) = ?g i j)"
    have fm: "?f m = Some (mat_get A m)" if "m < 9" for m
      using A less_9_div_mod [OF that] unfolding f mat_get_def by metis
    then have d: "\<forall>m < 9. ?f m \<noteq> None" by auto
    have "mat_shape A" using A len by (metis mat_shape_def)
    then have "fill ?f a [0..<9] = A" using g (2) [OF d] fm by (intro mat_eqI) auto
    then show "mlk_gen_matrix a seed transposed = Some A" using g (1) d by simp
  qed
qed

text \<open>
  C36: The matrix of a seed. Whatever the array held before, generation returns exactly when every
  entry can be sampled, and then entry \<open>(i, j)\<close> is \<open>SampleNTT(seed, j, i)\<close>, or its transpose when the
  flag is set: batching four entries at a time and sampling the ninth alone change nothing.
\<close>

theorem gen_matrix_spec:
  assumes "mat_shape a" "length seed = MLKEM_SYMBYTES"
  shows "mlk_gen_matrix a seed transposed = Some A \<longleftrightarrow>
    length A = MLKEM_K \<and> (\<forall>i < MLKEM_K. length (A ! i) = MLKEM_K) \<and>
    (\<forall>i < MLKEM_K. \<forall>j < MLKEM_K. Some (A ! i ! j) = (if transposed then sample_ntt seed j i else sample_ntt seed i j))"
  using assms by (rule gen_matrix_iff)

lemma gen_matrix_spec_witness:
  "mlk_gen_matrix fresh_polymat (replicate 32 9) True \<noteq> Some [[], []]"
proof -
  have "mat_shape fresh_polymat" by (simp add: mat_shape_def fresh_polymat_def)
  from gen_matrix_spec [OF this, of "replicate 32 9" True] show ?thesis by (simp add: MLKEM_SYMBYTES_def MLKEM_K_def)
qed

end
