(* ===== verification/Mlk_Kem.thy ===== *)
theory Mlk_Kem
  imports Mlk_Indcpa
begin

text \<open>
  \<open>mlkem_native/src/kem.c\<close> and \<open>randombytes.cpp\<close>: the key encapsulation mechanism ML-KEM-768. A return
  code is \<open>None\<close> for 0 or \<open>Some\<close> error; a call that also fills buffers returns \<open>Inl\<close> error or
  \<open>Inr\<close> the buffers, under an option for sampling that may not end. OpenSSL's \<open>RAND_bytes\<close> is
  the parameter \<open>rand\<close>: its return value and what it left in the buffer. The pairwise consistency test
  is not configured; \<open>mlk_check_pct\<close> is the version that skips it (the other one is in \<open>Mlk_Pct\<close>).
\<close>

section \<open>The program\<close>

datatype mlk_err =
  MLK_ERR_FAIL | MLK_ERR_OUT_OF_MEMORY | MLK_ERR_RNG_FAIL | MLK_ERR_INVALID_PK | MLK_ERR_INVALID_SK | MLK_ERR_PCT_FAIL

type_synonym 'a run = "(mlk_err + 'a) option"
type_synonym rand = "nat \<Rightarrow> int \<times> bytes"

definition randombytes :: "rand \<Rightarrow> nat \<Rightarrow> int \<times> bytes" where
  "randombytes rand len = (let (rc, buf) = rand len in if rc \<noteq> 1 then (- 1, buf) else (0, buf))"

definition mlk_kem_check_pk :: "bytes \<Rightarrow> mlk_err option" where
  "mlk_kem_check_pk pk =
     (let p = mlk_polyvec_frombytes pk;
          p = mlk_polyvec_reduce p;
          p_reencoded = mlk_polyvec_tobytes p
      in if mlk_ct_memcmp (take MLKEM_POLYVECBYTES pk) p_reencoded \<noteq> 0 then Some MLK_ERR_INVALID_PK else None)"

definition mlk_kem_check_sk :: "bytes \<Rightarrow> mlk_err option" where
  "mlk_kem_check_sk sk =
     (let test = mlk_hash_h (take MLKEM_INDCCA_PUBLICKEYBYTES (drop MLKEM_INDCPA_SECRETKEYBYTES sk))
      in if mlk_ct_memcmp (take MLKEM_SYMBYTES (drop (MLKEM_INDCCA_SECRETKEYBYTES - 2 * MLKEM_SYMBYTES) sk)) test \<noteq> 0
         then Some MLK_ERR_INVALID_SK else None)"

definition mlk_check_pct :: "bytes \<Rightarrow> bytes \<Rightarrow> mlk_err option" where
  "mlk_check_pct pk sk = None"

definition mlk_kem_keypair_derand :: "bytes \<Rightarrow> (bytes \<times> bytes) run" where
  "mlk_kem_keypair_derand coins =
     do { (pk, sk) \<leftarrow> mlk_indcpa_keypair_derand (take MLKEM_SYMBYTES coins);
          let sk = sk @ pk;
          let sk = sk @ mlk_hash_h pk;
          let sk = sk @ take MLKEM_SYMBYTES (drop MLKEM_SYMBYTES coins);
          case mlk_check_pct pk sk of
            Some err \<Rightarrow> Some (Inl err)
          | None \<Rightarrow> Some (Inr (pk, sk)) }"

definition mlk_kem_keypair :: "rand \<Rightarrow> (bytes \<times> bytes) run" where
  "mlk_kem_keypair rand =
     (let (rc, coins) = randombytes rand (2 * MLKEM_SYMBYTES)
      in if rc \<noteq> 0 then Some (Inl MLK_ERR_RNG_FAIL) else mlk_kem_keypair_derand coins)"

definition mlk_kem_enc_derand :: "bytes \<Rightarrow> bytes \<Rightarrow> (bytes \<times> bytes) run" where
  "mlk_kem_enc_derand pk coins =
     (case mlk_kem_check_pk pk of
        Some err \<Rightarrow> Some (Inl err)
      | None \<Rightarrow>
          let buf = take MLKEM_SYMBYTES coins;
              buf = buf @ mlk_hash_h pk;
              kr = mlk_hash_g buf
          in do { ct \<leftarrow> mlk_indcpa_enc (take MLKEM_SYMBYTES buf) pk (drop MLKEM_SYMBYTES kr);
                  Some (Inr (ct, take MLKEM_SYMBYTES kr)) })"

definition mlk_kem_enc :: "rand \<Rightarrow> bytes \<Rightarrow> (bytes \<times> bytes) run" where
  "mlk_kem_enc rand pk =
     (let (rc, coins) = randombytes rand MLKEM_SYMBYTES
      in if rc \<noteq> 0 then Some (Inl MLK_ERR_RNG_FAIL) else mlk_kem_enc_derand pk coins)"

definition mlk_kem_dec :: "bytes \<Rightarrow> bytes \<Rightarrow> bytes run" where
  "mlk_kem_dec ct sk =
     (case mlk_kem_check_sk sk of
        Some err \<Rightarrow> Some (Inl err)
      | None \<Rightarrow>
          let pk = take MLKEM_INDCCA_PUBLICKEYBYTES (drop MLKEM_INDCPA_SECRETKEYBYTES sk);
              buf = mlk_indcpa_dec ct (take MLKEM_INDCPA_SECRETKEYBYTES sk);
              buf = buf @ take MLKEM_SYMBYTES (drop (MLKEM_INDCCA_SECRETKEYBYTES - 2 * MLKEM_SYMBYTES) sk);
              kr = mlk_hash_g buf
          in do { tmp \<leftarrow> mlk_indcpa_enc (take MLKEM_SYMBYTES buf) pk (drop MLKEM_SYMBYTES kr);
                  let fail = mlk_ct_memcmp ct tmp;
                  let tmp = take MLKEM_SYMBYTES (drop (MLKEM_INDCCA_SECRETKEYBYTES - MLKEM_SYMBYTES) sk) @ ct;
                  let ss = mlk_hash_j tmp;
                  Some (Inr (mlk_ct_cmov_zero ss (take MLKEM_SYMBYTES kr) fail)) })"

section \<open>Sizes\<close>

lemma length_tobytes: "length (mlk_poly_tobytes p) = 384"
  unfolding mlk_poly_tobytes_def by (subst length_concat_blocks [where w = 3]) (auto simp: MLKEM_N_def tobytes_block_def Let_def)

lemma length_compress_d10: "length (mlk_poly_compress_d10 p) = 320"
  unfolding mlk_poly_compress_d10_def by (subst length_concat_blocks [where w = 5]) (auto simp: MLKEM_N_def compress_d10_block_def Let_def)

lemma length_compress_d4: "length (mlk_poly_compress_d4 p) = 128"
  unfolding mlk_poly_compress_d4_def by (subst length_concat_blocks [where w = 4]) (auto simp: MLKEM_N_def compress_d4_block_def Let_def)

lemma length_tomsg: "length (mlk_poly_tomsg p) = 32"
  by (simp add: mlk_poly_tomsg_def MLKEM_N_def)

lemma length_polyvec_tobytes [simp]: "length (mlk_polyvec_tobytes v) = 1152"
  by (simp add: mlk_polyvec_tobytes_def upt_K length_tobytes)

lemma length_polyvec_compress [simp]: "length (mlk_polyvec_compress_du v) = 960"
  by (simp add: mlk_polyvec_compress_du_def upt_K mlk_poly_compress_du_def length_compress_d10)

lemma length_hashes [simp]:
  "length (mlk_hash_h m) = 32" "length (mlk_hash_g m) = 64" "length (mlk_hash_j m) = 32"
  by (simp_all add: mlk_hash_h_def mlk_hash_g_def mlk_hash_j_def mlk_sha3_256_def mlk_sha3_512_def mlk_shake256_def
      length_squeeze_once keccak_rates MLKEM_SYMBYTES_def)

lemma length_indcpa_dec [simp]: "length (mlk_indcpa_dec c sk) = 32"
  by (simp add: mlk_indcpa_dec_def Let_def split_beta length_tomsg)

lemma length_indcpa_enc: "mlk_indcpa_enc m pk coins = Some c \<Longrightarrow> length c = 1088"
  by (auto simp: mlk_indcpa_enc_def Let_def split_beta mlk_pack_ciphertext_def mlk_poly_compress_dv_def length_compress_d4
      split: bind_splits)

lemma length_indcpa_keypair: "mlk_indcpa_keypair_derand coins = Some (pk, sk) \<Longrightarrow> length pk = 1184 \<and> length sk = 1152"
  by (auto simp: mlk_indcpa_keypair_derand_def Let_def split_beta mlk_pack_pk_def mlk_pack_sk_def MLKEM_SYMBYTES_def split: bind_splits)

section \<open>The modulus check\<close>

lemma polyvec_frombytes_nth:
  "i < MLKEM_K \<Longrightarrow> mlk_polyvec_frombytes b ! i = mlk_poly_frombytes (take 384 (drop (i * 384) b))"
  by (simp add: mlk_polyvec_frombytes_def MLKEM_POLYBYTES_def)

lemma coeffs12_frombytes: "length b = 384 \<Longrightarrow> coeffs12 (mlk_poly_frombytes b)"
proof -
  assume b: "length b = 384"
  have "canonical (replicate 256 0)" by (simp add: canonical_def MLKEM_N_def MLKEM_Q_def)
  moreover have "length (mlk_poly_frombytes b) = 256"
    unfolding mlk_poly_frombytes_def by (subst length_concat_blocks [where w = 2]) (auto simp: MLKEM_N_def frombytes_block_def Let_def)
  ultimately show ?thesis using poly_bytes [of "replicate 256 0" b] b by (simp add: coeffs12_def MLKEM_POLYBYTES_def MLKEM_N_def)
qed

lemma polyvec_frombytes:
  assumes "1152 \<le> length b"
  shows "polyvec_all coeffs12 (mlk_polyvec_frombytes b)"
proof (rule polyvec_allI)
  show "length (mlk_polyvec_frombytes b) = MLKEM_K" by (simp add: mlk_polyvec_frombytes_def)
  fix i assume i: "i < MLKEM_K"
  then have "length (take 384 (drop (i * 384) b)) = 384" using assms by (auto simp: less_K)
  then show "coeffs12 (mlk_polyvec_frombytes b ! i)" unfolding polyvec_frombytes_nth [OF i] by (rule coeffs12_frombytes)
qed

lemma polyvec_tobytes_parts:
  assumes "i < MLKEM_K"
  shows "take 384 (drop (i * 384) (mlk_polyvec_tobytes v @ x)) = mlk_poly_tobytes (v ! i)"
  using assms by (auto simp: less_K mlk_polyvec_tobytes_def upt_K length_tobytes)

lemma polyvec_frombytes_tobytes:
  assumes "polyvec_all canonical v"
  shows "mlk_polyvec_frombytes (mlk_polyvec_tobytes v @ x) = v"
proof (rule nth_equalityI)
  show "length (mlk_polyvec_frombytes (mlk_polyvec_tobytes v @ x)) = length v"
    using polyvec_all_length [OF assms] by (simp add: mlk_polyvec_frombytes_def)
  fix i assume "i < length (mlk_polyvec_frombytes (mlk_polyvec_tobytes v @ x))"
  then have i: "i < MLKEM_K" by (simp add: mlk_polyvec_frombytes_def)
  show "mlk_polyvec_frombytes (mlk_polyvec_tobytes v @ x) ! i = v ! i"
    using poly_bytes [OF polyvec_all_nth [OF assms i], of "replicate 384 0"]
    unfolding polyvec_frombytes_nth [OF i] polyvec_tobytes_parts [OF i] by (simp add: MLKEM_POLYBYTES_def)
qed

lemma polyvec_tobytes_frombytes:
  assumes "1152 \<le> length b"
  shows "mlk_polyvec_tobytes (mlk_polyvec_frombytes b) = take 1152 b"
proof -
  have "mlk_poly_tobytes (mlk_poly_frombytes (take 384 (drop (i * 384) b))) = take 384 (drop (i * 384) b)" if "i < MLKEM_K" for i
    using poly_bytes [of "replicate 256 0" "take 384 (drop (i * 384) b)"] that assms
    by (auto simp: less_K canonical_def MLKEM_N_def MLKEM_Q_def MLKEM_POLYBYTES_def)
  then have "mlk_polyvec_tobytes (mlk_polyvec_frombytes b) = concat (map (\<lambda>i. take 384 (drop (i * 384) b)) [0..<MLKEM_K])"
    unfolding mlk_polyvec_tobytes_def by (intro arg_cong [of _ _ concat] map_cong) (auto simp: polyvec_frombytes_nth)
  also have "\<dots> = take 1152 b"
    using take_add [of 384 768 b] take_add [of 384 384 "drop 384 b"] by (simp add: upt_K)
  finally show ?thesis .
qed

lemma poly_reduce_mod: "\<forall>c \<in> set p. is_i16 c \<Longrightarrow> mlk_poly_reduce p = map (\<lambda>c. c mod 3329) p"
  by (simp add: mlk_poly_reduce_def scalar_reduce)

lemma poly_reduce_canonical: "coeffs16 p \<Longrightarrow> canonical (mlk_poly_reduce p)"
  by (auto simp: poly_reduce_mod coeffs16_def canonical_def MLKEM_Q_def)

lemma coeffs12_16: "coeffs12 p \<Longrightarrow> coeffs16 p"
  by (auto simp: coeffs12_def coeffs16_def is_i16_def MLKEM_UINT12_LIMIT_def)

lemma reduce_12:
  assumes "coeffs12 p"
  shows "mlk_poly_reduce p = p \<longleftrightarrow> canonical p"
proof
  assume "canonical p"
  then show "mlk_poly_reduce p = p"
    using coeffs12_16 [OF assms] by (auto simp: poly_reduce_mod coeffs16_def canonical_def MLKEM_Q_def intro!: map_idI)
next
  assume "mlk_poly_reduce p = p"
  then show "canonical p" using poly_reduce_canonical [OF coeffs12_16 [OF assms]] by simp
qed

text \<open>
  The modulus check of FIPS 203, section 7.2: a public key is accepted exactly when all of its
  768 coefficients are below q, and any other key of the right length gives \<open>MLK_ERR_INVALID_PK\<close>.
\<close>

theorem kem_check_pk_spec:
  assumes "length pk = MLKEM_INDCCA_PUBLICKEYBYTES"
  shows "mlk_kem_check_pk pk = (if polyvec_all canonical (mlk_polyvec_frombytes pk) then None else Some MLK_ERR_INVALID_PK)"
proof -
  let ?p = "mlk_polyvec_frombytes pk" let ?r = "mlk_polyvec_reduce ?p"
  have pk: "1152 \<le> length pk" using assms by (simp add: mlk_sizes)
  note p12 = polyvec_frombytes [OF pk]
  have nth: "?r ! i = mlk_poly_reduce (?p ! i)" if "i < MLKEM_K" for i using that by (simp add: mlk_polyvec_reduce_def)
  have r: "polyvec_all canonical ?r"
    by (rule polyvec_allI) (use poly_reduce_canonical [OF coeffs12_16 [OF polyvec_all_nth [OF p12]]] nth in \<open>auto simp: mlk_polyvec_reduce_def\<close>)
  have "take MLKEM_POLYVECBYTES pk = mlk_polyvec_tobytes ?r \<longleftrightarrow> ?r = ?p"
  proof
    assume "take MLKEM_POLYVECBYTES pk = mlk_polyvec_tobytes ?r"
    then have "mlk_polyvec_tobytes ?r = take 1152 pk" by (simp add: mlk_sizes)
    then have "mlk_polyvec_tobytes ?r @ drop 1152 pk = pk" by (simp only: append_take_drop_id)
    then show "?r = ?p" using polyvec_frombytes_tobytes [OF r, of "drop 1152 pk"] by simp
  next
    assume "?r = ?p"
    then show "take MLKEM_POLYVECBYTES pk = mlk_polyvec_tobytes ?r" using polyvec_tobytes_frombytes [OF pk] by (simp add: mlk_sizes)
  qed
  also have "?r = ?p \<longleftrightarrow> polyvec_all canonical ?p"
    using nth reduce_12 [OF polyvec_all_nth [OF p12]] polyvec_all_length [OF p12] polyvec_all_length [OF r]
    by (simp add: list_eq_iff_nth_eq polyvec_all_def all_set_conv_all_nth)
  finally show ?thesis
    using pk by (simp add: mlk_kem_check_pk_def Let_def ct_memcmp mlk_sizes)
qed

lemma kem_check_pk_spec_witness:
  "mlk_kem_check_pk (replicate 1184 0xFF) = Some MLK_ERR_INVALID_PK \<or> polyvec_all canonical (mlk_polyvec_frombytes (replicate 1184 0xFF))"
  using kem_check_pk_spec [of "replicate 1184 0xFF"] by (simp add: mlk_sizes split: if_splits)

section \<open>Decapsulation\<close>

text \<open>The parts of a decapsulation key.\<close>

definition dk_pke :: "bytes \<Rightarrow> bytes" where "dk_pke sk = take 1152 sk"
definition dk_ek :: "bytes \<Rightarrow> bytes" where "dk_ek sk = take 1184 (drop 1152 sk)"
definition dk_h :: "bytes \<Rightarrow> bytes" where "dk_h sk = take 32 (drop 2336 sk)"
definition dk_z :: "bytes \<Rightarrow> bytes" where "dk_z sk = take 32 (drop 2368 sk)"

lemma kem_check_sk: "length sk = 2400 \<Longrightarrow> mlk_kem_check_sk sk = (if dk_h sk = mlk_hash_h (dk_ek sk) then None else Some MLK_ERR_INVALID_SK)"
  by (simp add: mlk_kem_check_sk_def dk_h_def dk_ek_def ct_memcmp mlk_sizes)

lemma kem_dec:
  assumes "length ct = 1088" "length sk = 2400"
  shows "mlk_kem_dec ct sk =
    (if dk_h sk \<noteq> mlk_hash_h (dk_ek sk) then Some (Inl MLK_ERR_INVALID_SK)
     else let m = mlk_indcpa_dec ct (dk_pke sk); kr = mlk_hash_g (m @ dk_h sk)
          in case mlk_indcpa_enc m (dk_ek sk) (drop 32 kr) of
               None \<Rightarrow> None
             | Some ct' \<Rightarrow> Some (Inr (if ct = ct' then take 32 kr else mlk_hash_j (dk_z sk @ ct))))"
proof -
  have cmp: "mlk_ct_memcmp ct ct' = (if ct = ct' then 0 else 0xFF)" if "mlk_indcpa_enc m pk r = Some ct'" for m pk r ct'
    using length_indcpa_enc [OF that] assms (1) by (simp add: ct_memcmp)
  show ?thesis
    unfolding mlk_kem_dec_def kem_check_sk [OF assms (2)]
    by (auto simp: Let_def mlk_sizes dk_pke_def dk_ek_def dk_h_def dk_z_def cmp ct_cmov_zero split: bind_splits option.splits)
qed

text \<open>
  C14: Decapsulation with implicit rejection. A key whose stored hash is not that of its public part
  is refused; otherwise the result is the key derived from the decrypted message when re-encryption
  reproduces the ciphertext, and the pseudo-random \<open>J(z, ct)\<close> for every other ciphertext, never an error.
\<close>

theorem kem_dec_spec:
  assumes "length ct = MLKEM_INDCCA_CIPHERTEXTBYTES" "length sk = MLKEM_INDCCA_SECRETKEYBYTES"
  shows "mlk_kem_dec ct sk =
    (if dk_h sk \<noteq> mlk_hash_h (dk_ek sk) then Some (Inl MLK_ERR_INVALID_SK)
     else let m = mlk_indcpa_dec ct (dk_pke sk); kr = mlk_hash_g (m @ dk_h sk)
          in case mlk_indcpa_enc m (dk_ek sk) (drop 32 kr) of
               None \<Rightarrow> None
             | Some ct' \<Rightarrow> Some (Inr (if ct = ct' then take 32 kr else mlk_hash_j (dk_z sk @ ct))))"
  using assms by (intro kem_dec) (simp_all add: mlk_sizes)

lemma kem_dec_spec_witness:
  "mlk_kem_dec (replicate 1088 1) (replicate 2400 2) = Some (Inl MLK_ERR_INVALID_SK) \<or>
   replicate 32 2 = mlk_hash_h (replicate 1184 2)"
  using kem_dec_spec [of "replicate 1088 1" "replicate 2400 2"] by (simp add: mlk_sizes dk_h_def dk_ek_def)

text \<open>A generated key pair: its parts, and that it passes its own hash check.\<close>

lemma kem_keypair_parts:
  assumes "mlk_kem_keypair_derand coins = Some (Inr (pk, sk))" "length coins = 64"
  shows "\<exists>skp. mlk_indcpa_keypair_derand (take 32 coins) = Some (pk, skp) \<and> dk_pke sk = skp \<and> dk_ek sk = pk
    \<and> dk_h sk = mlk_hash_h pk \<and> dk_z sk = drop 32 coins \<and> length sk = 2400 \<and> length pk = 1184"
proof -
  obtain skp where k: "mlk_indcpa_keypair_derand (take 32 coins) = Some (pk, skp)" and sk: "sk = skp @ pk @ mlk_hash_h pk @ drop 32 coins"
    using assms by (auto simp: mlk_kem_keypair_derand_def mlk_check_pct_def MLKEM_SYMBYTES_def split: bind_splits)
  show ?thesis using length_indcpa_keypair [OF k] k assms (2) unfolding sk
    by (auto simp: dk_pke_def dk_ek_def dk_h_def dk_z_def)
qed

lemma kem_enc_parts:
  assumes "mlk_kem_enc_derand pk coins = Some (Inr (ct, ss))" "length coins = 32"
  shows "mlk_indcpa_enc coins pk (drop 32 (mlk_hash_g (coins @ mlk_hash_h pk))) = Some ct
    \<and> ss = take 32 (mlk_hash_g (coins @ mlk_hash_h pk)) \<and> length ct = 1088 \<and> mlk_kem_check_pk pk = None"
  using assms length_indcpa_enc
  by (auto simp: mlk_kem_enc_derand_def Let_def MLKEM_SYMBYTES_def split: bind_splits option.splits)

lemma kem_correct:
  assumes "mlk_kem_keypair_derand coins = Some (Inr (pk, sk))" "length coins = 64"
    and "mlk_kem_enc_derand pk m = Some (Inr (ct, ss))" "length m = 32"
    and "mlk_indcpa_dec ct (dk_pke sk) = m"
  shows "mlk_kem_dec ct sk = Some (Inr ss)"
proof -
  obtain "dk_ek sk = pk" "dk_h sk = mlk_hash_h pk" "length sk = 2400" using kem_keypair_parts [OF assms (1,2)] by auto
  then show ?thesis using kem_enc_parts [OF assms (3,4)] assms (5) by (simp add: kem_dec Let_def)
qed

end
