(* ===== verification/Mlk_Ring.thy ===== *)
theory Mlk_Ring
  imports Mlk_Kem "HOL-Library.Numeral_Type"
begin

text \<open>
  The ring behind \<open>poly.c\<close>: polynomials over the integers modulo \<open>q\<close> (the type \<open>3329\<close>) modulo
  \<open>X^256 + 1\<close>. The transform of a polynomial is its remainder modulo the 128 factors
  \<open>X^2 - root\<close>; it turns the negacyclic product into base multiplications, it is injective, and the
  transform of \<open>mlk_poly_invntt_tomont x\<close> is \<open>2^16 x\<close> for every \<open>x\<close> of 16-bit coefficients.
\<close>

section \<open>Integers modulo q\<close>

type_synonym zq = "3329"

lemma zq_rep: "Rep_bit1 (of_int x :: zq) = x mod 3329"
  unfolding bit1.of_int_eq by (subst bit1.Rep_Abs_mod) simp

lemma zq_eq: "(of_int x :: zq) = of_int y \<longleftrightarrow> x mod 3329 = y mod 3329"
  unfolding zq_rep [symmetric] by (simp only: Rep_bit1_inject)

lemma zq_mod: "(of_int (x mod 3329) :: zq) = of_int x"
  by (simp add: zq_eq)

text \<open>The coefficients of a polynomial as integers modulo \<open>q\<close>.\<close>

definition cf :: "poly \<Rightarrow> nat \<Rightarrow> zq" where
  "cf p j = of_int (p ! j)"

section \<open>Remainders modulo the quadratic factors\<close>

definition root :: "nat \<Rightarrow> zq" where
  "root i = of_int (ntt_root i)"

lemma root_power: "root i = 17 ^ (2 * bitrev7 i + 1)"
  by (simp add: root_def ntt_root_def zq_mod)

lemma root_128: "root i ^ 128 = - 1"
proof -
  have "(17 :: int) ^ 128 mod 3329 = - 1 mod 3329" by simp
  then have "(of_int (17 ^ 128) :: zq) = of_int (- 1)" unfolding zq_eq .
  then have "(17 :: zq) ^ 128 = - 1" by (simp only: of_int_power of_int_numeral of_int_minus of_int_1)
  moreover have "root i ^ 128 = ((17 :: zq) ^ 128) ^ (2 * bitrev7 i + 1)"
    by (simp only: root_power power_mult [symmetric] mult.commute)
  ultimately show ?thesis by (simp only: power_add power_mult power2_minus power_one power_one_right mult_1)
qed

text \<open>Coefficient \<open>b\<close> of the remainder of \<open>X^j\<close> modulo \<open>X^2 - root\<close>.\<close>

definition monom :: "nat \<Rightarrow> nat \<Rightarrow> nat \<Rightarrow> zq" where
  "monom i b j = (if j mod 2 = b then root i ^ (j div 2) else 0)"

definition residue :: "(nat \<Rightarrow> zq) \<Rightarrow> nat \<Rightarrow> nat \<Rightarrow> zq" where
  "residue f i b = (\<Sum>j<256. f j * monom i b j)"

text \<open>The product modulo \<open>X^2 - c\<close>.\<close>

definition bm :: "zq \<Rightarrow> (nat \<Rightarrow> zq) \<Rightarrow> (nat \<Rightarrow> zq) \<Rightarrow> nat \<Rightarrow> zq" where
  "bm c x y b = (if b = 0 then x 0 * y 0 + x 1 * y 1 * c else x 0 * y 1 + x 1 * y 0)"

lemma bm_commute: "bm c x y = bm c y x"
  by (rule ext) (simp add: bm_def algebra_simps)

lemma bm_assoc: "bm c (bm c x y) z = bm c x (bm c y z)"
  by (rule ext) (simp add: bm_def algebra_simps)

lemma bm_add: "bm c x (\<lambda>b. y b + z b) b = bm c x y b + bm c x z b"
  by (simp add: bm_def algebra_simps)

lemma bm_sum: "bm c x (\<lambda>b. \<Sum>k\<in>A. y k b) b = (\<Sum>k\<in>A. bm c x (y k) b)"
  by (simp add: bm_def sum_distrib_left sum_distrib_right sum.distrib)

lemma bm_cong: "(\<And>b. b < 2 \<Longrightarrow> x b = x' b) \<Longrightarrow> (\<And>b. b < 2 \<Longrightarrow> y b = y' b) \<Longrightarrow> bm c x y b = bm c x' y' b"
  by (simp add: bm_def)

lemma residue_fun: "residue f i = (\<lambda>b. \<Sum>j<256. f j * monom i b j)"
  by (rule ext) (simp add: residue_def)

lemma residue_add: "residue (\<lambda>j. f j + g j) i b = residue f i b + residue g i b"
  by (simp add: residue_def distrib_right sum.distrib)

lemma residue_diff: "residue (\<lambda>j. f j - g j) i b = residue f i b - residue g i b"
  by (simp add: residue_def left_diff_distrib sum_subtractf)

lemma residue_sum: "residue (\<lambda>j. \<Sum>k\<in>A. f k j) i b = (\<Sum>k\<in>A. residue (f k) i b)"
  unfolding residue_def sum_distrib_right by (rule sum.swap)

lemma residue_cong: "(\<And>j. j < 256 \<Longrightarrow> f j = g j) \<Longrightarrow> residue f i b = residue g i b"
  unfolding residue_def by (intro sum.cong) auto

lemma monom_add: "b < 2 \<Longrightarrow> monom i b (k + l) = bm (root i) (\<lambda>b. monom i b k) (\<lambda>b. monom i b l) b"
proof -
  assume b: "b < 2"
  obtain k' kb where k: "k = 2 * k' + kb" "kb < 2" by (metis div_mod_decomp mod_less_divisor mult.commute zero_less_numeral)
  obtain l' lb where l: "l = 2 * l' + lb" "lb < 2" by (metis div_mod_decomp mod_less_divisor mult.commute zero_less_numeral)
  have "kb = 0 \<or> kb = 1" "lb = 0 \<or> lb = 1" "b = 0 \<or> b = 1" using k l b by auto
  moreover have "(2 * k' + 1 + (2 * l' + 1)) div 2 = k' + l' + 1" "(2 * k' + 1 + (2 * l' + 1)) mod 2 = 0" by presburger+
  moreover have "(2 * k' + (2 * l' + 1)) div 2 = k' + l'" "(2 * k' + (2 * l' + 1)) mod 2 = 1" by presburger+
  moreover have "(2 * k' + 1 + 2 * l') div 2 = k' + l'" "(2 * k' + 1 + 2 * l') mod 2 = 1" by presburger+
  moreover have "(2 * k' + 2 * l') div 2 = k' + l'" "(2 * k' + 2 * l') mod 2 = 0" by presburger+
  ultimately show ?thesis unfolding k l by (elim disjE) (simp_all add: monom_def bm_def power_add)
qed

lemma monom_256: "monom i b (j + 256) = - monom i b j"
proof -
  have "(j + 256) div 2 = j div 2 + 128" "(j + 256) mod 2 = j mod 2" by presburger+
  then show ?thesis by (simp add: monom_def power_add root_128)
qed

section \<open>The negacyclic product\<close>

text \<open>Coefficient \<open>j\<close> of the product modulo \<open>X^256 + 1\<close>.\<close>

definition nmul :: "(nat \<Rightarrow> 'a :: comm_ring_1) \<Rightarrow> (nat \<Rightarrow> 'a) \<Rightarrow> nat \<Rightarrow> 'a" where
  "nmul f g j =
     (\<Sum>k<256. \<Sum>l<256. if k + l = j then f k * g l else if k + l = j + 256 then - (f k * g l) else 0)"

lemma nmul_of_int: "of_int (nmul f g j) = nmul (\<lambda>k. of_int (f k)) (\<lambda>k. of_int (g k)) j"
  unfolding nmul_def of_int_sum by (intro sum.cong refl) simp

lemma residue_nmul:
  assumes "b < 2"
  shows "residue (nmul f g) i b = bm (root i) (residue f i) (residue g i) b"
proof -
  have one: "(\<Sum>j<256. (if k + l = j then x else if k + l = j + 256 then - x else 0) * monom i b j) = x * monom i b (k + l)"
    if "k < 256" "l < 256" for k l and x :: zq
  proof -
    have "(\<Sum>j<256. (if k + l = j then x else if k + l = j + 256 then - x else 0) * monom i b j)
      = (\<Sum>j<256. if j = (if k + l < 256 then k + l else k + l - 256) then x * monom i b (k + l) else 0)"
    proof (rule sum.cong [OF refl])
      fix j :: nat assume "j \<in> {..<256}"
      then show "(if k + l = j then x else if k + l = j + 256 then - x else 0) * monom i b j
        = (if j = (if k + l < 256 then k + l else k + l - 256) then x * monom i b (k + l) else 0)"
        using monom_256 [of i b j] by auto
    qed
    also have "\<dots> = x * monom i b (k + l)" using that by (subst sum.delta) auto
    finally show ?thesis .
  qed
  have "residue (nmul f g) i b = (\<Sum>k<256. \<Sum>l<256. \<Sum>j<256. (if k + l = j then f k * g l else if k + l = j + 256 then - (f k * g l) else 0) * monom i b j)"
    unfolding residue_def nmul_def sum_distrib_right
    by (subst sum.swap, rule sum.cong [OF refl], rule sum.swap)
  also have "\<dots> = (\<Sum>k<256. \<Sum>l<256. f k * g l * monom i b (k + l))"
    by (intro sum.cong refl one) auto
  also have "\<dots> = (\<Sum>k<256. \<Sum>l<256. bm (root i) (\<lambda>b. f k * monom i b k) (\<lambda>b. g l * monom i b l) b)"
    by (intro sum.cong refl) (simp add: monom_add [OF assms] bm_def algebra_simps)
  also have "\<dots> = (\<Sum>l<256. \<Sum>k<256. bm (root i) (\<lambda>b. g l * monom i b l) (\<lambda>b. f k * monom i b k) b)"
    by (subst sum.swap) (intro sum.cong refl, rule bm_commute [THEN fun_cong])
  also have "\<dots> = (\<Sum>l<256. bm (root i) (\<lambda>b. g l * monom i b l) (residue f i) b)"
    unfolding residue_fun [of f] bm_sum ..
  also have "\<dots> = bm (root i) (residue g i) (residue f i) b"
    unfolding bm_commute [of _ _ "residue f i"] residue_fun [of g] bm_sum ..
  also have "\<dots> = bm (root i) (residue f i) (residue g i) b" by (simp only: bm_commute)
  finally show ?thesis .
qed

section \<open>The transforms of the source\<close>

lemma sum_parity:
  assumes "b < 2"
  shows "(\<Sum>j<256. f j * monom i b j) = (\<Sum>m<128. f (2 * m + b) * root i ^ m)"
proof -
  have "(\<Sum>j<2 * 128. f j * monom i b j) = (\<Sum>m<128. f (2 * m) * monom i b (2 * m)) + (\<Sum>m<128. f (2 * m + 1) * monom i b (2 * m + 1))"
    for f :: "nat \<Rightarrow> zq"
  proof -
    have "(\<Sum>j<2 * M. h j) = (\<Sum>m<M. h (2 * m)) + (\<Sum>m<M. h (2 * m + 1))" for h :: "nat \<Rightarrow> zq" and M
      by (induction M) simp_all
    then show ?thesis .
  qed
  then show ?thesis using less_2_cases [OF assms] by (auto simp: monom_def)
qed

lemma zq_block_eval:
  assumes "i < 128" and "b < 2"
  shows "of_int (block_eval p 7 (2 * i + b)) = residue (cf p) i b"
proof -
  have "(of_int (block_eval p 7 (2 * i + b)) :: zq) = of_int (\<Sum>m < 128. p ! (2 * m + b) * ntt_root i ^ m)"
    unfolding zq_eq by (rule block_eval_7 [OF assms])
  then show ?thesis by (simp add: residue_def sum_parity [OF assms(2)] cf_def root_def)
qed

lemma cf_ntt:
  assumes "length p = 256" and "abs_bound 3329 p" and "i < 128" and "b < 2"
  shows "cf (mlk_poly_ntt p) (2 * i + b) = residue (cf p) i b"
proof -
  have "(of_int (mlk_poly_ntt p ! (2 * i + b)) :: zq) = of_int (\<Sum>m < 128. p ! (2 * m + b) * ntt_root i ^ m)"
    unfolding zq_eq by (rule poly_ntt(3) [OF assms])
  then show ?thesis by (simp add: residue_def sum_parity [OF assms(4)] cf_def root_def)
qed

subsection \<open>The inverse transform of any polynomial\<close>

lemma invntt_layers_bound:
  "length r = 256 \<Longrightarrow> abs_bound 3329 r \<Longrightarrow> set ls \<subseteq> {1..7} \<Longrightarrow>
   length (foldl mlk_invntt_layer r ls) = 256 \<and> abs_bound 3329 (foldl mlk_invntt_layer r ls)"
proof (induction ls arbitrary: r)
  case (Cons l ls)
  then have l: "1 \<le> l" "l \<le> 7" by auto
  have len: "length (mlk_invntt_layer r l) = 256" by (simp add: invntt_layer_pair [OF Cons.prems(1) l] Cons.prems(1))
  then have "abs_bound 3329 (mlk_invntt_layer r l)"
    using nth_invntt_layer(2) [OF Cons.prems(1) l Cons.prems(2)] by (auto intro: abs_boundI)
  then show ?case using Cons len by simp
qed simp

lemma invntt_state:
  assumes "length r = 256" and "abs_bound 3329 r"
  shows "length (foldl mlk_invntt_layer r (rev [Suc l..<8])) = 256" and "abs_bound 3329 (foldl mlk_invntt_layer r (rev [Suc l..<8]))"
proof -
  have "set (rev [Suc l..<8]) \<subseteq> {1..7}" by auto
  from invntt_layers_bound [OF assms this]
  show "length (foldl mlk_invntt_layer r (rev [Suc l..<8])) = 256" "abs_bound 3329 (foldl mlk_invntt_layer r (rev [Suc l..<8]))" by auto
qed

lemma invntt_pair:
  fixes a b z z' q :: int
  assumes "z * z' mod q = - 1 mod q"
  shows "c * (a + b + z * ((b - a) * z')) mod q = 2 * c * a mod q"
    and "c * (a + b - z * ((b - a) * z')) mod q = 2 * c * b mod q"
proof -
  have *: "c * (b - a) * (z * z') mod q = c * (b - a) * - 1 mod q" by (rule mod_mult_cong [OF refl assms])
  show "c * (a + b + z * ((b - a) * z')) mod q = 2 * c * a mod q"
    using mod_add_cong [OF refl *, of "c * (a + b)"] by (simp add: algebra_simps)
  show "c * (a + b - z * ((b - a) * z')) mod q = 2 * c * b mod q"
    using mod_diff_cong [OF refl *, of "c * (a + b)"] by (simp add: algebra_simps)
qed

lemma block_eval_invntt:
  assumes "length x = 256" and "abs_bound 3329 x" and "l \<le> 7" and "j < 256"
  shows "block_eval (foldl mlk_invntt_layer x (rev [1..<8])) l j mod 3329
    = 2 ^ l * foldl mlk_invntt_layer x (rev [Suc l..<8]) ! j mod 3329"
  using assms(3,4)
proof (induction l arbitrary: j)
  case (Suc l)
  let ?p = "foldl mlk_invntt_layer x (rev [1..<8])" and ?r = "foldl mlk_invntt_layer x (rev [Suc (Suc l)..<8])"
  let ?len = "2 ^ (8 - Suc l) :: nat" let ?i = "j div (2 * ?len)"
  let ?z = "zeta (2 ^ l + ?i)" and ?z' = "zeta (2 ^ Suc l - 1 - ?i)"
  have l: "1 \<le> Suc l" "Suc l \<le> 7" "l \<le> 6" "l \<le> 7" using Suc.prems by auto
  note r = invntt_state [OF assms(1,2), of "Suc l"]
  have "[Suc l..<8] = Suc l # [Suc (Suc l)..<8]" using l by (simp add: upt_conv_Cons)
  then have e: "foldl mlk_invntt_layer x (rev [Suc l..<8]) = mlk_invntt_layer ?r (Suc l)" by simp
  note IH = Suc.IH [OF l(4), unfolded e]
  note pos = layer_pos [OF l(1,2) Suc.prems(2)] and partner = layer_partner [OF layer_pos(1) [OF l(1,2) Suc.prems(2)], of j]
  note inv = nth_invntt_layer(1) [OF r(1) l(1,2) r(2)]
  have m: "j mod (2 * ?len) < 2 * ?len" by simp
  note mul = mod_mult_cong [OF refl, of _ _ _ "2 ^ l"]
  have zz: "?z * ?z' mod 3329 = - 1 mod 3329" using zeta_inverse [OF l(1,2) pos(3)] by simp
  show ?case
  proof (cases "j mod (2 * ?len) < ?len")
    case True
    note k = partner(1) [OF True]
    have n1: "block_eval ?p l j mod 3329 = 2 ^ l * (?r ! j + ?r ! (j + ?len)) mod 3329"
      unfolding IH [OF Suc.prems(2)] using mul [OF inv [OF Suc.prems(2)]] True by simp
    have n2: "block_eval ?p l (j + ?len) mod 3329 = 2 ^ l * ((?r ! (j + ?len) - ?r ! j) * ?z') mod 3329"
      unfolding IH [OF pos(4) [OF True]] using mul [OF inv [OF pos(4) [OF True]]] k by simp
    have "block_eval ?p (Suc l) j mod 3329 = (block_eval ?p l j + ?z * block_eval ?p l (j + ?len)) mod 3329"
      unfolding block_eval_layer [OF l(3) Suc.prems(2)] if_P [OF True] ..
    also have "\<dots> = (2 ^ l * (?r ! j + ?r ! (j + ?len)) + ?z * (2 ^ l * ((?r ! (j + ?len) - ?r ! j) * ?z'))) mod 3329"
      by (rule mod_lin_cong(1) [OF n1 n2])
    also have "\<dots> = 2 ^ l * (?r ! j + ?r ! (j + ?len) + ?z * ((?r ! (j + ?len) - ?r ! j) * ?z')) mod 3329"
      by (simp only: distrib_left mult.left_commute)
    also have "\<dots> = 2 * 2 ^ l * ?r ! j mod 3329" by (rule invntt_pair(1) [OF zz])
    finally show ?thesis by simp
  next
    case False
    note k = partner(2) [OF False]
    have lt: "j - ?len < 256" "j mod (2 * ?len) - ?len < ?len" "j - ?len + ?len = j"
      subgoal using Suc.prems(2) by simp
      subgoal using m False by linarith
      subgoal using pos(5) [OF False] by simp
      done
    have n1: "block_eval ?p l (j - ?len) mod 3329 = 2 ^ l * (?r ! (j - ?len) + ?r ! j) mod 3329"
      unfolding IH [OF lt(1)] using mul [OF inv [OF lt(1)]] by (simp only: k lt if_True)
    have n2: "block_eval ?p l j mod 3329 = 2 ^ l * ((?r ! j - ?r ! (j - ?len)) * ?z') mod 3329"
      unfolding IH [OF Suc.prems(2)] using mul [OF inv [OF Suc.prems(2)]] False by simp
    have "block_eval ?p (Suc l) j mod 3329 = (block_eval ?p l (j - ?len) - ?z * block_eval ?p l j) mod 3329"
      unfolding block_eval_layer [OF l(3) Suc.prems(2)] if_not_P [OF False] ..
    also have "\<dots> = (2 ^ l * (?r ! (j - ?len) + ?r ! j) - ?z * (2 ^ l * ((?r ! j - ?r ! (j - ?len)) * ?z'))) mod 3329"
      by (rule mod_lin_cong(2) [OF n1 n2])
    also have "\<dots> = 2 ^ l * (?r ! (j - ?len) + ?r ! j - ?z * ((?r ! j - ?r ! (j - ?len)) * ?z')) mod 3329"
      by (simp only: right_diff_distrib mult.left_commute)
    also have "\<dots> = 2 * 2 ^ l * ?r ! j mod 3329" by (rule invntt_pair(2) [OF zz])
    finally show ?thesis by simp
  qed
qed (simp add: block_eval_def)

lemma invntt_eval:
  assumes "length x = 256" and "\<forall>c \<in> set x. is_i16 c"
  shows "length (mlk_poly_invntt_tomont x) = 256" and "abs_bound 3329 (mlk_poly_invntt_tomont x)"
    and "i < 128 \<Longrightarrow> b < 2 \<Longrightarrow> residue (cf (mlk_poly_invntt_tomont x)) i b = 65536 * cf x (2 * i + b)"
proof -
  let ?x = "map (\<lambda>c. mlk_fqmul c 1441) x"
  note f = scaled_fqmul [OF assms(2), of 1441]
  have x: "length ?x = 256" "abs_bound 3329 ?x" using assms(1) f(2) by simp_all
  have p: "mlk_poly_invntt_tomont x = foldl mlk_invntt_layer ?x (rev [1..<8])" by (simp add: mlk_poly_invntt_tomont_def)
  show "length (mlk_poly_invntt_tomont x) = 256" "abs_bound 3329 (mlk_poly_invntt_tomont x)"
    unfolding p using invntt_state [OF x, of 0] by simp_all
  show "residue (cf (mlk_poly_invntt_tomont x)) i b = 65536 * cf x (2 * i + b)" if ib: "i < 128" "b < 2"
  proof -
    have j: "2 * i + b < 256" using ib by simp
    have "block_eval (mlk_poly_invntt_tomont x) 7 (2 * i + b) mod 3329 = 2 ^ 7 * ?x ! (2 * i + b) mod 3329"
      using block_eval_invntt [OF x order.refl j] unfolding p by simp
    also have "\<dots> = 2 ^ 7 * (1441 * 169 * x ! (2 * i + b)) mod 3329"
      using f(1) assms(1) j by (intro mod_mult_cong [OF refl]) (simp add: scaled_def)
    also have "\<dots> = 65536 * x ! (2 * i + b) mod 3329"
      unfolding mult.assoc [symmetric] by (rule mod_mult_cong) simp_all
    finally have "residue (cf (mlk_poly_invntt_tomont x)) i b = of_int (65536 * x ! (2 * i + b))"
      unfolding zq_block_eval [OF ib, symmetric] zq_eq .
    then show ?thesis by (simp only: of_int_mult of_int_numeral cf_def)
  qed
qed

subsection \<open>The transform is injective\<close>

lemma invntt_layer_cong:
  assumes "length r = 256" "abs_bound 3329 r" "length r' = 256" "abs_bound 3329 r'"
    and "scaled 1 r r'" and l: "1 \<le> l" "l \<le> 7"
  shows "scaled 1 (mlk_invntt_layer r l) (mlk_invntt_layer r' l)"
proof -
  have s: "r ! j mod 3329 = r' ! j mod 3329" if "j < 256" for j using assms(5,3) that by (simp add: scaled_def)
  have "mlk_invntt_layer r l ! j mod 3329 = mlk_invntt_layer r' l ! j mod 3329" if j: "j < 256" for j
  proof (cases "j mod (2 * 2 ^ (8 - l)) < 2 ^ (8 - l)")
    case True
    then show ?thesis
      using mod_add_cong [OF s [OF j] s [OF layer_pos(4) [OF l j True]]]
      by (simp add: nth_invntt_layer(1) [OF assms(1) l assms(2) j] nth_invntt_layer(1) [OF assms(3) l assms(4) j])
  next
    case False
    then have "j - 2 ^ (8 - l) < 256" using j by simp
    then show ?thesis
      using mod_mult_cong [OF mod_diff_cong [OF s [OF j] s] refl] False
      by (simp add: nth_invntt_layer(1) [OF assms(1) l assms(2) j] nth_invntt_layer(1) [OF assms(3) l assms(4) j])
  qed
  then show ?thesis
    using assms(1,3) by (simp add: scaled_def invntt_layer_pair [OF _ l])
qed

lemma invntt_cong:
  assumes "length x = 256" "\<forall>c \<in> set x. is_i16 c" "length x' = 256" "\<forall>c \<in> set x'. is_i16 c" and "scaled 1 x x'"
  shows "scaled 1 (mlk_poly_invntt_tomont x) (mlk_poly_invntt_tomont x')"
proof -
  let ?x = "map (\<lambda>c. mlk_fqmul c 1441) x" and ?x' = "map (\<lambda>c. mlk_fqmul c 1441) x'"
  note f = scaled_fqmul [OF assms(2), of 1441] and f' = scaled_fqmul [OF assms(4), of 1441]
  have "?x ! j mod 3329 = ?x' ! j mod 3329" if "j < 256" for j
  proof -
    have "x ! j mod 3329 = x' ! j mod 3329" using assms(3,5) that by (simp add: scaled_def)
    then have "1441 * 169 * x ! j mod 3329 = 1441 * 169 * x' ! j mod 3329" by (rule mod_mult_cong [OF refl])
    then show ?thesis using f(1) f'(1) that assms(1,3) by (simp add: scaled_def)
  qed
  then have s: "scaled 1 ?x ?x'" using assms(1,3) by (simp add: scaled_def)
  have "scaled 1 (foldl mlk_invntt_layer r ls) (foldl mlk_invntt_layer r' ls)"
    if "length r = 256" "abs_bound 3329 r" "length r' = 256" "abs_bound 3329 r'" "scaled 1 r r'" "set ls \<subseteq> {1..7}" for r r' ls
    using that
  proof (induction ls arbitrary: r r')
    case (Cons l ls)
    have l: "1 \<le> l" "l \<le> 7" using Cons.prems(6) by auto
    show ?case
      using Cons.IH [OF _ _ _ _ invntt_layer_cong [OF Cons.prems(1-5) l]] Cons.prems
        invntt_layers_bound [of r "[l]"] invntt_layers_bound [of r' "[l]"] by simp
  qed simp
  from this [OF _ _ _ _ s] show ?thesis
    using f(2) f'(2) assms(1,3) by (simp add: mlk_poly_invntt_tomont_def subset_iff)
qed

lemma residue_inject:
  assumes "length p = 256" "abs_bound 3329 p" "length p' = 256" "abs_bound 3329 p'"
    and residue: "\<And>i b. i < 128 \<Longrightarrow> b < 2 \<Longrightarrow> residue (cf p) i b = residue (cf p') i b" and "j < 256"
  shows "cf p j = cf p' j"
proof -
  note t = poly_ntt [OF assms(1,2)] and t' = poly_ntt [OF assms(3,4)]
  have i16: "\<forall>c \<in> set (mlk_poly_ntt p). is_i16 c" "\<forall>c \<in> set (mlk_poly_ntt p'). is_i16 c"
    using t(2) t'(2) by (auto simp: abs_bound_def is_i16_def)
  have "mlk_poly_ntt p ! k mod 3329 = mlk_poly_ntt p' ! k mod 3329" if "k < 256" for k
  proof -
    have k: "k div 2 < 128" "k mod 2 < 2" "2 * (k div 2) + k mod 2 = k" using that by auto
    have "cf (mlk_poly_ntt p) k = cf (mlk_poly_ntt p') k"
      using cf_ntt [OF assms(1,2) k(1,2)] cf_ntt [OF assms(3,4) k(1,2)] residue [OF k(1,2)] unfolding k(3) by simp
    then show ?thesis unfolding cf_def zq_eq .
  qed
  then have "scaled 1 (mlk_poly_ntt p) (mlk_poly_ntt p')" using t(1) t'(1) by (simp add: scaled_def)
  from invntt_cong [OF t(1) i16(1) t'(1) i16(2) this]
  have "65536 * p ! j mod 3329 = 65536 * p' ! j mod 3329"
    using invntt_ntt [OF assms(1,2)] invntt_ntt [OF assms(3,4)] assms(1,3,6) by (simp add: scaled_def)
  then have "169 * (65536 * p ! j) mod 3329 = 169 * (65536 * p' ! j) mod 3329" by (rule mod_mult_cong [OF refl])
  moreover have "169 * (65536 * y) mod 3329 = y mod 3329" for y :: int
  proof -
    have "169 * 65536 * y mod 3329 = 1 * y mod 3329" by (rule mod_mult_cong) simp_all
    then show ?thesis by (simp only: mult.assoc mult_1)
  qed
  ultimately show ?thesis unfolding cf_def zq_eq by simp
qed

end
