(* ===== verification/Mlk_Correct.thy ===== *)
theory Mlk_Correct
  imports Mlk_Ring
begin

text \<open>
  Correctness of the encryption scheme of \<open>indcpa.c\<close> and of the encapsulation of \<open>kem.c\<close>: decryption
  inverts encryption, and decapsulation returns the encapsulated secret, whenever the decryption
  noise stays within 831, just under a quarter of \<open>q\<close>. The noise is computed from the sampled secrets
  and the rounding errors of compression by schoolbook arithmetic; the number-theoretic
  transforms of the code do not occur in it.
\<close>

section \<open>Polynomial operations over the integers modulo q\<close>

text \<open>A polynomial in the transformed domain, as 128 pairs.\<close>

definition hat :: "poly \<Rightarrow> nat \<Rightarrow> nat \<Rightarrow> zq" where
  "hat p i b = cf p (2 * i + b)"

lemma coeffs16I: "length p = 256 \<Longrightarrow> abs_bound B p \<Longrightarrow> B \<le> 32768 \<Longrightarrow> coeffs16 p"
  by (auto simp: coeffs16_def abs_bound_def is_i16_def MLKEM_N_def)

lemma canonical_coeffs12: "canonical p \<Longrightarrow> coeffs12 p"
  by (auto simp: canonical_def coeffs12_def MLKEM_Q_def MLKEM_UINT12_LIMIT_def)

lemma canonical_bound: "canonical p \<Longrightarrow> abs_bound 3329 p"
  by (auto simp: canonical_def abs_bound_def MLKEM_Q_def)

lemma cf_reduce:
  assumes "coeffs16 p" and "j < 256"
  shows "cf (mlk_poly_reduce p) j = cf p j"
  using assms by (simp add: cf_def coeffs16_def poly_reduce_mod MLKEM_N_def zq_mod)

lemma poly_add:
  assumes "length p = 256" "abs_bound A p" "length r = 256" "abs_bound B r" "A + B \<le> 32769"
  shows "length (mlk_poly_add p r) = 256" and "abs_bound (A + B) (mlk_poly_add p r)"
    and "j < 256 \<Longrightarrow> cf (mlk_poly_add p r) j = cf p j + cf r j"
proof -
  have b: "\<bar>p ! j + r ! j\<bar> < A + B - 1" if "j < 256" for j
    using abs_bound_nth [OF assms(2), of j] abs_bound_nth [OF assms(4), of j] assms(1,3) that by linarith
  have n: "mlk_poly_add p r ! j = p ! j + r ! j" if "j < 256" for j
  proof -
    have "is_i16 (p ! j + r ! j)" by (rule abs_bound_i16 [OF b [OF that]]) (use assms(5) in simp)
    then show ?thesis using that assms(1,3) by (simp add: mlk_poly_add_def to_i16_id)
  qed
  show len: "length (mlk_poly_add p r) = 256" using assms(1,3) by (simp add: mlk_poly_add_def)
  show "abs_bound (A + B) (mlk_poly_add p r)" by (rule abs_boundI) (use b n len in fastforce)
  show "cf (mlk_poly_add p r) j = cf p j + cf r j" if "j < 256" using n [OF that] by (simp add: cf_def)
qed

lemma poly_sub:
  assumes "length p = 256" "abs_bound A p" "length r = 256" "abs_bound B r" "A + B \<le> 32769"
  shows "coeffs16 (mlk_poly_sub p r)" and "j < 256 \<Longrightarrow> cf (mlk_poly_sub p r) j = cf p j - cf r j"
proof -
  have b: "is_i16 (p ! j - r ! j)" if "j < 256" for j
  proof -
    have "\<bar>p ! j - r ! j\<bar> < A + B - 1"
      using abs_bound_nth [OF assms(2), of j] abs_bound_nth [OF assms(4), of j] assms(1,3) that by linarith
    then show ?thesis by (rule abs_bound_i16) (use assms(5) in simp)
  qed
  have n: "mlk_poly_sub p r ! j = p ! j - r ! j" if "j < 256" for j
    using b [OF that] that assms(1,3) by (simp add: mlk_poly_sub_def to_i16_id)
  have len: "length (mlk_poly_sub p r) = 256" using assms(1,3) by (simp add: mlk_poly_sub_def)
  then show "coeffs16 (mlk_poly_sub p r)" using b n by (auto simp: coeffs16_def MLKEM_N_def in_set_conv_nth)
  show "cf (mlk_poly_sub p r) j = cf p j - cf r j" if "j < 256" using n [OF that] by (simp add: cf_def)
qed

lemma poly_tomont:
  assumes "coeffs16 p"
  shows "length (mlk_poly_tomont p) = 256" and "abs_bound 3329 (mlk_poly_tomont p)"
    and "j < 256 \<Longrightarrow> cf (mlk_poly_tomont p) j = 65536 * cf p j"
proof -
  have p: "length p = 256" "\<forall>c \<in> set p. is_i16 c" using assms by (simp_all add: coeffs16_def MLKEM_N_def)
  note f = scaled_fqmul [OF p(2), of 1353]
  show "length (mlk_poly_tomont p) = 256" "abs_bound 3329 (mlk_poly_tomont p)"
    using p(1) f(2) by (simp_all add: mlk_poly_tomont_def)
  show "cf (mlk_poly_tomont p) j = 65536 * cf p j" if "j < 256"
  proof -
    have "mlk_poly_tomont p ! j mod 3329 = 1353 * 169 * p ! j mod 3329"
      using f(1) p(1) that by (simp add: scaled_def mlk_poly_tomont_def)
    also have "\<dots> = 65536 * p ! j mod 3329" by (rule mod_mult_cong) simp_all
    finally have "cf (mlk_poly_tomont p) j = of_int (65536 * p ! j)" unfolding cf_def zq_eq .
    then show ?thesis by (simp only: of_int_mult of_int_numeral cf_def)
  qed
qed

text \<open>A vector of small polynomials and its transform.\<close>

definition small :: "poly \<Rightarrow> bool" where
  "small p \<longleftrightarrow> length p = MLKEM_N \<and> (\<forall>c \<in> set p. \<bar>c\<bar> \<le> 2)"

definition reduced :: "poly \<Rightarrow> bool" where
  "reduced p \<longleftrightarrow> length p = 256 \<and> abs_bound 3329 p"

lemma small_reduced: "small p \<Longrightarrow> reduced p"
  by (auto simp: small_def reduced_def abs_bound_def MLKEM_N_def)

lemma canonical_reduced: "canonical p \<Longrightarrow> reduced p"
  by (simp add: reduced_def canonical_bound canonical_length)

lemma polyvec_mono: "polyvec_all P v \<Longrightarrow> (\<And>p. P p \<Longrightarrow> Q p) \<Longrightarrow> polyvec_all Q v"
  by (auto simp: polyvec_all_def)

lemma polyvec_ntt:
  assumes "polyvec_all reduced v"
  shows "polyvec_all coeffs16 (mlk_polyvec_ntt v)"
    and "k < MLKEM_K \<Longrightarrow> i < 128 \<Longrightarrow> b < 2 \<Longrightarrow> hat (mlk_polyvec_ntt v ! k) i b = residue (cf (v ! k)) i b"
    and "k < MLKEM_K \<Longrightarrow> length (mlk_polyvec_ntt v ! k) = 256 \<and> abs_bound 26632 (mlk_polyvec_ntt v ! k)"
proof -
  have r: "length (v ! k) = 256" "abs_bound 3329 (v ! k)" if "k < MLKEM_K" for k
    using polyvec_all_nth [OF assms that] by (simp_all add: reduced_def)
  have n: "mlk_polyvec_ntt v ! k = mlk_poly_ntt (v ! k)" if "k < MLKEM_K" for k using that by (simp add: mlk_polyvec_ntt_def)
  show "polyvec_all coeffs16 (mlk_polyvec_ntt v)"
    using coeffs16I [OF poly_ntt(1,2) [OF r]] n by (intro polyvec_allI) (auto simp: mlk_polyvec_ntt_def)
  show "hat (mlk_polyvec_ntt v ! k) i b = residue (cf (v ! k)) i b" if "k < MLKEM_K" "i < 128" "b < 2"
    unfolding hat_def n [OF that(1)] by (rule cf_ntt [OF r [OF that(1)] that(2,3)])
  show "length (mlk_polyvec_ntt v ! k) = 256 \<and> abs_bound 26632 (mlk_polyvec_ntt v ! k)" if "k < MLKEM_K"
    using poly_ntt(1,2) [OF r [OF that]] n [OF that] by simp
qed

lemma basemul_zq:
  assumes "polyvec_all coeffs12 a" "polyvec_all coeffs16 v"
  defines "r \<equiv> mlk_polyvec_basemul_acc_montgomery_cached a v (mlk_polyvec_mulcache_compute v)"
  shows "coeffs16 r"
    and "i < 128 \<Longrightarrow> b < 2 \<Longrightarrow> 65536 * hat r i b = (\<Sum>k<MLKEM_K. bm (root i) (hat (a ! k) i) (hat (v ! k) i) b)"
proof -
  note bm = basemul [OF assms(1,2), folded r_def]
  have len: "length r = 256" by (rule bm(4) [of 0]) simp
  have "is_i16 (r ! j)" if "j < 256" for j
  proof -
    have "j div 2 < 128" "j = 2 * (j div 2) \<or> j = 2 * (j div 2) + 1" using that by presburger+
    then show ?thesis using bm(3) [of "j div 2"] by (auto simp: is_i16_def)
  qed
  then show "coeffs16 r" using len by (auto simp: coeffs16_def MLKEM_N_def in_set_conv_nth)
  show "65536 * hat r i b = (\<Sum>k<MLKEM_K. bm (root i) (hat (a ! k) i) (hat (v ! k) i) b)" if "i < 128" "b < 2"
  proof -
    have "(of_int (r ! (2 * i) * 65536) :: zq) = of_int (\<Sum>k<MLKEM_K. base_mul0 i (a ! k) (v ! k))"
      "(of_int (r ! (2 * i + 1) * 65536) :: zq) = of_int (\<Sum>k<MLKEM_K. base_mul1 i (a ! k) (v ! k))"
      unfolding zq_eq by (rule bm [OF that(1)])+
    then show ?thesis
      using less_2_cases [OF that(2)]
      by (auto simp: hat_def cf_def bm_def base_mul0_def base_mul1_def root_def mult.commute [of _ 65536] of_int_mult)
  qed
qed

text \<open>A row times a vector, back in the coefficient domain.\<close>

lemma product_eval:
  assumes "polyvec_all coeffs12 a" "polyvec_all reduced v"
  defines "w \<equiv> mlk_polyvec_ntt v"
  defines "y \<equiv> mlk_poly_invntt_tomont (mlk_polyvec_basemul_acc_montgomery_cached a w (mlk_polyvec_mulcache_compute w))"
  shows "reduced y"
    and "i < 128 \<Longrightarrow> b < 2 \<Longrightarrow> residue (cf y) i b = (\<Sum>k<MLKEM_K. bm (root i) (hat (a ! k) i) (residue (cf (v ! k)) i) b)"
proof -
  note n = polyvec_ntt [OF assms(2), folded w_def] and m = basemul_zq [OF assms(1) polyvec_ntt(1) [OF assms(2)], folded w_def]
  have l: "length (mlk_polyvec_basemul_acc_montgomery_cached a w (mlk_polyvec_mulcache_compute w)) = 256"
    "\<forall>c \<in> set (mlk_polyvec_basemul_acc_montgomery_cached a w (mlk_polyvec_mulcache_compute w)). is_i16 c"
    using m(1) by (simp_all add: coeffs16_def MLKEM_N_def)
  note e = invntt_eval [OF l, folded y_def]
  show "reduced y" using e(1,2) by (simp add: reduced_def)
  show "residue (cf y) i b = (\<Sum>k<MLKEM_K. bm (root i) (hat (a ! k) i) (residue (cf (v ! k)) i) b)" if "i < 128" "b < 2"
    unfolding e(3) [OF that] hat_def [symmetric] m(2) [OF that]
    by (intro sum.cong refl bm_cong) (use n(2) that in auto)
qed

section \<open>Key generation, encryption and decryption on sampled polynomials\<close>

text \<open>What the code computes from the matrix, the secrets and the noise; the seeds and the packing are left out.\<close>

definition kpke_s :: "polyvec \<Rightarrow> polyvec" where
  "kpke_s s = mlk_polyvec_reduce (mlk_polyvec_ntt s)"

definition kpke_t :: "polymat \<Rightarrow> polyvec \<Rightarrow> polyvec \<Rightarrow> polyvec" where
  "kpke_t a s e =
     mlk_polyvec_reduce (mlk_polyvec_add
       (mlk_polyvec_tomont (mlk_matvec_mul a (mlk_polyvec_ntt s) (mlk_polyvec_mulcache_compute (mlk_polyvec_ntt s))))
       (mlk_polyvec_ntt e))"

definition kpke_u :: "polymat \<Rightarrow> polyvec \<Rightarrow> polyvec \<Rightarrow> polyvec" where
  "kpke_u at r e1 =
     mlk_polyvec_reduce (mlk_polyvec_add
       (mlk_polyvec_invntt_tomont (mlk_matvec_mul at (mlk_polyvec_ntt r) (mlk_polyvec_mulcache_compute (mlk_polyvec_ntt r)))) e1)"

definition kpke_v :: "polyvec \<Rightarrow> polyvec \<Rightarrow> poly \<Rightarrow> bytes \<Rightarrow> poly" where
  "kpke_v t r e2 m =
     mlk_poly_reduce (mlk_poly_add (mlk_poly_add
       (mlk_poly_invntt_tomont (mlk_polyvec_basemul_acc_montgomery_cached t (mlk_polyvec_ntt r)
          (mlk_polyvec_mulcache_compute (mlk_polyvec_ntt r)))) e2) (mlk_poly_frommsg m))"

lemma reduce_hat:
  assumes "coeffs16 p"
  shows "canonical (mlk_poly_reduce p)" and "i < 128 \<Longrightarrow> b < 2 \<Longrightarrow> hat (mlk_poly_reduce p) i b = hat p i b"
    and "residue (cf (mlk_poly_reduce p)) i b = residue (cf p) i b"
  using poly_reduce_canonical [OF assms] cf_reduce [OF assms] by (auto simp: hat_def intro: residue_cong)

lemma kpke_s:
  assumes "polyvec_all reduced s"
  shows "polyvec_all canonical (kpke_s s)"
    and "k < MLKEM_K \<Longrightarrow> i < 128 \<Longrightarrow> b < 2 \<Longrightarrow> hat (kpke_s s ! k) i b = residue (cf (s ! k)) i b"
proof -
  note n = polyvec_ntt [OF assms]
  have nth: "kpke_s s ! k = mlk_poly_reduce (mlk_polyvec_ntt s ! k)" if "k < MLKEM_K" for k
    using that by (simp add: kpke_s_def mlk_polyvec_reduce_def)
  show "polyvec_all canonical (kpke_s s)"
    using reduce_hat(1) [OF polyvec_all_nth [OF n(1)]] nth by (intro polyvec_allI) (auto simp: kpke_s_def mlk_polyvec_reduce_def)
  show "hat (kpke_s s ! k) i b = residue (cf (s ! k)) i b" if "k < MLKEM_K" "i < 128" "b < 2"
    unfolding nth [OF that(1)] reduce_hat(2) [OF polyvec_all_nth [OF n(1) that(1)] that(2,3)] by (rule n(2) [OF that])
qed

definition mat_canonical :: "polymat \<Rightarrow> bool" where
  "mat_canonical a \<longleftrightarrow> (\<forall>j < MLKEM_K. polyvec_all canonical (a ! j))"

lemma kpke_t:
  assumes "mat_canonical a" "polyvec_all reduced s" "polyvec_all reduced e"
  shows "polyvec_all canonical (kpke_t a s e)"
    and "j < MLKEM_K \<Longrightarrow> i < 128 \<Longrightarrow> b < 2 \<Longrightarrow> hat (kpke_t a s e ! j) i b =
      (\<Sum>l<MLKEM_K. bm (root i) (hat (a ! j ! l) i) (residue (cf (s ! l)) i) b) + residue (cf (e ! j)) i b"
proof -
  let ?y = "\<lambda>j. mlk_polyvec_basemul_acc_montgomery_cached (a ! j) (mlk_polyvec_ntt s) (mlk_polyvec_mulcache_compute (mlk_polyvec_ntt s))"
  let ?z = "\<lambda>j. mlk_poly_add (mlk_poly_tomont (?y j)) (mlk_polyvec_ntt e ! j)"
  have nth: "kpke_t a s e ! j = mlk_poly_reduce (?z j)" if "j < MLKEM_K" for j
    using that by (simp add: kpke_t_def mlk_polyvec_reduce_def mlk_polyvec_add_def mlk_polyvec_tomont_def mlk_matvec_mul_def)
  have a12: "polyvec_all coeffs12 (a ! j)" if "j < MLKEM_K" for j
    using assms(1) that canonical_coeffs12 by (auto simp: mat_canonical_def intro: polyvec_mono)
  note m = basemul_zq [OF a12 polyvec_ntt(1) [OF assms(2)]]
  note t = poly_tomont [OF m(1)]
  note e = polyvec_ntt [OF assms(3)]
  note z = poly_add [OF t(1,2) conjunct1 [OF e(3)] conjunct2 [OF e(3)]]
  have c16: "coeffs16 (?z j)" if "j < MLKEM_K" for j
    using coeffs16I [OF z(1) [OF that that that that] z(2) [OF that that that that]] by simp
  show "polyvec_all canonical (kpke_t a s e)"
    using reduce_hat(1) [OF c16] nth by (intro polyvec_allI) (auto simp: kpke_t_def mlk_polyvec_reduce_def)
  show "hat (kpke_t a s e ! j) i b =
      (\<Sum>l<MLKEM_K. bm (root i) (hat (a ! j ! l) i) (residue (cf (s ! l)) i) b) + residue (cf (e ! j)) i b"
    if ji: "j < MLKEM_K" "i < 128" "b < 2"
  proof -
    have p: "2 * i + b < 256" using ji by simp
    have "hat (kpke_t a s e ! j) i b = 65536 * hat (?y j) i b + hat (mlk_polyvec_ntt e ! j) i b"
      unfolding nth [OF ji(1)] reduce_hat(2) [OF c16 [OF ji(1)] ji(2,3)]
      using z(3) [OF ji(1) ji(1) ji(1) ji(1) _ p] t(3) [OF ji(1) p] by (simp add: hat_def)
    also have "\<dots> = (\<Sum>l<MLKEM_K. bm (root i) (hat (a ! j ! l) i) (residue (cf (s ! l)) i) b) + residue (cf (e ! j)) i b"
      unfolding m(2) [OF ji] e(2) [OF ji] by (intro arg_cong2 [of _ _ _ _ "(+)"] refl sum.cong bm_cong) (use polyvec_ntt(2) [OF assms(2)] ji in auto)
    finally show ?thesis .
  qed
qed

lemma kpke_u:
  assumes "mat_canonical at" "polyvec_all reduced r" "polyvec_all small e1"
  shows "polyvec_all canonical (kpke_u at r e1)"
    and "k < MLKEM_K \<Longrightarrow> i < 128 \<Longrightarrow> b < 2 \<Longrightarrow> residue (cf (kpke_u at r e1 ! k)) i b =
      (\<Sum>j<MLKEM_K. bm (root i) (hat (at ! k ! j) i) (residue (cf (r ! j)) i) b) + residue (cf (e1 ! k)) i b"
proof -
  let ?y = "\<lambda>k. mlk_poly_invntt_tomont (mlk_polyvec_basemul_acc_montgomery_cached (at ! k) (mlk_polyvec_ntt r)
      (mlk_polyvec_mulcache_compute (mlk_polyvec_ntt r)))"
  have nth: "kpke_u at r e1 ! k = mlk_poly_reduce (mlk_poly_add (?y k) (e1 ! k))" if "k < MLKEM_K" for k
    using that by (simp add: kpke_u_def mlk_polyvec_reduce_def mlk_polyvec_add_def mlk_polyvec_invntt_tomont_def mlk_matvec_mul_def)
  have a12: "polyvec_all coeffs12 (at ! j)" if "j < MLKEM_K" for j
    using assms(1) that canonical_coeffs12 by (auto simp: mat_canonical_def intro: polyvec_mono)
  note y = product_eval [OF a12 assms(2)]
  have yr: "length (?y k) = 256" "abs_bound 3329 (?y k)" if "k < MLKEM_K" for k using y(1) [OF that] by (simp_all add: reduced_def)
  have e1: "length (e1 ! k) = 256" "abs_bound 3329 (e1 ! k)" if "k < MLKEM_K" for k
    using small_reduced [OF polyvec_all_nth [OF assms(3) that]] by (simp_all add: reduced_def)
  note z = poly_add [OF yr e1]
  have c16: "coeffs16 (mlk_poly_add (?y k) (e1 ! k))" if "k < MLKEM_K" for k using z(1,2) [OF that that that that] by (intro coeffs16I) auto
  show "polyvec_all canonical (kpke_u at r e1)"
    using reduce_hat(1) [OF c16] nth by (intro polyvec_allI) (auto simp: kpke_u_def mlk_polyvec_reduce_def)
  show "residue (cf (kpke_u at r e1 ! k)) i b =
      (\<Sum>j<MLKEM_K. bm (root i) (hat (at ! k ! j) i) (residue (cf (r ! j)) i) b) + residue (cf (e1 ! k)) i b"
    if k: "k < MLKEM_K" "i < 128" "b < 2"
  proof -
    have "residue (cf (kpke_u at r e1 ! k)) i b = residue (\<lambda>j. cf (?y k) j + cf (e1 ! k) j) i b"
      unfolding nth [OF k(1)] reduce_hat(3) [OF c16 [OF k(1)]] by (rule residue_cong) (use z(3) [OF k(1) k(1) k(1) k(1)] in simp)
    then show ?thesis unfolding residue_add y(2) [OF k] .
  qed
qed

lemma frommsg_reduced: "reduced (mlk_poly_frommsg m)"
proof -
  have len: "length (mlk_poly_frommsg m) = 256"
    unfolding mlk_poly_frommsg_def by (subst length_concat_blocks [where w = 8]) (auto simp: MLKEM_N_def)
  have "\<bar>mlk_poly_frommsg m ! j\<bar> < 3329" if "j < 256" for j
  proof -
    have "j div 8 < 32" "j mod 8 < 8" using that by auto
    from frommsg_nth [OF this, of m] show ?thesis by simp
  qed
  then show ?thesis using len by (auto simp: reduced_def intro: abs_boundI)
qed

lemma kpke_v:
  assumes "polyvec_all canonical t" "polyvec_all reduced r" "small e2"
  shows "canonical (kpke_v t r e2 m)"
    and "i < 128 \<Longrightarrow> b < 2 \<Longrightarrow> residue (cf (kpke_v t r e2 m)) i b =
      (\<Sum>j<MLKEM_K. bm (root i) (hat (t ! j) i) (residue (cf (r ! j)) i) b) + residue (cf e2) i b + residue (cf (mlk_poly_frommsg m)) i b"
proof -
  let ?y = "mlk_poly_invntt_tomont (mlk_polyvec_basemul_acc_montgomery_cached t (mlk_polyvec_ntt r)
      (mlk_polyvec_mulcache_compute (mlk_polyvec_ntt r)))"
  have t12: "polyvec_all coeffs12 t" by (rule polyvec_mono [OF assms(1)]) (rule canonical_coeffs12)
  note y = product_eval [OF t12 assms(2)]
  have yr: "length ?y = 256" "abs_bound 3329 ?y" using y(1) by (simp_all add: reduced_def)
  have e2: "length e2 = 256" "abs_bound 3329 e2" using small_reduced [OF assms(3)] by (simp_all add: reduced_def)
  have k: "length (mlk_poly_frommsg m) = 256" "abs_bound 3329 (mlk_poly_frommsg m)" using frommsg_reduced by (simp_all add: reduced_def)
  note z = poly_add [OF yr e2, simplified]
  note w = poly_add [OF z(1,2) k, simplified]
  have c16: "coeffs16 (mlk_poly_add (mlk_poly_add ?y e2) (mlk_poly_frommsg m))" using w(1,2) by (intro coeffs16I) auto
  show "canonical (kpke_v t r e2 m)" unfolding kpke_v_def by (rule reduce_hat(1) [OF c16])
  show "residue (cf (kpke_v t r e2 m)) i b =
      (\<Sum>j<MLKEM_K. bm (root i) (hat (t ! j) i) (residue (cf (r ! j)) i) b) + residue (cf e2) i b + residue (cf (mlk_poly_frommsg m)) i b"
    if ib: "i < 128" "b < 2"
  proof -
    have "residue (cf (kpke_v t r e2 m)) i b = residue (\<lambda>j. cf ?y j + cf e2 j + cf (mlk_poly_frommsg m) j) i b"
      unfolding kpke_v_def reduce_hat(3) [OF c16] by (rule residue_cong) (simp add: w(3) z(3))
    then show ?thesis unfolding residue_add y(2) [OF ib] .
  qed
qed

section \<open>The ciphertext\<close>

text \<open>Compressing and decompressing one polynomial: \<open>c\<close> is the rounded coefficient.\<close>

definition round_u :: "poly \<Rightarrow> poly" where
  "round_u p = map (\<lambda>c. mlk_scalar_decompress_d10 (mlk_scalar_compress_d10 c)) p"

definition round_v :: "poly \<Rightarrow> poly" where
  "round_v p = map (\<lambda>c. mlk_scalar_decompress_d4 (mlk_scalar_compress_d4 c)) p"

lemma round_scalar:
  assumes "0 \<le> c" and "c < 3329"
  shows "0 \<le> mlk_scalar_decompress_d10 (mlk_scalar_compress_d10 c) \<and> mlk_scalar_decompress_d10 (mlk_scalar_compress_d10 c) < 3329"
    and "0 \<le> mlk_scalar_decompress_d4 (mlk_scalar_compress_d4 c) \<and> mlk_scalar_decompress_d4 (mlk_scalar_compress_d4 c) < 3329"
proof -
  have "uint (mlk_scalar_compress_d4 c) < 16" "uint (mlk_scalar_compress_d10 c) < 1024"
    unfolding scalar_compress [OF assms] by (simp_all add: compress_q_def)
  then show "0 \<le> mlk_scalar_decompress_d10 (mlk_scalar_compress_d10 c) \<and> mlk_scalar_decompress_d10 (mlk_scalar_compress_d10 c) < 3329"
    "0 \<le> mlk_scalar_decompress_d4 (mlk_scalar_compress_d4 c) \<and> mlk_scalar_decompress_d4 (mlk_scalar_compress_d4 c) < 3329"
    using compress_decompress_q(2,3) [of 10 "uint (mlk_scalar_compress_d10 c)"]
      compress_decompress_q(2,3) [of 4 "uint (mlk_scalar_compress_d4 c)"] by (simp_all add: scalar_decompress)
qed

lemma round_canonical: "canonical p \<Longrightarrow> canonical (round_u p)" "canonical p \<Longrightarrow> canonical (round_v p)"
  using round_scalar by (auto simp: canonical_def round_u_def round_v_def MLKEM_Q_def)

lemma unpack_pack_ciphertext:
  assumes "polyvec_all canonical u" and "canonical v"
  shows "mlk_unpack_ciphertext (mlk_pack_ciphertext u v) = (map round_u u, round_v v)"
proof -
  let ?c = "mlk_polyvec_compress_du u" and ?d = "mlk_poly_compress_dv v"
  have part: "take 320 (drop (i * 320) (?c @ ?d)) = mlk_poly_compress_d10 (u ! i)" if "i < MLKEM_K" for i
    using that by (auto simp: less_K mlk_polyvec_compress_du_def upt_K mlk_poly_compress_du_def length_compress_d10)
  have "mlk_polyvec_decompress_du (?c @ ?d) = map (\<lambda>i. round_u (u ! i)) [0..<MLKEM_K]"
    unfolding mlk_polyvec_decompress_du_def mlk_poly_decompress_du_def MLKEM_POLYCOMPRESSEDBYTES_DU_def
    by (rule map_cong [OF refl]) (use part decompress_compress_d10 polyvec_all_nth [OF assms(1)] in \<open>simp add: round_u_def\<close>)
  also have "\<dots> = map round_u u" by (rule polyvec_map) (rule polyvec_all_length [OF assms(1)])
  finally have "mlk_polyvec_decompress_du (?c @ ?d) = map round_u u" .
  moreover have "mlk_poly_decompress_dv (take 128 (drop 960 (?c @ ?d))) = round_v v"
    using decompress_compress_d4 [OF assms(2)]
    by (simp add: mlk_poly_compress_dv_def mlk_poly_decompress_dv_def length_compress_d4 round_v_def)
  ultimately show ?thesis
    by (simp add: mlk_unpack_ciphertext_def mlk_pack_ciphertext_def mlk_sizes)
qed

section \<open>The decryption noise\<close>

text \<open>
  With the rounding errors \<open>c_u\<close> and \<open>c_v\<close> of the ciphertext, the noise is
  \<open>e r + e_2 + c_v - s (e_1 + c_u)\<close> with scalar products of vectors, in the integers modulo
  \<open>X^256 + 1\<close>; \<open>centred\<close> is the representative modulo \<open>q\<close> that is nearest to zero.
\<close>

definition centred :: "int \<Rightarrow> int" where
  "centred x = (x + 1664) mod 3329 - 1664"

definition kpke_noise :: "polyvec \<Rightarrow> polyvec \<Rightarrow> polyvec \<Rightarrow> polyvec \<Rightarrow> poly \<Rightarrow> polyvec \<Rightarrow> poly \<Rightarrow> nat \<Rightarrow> int" where
  "kpke_noise s e r e1 e2 u v j =
     (\<Sum>k<MLKEM_K. nmul (nth (e ! k)) (nth (r ! k)) j) + e2 ! j + (round_v v ! j - v ! j)
     - (\<Sum>k<MLKEM_K. nmul (nth (s ! k)) (\<lambda>l. e1 ! k ! l + (round_u (u ! k) ! l - u ! k ! l)) j)"

lemma centred: "(centred x) mod 3329 = x mod 3329"
proof -
  have "centred x mod 3329 = (x + 1664 - 1664) mod 3329" unfolding centred_def by (rule mod_diff_left_eq)
  then show ?thesis by simp
qed

text \<open>The products with the matrix cancel.\<close>

lemma kpke_cancel:
  "(\<Sum>j<n. bm c (\<lambda>b. (\<Sum>l<n. bm c (as j l) (ss l) b) + es j b) (rs j) b) =
   (\<Sum>j<n. bm c (es j) (rs j) b) + (\<Sum>k<n. bm c (ss k) (\<lambda>b. \<Sum>j<n. bm c (as j k) (rs j) b) b)"
proof -
  have "bm c (\<lambda>b. (\<Sum>l<n. bm c (as j l) (ss l) b) + es j b) (rs j) b
    = (\<Sum>l<n. bm c (rs j) (bm c (as j l) (ss l)) b) + bm c (es j) (rs j) b" for j
    unfolding bm_commute [of _ _ "rs j"] bm_add bm_sum ..
  moreover have "bm c (rs j) (bm c (as j l) (ss l)) = bm c (ss l) (bm c (as j l) (rs j))" for j l
    by (metis bm_assoc bm_commute)
  ultimately have "(\<Sum>j<n. bm c (\<lambda>b. (\<Sum>l<n. bm c (as j l) (ss l) b) + es j b) (rs j) b)
    = (\<Sum>j<n. \<Sum>l<n. bm c (ss l) (bm c (as j l) (rs j)) b) + (\<Sum>j<n. bm c (es j) (rs j) b)"
    by (simp add: sum.distrib)
  also have "(\<Sum>j<n. \<Sum>l<n. bm c (ss l) (bm c (as j l) (rs j)) b) = (\<Sum>k<n. bm c (ss k) (\<lambda>b. \<Sum>j<n. bm c (as j k) (rs j) b) b)"
    unfolding bm_sum by (rule sum.swap)
  finally show ?thesis by (simp only: add.commute)
qed

definition mat_transpose :: "polymat \<Rightarrow> polymat" where
  "mat_transpose a = map (\<lambda>i. map (\<lambda>j. a ! j ! i) [0..<MLKEM_K]) [0..<MLKEM_K]"

lemma mat_transpose_nth: "k < MLKEM_K \<Longrightarrow> j < MLKEM_K \<Longrightarrow> mat_transpose a ! k ! j = a ! j ! k"
  by (simp add: mat_transpose_def)

lemma mat_transpose_canonical:
  assumes "mat_canonical a"
  shows "mat_canonical (mat_transpose a)"
proof -
  have "polyvec_all canonical (mat_transpose a ! k)" if k: "k < MLKEM_K" for k
  proof (rule polyvec_allI)
    show "length (mat_transpose a ! k) = MLKEM_K" using k by (simp add: mat_transpose_def)
    fix j assume j: "j < MLKEM_K"
    then have "polyvec_all canonical (a ! j)" using assms by (simp add: mat_canonical_def)
    then show "canonical (mat_transpose a ! k ! j)" unfolding mat_transpose_nth [OF k j] using k by (rule polyvec_all_nth)
  qed
  then show ?thesis by (simp add: mat_canonical_def)
qed

lemma kpke_decrypt:
  assumes a: "mat_canonical a" and s: "polyvec_all reduced s" and e: "polyvec_all reduced e" and r: "polyvec_all reduced r"
    and e1: "polyvec_all small e1" and e2: "small e2" and m: "length m = 32"
  defines "u \<equiv> kpke_u (mat_transpose a) r e1" and "v \<equiv> kpke_v (kpke_t a s e) r e2 m"
  assumes noise: "\<forall>j<256. \<bar>centred (kpke_noise s e r e1 e2 u v j)\<bar> \<le> 831"
  shows "mlk_indcpa_dec (mlk_pack_ciphertext u v) (mlk_pack_sk (kpke_s s)) = m"
proof -
  let ?k = "mlk_poly_frommsg m" and ?n = "kpke_noise s e r e1 e2 u v" and ?u = "map round_u u" and ?v = "round_v v"
  note u = kpke_u [OF mat_transpose_canonical [OF a] r e1, folded u_def]
  note t = kpke_t [OF a s e] and ks = kpke_s [OF s]
  note v = kpke_v [OF t(1) r e2, where m = m, folded v_def]
  have vr: "canonical ?v" by (rule round_canonical(2) [OF v(1)])
  have lu: "length u = MLKEM_K" by (rule polyvec_all_length [OF u(1)])
  have ur: "polyvec_all reduced ?u"
    using u(1) round_canonical(1) canonical_reduced by (auto simp: polyvec_all_def)
  have s12: "polyvec_all coeffs12 (kpke_s s)" by (rule polyvec_mono [OF ks(1)]) (rule canonical_coeffs12)
  let ?w = "mlk_polyvec_ntt ?u"
  let ?y = "mlk_poly_invntt_tomont (mlk_polyvec_basemul_acc_montgomery_cached (kpke_s s) ?w (mlk_polyvec_mulcache_compute ?w))"
  let ?d = "mlk_poly_reduce (mlk_poly_sub ?v ?y)"
  note y = product_eval [OF s12 ur]
  have unpack: "mlk_unpack_sk (mlk_pack_sk (kpke_s s)) = kpke_s s"
    using polyvec_frombytes_tobytes [OF ks(1), of "[]"] by (simp add: mlk_unpack_sk_def mlk_pack_sk_def)
  have dec: "mlk_indcpa_dec (mlk_pack_ciphertext u v) (mlk_pack_sk (kpke_s s)) = mlk_poly_tomsg ?d"
    by (simp add: mlk_indcpa_dec_def unpack_pack_ciphertext [OF u(1) v(1)] unpack Let_def)
  have sub: "coeffs16 (mlk_poly_sub ?v ?y)" "\<And>j. j < 256 \<Longrightarrow> cf (mlk_poly_sub ?v ?y) j = cf ?v j - cf ?y j"
    using poly_sub [of ?v 3329 ?y 3329] canonical_bound [OF vr] canonical_length [OF vr] y(1) by (simp_all add: reduced_def)
  have d: "canonical ?d" by (rule reduce_hat(1) [OF sub(1)])
  define p' where "p' = map (\<lambda>j. (?k ! j + ?n j) mod 3329) [0..<256]"
  have "residue (cf ?d) i b = residue (cf p') i b" if ib: "i < 128" "b < 2" for i b
  proof -
    let ?c = "root i"
    have "residue (cf ?d) i b = residue (\<lambda>j. cf ?v j - cf ?y j) i b"
      unfolding reduce_hat(3) [OF sub(1)] by (rule residue_cong) (rule sub(2))
    also have "\<dots> = residue (cf ?v) i b - (\<Sum>k<MLKEM_K. bm ?c (residue (cf (s ! k)) i) (residue (cf (?u ! k)) i) b)"
      unfolding residue_diff y(2) [OF ib] by (intro arg_cong2 [of _ _ _ _ "(-)"] refl sum.cong bm_cong) (use ks(2) ib in auto)
    finally have D: "residue (cf ?d) i b = residue (cf ?v) i b - (\<Sum>k<MLKEM_K. bm ?c (residue (cf (s ! k)) i) (residue (cf (?u ! k)) i) b)" .
    have V: "residue (cf v) i b = (\<Sum>j<MLKEM_K. bm ?c (\<lambda>b. (\<Sum>l<MLKEM_K. bm ?c (hat (a ! j ! l) i) (residue (cf (s ! l)) i) b) + residue (cf (e ! j)) i b) (residue (cf (r ! j)) i) b)
        + residue (cf e2) i b + residue (cf ?k) i b"
      unfolding v(2) [OF ib] by (intro arg_cong2 [of _ _ _ _ "(+)"] refl sum.cong bm_cong) (use t(2) ib in auto)
    have U: "residue (cf (u ! k)) i b = (\<Sum>j<MLKEM_K. bm ?c (hat (a ! j ! k) i) (residue (cf (r ! j)) i) b) + residue (cf (e1 ! k)) i b"
      if "k < MLKEM_K" "b < 2" for k b
      unfolding u(2) [OF that(1) ib(1) that(2)]
      by (intro arg_cong2 [of _ _ _ _ "(+)"] refl sum.cong) (use mat_transpose_nth that in auto)
    have n: "of_int (?n j) = (\<Sum>k<MLKEM_K. nmul (cf (e ! k)) (cf (r ! k)) j) + cf e2 j + (cf ?v j - cf v j)
        - (\<Sum>k<MLKEM_K. nmul (cf (s ! k)) (\<lambda>l. cf (e1 ! k) l + (cf (?u ! k) l - cf (u ! k) l)) j)" for j
      unfolding kpke_noise_def of_int_diff of_int_add of_int_sum nmul_of_int cf_def [abs_def]
      using lu by (simp add: cf_def)
    have "residue (cf p') i b = residue (\<lambda>j. cf ?k j + of_int (?n j)) i b"
      by (rule residue_cong) (simp add: p'_def cf_def zq_mod)
    also have "\<dots> = residue (cf ?k) i b + ((\<Sum>k<MLKEM_K. bm ?c (residue (cf (e ! k)) i) (residue (cf (r ! k)) i) b) + residue (cf e2) i b + (residue (cf ?v) i b - residue (cf v) i b)
        - (\<Sum>k<MLKEM_K. bm ?c (residue (cf (s ! k)) i) (\<lambda>b. residue (cf (e1 ! k)) i b + (residue (cf (?u ! k)) i b - residue (cf (u ! k)) i b)) b))"
      unfolding n residue_add residue_diff residue_sum residue_nmul [OF ib(2)] residue_add [abs_def] residue_diff [abs_def] by simp
    also have "(\<Sum>k<MLKEM_K. bm ?c (residue (cf (s ! k)) i) (\<lambda>b. residue (cf (e1 ! k)) i b + (residue (cf (?u ! k)) i b - residue (cf (u ! k)) i b)) b)
      = (\<Sum>k<MLKEM_K. bm ?c (residue (cf (s ! k)) i) (residue (cf (?u ! k)) i) b)
        - (\<Sum>k<MLKEM_K. bm ?c (residue (cf (s ! k)) i) (\<lambda>b. \<Sum>j<MLKEM_K. bm ?c (hat (a ! j ! k) i) (residue (cf (r ! j)) i) b) b)"
      unfolding sum_subtractf [symmetric]
    proof (rule sum.cong [OF refl])
      fix k assume "k \<in> {..<MLKEM_K}"
      then show "bm ?c (residue (cf (s ! k)) i) (\<lambda>b. residue (cf (e1 ! k)) i b + (residue (cf (?u ! k)) i b - residue (cf (u ! k)) i b)) b
        = bm ?c (residue (cf (s ! k)) i) (residue (cf (?u ! k)) i) b
          - bm ?c (residue (cf (s ! k)) i) (\<lambda>b. \<Sum>j<MLKEM_K. bm ?c (hat (a ! j ! k) i) (residue (cf (r ! j)) i) b) b"
        using U [of k 0] U [of k 1] by (simp add: bm_def algebra_simps)
    qed
    finally show ?thesis unfolding D V kpke_cancel by simp
  qed
  moreover have p': "length p' = 256" "abs_bound 3329 p'" by (auto simp: p'_def abs_bound_def)
  ultimately have eq: "cf ?d j = cf p' j" if "j < 256" for j
    using residue_inject [OF canonical_length [OF d] canonical_bound [OF d] p' _ that] by blast
  have "?d ! j = (?k ! j + centred (?n j)) mod 3329" if "j < 256" for j
  proof -
    have "?d ! j mod 3329 = p' ! j mod 3329" using eq [OF that] unfolding cf_def zq_eq .
    then have "?d ! j = (?k ! j + ?n j) mod 3329"
      using canonical_nth [OF d that] that by (simp add: p'_def mod_pos_pos_trivial)
    then show ?thesis using mod_add_cong [OF refl centred] by simp
  qed
  then show ?thesis
    unfolding dec using noise m by (intro tomsg_noise) (auto simp: mlk_sizes MLKEM_N_def MLKEM_Q_def)
qed

section \<open>Sampling\<close>

lemma sample_ntt_canonical: "sample_ntt seed i j = Some p \<Longrightarrow> canonical p"
  by (auto simp: sample_ntt_def rej_uniform_iff MLKEM_N_def canonical_def Let_def dest!: in_set_takeD accepted_range)

definition matrix_of :: "bytes \<Rightarrow> polymat" where
  "matrix_of seed = map (\<lambda>i. map (\<lambda>j. the (sample_ntt seed i j)) [0..<MLKEM_K]) [0..<MLKEM_K]"

text \<open>The matrix and its transpose are sampled together: generation of one returns exactly when the other does.\<close>

lemma gen_matrix_both:
  assumes "length seed = 32" and "\<And>i j. i < MLKEM_K \<Longrightarrow> j < MLKEM_K \<Longrightarrow> sample_ntt seed i j \<noteq> None"
  shows "mlk_gen_matrix fresh_polymat seed False = Some (matrix_of seed)"
    and "mlk_gen_matrix fresh_polymat seed True = Some (mat_transpose (matrix_of seed))"
    and "mat_canonical (matrix_of seed)"
proof -
  have f: "mat_shape fresh_polymat" by (simp add: mat_shape_def fresh_polymat_def)
  have l: "length seed = MLKEM_SYMBYTES" using assms(1) by (simp add: MLKEM_SYMBYTES_def)
  show "mlk_gen_matrix fresh_polymat seed False = Some (matrix_of seed)"
    unfolding gen_matrix_iff [OF f l] using assms(2) by (simp add: matrix_of_def)
  show "mlk_gen_matrix fresh_polymat seed True = Some (mat_transpose (matrix_of seed))"
    unfolding gen_matrix_iff [OF f l] using assms(2) by (simp add: matrix_of_def mat_transpose_def)
  have "canonical (the (sample_ntt seed i j))" if "i < MLKEM_K" "j < MLKEM_K" for i j
    using assms(2) [OF that] by (auto intro: sample_ntt_canonical)
  then show "mat_canonical (matrix_of seed)" by (auto simp: mat_canonical_def matrix_of_def intro!: polyvec_allI)
qed

lemma gen_matrix_None:
  assumes "length seed = 32" and "i < MLKEM_K" "j < MLKEM_K" and "sample_ntt seed i j = None"
  shows "mlk_gen_matrix fresh_polymat seed False = None"
proof (rule ccontr)
  assume "mlk_gen_matrix fresh_polymat seed False \<noteq> None"
  then obtain a where a: "mlk_gen_matrix fresh_polymat seed False = Some a" by blast
  have f: "mat_shape fresh_polymat" by (simp add: mat_shape_def fresh_polymat_def)
  have l: "length seed = MLKEM_SYMBYTES" using assms(1) by (simp add: MLKEM_SYMBYTES_def)
  then have "Some (a ! i ! j) = sample_ntt seed i j" using a assms(2,3) unfolding gen_matrix_iff [OF f l] by simp
  then show False using assms(4) by simp
qed

lemma getnoise_small:
  assumes "length seed = 32"
  shows "p \<in> set (mlk_poly_getnoise_eta1_4x r3 seed n0 n1 n2 n3) \<Longrightarrow> small p"
    and "length (mlk_poly_getnoise_eta1_4x r3 seed n0 n1 n2 n3) = (if r3 then 4 else 3)"
  using getnoise_eta1_4x_spec [of seed r3 n0 n1 n2 n3] assms by (auto simp: MLKEM_SYMBYTES_def small_def)

lemma keypair_noise:
  assumes "length seed = 32"
  shows "polyvec_all small (fst (mlk_keypair_getnoise_eta1 seed))" and "polyvec_all small (snd (mlk_keypair_getnoise_eta1 seed))"
  using getnoise_small [OF assms] by (simp_all add: mlk_keypair_getnoise_eta1_def polyvec_all_def MLKEM_K_def)

lemma enc_noise:
  assumes "length seed = 32" and "mlk_enc_getnoise_eta1_eta2 seed = (r, e1, e2)"
  shows "polyvec_all small r" and "polyvec_all small e1" and "small e2"
proof -
  let ?p = "mlk_poly_getnoise_eta1_4x True seed 3 4 5 6"
  have e: "r = mlk_poly_getnoise_eta1_4x False seed 0 1 2 0xFF" "e1 = take 3 ?p" "e2 = ?p ! 3"
    using assms(2) by (simp_all add: mlk_enc_getnoise_eta1_eta2_def Let_def)
  have l: "length ?p = 4" using getnoise_small(2) [OF assms(1)] by simp
  show "polyvec_all small r" using getnoise_small [OF assms(1)] by (simp add: e polyvec_all_def MLKEM_K_def)
  show "polyvec_all small e1" using getnoise_small(1) [OF assms(1)] l by (auto simp: e polyvec_all_def MLKEM_K_def dest: in_set_takeD)
  have "?p ! 3 \<in> set ?p" using l by (intro nth_mem) simp
  then show "small e2" unfolding e by (rule getnoise_small(1) [OF assms(1)])
qed

section \<open>The encryption scheme\<close>

definition kpke_rho :: "bytes \<Rightarrow> bytes" where
  "kpke_rho d = take 32 (mlk_hash_g (d @ [3]))"

definition kpke_secrets :: "bytes \<Rightarrow> polyvec \<times> polyvec" where
  "kpke_secrets d = mlk_keypair_getnoise_eta1 (drop 32 (mlk_hash_g (d @ [3])))"

text \<open>All nine entries of the matrix of a seed can be sampled.\<close>

definition sampled :: "bytes \<Rightarrow> bool" where
  "sampled seed \<longleftrightarrow> (\<forall>i < MLKEM_K. \<forall>j < MLKEM_K. sample_ntt seed i j \<noteq> None)"

lemma indcpa_keypair:
  assumes "length d = 32" and "kpke_secrets d = (s, e)"
  shows "mlk_indcpa_keypair_derand d =
    (if sampled (kpke_rho d) then Some (mlk_pack_pk (kpke_t (matrix_of (kpke_rho d)) s e) (kpke_rho d), mlk_pack_sk (kpke_s s)) else None)"
proof -
  have rho: "length (kpke_rho d) = 32" by (simp add: kpke_rho_def)
  have K: "(word_of_nat MLKEM_K :: byte) = 3" by (simp add: MLKEM_K_def)
  have g: "take MLKEM_SYMBYTES (mlk_hash_g (take MLKEM_SYMBYTES d @ [of_nat MLKEM_K])) = kpke_rho d"
    "mlk_keypair_getnoise_eta1 (drop MLKEM_SYMBYTES (mlk_hash_g (take MLKEM_SYMBYTES d @ [of_nat MLKEM_K]))) = (s, e)"
    using assms by (simp_all add: kpke_rho_def kpke_secrets_def MLKEM_SYMBYTES_def K)
  show ?thesis
  proof (cases "sampled (kpke_rho d)")
    case True
    then have "mlk_gen_matrix fresh_polymat (kpke_rho d) False = Some (matrix_of (kpke_rho d))"
      by (intro gen_matrix_both(1) [OF rho]) (auto simp: sampled_def)
    then show ?thesis using True by (simp add: mlk_indcpa_keypair_derand_def g Let_def kpke_t_def kpke_s_def)
  next
    case False
    then obtain i j where "i < MLKEM_K" "j < MLKEM_K" "sample_ntt (kpke_rho d) i j = None" by (auto simp: sampled_def)
    from gen_matrix_None [OF rho this] show ?thesis using False by (simp add: mlk_indcpa_keypair_derand_def g Let_def)
  qed
qed

text \<open>The polynomials that encryption under the public key of \<open>d\<close> compresses, and the noise.\<close>

definition kpke_uv :: "bytes \<Rightarrow> bytes \<Rightarrow> bytes \<Rightarrow> polyvec \<times> poly" where
  "kpke_uv d m coins =
     (let (s, e) = kpke_secrets d; (r, e1, e2) = mlk_enc_getnoise_eta1_eta2 coins; a = matrix_of (kpke_rho d)
      in (kpke_u (mat_transpose a) r e1, kpke_v (kpke_t a s e) r e2 m))"

definition decryption_noise :: "bytes \<Rightarrow> bytes \<Rightarrow> bytes \<Rightarrow> nat \<Rightarrow> int" where
  "decryption_noise d m coins j =
     (let (s, e) = kpke_secrets d; (r, e1, e2) = mlk_enc_getnoise_eta1_eta2 coins; (u, v) = kpke_uv d m coins
      in centred (kpke_noise s e r e1 e2 u v j))"

lemma kpke_secrets_small:
  assumes "kpke_secrets d = (s, e)"
  shows "polyvec_all reduced s" and "polyvec_all reduced e"
proof -
  have "length (drop 32 (mlk_hash_g (d @ [3]))) = 32" by simp
  from keypair_noise [OF this] have "polyvec_all small s" "polyvec_all small e" using assms by (simp_all add: kpke_secrets_def)
  then show "polyvec_all reduced s" "polyvec_all reduced e" by (auto intro: polyvec_mono small_reduced)
qed

lemma indcpa_enc:
  assumes d: "length d = 32" and k: "mlk_indcpa_keypair_derand d = Some (pk, sk)"
  shows "mlk_indcpa_enc m pk coins = Some (mlk_pack_ciphertext (fst (kpke_uv d m coins)) (snd (kpke_uv d m coins)))"
proof -
  obtain s e where se: "kpke_secrets d = (s, e)" by force
  obtain r e1 e2 where n: "mlk_enc_getnoise_eta1_eta2 coins = (r, e1, e2)" by (metis prod_cases3)
  have smp: "sampled (kpke_rho d)" and pk: "pk = mlk_pack_pk (kpke_t (matrix_of (kpke_rho d)) s e) (kpke_rho d)"
    using k unfolding indcpa_keypair [OF d se] by (auto split: if_splits)
  have rho: "length (kpke_rho d) = 32" by (simp add: kpke_rho_def)
  have smp': "\<And>i j. i < MLKEM_K \<Longrightarrow> j < MLKEM_K \<Longrightarrow> sample_ntt (kpke_rho d) i j \<noteq> None" using smp by (auto simp: sampled_def)
  note g = gen_matrix_both [OF rho smp']
  have "polyvec_all canonical (kpke_t (matrix_of (kpke_rho d)) s e)" by (rule kpke_t(1) [OF g(3) kpke_secrets_small [OF se]])
  then have "mlk_unpack_pk pk = (kpke_t (matrix_of (kpke_rho d)) s e, kpke_rho d)"
    using rho by (simp add: mlk_unpack_pk_def pk mlk_pack_pk_def polyvec_frombytes_tobytes mlk_sizes)
  then show ?thesis
    by (simp add: mlk_indcpa_enc_def n Let_def g(2) kpke_u_def kpke_v_def kpke_uv_def se)
qed

lemma indcpa_decrypts:
  assumes d: "length d = 32" and k: "mlk_indcpa_keypair_derand d = Some (pk, sk)" and m: "length m = 32" and c: "length coins = 32"
    and noise: "\<forall>j<256. \<bar>decryption_noise d m coins j\<bar> \<le> 831" and enc: "mlk_indcpa_enc m pk coins = Some ct"
  shows "mlk_indcpa_dec ct sk = m"
proof -
  obtain s e where se: "kpke_secrets d = (s, e)" by force
  obtain r e1 e2 where n: "mlk_enc_getnoise_eta1_eta2 coins = (r, e1, e2)" by (metis prod_cases3)
  have smp: "sampled (kpke_rho d)" and sk: "sk = mlk_pack_sk (kpke_s s)"
    using k unfolding indcpa_keypair [OF d se] by (auto split: if_splits)
  have rho: "length (kpke_rho d) = 32" by (simp add: kpke_rho_def)
  have a: "mat_canonical (matrix_of (kpke_rho d))" using smp by (intro gen_matrix_both(3) [OF rho]) (auto simp: sampled_def)
  have r: "polyvec_all reduced r" by (rule polyvec_mono [OF enc_noise(1) [OF c n]]) (rule small_reduced)
  have ct: "ct = mlk_pack_ciphertext (fst (kpke_uv d m coins)) (snd (kpke_uv d m coins))"
    using enc unfolding indcpa_enc [OF d k] by simp
  show ?thesis
    unfolding ct sk using noise
    by (simp add: kpke_uv_def decryption_noise_def se n Let_def kpke_decrypt [OF a kpke_secrets_small [OF se] r enc_noise(2,3) [OF c n] m])
qed

section \<open>The key encapsulation mechanism\<close>

lemma kem_check_sk_keypair:
  assumes "mlk_kem_keypair_derand coins = Some (Inr (pk, sk))" "length coins = 64"
  shows "mlk_kem_check_sk sk = None"
proof -
  obtain "dk_ek sk = pk" "dk_h sk = mlk_hash_h pk" "length sk = 2400" using kem_keypair_parts [OF assms] by auto
  then show ?thesis by (simp add: kem_check_sk)
qed

text \<open>A generated key pair: when sampling returns, and the modulus check it passes.\<close>

lemma kem_keypair:
  assumes "length coins = 64"
  shows "mlk_kem_keypair_derand coins = None \<longleftrightarrow> \<not> sampled (kpke_rho (take 32 coins))"
    and "mlk_kem_keypair_derand coins \<noteq> Some (Inl err)"
    and "mlk_kem_keypair_derand coins = Some (Inr (pk, sk)) \<Longrightarrow> mlk_kem_check_pk pk = None"
proof -
  let ?d = "take 32 coins"
  have d: "length ?d = 32" using assms by simp
  obtain s e where se: "kpke_secrets ?d = (s, e)" by force
  note k = indcpa_keypair [OF d se]
  have take: "take MLKEM_SYMBYTES coins = ?d" by (simp add: MLKEM_SYMBYTES_def)
  show "mlk_kem_keypair_derand coins = None \<longleftrightarrow> \<not> sampled (kpke_rho ?d)" "mlk_kem_keypair_derand coins \<noteq> Some (Inl err)"
    unfolding mlk_kem_keypair_derand_def take k by (simp_all add: mlk_check_pct_def)
  assume kp: "mlk_kem_keypair_derand coins = Some (Inr (pk, sk))"
  then have smp: "sampled (kpke_rho ?d)" and pk: "pk = mlk_pack_pk (kpke_t (matrix_of (kpke_rho ?d)) s e) (kpke_rho ?d)"
    using kem_keypair_parts [OF kp assms] unfolding k by (auto split: if_splits)
  have rho: "length (kpke_rho ?d) = 32" by (simp add: kpke_rho_def)
  have a: "mat_canonical (matrix_of (kpke_rho ?d))" using smp by (intro gen_matrix_both(3) [OF rho]) (auto simp: sampled_def)
  note t = kpke_t(1) [OF a kpke_secrets_small [OF se]]
  have "length pk = MLKEM_INDCCA_PUBLICKEYBYTES" using kem_keypair_parts [OF kp assms] by (auto simp: mlk_sizes)
  from kem_check_pk_spec [OF this] show "mlk_kem_check_pk pk = None"
    using t by (simp add: pk mlk_pack_pk_def polyvec_frombytes_tobytes [OF t])
qed

lemma kem_enc_returns:
  assumes kp: "mlk_kem_keypair_derand coins = Some (Inr (pk, sk))" "length coins = 64" and m: "length m = 32"
  defines "kr \<equiv> mlk_hash_g (m @ mlk_hash_h pk)"
  defines "uv \<equiv> kpke_uv (take 32 coins) m (drop 32 kr)"
  shows "mlk_kem_enc_derand pk m = Some (Inr (mlk_pack_ciphertext (fst uv) (snd uv), take 32 kr))"
proof -
  obtain skp where "mlk_indcpa_keypair_derand (take 32 coins) = Some (pk, skp)" using kem_keypair_parts [OF kp] by auto
  from indcpa_enc [OF _ this, of m "drop 32 kr"] show ?thesis
    using kp(2) m by (simp add: mlk_kem_enc_derand_def kem_keypair(3) [OF kp(2,1)] MLKEM_SYMBYTES_def Let_def kr_def uv_def)
qed

lemma kem_dec_returns:
  assumes kp: "mlk_kem_keypair_derand coins = Some (Inr (pk, sk))" "length coins = 64" and ct: "length ct = 1088"
  shows "\<exists>ss. mlk_kem_dec ct sk = Some (Inr ss) \<and> length ss = 32"
proof -
  obtain skp where k: "mlk_indcpa_keypair_derand (take 32 coins) = Some (pk, skp)" and sk: "dk_ek sk = pk" "dk_h sk = mlk_hash_h pk" "length sk = 2400"
    using kem_keypair_parts [OF kp] by auto
  have "length (take 32 coins) = 32" using kp(2) by simp
  from indcpa_enc [OF this k] show ?thesis using ct sk by (simp add: kem_dec Let_def)
qed

text \<open>
  C26: The entry points agree on their interface. From 64 bytes of randomness key generation
  returns keys of the documented sizes that pass both key checks, or does not return, exactly when an entry of
  the matrix cannot be sampled; with a generated key pair every encapsulation returns a ciphertext
  and a secret of the right sizes, and every decapsulation of 1088 bytes returns a secret, never an error.
\<close>

theorem kem_interface:
  assumes "length coins = 2 * MLKEM_SYMBYTES"
  shows "case mlk_kem_keypair_derand coins of
      None \<Rightarrow> \<exists>i j. i < MLKEM_K \<and> j < MLKEM_K \<and> sample_ntt (kpke_rho (take 32 coins)) i j = None
    | Some (Inl err) \<Rightarrow> False
    | Some (Inr (pk, sk)) \<Rightarrow>
        length pk = MLKEM_INDCCA_PUBLICKEYBYTES \<and> length sk = MLKEM_INDCCA_SECRETKEYBYTES \<and>
        mlk_kem_check_pk pk = None \<and> mlk_kem_check_sk sk = None \<and>
        (\<forall>m. length m = MLKEM_SYMBYTES \<longrightarrow> (\<exists>ct ss. mlk_kem_enc_derand pk m = Some (Inr (ct, ss)) \<and>
           length ct = MLKEM_INDCCA_CIPHERTEXTBYTES \<and> length ss = MLKEM_SYMBYTES)) \<and>
        (\<forall>ct. length ct = MLKEM_INDCCA_CIPHERTEXTBYTES \<longrightarrow>
           (\<exists>ss. mlk_kem_dec ct sk = Some (Inr ss) \<and> length ss = MLKEM_SYMBYTES))"
proof -
  have l: "length coins = 64" using assms by (simp add: MLKEM_SYMBYTES_def)
  note k = kem_keypair [OF l]
  show ?thesis
  proof (cases "mlk_kem_keypair_derand coins")
    case None
    then show ?thesis using k(1) by (auto simp: sampled_def)
  next
    case (Some r)
    then obtain pk sk where r: "r = Inr (pk, sk)" using k(2) by (cases r) auto
    have kp: "mlk_kem_keypair_derand coins = Some (Inr (pk, sk))" using Some r by simp
    have "\<exists>ct ss. mlk_kem_enc_derand pk m = Some (Inr (ct, ss)) \<and> length ct = 1088 \<and> length ss = 32" if m: "length m = 32" for m
    proof -
      obtain ct ss where e: "mlk_kem_enc_derand pk m = Some (Inr (ct, ss))" using kem_enc_returns [OF kp l m] by blast
      then show ?thesis using kem_enc_parts [OF e m] by simp
    qed
    then show ?thesis
      using kem_keypair_parts [OF kp l] k(3) [OF kp] kem_check_sk_keypair [OF kp l] kem_dec_returns [OF kp l]
      by (auto simp: Some r mlk_sizes)
  qed
qed

lemma kem_interface_witness:
  "\<exists>i j. sample_ntt (kpke_rho (replicate 32 7)) i j = None \<or>
     (\<exists>pk sk ct ss. mlk_kem_keypair_derand (replicate 64 7) = Some (Inr (pk, sk)) \<and>
        mlk_kem_enc_derand pk (replicate 32 1) = Some (Inr (ct, ss)) \<and> length ct = 1088)"
  using kem_interface [of "replicate 64 7"]
  by (auto simp: MLKEM_SYMBYTES_def mlk_sizes split: option.splits sum.splits) (metis length_replicate)

text \<open>The noise of an encapsulation of \<open>m\<close> under the key pair generated from \<open>coins\<close>.\<close>

definition kem_noise :: "bytes \<Rightarrow> bytes \<Rightarrow> bytes \<Rightarrow> nat \<Rightarrow> int" where
  "kem_noise coins pk m j = decryption_noise (take 32 coins) m (drop 32 (mlk_hash_g (m @ mlk_hash_h pk))) j"

lemma kem_decapsulates:
  assumes kp: "mlk_kem_keypair_derand coins = Some (Inr (pk, sk))" "length coins = 64" and m: "length m = 32"
    and enc: "mlk_kem_enc_derand pk m = Some (Inr (ct, ss))" and noise: "\<forall>j<256. \<bar>kem_noise coins pk m j\<bar> \<le> 831"
  shows "mlk_kem_dec ct sk = Some (Inr ss)"
proof -
  obtain skp where k: "mlk_indcpa_keypair_derand (take 32 coins) = Some (pk, skp)" and sk: "dk_pke sk = skp"
    using kem_keypair_parts [OF kp] by auto
  let ?r = "drop 32 (mlk_hash_g (m @ mlk_hash_h pk))"
  have "length (take 32 coins) = 32" "length ?r = 32" using kp(2) by simp_all
  from indcpa_decrypts [OF this(1) k m this(2) noise [unfolded kem_noise_def]] kem_enc_parts [OF enc m]
  have "mlk_indcpa_dec ct (dk_pke sk) = m" using sk by simp
  from kem_correct [OF kp enc m this] show ?thesis .
qed

text \<open>
  C4: Decapsulation returns the encapsulated secret. For all randomness of key generation and
  encapsulation: when the keys exist, encapsulation returns, and decapsulating its ciphertext gives
  the same shared secret unless some coefficient of the decryption noise, computed from the secrets and
  the rounding errors by schoolbook arithmetic, exceeds 831 in absolute value.
\<close>

theorem kem_roundtrip:
  assumes "length coins = 2 * MLKEM_SYMBYTES" and "length m = MLKEM_SYMBYTES"
  shows "case mlk_kem_keypair_derand coins of
      None \<Rightarrow> \<exists>i j. i < MLKEM_K \<and> j < MLKEM_K \<and> sample_ntt (kpke_rho (take 32 coins)) i j = None
    | Some (Inl err) \<Rightarrow> False
    | Some (Inr (pk, sk)) \<Rightarrow>
        \<exists>ct ss. mlk_kem_enc_derand pk m = Some (Inr (ct, ss)) \<and>
          ((\<exists>j<256. 831 < \<bar>kem_noise coins pk m j\<bar>) \<or> mlk_kem_dec ct sk = Some (Inr ss))"
proof -
  have l: "length coins = 64" "length m = 32" using assms by (simp_all add: MLKEM_SYMBYTES_def)
  note k = kem_keypair [OF l(1)]
  show ?thesis
  proof (cases "mlk_kem_keypair_derand coins")
    case None
    then show ?thesis using k(1) by (auto simp: sampled_def)
  next
    case (Some r)
    then obtain pk sk where r: "r = Inr (pk, sk)" using k(2) by (cases r) auto
    have kp: "mlk_kem_keypair_derand coins = Some (Inr (pk, sk))" using Some r by simp
    obtain ct ss where e: "mlk_kem_enc_derand pk m = Some (Inr (ct, ss))" using kem_enc_returns [OF kp l] by blast
    show ?thesis
    proof (cases "\<exists>j<256. 831 < \<bar>kem_noise coins pk m j\<bar>")
      case False
      then have "\<forall>j<256. \<bar>kem_noise coins pk m j\<bar> \<le> 831" by (meson not_less)
      from kem_decapsulates [OF kp l e this] show ?thesis using e by (simp add: Some r)
    qed (use e in \<open>simp add: Some r\<close>)
  qed
qed

lemma kem_roundtrip_witness:
  "mlk_kem_keypair_derand (replicate 64 7) = None \<or>
     (\<exists>pk sk ct ss. mlk_kem_keypair_derand (replicate 64 7) = Some (Inr (pk, sk)) \<and>
        mlk_kem_enc_derand pk (replicate 32 1) = Some (Inr (ct, ss)) \<and>
        ((\<exists>j<256. 831 < \<bar>kem_noise (replicate 64 7) pk (replicate 32 1) j\<bar>) \<or> mlk_kem_dec ct sk = Some (Inr ss)))"
  using kem_roundtrip [of "replicate 64 7" "replicate 32 1"]
  by (auto simp: MLKEM_SYMBYTES_def simp del: replicate.simps split: option.splits sum.splits)

text \<open>
  C22: Decryption inverts encryption for every matrix and all secrets whose noise is small: on the
  polynomials that key generation and encryption compute, packed into a key and a ciphertext,
  \<open>mlk_indcpa_dec\<close> recovers the message. All transforms, reductions, packings and compressions of
  the code take part; nothing overflows on the way.
\<close>

theorem kpke_decrypts:
  assumes "mat_canonical a" "polyvec_all small s" "polyvec_all small e" "polyvec_all small r" "polyvec_all small e1" "small e2"
    and "length m = MLKEM_SYMBYTES" and "u = kpke_u (mat_transpose a) r e1" and "v = kpke_v (kpke_t a s e) r e2 m"
    and "\<forall>j<MLKEM_N. \<bar>centred (kpke_noise s e r e1 e2 u v j)\<bar> \<le> 831"
  shows "mlk_indcpa_dec (mlk_pack_ciphertext u v) (mlk_pack_sk (kpke_s s)) = m"
  unfolding assms(8,9)
  by (rule kpke_decrypt) (use assms in \<open>auto intro: polyvec_mono small_reduced simp: MLKEM_N_def MLKEM_SYMBYTES_def\<close>)

text \<open>The rounding error of the second part of a ciphertext is at most 104.\<close>

lemma round_v_error:
  assumes "canonical v" and "j < 256" and "\<bar>x\<bar> \<le> 727"
  shows "\<bar>centred (x + (round_v v ! j - v ! j))\<bar> \<le> 831"
proof -
  have c: "0 \<le> v ! j" "v ! j < 3329" using canonical_nth [OF assms(1,2)] by simp_all
  have l: "length v = 256" by (rule canonical_length [OF assms(1)])
  obtain k where k: "k = 0 \<or> k = (1 :: int)" "\<bar>round_v v ! j + k * 3329 - v ! j\<bar> \<le> 104"
  proof -
    have "\<exists>k \<in> {0, 1}. \<bar>round_v v ! j + k * 3329 - v ! j\<bar> \<le> 104"
      using compress_roundtrip [of 0 0 "v ! j"] c assms(2) l by (simp add: MLKEM_Q_def round_v_def)
    then show thesis using that by blast
  qed
  define y where "y = x + (round_v v ! j + k * 3329 - v ! j)"
  have y: "\<bar>y\<bar> \<le> 831" using k(2) assms(3) unfolding y_def by linarith
  have "x + (round_v v ! j - v ! j) + 1664 = y + 1664 + 3329 * (- k)" by (simp add: y_def)
  then have "centred (x + (round_v v ! j - v ! j)) = (y + 1664) mod 3329 - 1664"
    unfolding centred_def by (simp only: mod_mult_self2)
  also have "(y + 1664) mod 3329 = y + 1664" using y by (intro mod_pos_pos_trivial) linarith+
  finally show ?thesis using y by simp
qed

lemma nmul_zero_poly: "nmul (nth (replicate 256 0)) g j = 0" "nmul f (nth (replicate 256 0)) j = 0"
  by (simp_all add: nmul_def del: replicate.simps cong: if_cong)

lemma kpke_decrypts_witness:
  "let a = replicate 3 (replicate 3 (replicate 256 17)); z = replicate 3 (replicate 256 0); e = replicate 3 (replicate 256 1);
      e2 = replicate 256 2; m = replicate 32 165
    in mlk_indcpa_dec (mlk_pack_ciphertext (kpke_u (mat_transpose a) z e) (kpke_v (kpke_t a z e) z e2 m)) (mlk_pack_sk (kpke_s z)) = m"
proof -
  let ?a = "replicate 3 (replicate 3 (replicate 256 17))" and ?z = "replicate 3 (replicate 256 0)"
    and ?e = "replicate 3 (replicate 256 1)" and ?e2 = "replicate 256 2" and ?m = "replicate 32 165"
  have a: "mat_canonical ?a" by (simp add: mat_canonical_def polyvec_all_def canonical_def mlk_q MLKEM_K_def MLKEM_N_def del: replicate.simps)
  have z: "polyvec_all small ?z" and e: "polyvec_all small ?e" and e2: "small ?e2"
    by (simp_all add: polyvec_all_def small_def MLKEM_K_def MLKEM_N_def del: replicate.simps)
  have red: "polyvec_all reduced ?z" "polyvec_all reduced ?e" using z e by (auto intro: polyvec_mono small_reduced simp del: replicate.simps)
  have v: "canonical (kpke_v (kpke_t ?a ?z ?e) ?z ?e2 ?m)" by (rule kpke_v(1) [OF kpke_t(1) [OF a red] red(1) e2])
  have "\<bar>centred (kpke_noise ?z ?e ?z ?e ?e2 u (kpke_v (kpke_t ?a ?z ?e) ?z ?e2 ?m) j)\<bar> \<le> 831" if "j < 256" for u j
    using round_v_error [OF v that, of "?e2 ! j"] that
    by (simp add: kpke_noise_def nmul_zero_poly MLKEM_K_def del: replicate.simps)
  then show ?thesis
    using kpke_decrypts [OF a z e z e e2 _ refl refl, of ?m] by (simp add: MLKEM_N_def MLKEM_SYMBYTES_def del: replicate.simps)
qed

end
