(* ===== verification/End_To_End.thy ===== *)
theory End_To_End
  imports Tunnel Mlk_Correct
begin

text \<open>
  The parts put together: the handshake of \<open>handshake.hpp\<close> with the ML-KEM of \<open>mlkem_native\<close>
  behind \<open>kem_interface.hpp\<close>, the channel it sets up, and the session of \<open>main\<close> over that channel.
  OpenSSL, its random numbers and the network are what is left as parameters.
\<close>

section \<open>The interface to ML-KEM\<close>

text \<open>
  \<open>kem_interface.hpp\<close> maps a return value other than 0 to \<open>false\<close>. A call that does not return (matrix
  sampling that finds too few candidates, the outer \<open>None\<close> of the model) is not told apart here; the theorems
  below say when it happens.
\<close>

definition mlkem_keypair :: "rand \<Rightarrow> (bytes \<times> bytes) option" where
  "mlkem_keypair rand = (case mlk_kem_keypair rand of Some (Inr kp) \<Rightarrow> Some kp | _ \<Rightarrow> None)"

definition mlkem_encapsulate :: "rand \<Rightarrow> bytes \<Rightarrow> (bytes \<times> bytes) option" where
  "mlkem_encapsulate rand pk = (case mlk_kem_enc rand pk of Some (Inr r) \<Rightarrow> Some r | _ \<Rightarrow> None)"

definition mlkem_decapsulate :: "bytes \<Rightarrow> bytes \<Rightarrow> bytes option" where
  "mlkem_decapsulate sk ct = (case mlk_kem_dec ct sk of Some (Inr ss) \<Rightarrow> Some ss | _ \<Rightarrow> None)"

definition mlkem :: "rand \<Rightarrow> kem_api" where
  "mlkem rand = \<lparr>kem_keypair = mlkem_keypair rand, kem_encapsulate = mlkem_encapsulate rand, kem_decapsulate = mlkem_decapsulate\<rparr>"

section \<open>A handshake over working sockets\<close>

text \<open>Documented behaviour of the HKDF calls: they produce a key of the requested length.\<close>

definition hkdf_ok :: "evp \<Rightarrow> bool" where
  "hkdf_ok ev \<longleftrightarrow> (\<forall>ss. \<exists>cw sw. derive_directional_keys ev ss = Inr (cw, sw))"

lemma send_raw_frame_ready:
  assumes "send_ready (4 + length data + m) sk"
  obtains sk' where "send_raw_frame sk data = (True, sk')" and "sk_out sk' = sk_out sk @ raw_frame data"
    and "sk_in sk' = sk_in sk" and "sk_recv sk' = sk_recv sk" and "send_ready m sk'"
proof -
  have "length (concat [put_be32 (of_nat (length data)), data]) = 4 + length data" by (simp add: length_put_be32)
  then show ?thesis
    using that write_all_ok [of "[put_be32 (of_nat (length data)), data]" m sk] assms
    by (auto simp: send_raw_frame_def raw_frame_def simp del: write_all.simps)
qed

lemma recv_raw_frame_ready:
  assumes "sk_in sk = raw_frame d" and "length d = n" and "n < 2 ^ 32" and "recv_ready (4 + n + m) sk"
  obtains sk' where "recv_raw_frame sk n = (Some d, sk')" and "sk_in sk' = []" and "recv_ready m sk'"
    and "sk_out sk' = sk_out sk" and "sk_send sk' = sk_send sk"
proof -
  obtain sk1 where r1: "read_exact sk 4 = (Some (put_be32 (of_nat n)), sk1)" "sk_in sk1 = d" "recv_ready (n + m) sk1"
    using read_exact_ok [of 4 "n + m" sk] assms(1,2,4) by (auto simp: raw_frame_def length_put_be32 add.assoc)
  obtain sk2 where r2: "read_exact sk1 n = (Some d, sk2)" "sk_in sk2 = []" "recv_ready m sk2"
    using read_exact_ok [OF r1(3)] assms(2) r1(2) by auto
  have "sk_out sk2 = sk_out sk \<and> sk_send sk2 = sk_send sk" using r1(1) r2(1) by (auto simp: read_exact_def split: prod.splits)
  moreover have "unat (of_nat n :: u32) = n" using assms(3) by (simp add: unat_of_nat)
  ultimately show ?thesis using that r1(1) r2 by (simp add: recv_raw_frame_def Let_def)
qed

lemma server_handshake_ready:
  assumes k: "kem_keypair k = Some (pk, sec)" "length pk = PUBLIC_KEY_BYTES" "kem_decapsulate k sec ct = Some ss"
    and d: "derive_directional_keys ev ss = Inr (cw, sw)" and ct: "length ct = CIPHERTEXT_BYTES"
    and sk: "sk_in sk = raw_frame ct" "recv_ready (1092 + m) sk" "send_ready (1188 + m) sk"
  obtains sk' where "server_handshake ev k sk = (HsChannel (channel_new Server cw sw), sk')" and "sk_out sk' = sk_out sk @ raw_frame pk"
    and "sk_in sk' = []" and "recv_ready m sk'" and "send_ready m sk'"
proof -
  have lp: "length pk = 1184" and lc: "length ct = 1088" using k(2) ct by (simp_all add: PUBLIC_KEY_BYTES_def CIPHERTEXT_BYTES_def)
  have s0: "send_ready (4 + length pk + m) sk" using sk(3) lp by simp
  obtain sk1 where s1: "send_raw_frame sk pk = (True, sk1)" "sk_out sk1 = sk_out sk @ raw_frame pk" "sk_in sk1 = sk_in sk"
    "sk_recv sk1 = sk_recv sk" "send_ready m sk1"
    by (rule send_raw_frame_ready [OF s0])
  have r1: "recv_ready (4 + 1088 + m) sk1" using sk(2) s1(4) by (simp add: recv_ready_def)
  obtain sk2 where r: "recv_raw_frame sk1 1088 = (Some ct, sk2)" "sk_in sk2 = []" "recv_ready m sk2"
    "sk_out sk2 = sk_out sk1" "sk_send sk2 = sk_send sk1"
    by (rule recv_raw_frame_ready [OF _ lc _ r1]) (use sk(1) s1(3) in simp_all)
  show ?thesis
    by (rule that [of sk2]) (use k d s1 r in \<open>simp_all add: server_handshake_def CIPHERTEXT_BYTES_def send_ready_def\<close>)
qed

lemma client_handshake_ready:
  assumes k: "kem_encapsulate k pk = Some (ct, ss)" "length pk = PUBLIC_KEY_BYTES"
    and d: "derive_directional_keys ev ss = Inr (cw, sw)" and ct: "length ct = CIPHERTEXT_BYTES"
    and sk: "sk_in sk = raw_frame pk" "recv_ready (1188 + m) sk" "send_ready (1092 + m) sk"
  obtains sk' where "client_handshake ev k sk = (HsChannel (channel_new Client cw sw), sk')" and "sk_out sk' = sk_out sk @ raw_frame ct"
    and "sk_in sk' = []" and "recv_ready m sk'" and "send_ready m sk'"
proof -
  have lp: "length pk = 1184" and lc: "length ct = 1088" using k(2) ct by (simp_all add: PUBLIC_KEY_BYTES_def CIPHERTEXT_BYTES_def)
  have r0: "recv_ready (4 + 1184 + m) sk" using sk(2) by simp
  obtain sk1 where r: "recv_raw_frame sk 1184 = (Some pk, sk1)" "sk_in sk1 = []" "recv_ready m sk1"
    "sk_out sk1 = sk_out sk" "sk_send sk1 = sk_send sk"
    by (rule recv_raw_frame_ready [OF sk(1) lp _ r0]) simp_all
  have s0: "send_ready (4 + length ct + m) sk1" using sk(3) lc r(5) by (simp add: send_ready_def)
  obtain sk2 where s1: "send_raw_frame sk1 ct = (True, sk2)" "sk_out sk2 = sk_out sk1 @ raw_frame ct" "sk_in sk2 = sk_in sk1"
    "sk_recv sk2 = sk_recv sk1" "send_ready m sk2"
    by (rule send_raw_frame_ready [OF s0])
  show ?thesis
    by (rule that [of sk2]) (use k d s1 r in \<open>simp_all add: client_handshake_def PUBLIC_KEY_BYTES_def recv_ready_def\<close>)
qed

section \<open>From random bytes to the exit status\<close>

text \<open>
  Both handshakes succeed on the sockets \<open>s\<close> and \<open>c\<close>, having written \<open>pk\<close> and \<open>ct\<close>, and \<open>main\<close> returns 0
  on the channels they set up and the database opened on a new file.
\<close>

definition demo_succeeds :: "evp \<Rightarrow> kv_open_env \<Rightarrow> (nat \<Rightarrow> turn_env) \<Rightarrow> kem_api \<Rightarrow> kem_api \<Rightarrow> bytes \<Rightarrow> bytes \<Rightarrow> response \<Rightarrow> sock \<Rightarrow> sock \<Rightarrow> bool" where
  "demo_succeeds ev oenv env ks kc pk ct r s c \<longleftrightarrow>
     (\<exists>db srv s' cli c' tn.
        kv_open oenv [] = Inr db \<and>
        server_handshake ev ks s = (HsChannel srv, s') \<and> sk_out s' = sk_out s @ raw_frame pk \<and>
        client_handshake ev kc c = (HsChannel cli, c') \<and> sk_out c' = sk_out c @ raw_frame ct \<and>
        demo_main ev env \<lparr>tn_db = db, tn_srv = srv, tn_ssk = s', tn_running = True, tn_cli = cli, tn_csk = c'\<rparr> r
          = Some (tn, 0))"

text \<open>Sockets on which each side reads what the other one writes, and which carry the whole session.\<close>

definition demo_sockets :: "bytes \<Rightarrow> bytes \<Rightarrow> sock \<Rightarrow> sock \<Rightarrow> bool" where
  "demo_sockets pk ct s c \<longleftrightarrow> sk_in s = raw_frame ct \<and> sk_in c = raw_frame pk \<and>
     (\<forall>sk \<in> {s, c}. recv_ready 12200 sk \<and> send_ready 12200 sk)"

lemma kv_open_new: "kv_open_ok oenv \<Longrightarrow> kv_open oenv [] = Inr kv_fresh"
  by (simp add: kv_open_def kv_open_ok_def kv_rebuild_index_def kv_rebuild_loop.simps read_record_def HEADER_SIZE_def kv_fresh_def ftruncate_def)

text \<open>A key encapsulation that agrees on one secret is enough for the rest of the program.\<close>

lemma demo_agrees:
  assumes law: "gcm_law ev" and disk: "kv_open_ok oenv"
    and kem: "kem_keypair ks = Some (pk, sk)" "kem_decapsulate ks sk ct = Some ss" "kem_encapsulate kc pk = Some (ct, ss)"
    and lp: "length pk = PUBLIC_KEY_BYTES" and lc: "length ct = CIPHERTEXT_BYTES"
    and d: "derive_directional_keys ev ss = Inr (cw, sw)" and sc: "demo_sockets pk ct s c"
    and env: "\<And>i. \<exists>n \<ge> 6000. te_write (env i) = Some n"
  shows "demo_succeeds ev oenv env ks kc pk ct r s c"
proof -
  have i: "sk_in s = raw_frame ct" "sk_in c = raw_frame pk"
    and rdy: "recv_ready 12200 s" "recv_ready 12200 c" "send_ready 12200 s" "send_ready 12200 c"
    using sc by (simp_all add: demo_sockets_def)
  obtain s' where s: "server_handshake ev ks s = (HsChannel (channel_new Server cw sw), s')"
    "sk_out s' = sk_out s @ raw_frame pk" "sk_in s' = []" "recv_ready 11000 s'" "send_ready 11000 s'"
    by (rule server_handshake_ready [OF kem(1) lp kem(2) d lc i(1), of 11000])
      (use ready_mono(1) [OF rdy(1)] ready_mono(2) [OF rdy(3)] in simp_all)
  obtain c' where c: "client_handshake ev kc c = (HsChannel (channel_new Client cw sw), c')"
    "sk_out c' = sk_out c @ raw_frame ct" "sk_in c' = []" "recv_ready 11000 c'" "send_ready 11000 c'"
    by (rule client_handshake_ready [OF kem(3) lp d lc i(2), of 11000])
      (use ready_mono(1) [OF rdy(2)] ready_mono(2) [OF rdy(4)] in simp_all)
  let ?tn = "\<lparr>tn_db = kv_fresh, tn_srv = channel_new Server cw sw, tn_ssk = s', tn_running = True,
      tn_cli = channel_new Client cw sw, tn_csk = c'\<rparr>"
  have "linked ?tn" "capacity 11000 9 ?tn"
    using s c by (simp_all add: linked_def capacity_def channel_new_def)
  then obtain tn where "demo_main ev env ?tn r = Some (tn, 0)"
    using demo_main_linked [where tn = ?tn and r = r and env = env, OF law _ _ _ env] kv_fresh_log by auto
  then show ?thesis using s c kv_open_new [OF disk] unfolding demo_succeeds_def by blast
qed

text \<open>
  C3: The demonstration program works end to end. With working random numbers, AES-GCM and HKDF, a network that
  delivers every byte, in whatever pieces, and a disk that writes whole records: when ML-KEM key
  generation returns, the client's encapsulation returns, and unless the decryption noise is too large both
  handshakes succeed over sockets on which each side reads what the other writes, and the session of \<open>main\<close>
  over the resulting channels passes all checks, with exit status 0.
\<close>

theorem demo_end_to_end:
  assumes "gcm_law ev" and "hkdf_ok ev"
    and "rs (2 * MLKEM_SYMBYTES) = (1, coins)" and "length coins = 2 * MLKEM_SYMBYTES"
    and "rc MLKEM_SYMBYTES = (1, m)" and "length m = MLKEM_SYMBYTES"
    and "\<And>i. \<exists>n \<ge> 6000. te_write (env i) = Some n" and "kv_open_ok oenv"
  shows "case mlk_kem_keypair rs of
      None \<Rightarrow> \<exists>i j. i < MLKEM_K \<and> j < MLKEM_K \<and> sample_ntt (kpke_rho (take 32 coins)) i j = None
    | Some (Inl err) \<Rightarrow> False
    | Some (Inr (pk, sk)) \<Rightarrow> \<exists>ct ss. mlk_kem_enc rc pk = Some (Inr (ct, ss)) \<and>
        ((\<exists>j<256. 831 < \<bar>kem_noise coins pk m j\<bar>) \<or>
         (\<forall>s c. demo_sockets pk ct s c \<longrightarrow> demo_succeeds ev oenv env (mlkem rs) (mlkem rc) pk ct r s c))"
proof -
  have l: "length coins = 64" "length m = 32" using assms(4,6) by (simp_all add: MLKEM_SYMBYTES_def)
  have kg: "mlk_kem_keypair rs = mlk_kem_keypair_derand coins" and en: "mlk_kem_enc rc pk = mlk_kem_enc_derand pk m" for pk
    using assms(3,5) by (simp_all add: mlk_kem_keypair_def mlk_kem_enc_def randombytes_def)
  note k = kem_keypair [OF l(1)]
  show ?thesis
  proof (cases "mlk_kem_keypair rs")
    case None
    then show ?thesis using k(1) kg by (auto simp: sampled_def)
  next
    case (Some x)
    then obtain pk sk where x: "x = Inr (pk, sk)" using k(2) kg by (cases x) auto
    have kp: "mlk_kem_keypair_derand coins = Some (Inr (pk, sk))" using Some x kg by simp
    obtain ct ss where e: "mlk_kem_enc_derand pk m = Some (Inr (ct, ss))" using kem_enc_returns [OF kp l] by blast
    have lp: "length pk = PUBLIC_KEY_BYTES" using kem_keypair_parts [OF kp l(1)] by (auto simp: PUBLIC_KEY_BYTES_def)
    have lc: "length ct = CIPHERTEXT_BYTES" using kem_enc_parts [OF e l(2)] by (auto simp: CIPHERTEXT_BYTES_def)
    show ?thesis
    proof (cases "\<exists>j<256. 831 < \<bar>kem_noise coins pk m j\<bar>")
      case False
      then have "\<forall>j<256. \<bar>kem_noise coins pk m j\<bar> \<le> 831" by (meson not_less)
      from kem_decapsulates [OF kp l e this] have dec: "mlk_kem_dec ct sk = Some (Inr ss)" .
      obtain cw sw where d: "derive_directional_keys ev ss = Inr (cw, sw)" using assms(2) unfolding hkdf_ok_def by blast
      have kem: "kem_keypair (mlkem rs) = Some (pk, sk)" "kem_decapsulate (mlkem rs) sk ct = Some ss"
        "kem_encapsulate (mlkem rc) pk = Some (ct, ss)"
        using Some x e en dec by (simp_all add: mlkem_def mlkem_keypair_def mlkem_encapsulate_def mlkem_decapsulate_def)
      have "demo_succeeds ev oenv env (mlkem rs) (mlkem rc) pk ct r s c" if "demo_sockets pk ct s c" for s c
        by (rule demo_agrees [OF assms(1,8) kem lp lc d that assms(7)])
      then show ?thesis using e en by (simp add: Some x)
    qed (use e en in \<open>simp add: Some x\<close>)
  qed
qed

lemma toy_hkdf_ok: "hkdf_ok toy_evp"
  by (simp add: hkdf_ok_def toy_derive)

lemma demo_end_to_end_witness:
  "mlk_kem_keypair (\<lambda>n. (1, replicate n 7)) = None \<or>
     (\<exists>pk sk ct ss. mlk_kem_keypair (\<lambda>n. (1, replicate n 7)) = Some (Inr (pk, sk)) \<and>
        mlk_kem_enc (\<lambda>n. (1, replicate n 1)) pk = Some (Inr (ct, ss)) \<and>
        ((\<exists>j<256. 831 < \<bar>kem_noise (replicate 64 7) pk (replicate 32 1) j\<bar>) \<or>
         demo_succeeds toy_evp kv_ok_env (\<lambda>_. \<lparr>te_write = Some 6000, te_now = 3\<rparr>) (mlkem (\<lambda>n. (1, replicate n 7))) (mlkem (\<lambda>n. (1, replicate n 1)))
           pk ct \<lparr>rs_status = Status_Ok, rs_value = []\<rparr>
           \<lparr>sk_in = raw_frame ct, sk_recv = replicate 12200 9, sk_out = [], sk_send = replicate 12200 5\<rparr>
           \<lparr>sk_in = raw_frame pk, sk_recv = replicate 12200 9, sk_out = [], sk_send = replicate 12200 5\<rparr>))"
proof -
  let ?rs = "\<lambda>n. (1, replicate n 7) :: int \<times> bytes" and ?rc = "\<lambda>n. (1, replicate n 1) :: int \<times> bytes"
  let ?env = "\<lambda>_ :: nat. \<lparr>te_write = Some 6000, te_now = 3\<rparr>" and ?r = "\<lparr>rs_status = Status_Ok, rs_value = []\<rparr>"
  let ?s = "\<lambda>d. \<lparr>sk_in = raw_frame d, sk_recv = replicate 12200 9, sk_out = [], sk_send = replicate 12200 5\<rparr>"
  have sockets: "demo_sockets pk ct (?s ct) (?s pk)" for pk ct
    by (simp add: demo_sockets_def recv_ready_def send_ready_def del: replicate.simps)
  have t: "case mlk_kem_keypair ?rs of
      None \<Rightarrow> \<exists>i j. i < MLKEM_K \<and> j < MLKEM_K \<and> sample_ntt (kpke_rho (take 32 (replicate 64 7))) i j = None
    | Some (Inl err) \<Rightarrow> False
    | Some (Inr (pk, sk)) \<Rightarrow> \<exists>ct ss. mlk_kem_enc ?rc pk = Some (Inr (ct, ss)) \<and>
        ((\<exists>j<256. 831 < \<bar>kem_noise (replicate 64 7) pk (replicate 32 1) j\<bar>) \<or>
         (\<forall>s c. demo_sockets pk ct s c \<longrightarrow> demo_succeeds toy_evp kv_ok_env ?env (mlkem ?rs) (mlkem ?rc) pk ct ?r s c))"
    by (rule demo_end_to_end [OF toy_gcm_law toy_hkdf_ok _ _ _ _ _ kv_ok_env_ok]) (simp_all add: MLKEM_SYMBYTES_def del: replicate.simps)
  show ?thesis
  proof (cases "mlk_kem_keypair ?rs")
    case (Some x)
    then obtain pk sk where x: "x = Inr (pk, sk)" using t by (cases x) auto
    show ?thesis using t sockets unfolding Some x option.case sum.case prod.case by blast
  qed simp
qed

end
