(* ===== verification/Mlk_Pct.thy ===== *)
theory Mlk_Pct
  imports Mlk_Correct
begin

text \<open>
  The pairwise consistency test of \<open>kem.c\<close>, the variant of \<open>mlk_check_pct\<close> that a build with
  \<open>MLK_CONFIG_KEYGEN_PCT\<close> selects: encapsulate under the new public key, decapsulate, compare. The
  build of this repository does not select it; a FIPS 140-3 build would. The deliberate breakage for
  tests is not part of it.
\<close>

definition mlk_check_pct_enabled :: "rand \<Rightarrow> bytes \<Rightarrow> bytes \<Rightarrow> mlk_err option option" where
  "mlk_check_pct_enabled rand pk sk =
     do { enc \<leftarrow> mlk_kem_enc rand pk;
          ret \<leftarrow> (case enc of
              Inl err \<Rightarrow> Some (Some err)
            | Inr (ct, ss_enc) \<Rightarrow>
                do { dec \<leftarrow> mlk_kem_dec ct sk;
                     Some (case dec of
                         Inl err \<Rightarrow> Some err
                       | Inr ss_dec \<Rightarrow> if mlk_ct_memcmp ss_enc ss_dec \<noteq> 0 then Some MLK_ERR_PCT_FAIL else None) });
          Some (if ret = Some MLK_ERR_INVALID_PK \<or> ret = Some MLK_ERR_INVALID_SK then Some MLK_ERR_PCT_FAIL else ret) }"

lemma kem_enc_errors: "mlk_kem_enc rand pk = Some (Inl err) \<Longrightarrow> err = MLK_ERR_RNG_FAIL \<or> err = MLK_ERR_INVALID_PK"
  by (auto simp: mlk_kem_enc_def mlk_kem_enc_derand_def mlk_kem_check_pk_def Let_def
      split: prod.splits if_splits option.splits bind_splits)

lemma kem_dec_errors: "mlk_kem_dec ct sk = Some (Inl err) \<Longrightarrow> err = MLK_ERR_INVALID_SK"
  by (auto simp: mlk_kem_dec_def mlk_kem_check_sk_def Let_def split: if_splits option.splits bind_splits)

text \<open>The contract of the source: on any two byte strings, the test returns 0, a random number failure or its own error.\<close>

theorem check_pct_contract:
  assumes "mlk_check_pct_enabled rand pk sk = Some ret"
  shows "ret \<in> {None, Some MLK_ERR_RNG_FAIL, Some MLK_ERR_PCT_FAIL}"
  using assms
  by (auto simp: mlk_check_pct_enabled_def split: bind_splits sum.splits prod.splits if_splits
      dest!: kem_enc_errors kem_dec_errors)

text \<open>
  On a generated key pair the test always returns, it reports nothing but a failure of the random
  number generator or an inconsistency, and no inconsistency when the noise of its own encapsulation is within bounds.
\<close>

theorem check_pct_generated:
  assumes kp: "mlk_kem_keypair_derand coins = Some (Inr (pk, sk))" "length coins = 2 * MLKEM_SYMBYTES"
    and rand: "rand MLKEM_SYMBYTES = (rc, m)" "length m = MLKEM_SYMBYTES"
  shows "\<exists>ret. mlk_check_pct_enabled rand pk sk = Some ret \<and>
    (if rc \<noteq> 1 then ret = Some MLK_ERR_RNG_FAIL
     else ret \<in> {None, Some MLK_ERR_PCT_FAIL} \<and> ((\<forall>j<256. \<bar>kem_noise coins pk m j\<bar> \<le> 831) \<longrightarrow> ret = None))"
proof (cases "rc = 1")
  case True
  have l: "length coins = 64" "length m = 32" using kp(2) rand(2) by (simp_all add: MLKEM_SYMBYTES_def)
  have enc: "mlk_kem_enc rand pk = mlk_kem_enc_derand pk m" using rand(1) True by (simp add: mlk_kem_enc_def randombytes_def)
  obtain ct ss where e: "mlk_kem_enc_derand pk m = Some (Inr (ct, ss))" using kem_enc_returns [OF kp(1) l] by blast
  have "length ct = 1088" using kem_enc_parts [OF e l(2)] by auto
  then obtain ss' where d: "mlk_kem_dec ct sk = Some (Inr ss')" using kem_dec_returns [OF kp(1) l(1)] by blast
  have "mlk_check_pct_enabled rand pk sk = Some (if mlk_ct_memcmp ss ss' \<noteq> 0 then Some MLK_ERR_PCT_FAIL else None)"
    by (simp add: mlk_check_pct_enabled_def enc e d)
  moreover have "mlk_ct_memcmp ss ss' = 0" if "\<forall>j<256. \<bar>kem_noise coins pk m j\<bar> \<le> 831"
    using kem_decapsulates [OF kp(1) l e that] d by (simp add: ct_memcmp)
  ultimately show ?thesis using True by auto
next
  case False
  then show ?thesis using rand(1) by (simp add: mlk_check_pct_enabled_def mlk_kem_enc_def randombytes_def)
qed

end
