(* ===== verification/Mlk_Alloc.thy ===== *)
theory Mlk_Alloc
  imports Mlk_Pct
begin

text \<open>
  The memory of \<open>kem.c\<close> and \<open>indcpa.c\<close> in a build with \<open>MLK_CONFIG_CUSTOM_ALLOC_FREE\<close>: every local
  buffer is requested with \<open>MLK_ALLOC\<close>, a refused request ends the call with \<open>MLK_ERR_OUT_OF_MEMORY\<close>,
  and the cleanup label wipes and returns the buffers in reverse order. The functions here also carry the
  caller's output buffers, so that what a failing call leaves in them is visible; what they compute is in
  \<open>Mlk_Indcpa\<close> and \<open>Mlk_Kem\<close>. \<open>MLK_CUSTOM_ALLOC\<close> is the integrator's: a parameter \<open>ca\<close> that decides, from
  all requests and returns so far, whether a request gets a buffer. The stack build is the one
  where no request is refused. The lemmas show the contracts of \<open>kem.h\<close> (return codes,
  output buffers on failure), that no path leaks or fails to wipe a buffer, and that the
  \<open>MLK_TOTAL_ALLOC_768_*\<close> constants of \<open>mlkem_native.h\<close> are sufficient and least.
\<close>

section \<open>The allocator interface\<close>

text \<open>A buffer is named by the number of events before its request; the newest event comes first.\<close>

datatype heap_event = Got nat nat | Refused nat | Wiped nat nat | Returned nat nat

type_synonym heap = "heap_event list"
type_synonym custom_alloc = "heap \<Rightarrow> nat \<Rightarrow> bool"

definition MLK_ALLOC :: "custom_alloc \<Rightarrow> nat \<Rightarrow> heap \<Rightarrow> nat option \<times> heap" where
  "MLK_ALLOC ca n h = (if ca h n then (Some (length h), Got (length h) n # h) else (None, Refused n # h))"

definition MLK_FREE :: "nat option \<Rightarrow> nat \<Rightarrow> heap \<Rightarrow> heap" where
  "MLK_FREE v n h =
     (case v of
        None \<Rightarrow> h
      | Some p \<Rightarrow> let h = Wiped p n # h in Returned p n # h)"

text \<open>The declarations at the head of a function, in order, and its cleanup, in reverse order.\<close>

primrec alloc_all :: "custom_alloc \<Rightarrow> nat list \<Rightarrow> heap \<Rightarrow> nat option list \<times> heap" where
  "alloc_all ca [] h = ([], h)"
| "alloc_all ca (n # ns) h =
     (let (v, h) = MLK_ALLOC ca n h; (vs, h) = alloc_all ca ns h in (v # vs, h))"

primrec free_all :: "(nat option \<times> nat) list \<Rightarrow> heap \<Rightarrow> heap" where
  "free_all [] h = h"
| "free_all (v # vs) h = MLK_FREE (fst v) (snd v) (free_all vs h)"

text \<open>
  The shape every function has: the requests, the test for a null pointer, the body,
  and from the label \<open>cleanup\<close> on the frees. \<open>oom\<close> is the result when a request was refused.
\<close>

definition with_buffers :: "custom_alloc \<Rightarrow> nat list \<Rightarrow> 'r \<Rightarrow> (heap \<Rightarrow> ('r \<times> heap) option) \<Rightarrow> heap \<Rightarrow> ('r \<times> heap) option" where
  "with_buffers ca sizes oom body h =
     (let (vs, h) = alloc_all ca sizes h
      in do { (r, h) \<leftarrow> (if None \<in> set vs then Some (oom, h) else body h);
              Some (r, free_all (zip vs sizes) h) })"

text \<open>\<open>sizeof\<close> of the structures of \<open>poly.h\<close> and \<open>poly_k.h\<close>.\<close>

definition sizeof_poly :: nat where "sizeof_poly = 2 * MLKEM_N"
definition sizeof_poly_mulcache :: nat where "sizeof_poly_mulcache = 2 * (MLKEM_N div 2)"
definition sizeof_polyvec :: nat where "sizeof_polyvec = MLKEM_K * sizeof_poly"
definition sizeof_polymat :: nat where "sizeof_polymat = MLKEM_K * sizeof_polyvec"
definition sizeof_polyvec_mulcache :: nat where "sizeof_polyvec_mulcache = MLKEM_K * sizeof_poly_mulcache"

section \<open>The functions\<close>

type_synonym ret = "mlk_err option"

text \<open>An output buffer is an argument, its contents at the call, and a result, its contents at the return.\<close>

definition indcpa_keypair_derand_heap :: "custom_alloc \<Rightarrow> bytes \<Rightarrow> bytes \<Rightarrow> bytes \<Rightarrow> heap \<Rightarrow> ((ret \<times> bytes \<times> bytes) \<times> heap) option" where
  "indcpa_keypair_derand_heap ca pk sk coins =
     with_buffers ca
       [2 * MLKEM_SYMBYTES, MLKEM_SYMBYTES + 1, sizeof_polymat, sizeof_polyvec, sizeof_polyvec, sizeof_polyvec, sizeof_polyvec_mulcache]
       (Some MLK_ERR_OUT_OF_MEMORY, pk, sk)
       (\<lambda>h. do { (pk, sk) \<leftarrow> mlk_indcpa_keypair_derand coins; Some ((None, pk, sk), h) })"

definition indcpa_enc_heap :: "custom_alloc \<Rightarrow> bytes \<Rightarrow> bytes \<Rightarrow> bytes \<Rightarrow> bytes \<Rightarrow> heap \<Rightarrow> ((ret \<times> bytes) \<times> heap) option" where
  "indcpa_enc_heap ca c m pk coins =
     with_buffers ca
       [MLKEM_SYMBYTES, sizeof_polymat, sizeof_polyvec, sizeof_polyvec, sizeof_polyvec, sizeof_polyvec,
        sizeof_poly, sizeof_poly, sizeof_poly, sizeof_polyvec_mulcache]
       (Some MLK_ERR_OUT_OF_MEMORY, c)
       (\<lambda>h. do { c \<leftarrow> mlk_indcpa_enc m pk coins; Some ((None, c), h) })"

definition indcpa_dec_heap :: "custom_alloc \<Rightarrow> bytes \<Rightarrow> bytes \<Rightarrow> bytes \<Rightarrow> heap \<Rightarrow> ((ret \<times> bytes) \<times> heap) option" where
  "indcpa_dec_heap ca m c sk =
     with_buffers ca
       [sizeof_polyvec, sizeof_polyvec, sizeof_poly, sizeof_poly, sizeof_polyvec_mulcache]
       (Some MLK_ERR_OUT_OF_MEMORY, m)
       (\<lambda>h. Some ((None, mlk_indcpa_dec c sk), h))"

definition kem_check_pk_heap :: "custom_alloc \<Rightarrow> bytes \<Rightarrow> heap \<Rightarrow> (ret \<times> heap) option" where
  "kem_check_pk_heap ca pk =
     with_buffers ca [sizeof_polyvec, MLKEM_POLYVECBYTES] (Some MLK_ERR_OUT_OF_MEMORY)
       (\<lambda>h. Some (mlk_kem_check_pk pk, h))"

definition kem_check_sk_heap :: "custom_alloc \<Rightarrow> bytes \<Rightarrow> heap \<Rightarrow> (ret \<times> heap) option" where
  "kem_check_sk_heap ca sk =
     with_buffers ca [MLKEM_SYMBYTES] (Some MLK_ERR_OUT_OF_MEMORY)
       (\<lambda>h. Some (mlk_kem_check_sk sk, h))"

definition kem_enc_derand_heap :: "custom_alloc \<Rightarrow> bytes \<Rightarrow> bytes \<Rightarrow> bytes \<Rightarrow> bytes \<Rightarrow> heap \<Rightarrow> ((ret \<times> bytes \<times> bytes) \<times> heap) option" where
  "kem_enc_derand_heap ca ct ss pk coins =
     with_buffers ca [2 * MLKEM_SYMBYTES, 2 * MLKEM_SYMBYTES] (Some MLK_ERR_OUT_OF_MEMORY, ct, ss)
       (\<lambda>h. do {
          (ret, h) \<leftarrow> kem_check_pk_heap ca pk h;
          if ret \<noteq> None then Some ((ret, ct, ss), h)
          else do {
            let buf = take MLKEM_SYMBYTES coins;
            let buf = buf @ mlk_hash_h pk;
            let kr = mlk_hash_g buf;
            ((ret, ct), h) \<leftarrow> indcpa_enc_heap ca ct (take MLKEM_SYMBYTES buf) pk (drop MLKEM_SYMBYTES kr) h;
            if ret \<noteq> None then Some ((ret, ct, ss), h)
            else Some ((ret, ct, take MLKEM_SYMBYTES kr), h) } })"

definition kem_enc_heap :: "custom_alloc \<Rightarrow> rand \<Rightarrow> bytes \<Rightarrow> bytes \<Rightarrow> bytes \<Rightarrow> heap \<Rightarrow> ((ret \<times> bytes \<times> bytes) \<times> heap) option" where
  "kem_enc_heap ca rand ct ss pk =
     with_buffers ca [MLKEM_SYMBYTES] (Some MLK_ERR_OUT_OF_MEMORY, ct, ss)
       (\<lambda>h. let (rc, coins) = randombytes rand MLKEM_SYMBYTES
            in if rc \<noteq> 0 then Some ((Some MLK_ERR_RNG_FAIL, ct, ss), h)
               else kem_enc_derand_heap ca ct ss pk coins h)"

text \<open>The last assignments to \<open>ss\<close>: the rejection key, then the true key where \<open>fail\<close> is 0.\<close>

definition kem_dec_heap :: "custom_alloc \<Rightarrow> bytes \<Rightarrow> bytes \<Rightarrow> bytes \<Rightarrow> heap \<Rightarrow> ((ret \<times> bytes) \<times> heap) option" where
  "kem_dec_heap ca ss ct sk =
     with_buffers ca [2 * MLKEM_SYMBYTES, 2 * MLKEM_SYMBYTES, MLKEM_SYMBYTES + MLKEM_INDCCA_CIPHERTEXTBYTES]
       (Some MLK_ERR_OUT_OF_MEMORY, ss)
       (\<lambda>h. do {
          let pk = take MLKEM_INDCCA_PUBLICKEYBYTES (drop MLKEM_INDCPA_SECRETKEYBYTES sk);
          (ret, h) \<leftarrow> kem_check_sk_heap ca sk h;
          if ret \<noteq> None then Some ((ret, ss), h)
          else do {
            ((ret, buf), h) \<leftarrow> indcpa_dec_heap ca [] ct (take MLKEM_INDCPA_SECRETKEYBYTES sk) h;
            if ret \<noteq> None then Some ((ret, ss), h)
            else do {
              let buf = buf @ take MLKEM_SYMBYTES (drop (MLKEM_INDCCA_SECRETKEYBYTES - 2 * MLKEM_SYMBYTES) sk);
              let kr = mlk_hash_g buf;
              ((ret, tmp), h) \<leftarrow> indcpa_enc_heap ca [] (take MLKEM_SYMBYTES buf) pk (drop MLKEM_SYMBYTES kr) h;
              if ret \<noteq> None then Some ((ret, ss), h)
              else do {
                let fail = mlk_ct_memcmp ct tmp;
                let tmp = take MLKEM_SYMBYTES (drop (MLKEM_INDCCA_SECRETKEYBYTES - MLKEM_SYMBYTES) sk) @ ct;
                let ss = mlk_hash_j tmp;
                let ss = mlk_ct_cmov_zero ss (take MLKEM_SYMBYTES kr) fail;
                Some ((ret, ss), h) } } } })"

text \<open>\<open>keygen_pct\<close> is whether the build defines \<open>MLK_CONFIG_KEYGEN_PCT\<close>.\<close>

definition check_pct_heap :: "bool \<Rightarrow> custom_alloc \<Rightarrow> rand \<Rightarrow> bytes \<Rightarrow> bytes \<Rightarrow> heap \<Rightarrow> (ret \<times> heap) option" where
  "check_pct_heap keygen_pct ca rand pk sk h =
     (if keygen_pct then do {
        (ret, h) \<leftarrow> with_buffers ca [MLKEM_INDCCA_CIPHERTEXTBYTES, MLKEM_SSBYTES, MLKEM_SSBYTES] (Some MLK_ERR_OUT_OF_MEMORY)
          (\<lambda>h. do {
             ((ret, ct, ss_enc), h) \<leftarrow> kem_enc_heap ca rand [] [] pk h;
             if ret \<noteq> None then Some (ret, h)
             else do {
               ((ret, ss_dec), h) \<leftarrow> kem_dec_heap ca [] ct sk h;
               if ret \<noteq> None then Some (ret, h)
               else Some (if mlk_ct_memcmp ss_enc ss_dec \<noteq> 0 then Some MLK_ERR_PCT_FAIL else None, h) } }) h;
        Some (if ret = Some MLK_ERR_INVALID_PK \<or> ret = Some MLK_ERR_INVALID_SK then Some MLK_ERR_PCT_FAIL else ret, h) }
      else Some (None, h))"

definition kem_keypair_derand_heap :: "bool \<Rightarrow> custom_alloc \<Rightarrow> rand \<Rightarrow> bytes \<Rightarrow> bytes \<Rightarrow> bytes \<Rightarrow> heap \<Rightarrow> ((ret \<times> bytes \<times> bytes) \<times> heap) option" where
  "kem_keypair_derand_heap keygen_pct ca rand pk sk coins h =
     do { ((ret, pk, sk), h) \<leftarrow> (do {
            ((ret, pk, sk), h) \<leftarrow> indcpa_keypair_derand_heap ca pk sk (take MLKEM_SYMBYTES coins) h;
            if ret \<noteq> None then Some ((ret, pk, sk), h)
            else do {
              let sk = sk @ pk;
              let sk = sk @ mlk_hash_h pk;
              let sk = sk @ take MLKEM_SYMBYTES (drop MLKEM_SYMBYTES coins);
              (ret, h) \<leftarrow> check_pct_heap keygen_pct ca rand pk sk h;
              Some ((ret, pk, sk), h) } });
          Some ((if ret \<noteq> None then (ret, mlk_zeroize pk, mlk_zeroize sk) else (ret, pk, sk)), h) }"

definition kem_keypair_heap :: "bool \<Rightarrow> custom_alloc \<Rightarrow> rand \<Rightarrow> bytes \<Rightarrow> bytes \<Rightarrow> heap \<Rightarrow> ((ret \<times> bytes \<times> bytes) \<times> heap) option" where
  "kem_keypair_heap keygen_pct ca rand pk sk =
     with_buffers ca [2 * MLKEM_SYMBYTES] (Some MLK_ERR_OUT_OF_MEMORY, pk, sk)
       (\<lambda>h. let (rc, coins) = randombytes rand (2 * MLKEM_SYMBYTES)
            in if rc \<noteq> 0 then Some ((Some MLK_ERR_RNG_FAIL, pk, sk), h)
               else kem_keypair_derand_heap keygen_pct ca rand pk sk coins h)"

section \<open>The public header\<close>

text \<open>The sizes and the error codes that \<open>mlkem_native.h\<close> gives its callers.\<close>

definition MLKEM768_SECRETKEYBYTES :: nat where "MLKEM768_SECRETKEYBYTES = 2400"
definition MLKEM768_PUBLICKEYBYTES :: nat where "MLKEM768_PUBLICKEYBYTES = 1184"
definition MLKEM768_CIPHERTEXTBYTES :: nat where "MLKEM768_CIPHERTEXTBYTES = 1088"
definition MLKEM_BYTES :: nat where "MLKEM_BYTES = 32"

fun err_code :: "mlk_err \<Rightarrow> int" where
  "err_code MLK_ERR_FAIL = - 1"
| "err_code MLK_ERR_OUT_OF_MEMORY = - 2"
| "err_code MLK_ERR_RNG_FAIL = - 3"
| "err_code MLK_ERR_INVALID_PK = - 4"
| "err_code MLK_ERR_INVALID_SK = - 5"
| "err_code MLK_ERR_PCT_FAIL = - 6"

text \<open>The checks of \<open>kem.h\<close> at compile time: the public sizes are those of \<open>params.h\<close>. Zero is no error, and the codes differ.\<close>

lemma public_header:
  "MLKEM768_SECRETKEYBYTES = MLKEM_INDCCA_SECRETKEYBYTES" "MLKEM768_PUBLICKEYBYTES = MLKEM_INDCCA_PUBLICKEYBYTES"
  "MLKEM768_CIPHERTEXTBYTES = MLKEM_INDCCA_CIPHERTEXTBYTES" "MLKEM_BYTES = MLKEM_SSBYTES"
  "err_code e < 0" "err_code e = err_code e' \<longleftrightarrow> e = e'"
  by (simp_all add: mlk_sizes MLKEM768_SECRETKEYBYTES_def MLKEM768_PUBLICKEYBYTES_def MLKEM768_CIPHERTEXTBYTES_def MLKEM_BYTES_def)
    (cases e; cases e'; simp)+

section \<open>Reading the events\<close>

definition MLK_ALIGN_UP :: "nat \<Rightarrow> nat" where
  "MLK_ALIGN_UP n = (n + (32 - 1)) div 32 * 32"

text \<open>The buffers in use, the most recent first; the bytes they take in an arena of aligned blocks; and the most at any time.\<close>

fun live :: "heap \<Rightarrow> (nat \<times> nat) list" where
  "live [] = []"
| "live (Got p n # h) = (p, n) # live h"
| "live (Returned p n # h) = remove1 (p, n) (live h)"
| "live (_ # h) = live h"

definition in_use :: "heap \<Rightarrow> nat" where
  "in_use h = (\<Sum>(p, n) \<leftarrow> live h. MLK_ALIGN_UP n)"

primrec peak :: "heap \<Rightarrow> nat" where
  "peak [] = 0"
| "peak (e # h) = max (in_use (e # h)) (peak h)"

text \<open>
  Only a buffer in use is wiped or returned, with the size of its request, each return directly follows the
  wiping of the same buffer, and buffers are returned in the reverse order of their requests.
\<close>

fun orderly :: "heap \<Rightarrow> bool" where
  "orderly [] = True"
| "orderly (Wiped p n # h) \<longleftrightarrow> (p, n) \<in> set (live h) \<and> orderly h"
| "orderly (Returned p n # h) \<longleftrightarrow> take 1 h = [Wiped p n] \<and> take 1 (live h) = [(p, n)] \<and> orderly h"
| "orderly (_ # h) = orderly h"

text \<open>A call that needs \<open>N\<close> bytes at most and leaves the buffers in use as it found them.\<close>

definition tidy :: "nat \<Rightarrow> heap \<Rightarrow> heap \<Rightarrow> bool" where
  "tidy N h h' \<longleftrightarrow> live h' = live h \<and> (orderly h \<longrightarrow> orderly h') \<and> peak h' \<le> max (peak h) (in_use h + N)"

definition room :: "nat list \<Rightarrow> nat" where
  "room sizes = sum_list (map MLK_ALIGN_UP sizes)"

lemma in_use_peak: "in_use h \<le> peak h"
  by (cases h) (simp_all add: in_use_def)

lemma tidy_in_use: "tidy N h h' \<Longrightarrow> in_use h' = in_use h"
  by (simp add: tidy_def in_use_def)

lemma tidy_refl [simp]: "tidy N h h"
  by (simp add: tidy_def)

lemma tidy_mono: "tidy N h h' \<Longrightarrow> N \<le> M \<Longrightarrow> tidy M h h'"
  by (auto simp: tidy_def)

lemma tidy_trans: "tidy N h h' \<Longrightarrow> tidy N h' h'' \<Longrightarrow> tidy N h h''"
  using tidy_in_use [of N h h'] by (auto simp: tidy_def)

lemma room_Cons [simp]: "room (n # ns) = MLK_ALIGN_UP n + room ns" and room_Nil [simp]: "room [] = 0"
  by (simp_all add: room_def)

text \<open>The buffers that a list of requests obtained.\<close>

definition held :: "(nat option \<times> nat) list \<Rightarrow> (nat \<times> nat) list" where
  "held vs = [(the v, n). (v, n) \<leftarrow> vs, v \<noteq> None]"

lemma held_simps [simp]:
  "held [] = []" "held ((None, n) # vs) = held vs" "held ((Some p, n) # vs) = (p, n) # held vs"
  by (simp_all add: held_def)

lemma alloc_all:
  assumes "alloc_all ca sizes h = (vs, h')"
  shows "length vs = length sizes" "live h' = rev (held (zip vs sizes)) @ live h" "orderly h' = orderly h"
    and "in_use h' \<le> in_use h + room sizes" "None \<notin> set vs \<Longrightarrow> in_use h' = in_use h + room sizes"
    and "peak h' \<le> max (peak h) (in_use h + room sizes)"
proof -
  have "length vs = length sizes \<and> live h' = rev (held (zip vs sizes)) @ live h \<and> orderly h' = orderly h \<and>
    in_use h' \<le> in_use h + room sizes \<and> (None \<notin> set vs \<longrightarrow> in_use h' = in_use h + room sizes) \<and>
    peak h' \<le> max (peak h) (in_use h + room sizes)"
    using assms
  proof (induction sizes arbitrary: h vs h')
    case Nil
    then show ?case by (auto simp: room_def)
  next
    case (Cons n ns)
    obtain v h1 where a: "MLK_ALLOC ca n h = (v, h1)" by fastforce
    obtain ws h2 where b: "alloc_all ca ns h1 = (ws, h2)" by fastforce
    have vs: "vs = v # ws" "h' = h2" using Cons.prems by (simp_all add: a b)
    show ?case
    proof (cases v)
      case None
      then have h1: "h1 = Refused n # h" using a by (auto simp: MLK_ALLOC_def split: if_splits)
      have "in_use h1 = in_use h" "peak h1 = peak h" using in_use_peak [of h] by (simp_all add: h1 in_use_def max_def)
      then show ?thesis using Cons.IH [OF b] None by (auto simp: vs h1 le_max_iff_disj)
    next
      case (Some p)
      then have h1: "h1 = Got p n # h" using a by (auto simp: MLK_ALLOC_def split: if_splits)
      have "in_use h1 = in_use h + MLK_ALIGN_UP n" by (simp add: h1 in_use_def)
      moreover from this have "peak h1 \<le> max (peak h) (in_use h + MLK_ALIGN_UP n)" by (simp add: h1)
      ultimately show ?thesis using Cons.IH [OF b] Some by (auto simp: vs h1)
    qed
  qed
  then show "length vs = length sizes" "live h' = rev (held (zip vs sizes)) @ live h" "orderly h' = orderly h"
    "in_use h' \<le> in_use h + room sizes" "None \<notin> set vs \<Longrightarrow> in_use h' = in_use h + room sizes"
    "peak h' \<le> max (peak h) (in_use h + room sizes)"
    by blast+
qed

lemma peak_wiped: "peak (Wiped p n # h) = peak h"
  using in_use_peak [of h] by (simp add: in_use_def max_def)

lemma free_all:
  "live h = rev (held vs) @ L \<Longrightarrow> live (free_all vs h) = L \<and> (orderly h \<longrightarrow> orderly (free_all vs h)) \<and> peak (free_all vs h) = peak h"
proof (induction vs arbitrary: L)
  case (Cons v vs)
  obtain w n where v: "v = (w, n)" by fastforce
  show ?case
  proof (cases w)
    case None
    then show ?thesis using Cons by (simp add: v MLK_FREE_def)
  next
    case (Some p)
    let ?h = "free_all vs h"
    have "live h = rev (held vs) @ ((p, n) # L)" using Cons.prems by (simp add: v Some)
    note ih = Cons.IH [OF this]
    then have "in_use (Returned p n # Wiped p n # ?h) \<le> in_use ?h" by (simp add: in_use_def)
    then have "peak (Returned p n # Wiped p n # ?h) = peak ?h"
      using in_use_peak [of ?h] peak_wiped [of p n ?h] by simp
    then show ?thesis using ih by (simp add: v Some MLK_FREE_def)
  qed
qed simp

section \<open>One function\<close>

text \<open>A function is calm with \<open>N\<close> when every call that returns is tidy.\<close>

definition calm :: "nat \<Rightarrow> (heap \<Rightarrow> ('r \<times> heap) option) \<Rightarrow> bool" where
  "calm N run \<longleftrightarrow> (\<forall>h r h'. run h = Some (r, h') \<longrightarrow> tidy N h h')"

named_theorems calm_rules

lemma calmD: "calm N run \<Longrightarrow> run h = Some (r, h') \<Longrightarrow> tidy N h h'"
  by (simp add: calm_def)

lemma calm_mono: "calm N run \<Longrightarrow> N \<le> M \<Longrightarrow> calm M run"
  unfolding calm_def by (blast intro: tidy_mono)

lemma calm_return [calm_rules]: "calm N (\<lambda>h. Some (r, h))"
  by (simp add: calm_def)

lemma calm_value [calm_rules]: "calm N (\<lambda>h. do { x \<leftarrow> v; Some (f x, h) })"
  by (auto simp: calm_def split: bind_splits)

lemma calm_bind [calm_rules]:
  "calm N f \<Longrightarrow> (\<And>r. calm N (g r)) \<Longrightarrow> calm N (\<lambda>h. do { x \<leftarrow> f h; (case x of (r, h) \<Rightarrow> g r h) })"
  unfolding calm_def by (fastforce split: bind_splits intro: tidy_trans)

lemma calm_if [calm_rules]: "(c \<Longrightarrow> calm N f) \<Longrightarrow> (\<not> c \<Longrightarrow> calm N g) \<Longrightarrow> calm N (\<lambda>h. if c then f h else g h)"
  by (simp add: calm_def)

lemma calm_prod [calm_rules]: "(\<And>a b. x = (a, b) \<Longrightarrow> calm N (f a b)) \<Longrightarrow> calm N (\<lambda>h. case x of (a, b) \<Rightarrow> f a b h)"
  by (cases x) simp

lemma calm_case_prod [calm_rules]: "(\<And>a b. x = (a, b) \<Longrightarrow> calm N (f a b)) \<Longrightarrow> calm N (case x of (a, b) \<Rightarrow> f a b)"
  by (cases x) simp

lemma calm_let [calm_rules]: "calm N (f x) \<Longrightarrow> calm N (\<lambda>h. let y = x in f y h)"
  by (simp add: Let_def)

lemma with_buffers_Some:
  assumes "with_buffers ca sizes oom body h = Some (r, h')"
  obtains vs h1 h2 where "alloc_all ca sizes h = (vs, h1)" "h' = free_all (zip vs sizes) h2"
    "if None \<in> set vs then r = oom \<and> h2 = h1 else body h1 = Some (r, h2)"
proof -
  obtain vs h1 where a: "alloc_all ca sizes h = (vs, h1)" by fastforce
  then show thesis using assms that [of vs h1] by (auto simp: with_buffers_def split: bind_splits if_splits)
qed

lemma calm_with_buffers:
  assumes "calm N body"
  shows "calm (room sizes + N) (with_buffers ca sizes oom body)"
  unfolding calm_def
proof (intro allI impI)
  fix h r h' assume "with_buffers ca sizes oom body h = Some (r, h')"
  then obtain vs h1 h2 where a: "alloc_all ca sizes h = (vs, h1)" and h': "h' = free_all (zip vs sizes) h2"
    and b: "if None \<in> set vs then r = oom \<and> h2 = h1 else body h1 = Some (r, h2)"
    by (rule with_buffers_Some)
  note a = alloc_all [OF a]
  have t: "tidy N h1 h2" using b calmD [OF assms, of h1 r h2] by (cases "None \<in> set vs") auto
  then have "live h2 = rev (held (zip vs sizes)) @ live h" by (simp add: tidy_def a)
  note f = free_all [OF this]
  have "peak h2 \<le> max (peak h) (in_use h + (room sizes + N))"
    using a(4,6) t unfolding tidy_def by (auto simp: le_max_iff_disj)
  then show "tidy (room sizes + N) h h'"
    using f t a(3) by (simp add: h' tidy_def)
qed

lemma with_buffers_result:
  assumes "with_buffers ca sizes oom body h = Some (r, h')"
  shows "r = oom \<or> (\<exists>h1 h2. body h1 = Some (r, h2))"
  using assms by (rule with_buffers_Some) (auto split: if_splits)

lemma with_buffers_None:
  assumes "with_buffers ca sizes oom body h = None"
  shows "\<exists>h1. body h1 = None"
  using assms by (auto simp: with_buffers_def split: prod.splits bind_splits if_splits)

text \<open>
  An allocator is ample for \<open>cap\<close> when it serves every request for which \<open>cap\<close> bytes of aligned blocks leave room;
  an arena serves no other.
\<close>

definition ample :: "custom_alloc \<Rightarrow> nat \<Rightarrow> bool" where
  "ample ca cap \<longleftrightarrow> (\<forall>h n. in_use h + MLK_ALIGN_UP n \<le> cap \<longrightarrow> ca h n)"

definition arena :: "nat \<Rightarrow> custom_alloc" where
  "arena cap h n \<longleftrightarrow> in_use h + MLK_ALIGN_UP n \<le> cap"

lemma ample_arena: "ample (arena cap) cap"
  by (simp add: ample_def arena_def)

lemma ample_stack: "ample (\<lambda>h n. True) cap"
  by (simp add: ample_def)

lemma alloc_all_ample:
  assumes "ample ca cap" "in_use h + room sizes \<le> cap" "alloc_all ca sizes h = (vs, h')"
  shows "None \<notin> set vs"
  using assms(2,3)
proof (induction sizes arbitrary: h vs h')
  case (Cons n ns)
  let ?h = "Got (length h) n # h"
  obtain ws h2 where b: "alloc_all ca ns ?h = (ws, h2)" by fastforce
  have "ca h n" using assms(1) Cons.prems(1) by (simp add: ample_def)
  then have "vs = Some (length h) # ws" using Cons.prems(2) by (simp add: MLK_ALLOC_def b)
  moreover have "None \<notin> set ws" using Cons.prems(1) by (intro Cons.IH [OF _ b]) (simp add: in_use_def)
  ultimately show ?case by simp
qed simp

lemma with_buffers_ample:
  assumes "ample ca cap" "in_use h + room sizes \<le> cap" "with_buffers ca sizes oom body h = Some (r, h')"
  obtains h1 h2 where "in_use h1 = in_use h + room sizes" "body h1 = Some (r, h2)"
  using assms(3)
proof (rule with_buffers_Some)
  fix vs h1 h2 assume a: "alloc_all ca sizes h = (vs, h1)" "if None \<in> set vs then r = oom \<and> h2 = h1 else body h1 = Some (r, h2)"
  then show thesis using alloc_all_ample [OF assms(1,2) a(1)] alloc_all(5) [OF a(1)] that by simp
qed

lemma alloc_all_arena:
  "in_use h \<le> cap \<Longrightarrow> alloc_all (arena cap) sizes h = (vs, h') \<Longrightarrow> in_use h' \<le> cap"
proof (induction sizes arbitrary: h vs h')
  case (Cons n ns)
  obtain v h1 where a: "MLK_ALLOC (arena cap) n h = (v, h1)" by fastforce
  obtain ws h2 where b: "alloc_all (arena cap) ns h1 = (ws, h2)" by fastforce
  have "in_use h1 \<le> cap" using a Cons.prems(1) by (auto simp: MLK_ALLOC_def arena_def in_use_def split: if_splits)
  then show ?case using Cons.IH b Cons.prems(2) by (simp add: a b)
qed simp

text \<open>In an arena: the body runs after its requests were all served, or there was no room for them.\<close>

lemma with_buffers_arena:
  assumes "in_use h \<le> cap"
  shows "(\<exists>h1. in_use h1 = in_use h + room sizes \<and> in_use h1 \<le> cap \<and>
      map_option fst (with_buffers (arena cap) sizes oom body h) = map_option fst (body h1)) \<or>
    cap < in_use h + room sizes \<and> map_option fst (with_buffers (arena cap) sizes oom body h) = Some oom"
proof -
  obtain vs h1 where a: "alloc_all (arena cap) sizes h = (vs, h1)" by fastforce
  show ?thesis
  proof (cases "None \<in> set vs")
    case True
    then have "\<not> in_use h + room sizes \<le> cap" using alloc_all_ample [OF ample_arena _ a] by blast
    then show ?thesis using True by (simp add: with_buffers_def a)
  next
    case False
    then have "in_use h1 = in_use h + room sizes" by (rule alloc_all(5) [OF a])
    then show ?thesis
      using False alloc_all_arena [OF assms a] by (intro disjI1 exI [of _ h1]) (auto simp: with_buffers_def a split: bind_splits)
  qed
qed

section \<open>No call leaks, and how much each needs\<close>

definition MLK_TOTAL_ALLOC_768_KEYPAIR_NO_PCT :: nat where "MLK_TOTAL_ALLOC_768_KEYPAIR_NO_PCT = 10176"
definition MLK_TOTAL_ALLOC_768_KEYPAIR_PCT :: nat where "MLK_TOTAL_ALLOC_768_KEYPAIR_PCT = 15552"
definition MLK_TOTAL_ALLOC_768_ENCAPS :: nat where "MLK_TOTAL_ALLOC_768_ENCAPS = 13248"
definition MLK_TOTAL_ALLOC_768_DECAPS :: nat where "MLK_TOTAL_ALLOC_768_DECAPS = 14336"

definition MLK_TOTAL_ALLOC_768_KEYPAIR :: "bool \<Rightarrow> nat" where
  "MLK_TOTAL_ALLOC_768_KEYPAIR keygen_pct =
     (if keygen_pct then MLK_TOTAL_ALLOC_768_KEYPAIR_PCT else MLK_TOTAL_ALLOC_768_KEYPAIR_NO_PCT)"

lemmas total_alloc = MLK_TOTAL_ALLOC_768_KEYPAIR_def MLK_TOTAL_ALLOC_768_KEYPAIR_NO_PCT_def MLK_TOTAL_ALLOC_768_KEYPAIR_PCT_def
  MLK_TOTAL_ALLOC_768_ENCAPS_def MLK_TOTAL_ALLOC_768_DECAPS_def

lemmas block_sizes = room_def MLK_ALIGN_UP_def sizeof_poly_def sizeof_poly_mulcache_def sizeof_polyvec_def sizeof_polymat_def
  sizeof_polyvec_mulcache_def mlk_sizes

lemma rooms:
  "room [2 * MLKEM_SYMBYTES, MLKEM_SYMBYTES + 1, sizeof_polymat, sizeof_polyvec, sizeof_polyvec, sizeof_polyvec, sizeof_polyvec_mulcache] = 10112"
  "room [MLKEM_SYMBYTES, sizeof_polymat, sizeof_polyvec, sizeof_polyvec, sizeof_polyvec, sizeof_polyvec,
     sizeof_poly, sizeof_poly, sizeof_poly, sizeof_polyvec_mulcache] = 13088"
  "room [sizeof_polyvec, sizeof_polyvec, sizeof_poly, sizeof_poly, sizeof_polyvec_mulcache] = 4864"
  "room [sizeof_polyvec, MLKEM_POLYVECBYTES] = 2688"
  "room [MLKEM_SYMBYTES] = 32" "room [2 * MLKEM_SYMBYTES] = 64" "room [2 * MLKEM_SYMBYTES, 2 * MLKEM_SYMBYTES] = 128"
  "room [2 * MLKEM_SYMBYTES, 2 * MLKEM_SYMBYTES, MLKEM_SYMBYTES + MLKEM_INDCCA_CIPHERTEXTBYTES] = 1248"
  "room [MLKEM_INDCCA_CIPHERTEXTBYTES, MLKEM_SSBYTES, MLKEM_SSBYTES] = 1152"
  by (simp_all add: block_sizes)

lemma calm_with:
  assumes "room sizes + N = M" "calm N body"
  shows "calm M (with_buffers ca sizes oom body)"
  using calm_with_buffers [OF assms(2), of sizes ca oom] assms(1) by simp

lemma calm_indcpa:
  "calm 10112 (indcpa_keypair_derand_heap ca pk sk coins)"
  "calm 13088 (indcpa_enc_heap ca c m pk coins)"
  "calm 4864 (indcpa_dec_heap ca m c sk)"
  unfolding indcpa_keypair_derand_heap_def indcpa_enc_heap_def indcpa_dec_heap_def
  by (rule calm_with [where N = 0], simp only: rooms, (auto simp: calm_def split: bind_splits) [1])+

lemma calm_checks:
  "calm 2688 (kem_check_pk_heap ca pk)" "calm 32 (kem_check_sk_heap ca sk)"
  unfolding kem_check_pk_heap_def kem_check_sk_heap_def
  by (rule calm_with [where N = 0], simp only: rooms, rule calm_return)+

lemma calm_enc_derand: "calm 13216 (kem_enc_derand_heap ca ct ss pk coins)"
  unfolding kem_enc_derand_heap_def
  by (rule calm_with [where N = 13088], simp only: rooms)
    (intro calm_rules calm_indcpa calm_mono [OF calm_checks(1)], simp)

lemma calm_enc: "calm 13248 (kem_enc_heap ca rand ct ss pk)"
  unfolding kem_enc_heap_def
  by (rule calm_with [where N = 13216], simp only: rooms) (unfold Let_def, intro calm_rules calm_enc_derand)

lemma calm_dec: "calm 14336 (kem_dec_heap ca ss ct sk)"
  unfolding kem_dec_heap_def
  by (rule calm_with [where N = 13088], simp only: rooms)
    (unfold Let_def, intro calm_rules calm_indcpa(2) calm_mono [OF calm_checks(2)] calm_mono [OF calm_indcpa(3)], simp_all)

lemma calm_pct: "calm (if keygen_pct then 15488 else 0) (check_pct_heap keygen_pct ca rand pk sk)"
proof -
  have "calm 15488 (with_buffers ca [MLKEM_INDCCA_CIPHERTEXTBYTES, MLKEM_SSBYTES, MLKEM_SSBYTES] (Some MLK_ERR_OUT_OF_MEMORY)
          (\<lambda>h. do {
             ((ret, ct, ss_enc), h) \<leftarrow> kem_enc_heap ca rand [] [] pk h;
             if ret \<noteq> None then Some (ret, h)
             else do {
               ((ret, ss_dec), h) \<leftarrow> kem_dec_heap ca [] ct sk h;
               if ret \<noteq> None then Some (ret, h)
               else Some (if mlk_ct_memcmp ss_enc ss_dec \<noteq> 0 then Some MLK_ERR_PCT_FAIL else None, h) } }))"
    by (rule calm_with [where N = 14336], simp only: rooms)
      (intro calm_rules calm_dec calm_mono [OF calm_enc], simp_all)
  from calm_bind [OF this calm_return] show ?thesis
    unfolding check_pct_heap_def by (auto intro!: calm_return)
qed

lemma calm_keypair: "calm (MLK_TOTAL_ALLOC_768_KEYPAIR keygen_pct) (kem_keypair_heap keygen_pct ca rand pk sk)"
  unfolding kem_keypair_heap_def
proof (rule calm_with [where N = "if keygen_pct then 15488 else 10112"])
  have "calm (if keygen_pct then 15488 else 10112) (kem_keypair_derand_heap keygen_pct ca rand pk sk coins)" for coins
    unfolding kem_keypair_derand_heap_def Let_def
    by (intro calm_rules calm_mono [OF calm_pct] calm_mono [OF calm_indcpa(1)]) simp_all
  then show "calm (if keygen_pct then 15488 else 10112) (\<lambda>h. let (rc, coins) = randombytes rand (2 * MLKEM_SYMBYTES)
            in if rc \<noteq> 0 then Some ((Some MLK_ERR_RNG_FAIL, pk, sk), h)
               else kem_keypair_derand_heap keygen_pct ca rand pk sk coins h)"
    unfolding Let_def by (intro calm_rules)
qed (simp only: rooms, simp add: total_alloc)

section \<open>Results\<close>

text \<open>
  A call agrees with the model of \<open>Mlk_Kem\<close> when it succeeds with the outputs of the model, or it fails with the error
  of the model or out of memory and leaves its output buffers alone.
\<close>

definition agrees :: "'b \<Rightarrow> ret \<times> 'b \<Rightarrow> 'b run \<Rightarrow> bool" where
  "agrees old result model \<longleftrightarrow>
     (case result of
        (None, new) \<Rightarrow> model = Some (Inr new)
      | (Some err, new) \<Rightarrow> new = old \<and> (err = MLK_ERR_OUT_OF_MEMORY \<or> model = Some (Inl err)))"

lemma indcpa_results:
  "indcpa_keypair_derand_heap ca pk sk coins h = Some ((ret, pk', sk'), h1) \<Longrightarrow>
     ret = Some MLK_ERR_OUT_OF_MEMORY \<and> pk' = pk \<and> sk' = sk \<or> ret = None \<and> mlk_indcpa_keypair_derand coins = Some (pk', sk')"
  "indcpa_enc_heap ca c m pk coins h = Some ((ret, c'), h1) \<Longrightarrow>
     ret = Some MLK_ERR_OUT_OF_MEMORY \<and> c' = c \<or> ret = None \<and> mlk_indcpa_enc m pk coins = Some c'"
  "indcpa_dec_heap ca m c sk h = Some ((ret, m'), h1) \<Longrightarrow>
     ret = Some MLK_ERR_OUT_OF_MEMORY \<and> m' = m \<or> ret = None \<and> m' = mlk_indcpa_dec c sk"
  unfolding indcpa_keypair_derand_heap_def indcpa_enc_heap_def indcpa_dec_heap_def
  by (drule with_buffers_result, force split: bind_splits)+

lemma check_results:
  "kem_check_pk_heap ca pk h = Some (ret, h1) \<Longrightarrow> ret = Some MLK_ERR_OUT_OF_MEMORY \<or> ret = mlk_kem_check_pk pk"
  "kem_check_sk_heap ca sk h = Some (ret, h1) \<Longrightarrow> ret = Some MLK_ERR_OUT_OF_MEMORY \<or> ret = mlk_kem_check_sk sk"
  unfolding kem_check_pk_heap_def kem_check_sk_heap_def by (drule with_buffers_result, force)+

lemma check_returns:
  "kem_check_pk_heap ca pk h \<noteq> None" "kem_check_sk_heap ca sk h \<noteq> None" "indcpa_dec_heap ca m c sk h \<noteq> None"
  unfolding kem_check_pk_heap_def kem_check_sk_heap_def indcpa_dec_heap_def
  by (rule notI, drule with_buffers_None, simp)+

lemma indcpa_diverges:
  "indcpa_keypair_derand_heap ca pk sk coins h = None \<Longrightarrow> mlk_indcpa_keypair_derand coins = None"
  "indcpa_enc_heap ca c m pk coins h = None \<Longrightarrow> mlk_indcpa_enc m pk coins = None"
  by (auto simp: indcpa_keypair_derand_heap_def indcpa_enc_heap_def dest!: with_buffers_None split: bind_splits)

lemma agrees_oom [simp]: "agrees old (Some MLK_ERR_OUT_OF_MEMORY, old) model"
  by (simp add: agrees_def)

lemma enc_derand_agrees:
  assumes "kem_enc_derand_heap ca ct ss pk coins h = Some (r, h')"
  shows "agrees (ct, ss) r (mlk_kem_enc_derand pk coins)"
  using with_buffers_result [OF assms [unfolded kem_enc_derand_heap_def]]
proof (elim disjE exE)
  define buf where "buf = take MLKEM_SYMBYTES coins @ mlk_hash_h pk"
  fix h1 h2 assume body: "(do {
          (ret, h) \<leftarrow> kem_check_pk_heap ca pk h1;
          if ret \<noteq> None then Some ((ret, ct, ss), h)
          else do {
            let buf = take MLKEM_SYMBYTES coins;
            let buf = buf @ mlk_hash_h pk;
            let kr = mlk_hash_g buf;
            ((ret, ct), h) \<leftarrow> indcpa_enc_heap ca ct (take MLKEM_SYMBYTES buf) pk (drop MLKEM_SYMBYTES kr) h;
            if ret \<noteq> None then Some ((ret, ct, ss), h)
            else Some ((ret, ct, take MLKEM_SYMBYTES kr), h) } }) = Some (r, h2)"
  obtain ret h3 where c: "kem_check_pk_heap ca pk h1 = Some (ret, h3)"
    using check_returns(1) by (metis not_None_eq surj_pair)
  note model = mlk_kem_enc_derand_def [of pk coins, unfolded Let_def, folded buf_def]
  show ?thesis
  proof (cases ret)
    case (Some err)
    then have "err = MLK_ERR_OUT_OF_MEMORY \<or> mlk_kem_check_pk pk = Some err" using check_results(1) [OF c] by auto
    then show ?thesis using body Some by (auto simp: c agrees_def model)
  next
    case None
    obtain ret' ct' h4 where e: "indcpa_enc_heap ca ct (take MLKEM_SYMBYTES buf) pk (drop MLKEM_SYMBYTES (mlk_hash_g buf)) h3 = Some ((ret', ct'), h4)"
      and r: "r = (if ret' \<noteq> None then (ret', ct', ss) else (ret', ct', take MLKEM_SYMBYTES (mlk_hash_g buf)))"
      using body [unfolded Let_def, folded buf_def] by (auto simp: c None split: bind_splits if_splits)
    have "mlk_kem_check_pk pk = None" using check_results(1) [OF c] None by simp
    then show ?thesis using indcpa_results(2) [OF e] by (auto simp: r agrees_def model)
  qed
qed simp

lemma enc_agrees:
  assumes "kem_enc_heap ca rand ct ss pk h = Some (r, h')"
  shows "agrees (ct, ss) r (mlk_kem_enc rand pk)"
  using with_buffers_result [OF assms [unfolded kem_enc_heap_def]]
proof (elim disjE exE)
  fix h1 h2 assume "(let (rc, coins) = randombytes rand MLKEM_SYMBYTES
     in if rc \<noteq> 0 then Some ((Some MLK_ERR_RNG_FAIL, ct, ss), h1) else kem_enc_derand_heap ca ct ss pk coins h1) = Some (r, h2)"
  then show ?thesis
    using enc_derand_agrees by (cases "randombytes rand MLKEM_SYMBYTES") (auto simp: mlk_kem_enc_def agrees_def split: if_splits)
qed simp

lemma dec_agrees:
  assumes "kem_dec_heap ca ss ct sk h = Some (r, h')"
  shows "agrees ss r (mlk_kem_dec ct sk)"
  using with_buffers_result [OF assms [unfolded kem_dec_heap_def]]
proof (elim disjE exE)
  define pk where "pk = take MLKEM_INDCCA_PUBLICKEYBYTES (drop MLKEM_INDCPA_SECRETKEYBYTES sk)"
  define pad where "pad = take MLKEM_SYMBYTES (drop (MLKEM_INDCCA_SECRETKEYBYTES - 2 * MLKEM_SYMBYTES) sk)"
  define z where "z = take MLKEM_SYMBYTES (drop (MLKEM_INDCCA_SECRETKEYBYTES - MLKEM_SYMBYTES) sk)"
  define buf where "buf = mlk_indcpa_dec ct (take MLKEM_INDCPA_SECRETKEYBYTES sk) @ pad"
  note model = mlk_kem_dec_def [of ct sk, unfolded Let_def, folded pk_def pad_def z_def, folded buf_def]
  fix h1 h2 assume body: "(do {
          let pk = take MLKEM_INDCCA_PUBLICKEYBYTES (drop MLKEM_INDCPA_SECRETKEYBYTES sk);
          (ret, h) \<leftarrow> kem_check_sk_heap ca sk h1;
          if ret \<noteq> None then Some ((ret, ss), h)
          else do {
            ((ret, buf), h) \<leftarrow> indcpa_dec_heap ca [] ct (take MLKEM_INDCPA_SECRETKEYBYTES sk) h;
            if ret \<noteq> None then Some ((ret, ss), h)
            else do {
              let buf = buf @ take MLKEM_SYMBYTES (drop (MLKEM_INDCCA_SECRETKEYBYTES - 2 * MLKEM_SYMBYTES) sk);
              let kr = mlk_hash_g buf;
              ((ret, tmp), h) \<leftarrow> indcpa_enc_heap ca [] (take MLKEM_SYMBYTES buf) pk (drop MLKEM_SYMBYTES kr) h;
              if ret \<noteq> None then Some ((ret, ss), h)
              else do {
                let fail = mlk_ct_memcmp ct tmp;
                let tmp = take MLKEM_SYMBYTES (drop (MLKEM_INDCCA_SECRETKEYBYTES - MLKEM_SYMBYTES) sk) @ ct;
                let ss = mlk_hash_j tmp;
                let ss = mlk_ct_cmov_zero ss (take MLKEM_SYMBYTES kr) fail;
                Some ((ret, ss), h) } } } }) = Some (r, h2)"
  note body = body [unfolded Let_def, folded pk_def pad_def z_def]
  obtain ret h3 where c: "kem_check_sk_heap ca sk h1 = Some (ret, h3)"
    using check_returns(2) by (metis not_None_eq surj_pair)
  show ?thesis
  proof (cases ret)
    case (Some err)
    then have "err = MLK_ERR_OUT_OF_MEMORY \<or> mlk_kem_check_sk sk = Some err" using check_results(2) [OF c] by auto
    then show ?thesis using body Some by (auto simp: c agrees_def model)
  next
    case None
    then have ok: "mlk_kem_check_sk sk = None" using check_results(2) [OF c] by simp
    obtain ret' m h4 where d: "indcpa_dec_heap ca [] ct (take MLKEM_INDCPA_SECRETKEYBYTES sk) h3 = Some ((ret', m), h4)"
      using check_returns(3) by (metis not_None_eq surj_pair)
    show ?thesis
    proof (cases ret')
      case (Some err)
      then show ?thesis using body indcpa_results(3) [OF d] None by (auto simp: c d)
    next
      case none: None
      then have m: "m @ pad = buf" using indcpa_results(3) [OF d] by (simp add: buf_def)
      obtain ret'' tmp h5 where e: "indcpa_enc_heap ca [] (take MLKEM_SYMBYTES buf) pk (drop MLKEM_SYMBYTES (mlk_hash_g buf)) h4 = Some ((ret'', tmp), h5)"
        and r: "r = (if ret'' \<noteq> None then (ret'', ss) else
          (ret'', mlk_ct_cmov_zero (mlk_hash_j (z @ ct)) (take MLKEM_SYMBYTES (mlk_hash_g buf)) (mlk_ct_memcmp ct tmp)))"
        using body by (auto simp: c d None none m simp del: take_append split: bind_splits if_splits)
      show ?thesis using indcpa_results(2) [OF e] ok by (auto simp: r agrees_def model)
    qed
  qed
qed simp

text \<open>Key generation, with the consistency test where the build has it.\<close>

definition kem_keypair_model :: "bool \<Rightarrow> rand \<Rightarrow> (bytes \<times> bytes) run" where
  "kem_keypair_model keygen_pct rand =
     do { res \<leftarrow> mlk_kem_keypair rand;
          case res of
            Inl err \<Rightarrow> Some (Inl err)
          | Inr (pk, sk) \<Rightarrow>
              do { ret \<leftarrow> (if keygen_pct then mlk_check_pct_enabled rand pk sk else Some None);
                   Some (case ret of None \<Rightarrow> Inr (pk, sk) | Some err \<Rightarrow> Inl err) } }"

lemma keypair_model_skip: "kem_keypair_model False rand = mlk_kem_keypair rand"
  by (auto simp: kem_keypair_model_def split: sum.splits prod.splits bind_splits option.splits)

lemma pct_result:
  assumes "check_pct_heap True ca rand pk sk h = Some (ret, h')"
  shows "ret = Some MLK_ERR_OUT_OF_MEMORY \<or> mlk_check_pct_enabled rand pk sk = Some ret"
proof -
  obtain r where r: "ret = (if r = Some MLK_ERR_INVALID_PK \<or> r = Some MLK_ERR_INVALID_SK then Some MLK_ERR_PCT_FAIL else r)"
    and w: "with_buffers ca [MLKEM_INDCCA_CIPHERTEXTBYTES, MLKEM_SSBYTES, MLKEM_SSBYTES] (Some MLK_ERR_OUT_OF_MEMORY)
          (\<lambda>h. do {
             ((ret, ct, ss_enc), h) \<leftarrow> kem_enc_heap ca rand [] [] pk h;
             if ret \<noteq> None then Some (ret, h)
             else do {
               ((ret, ss_dec), h) \<leftarrow> kem_dec_heap ca [] ct sk h;
               if ret \<noteq> None then Some (ret, h)
               else Some (if mlk_ct_memcmp ss_enc ss_dec \<noteq> 0 then Some MLK_ERR_PCT_FAIL else None, h) } }) h = Some (r, h')"
    using assms by (auto simp: check_pct_heap_def split: bind_splits)
  from with_buffers_result [OF w] show ?thesis
  proof (elim disjE exE)
    fix h1 h2 assume body: "(do {
             ((ret, ct, ss_enc), h) \<leftarrow> kem_enc_heap ca rand [] [] pk h1;
             if ret \<noteq> None then Some (ret, h)
             else do {
               ((ret, ss_dec), h) \<leftarrow> kem_dec_heap ca [] ct sk h;
               if ret \<noteq> None then Some (ret, h)
               else Some (if mlk_ct_memcmp ss_enc ss_dec \<noteq> 0 then Some MLK_ERR_PCT_FAIL else None, h) } }) = Some (r, h2)"
    obtain ret1 ct ss h3 where e: "kem_enc_heap ca rand [] [] pk h1 = Some ((ret1, ct, ss), h3)"
      using body by (auto split: bind_splits)
    note ea = enc_agrees [OF e]
    show ?thesis
    proof (cases ret1)
      case (Some err)
      then show ?thesis using ea body by (auto simp: e r agrees_def mlk_check_pct_enabled_def)
    next
      case None
      obtain ret2 ss2 h4 where d: "kem_dec_heap ca [] ct sk h3 = Some ((ret2, ss2), h4)"
        using body by (auto simp: e None split: bind_splits)
      show ?thesis using ea dec_agrees [OF d] body None
        by (cases ret2) (auto simp: e d r agrees_def mlk_check_pct_enabled_def)
    qed
  qed (simp add: r)
qed

text \<open>The output buffers of key generation: as at the call, or zero.\<close>

definition keypair_agrees :: "bytes \<times> bytes \<Rightarrow> ret \<times> bytes \<times> bytes \<Rightarrow> (bytes \<times> bytes) run \<Rightarrow> bool" where
  "keypair_agrees old result model \<longleftrightarrow>
     (case result of
        (None, new) \<Rightarrow> model = Some (Inr new)
      | (Some err, new) \<Rightarrow>
          (new = old \<or> new = (replicate MLKEM_INDCCA_PUBLICKEYBYTES 0, replicate MLKEM_INDCCA_SECRETKEYBYTES 0)) \<and>
          (err = MLK_ERR_OUT_OF_MEMORY \<or> model = Some (Inl err)))"

lemma keypair_derand_result:
  assumes "kem_keypair_derand_heap keygen_pct ca rand pk sk coins h = Some ((ret, pk', sk'), h')"
    and "length pk = MLKEM_INDCCA_PUBLICKEYBYTES" "length sk = MLKEM_INDCCA_SECRETKEYBYTES" "length coins = 2 * MLKEM_SYMBYTES"
  shows "ret \<noteq> None \<Longrightarrow> pk' = replicate MLKEM_INDCCA_PUBLICKEYBYTES 0 \<and> sk' = replicate MLKEM_INDCCA_SECRETKEYBYTES 0"
    and "ret = Some MLK_ERR_OUT_OF_MEMORY \<or>
      (\<exists>pk1 sk1. mlk_kem_keypair_derand coins = Some (Inr (pk1, sk1)) \<and>
        (if keygen_pct then mlk_check_pct_enabled rand pk1 sk1 = Some ret else ret = None) \<and>
        (ret = None \<longrightarrow> (pk', sk') = (pk1, sk1)))"
proof -
  obtain ret1 pk1 sk1 h1 where i: "indcpa_keypair_derand_heap ca pk sk (take MLKEM_SYMBYTES coins) h = Some ((ret1, pk1, sk1), h1)"
    using assms(1) by (auto simp: kem_keypair_derand_heap_def split: bind_splits)
  define sk2 where "sk2 = ((sk1 @ pk1) @ mlk_hash_h pk1) @ take MLKEM_SYMBYTES (drop MLKEM_SYMBYTES coins)"
  have "(ret \<noteq> None \<longrightarrow> pk' = replicate MLKEM_INDCCA_PUBLICKEYBYTES 0 \<and> sk' = replicate MLKEM_INDCCA_SECRETKEYBYTES 0) \<and>
    (ret = Some MLK_ERR_OUT_OF_MEMORY \<or>
      (\<exists>pk1 sk1. mlk_kem_keypair_derand coins = Some (Inr (pk1, sk1)) \<and>
        (if keygen_pct then mlk_check_pct_enabled rand pk1 sk1 = Some ret else ret = None) \<and>
        (ret = None \<longrightarrow> (pk', sk') = (pk1, sk1))))"
  proof (cases ret1)
    case (Some err)
    then have "ret1 = Some MLK_ERR_OUT_OF_MEMORY" "pk1 = pk" "sk1 = sk" using indcpa_results(1) [OF i] by auto
    then show ?thesis using assms(1) by (auto simp: kem_keypair_derand_heap_def i mlk_zeroize_def assms(2,3))
  next
    case None
    then have kp: "mlk_indcpa_keypair_derand (take MLKEM_SYMBYTES coins) = Some (pk1, sk1)" using indcpa_results(1) [OF i] by auto
    then have model: "mlk_kem_keypair_derand coins = Some (Inr (pk1, sk2))"
      by (simp add: mlk_kem_keypair_derand_def mlk_check_pct_def sk2_def)
    have len: "length pk1 = MLKEM_INDCCA_PUBLICKEYBYTES" "length sk2 = MLKEM_INDCCA_SECRETKEYBYTES"
      using length_indcpa_keypair [OF kp] assms(4) by (simp_all add: sk2_def mlk_sizes)
    obtain ret2 h2 where c: "check_pct_heap keygen_pct ca rand pk1 sk2 h1 = Some (ret2, h2)"
      and r: "(ret, pk', sk') = (if ret2 \<noteq> None then (ret2, mlk_zeroize pk1, mlk_zeroize sk2) else (ret2, pk1, sk2))"
      using assms(1) [unfolded kem_keypair_derand_heap_def Let_def]
      by (auto simp: i None simp del: append_assoc simp flip: sk2_def split: bind_splits)
    have "ret2 = Some MLK_ERR_OUT_OF_MEMORY \<or> (if keygen_pct then mlk_check_pct_enabled rand pk1 sk2 = Some ret2 else ret2 = None)"
      using c pct_result [of ca rand pk1 sk2 h1 ret2 h2] by (cases keygen_pct) (auto simp: check_pct_heap_def)
    then show ?thesis using r model len by (auto simp: mlk_zeroize_def split: if_splits)
  qed
  then show "ret \<noteq> None \<Longrightarrow> pk' = replicate MLKEM_INDCCA_PUBLICKEYBYTES 0 \<and> sk' = replicate MLKEM_INDCCA_SECRETKEYBYTES 0"
    "ret = Some MLK_ERR_OUT_OF_MEMORY \<or>
      (\<exists>pk1 sk1. mlk_kem_keypair_derand coins = Some (Inr (pk1, sk1)) \<and>
        (if keygen_pct then mlk_check_pct_enabled rand pk1 sk1 = Some ret else ret = None) \<and>
        (ret = None \<longrightarrow> (pk', sk') = (pk1, sk1)))" by blast+
qed

lemma keypair_agrees_oom [simp]: "keypair_agrees old (Some MLK_ERR_OUT_OF_MEMORY, old) model"
  by (simp add: keypair_agrees_def)

lemma keypair_result:
  assumes "kem_keypair_heap keygen_pct ca rand pk sk h = Some (r, h')"
    and "length pk = MLKEM_INDCCA_PUBLICKEYBYTES" "length sk = MLKEM_INDCCA_SECRETKEYBYTES"
    and "length (snd (rand (2 * MLKEM_SYMBYTES))) = 2 * MLKEM_SYMBYTES"
  shows "keypair_agrees (pk, sk) r (kem_keypair_model keygen_pct rand)"
  using with_buffers_result [OF assms(1) [unfolded kem_keypair_heap_def]]
proof (elim disjE exE)
  obtain rc coins where rc: "rand (2 * MLKEM_SYMBYTES) = (rc, coins)" by fastforce
  fix h1 h2 assume body: "(let (rc, coins) = randombytes rand (2 * MLKEM_SYMBYTES)
            in if rc \<noteq> 0 then Some ((Some MLK_ERR_RNG_FAIL, pk, sk), h1)
               else kem_keypair_derand_heap keygen_pct ca rand pk sk coins h1) = Some (r, h2)"
  show ?thesis
  proof (cases "rc = 1")
    case False
    then show ?thesis
      using body by (auto simp: randombytes_def rc keypair_agrees_def kem_keypair_model_def mlk_kem_keypair_def)
  next
    case True
    obtain ret pk' sk' where r: "r = (ret, pk', sk')" by (cases r) auto
    have k: "kem_keypair_derand_heap keygen_pct ca rand pk sk coins h1 = Some ((ret, pk', sk'), h2)"
      using body by (simp add: randombytes_def rc True r)
    have "length coins = 2 * MLKEM_SYMBYTES" using assms(4) by (simp add: rc)
    note kr = keypair_derand_result [OF k assms(2,3) this]
    have "mlk_kem_keypair rand = mlk_kem_keypair_derand coins" by (simp add: mlk_kem_keypair_def randombytes_def rc True)
    then show ?thesis using kr
      by (cases ret) (auto simp: keypair_agrees_def r kem_keypair_model_def split: if_splits)
  qed
qed simp

section \<open>The documented totals are sufficient\<close>

lemma served:
  assumes "ample ca cap" "with_buffers ca sizes oom body h = Some (r, h')" "room sizes = R" "in_use h + R \<le> cap"
    and "\<And>h1 h2. in_use h1 = in_use h + R \<Longrightarrow> body h1 = Some (r, h2) \<Longrightarrow> P r"
  shows "P r"
  using with_buffers_ample [OF assms(1) _ assms(2)] assms(3-5) by metis

lemma indcpa_served:
  assumes "ample ca cap"
  shows "indcpa_keypair_derand_heap ca pk sk coins h = Some (k, h') \<Longrightarrow> in_use h + 10112 \<le> cap \<Longrightarrow> fst k = None"
    and "indcpa_enc_heap ca c m pk coins h = Some (r, h') \<Longrightarrow> in_use h + 13088 \<le> cap \<Longrightarrow> fst r = None"
    and "indcpa_dec_heap ca m c sk h = Some (r, h') \<Longrightarrow> in_use h + 4864 \<le> cap \<Longrightarrow> fst r = None"
  unfolding indcpa_keypair_derand_heap_def indcpa_enc_heap_def indcpa_dec_heap_def
  by (erule (1) served [OF assms _ rooms(1)] served [OF assms _ rooms(2)] served [OF assms _ rooms(3)]; auto split: bind_splits)+

lemma check_served:
  assumes "ample ca cap"
  shows "kem_check_pk_heap ca pk h = Some (ret, h') \<Longrightarrow> in_use h + 2688 \<le> cap \<Longrightarrow> ret = mlk_kem_check_pk pk"
    and "kem_check_sk_heap ca sk h = Some (ret, h') \<Longrightarrow> in_use h + 32 \<le> cap \<Longrightarrow> ret = mlk_kem_check_sk sk"
  unfolding kem_check_pk_heap_def kem_check_sk_heap_def
  by (erule (1) served [OF assms _ rooms(4)] served [OF assms _ rooms(5)]; simp)+

lemma enc_derand_served:
  assumes "ample ca cap" "kem_enc_derand_heap ca ct ss pk coins h = Some (r, h')" "in_use h + 13216 \<le> cap"
  shows "fst r \<noteq> Some MLK_ERR_OUT_OF_MEMORY"
proof (rule served [OF assms(1) assms(2) [unfolded kem_enc_derand_heap_def Let_def] rooms(7)], goal_cases)
  case (2 h1 h2)
  obtain ret h3 where c: "kem_check_pk_heap ca pk h1 = Some (ret, h3)" using 2(2) by (auto split: bind_splits)
  have ret: "ret = mlk_kem_check_pk pk" using check_served(1) [OF assms(1) c] 2(1) assms(3) by simp
  have "in_use h3 = in_use h1" by (rule tidy_in_use [OF calmD [OF calm_checks(1) c]])
  then have s: "fst r = None" if "indcpa_enc_heap ca ct m pk k h3 = Some (r, h4)" for m k r h4
    using indcpa_served(2) [OF assms(1) that] 2(1) assms(3) by simp
  show ?case
  proof (cases ret)
    case (Some err)
    then have "fst r = mlk_kem_check_pk pk" using 2(2) ret by (auto simp: c)
    then show ?thesis by (simp add: mlk_kem_check_pk_def Let_def)
  next
    case None
    then show ?thesis using 2(2) by (fastforce simp: c split: bind_splits if_splits dest: s)
  qed
qed (use assms(3) in simp)

lemma enc_served:
  assumes "ample ca cap" "kem_enc_heap ca rand ct ss pk h = Some (r, h')" "in_use h + 13248 \<le> cap"
  shows "fst r \<noteq> Some MLK_ERR_OUT_OF_MEMORY"
proof (rule served [OF assms(1) assms(2) [unfolded kem_enc_heap_def] rooms(5)], goal_cases)
  case (2 h1 h2)
  have s: "fst r \<noteq> Some MLK_ERR_OUT_OF_MEMORY" if "kem_enc_derand_heap ca ct ss pk coins h1 = Some (r, h2)" for coins
    using enc_derand_served [OF assms(1) that] 2(1) assms(3) by simp
  obtain rc coins where "randombytes rand MLKEM_SYMBYTES = (rc, coins)" by fastforce
  then show ?case using 2(2) s [of coins] by (cases "rc = 0") auto
qed (use assms(3) in simp)

lemma dec_served:
  assumes "ample ca cap" "kem_dec_heap ca ss ct sk h = Some (r, h')" "in_use h + 14336 \<le> cap"
  shows "fst r \<noteq> Some MLK_ERR_OUT_OF_MEMORY"
proof (rule served [OF assms(1) assms(2) [unfolded kem_dec_heap_def Let_def] rooms(8)], goal_cases)
  case (2 h1 h2)
  obtain ret h3 where c: "kem_check_sk_heap ca sk h1 = Some (ret, h3)" using 2(2) by (auto split: bind_splits)
  have ret: "ret = mlk_kem_check_sk sk" using check_served(2) [OF assms(1) c] 2(1) assms(3) by simp
  have u: "in_use h3 = in_use h1" by (rule tidy_in_use [OF calmD [OF calm_checks(2) c]])
  show ?case
  proof (cases ret)
    case (Some err)
    then have "fst r = mlk_kem_check_sk sk" using 2(2) ret by (auto simp: c)
    then show ?thesis by (simp add: mlk_kem_check_sk_def Let_def)
  next
    case None
    obtain ret' m h4 where d: "indcpa_dec_heap ca [] ct (take MLKEM_INDCPA_SECRETKEYBYTES sk) h3 = Some ((ret', m), h4)"
      using 2(2) None by (auto simp: c split: bind_splits)
    have "ret' = None" using indcpa_served(3) [OF assms(1) d] u 2(1) assms(3) by simp
    moreover have "in_use h4 = in_use h3" by (rule tidy_in_use [OF calmD [OF calm_indcpa(3) d]])
    then have s: "fst r = None" if "indcpa_enc_heap ca c m pk k h4 = Some (r, h5)" for c m pk k r h5
      using indcpa_served(2) [OF assms(1) that] u 2(1) assms(3) by simp
    ultimately show ?thesis using 2(2) None by (fastforce simp: c d split: bind_splits if_splits dest: s)
  qed
qed (use assms(3) in simp)

lemma pct_served:
  assumes "ample ca cap" "check_pct_heap keygen_pct ca rand pk sk h = Some (ret, h')" "in_use h + (if keygen_pct then 15488 else 0) \<le> cap"
  shows "ret \<noteq> Some MLK_ERR_OUT_OF_MEMORY"
proof (cases keygen_pct)
  case True
  obtain r h1 where w: "with_buffers ca [MLKEM_INDCCA_CIPHERTEXTBYTES, MLKEM_SSBYTES, MLKEM_SSBYTES] (Some MLK_ERR_OUT_OF_MEMORY)
          (\<lambda>h. do {
             ((ret, ct, ss_enc), h) \<leftarrow> kem_enc_heap ca rand [] [] pk h;
             if ret \<noteq> None then Some (ret, h)
             else do {
               ((ret, ss_dec), h) \<leftarrow> kem_dec_heap ca [] ct sk h;
               if ret \<noteq> None then Some (ret, h)
               else Some (if mlk_ct_memcmp ss_enc ss_dec \<noteq> 0 then Some MLK_ERR_PCT_FAIL else None, h) } }) h = Some (r, h1)"
    and r: "ret = (if r = Some MLK_ERR_INVALID_PK \<or> r = Some MLK_ERR_INVALID_SK then Some MLK_ERR_PCT_FAIL else r)"
    using assms(2) True by (auto simp: check_pct_heap_def split: bind_splits)
  have "r \<noteq> Some MLK_ERR_OUT_OF_MEMORY"
  proof (rule served [OF assms(1) w rooms(9)], goal_cases)
    case (2 h1 h2)
    obtain ret1 ct ss h3 where e: "kem_enc_heap ca rand [] [] pk h1 = Some ((ret1, ct, ss), h3)"
      using 2(2) by (auto split: bind_splits)
    have "ret1 \<noteq> Some MLK_ERR_OUT_OF_MEMORY" using enc_served [OF assms(1) e] 2(1) assms(3) True by simp
    moreover have "in_use h3 = in_use h1" by (rule tidy_in_use [OF calmD [OF calm_enc e]])
    then have "fst r \<noteq> Some MLK_ERR_OUT_OF_MEMORY" if "kem_dec_heap ca ss ct sk h3 = Some (r, h5)" for ss ct sk r h5
      using dec_served [OF assms(1) that] 2(1) assms(3) True by simp
    ultimately show ?case using 2(2) by (fastforce simp: e split: bind_splits if_splits)
  qed (use assms(3) True in simp)
  then show ?thesis by (simp add: r)
next
  case False
  then show ?thesis using assms(2) by (simp add: check_pct_heap_def)
qed

lemma keypair_served:
  assumes "ample ca cap" "kem_keypair_heap keygen_pct ca rand pk sk h = Some (r, h')"
    and "in_use h + MLK_TOTAL_ALLOC_768_KEYPAIR keygen_pct \<le> cap"
  shows "fst r \<noteq> Some MLK_ERR_OUT_OF_MEMORY"
proof (rule served [OF assms(1) assms(2) [unfolded kem_keypair_heap_def] rooms(6)], goal_cases)
  case (2 h1 h2)
  obtain rc coins where rb: "randombytes rand (2 * MLKEM_SYMBYTES) = (rc, coins)" by fastforce
  show ?case
  proof (cases "rc = 0")
    case True
    then have k: "kem_keypair_derand_heap keygen_pct ca rand pk sk coins h1 = Some (r, h2)" using 2(2) by (simp add: rb)
    obtain ret pk1 sk1 h3 where i: "indcpa_keypair_derand_heap ca pk sk (take MLKEM_SYMBYTES coins) h1 = Some ((ret, pk1, sk1), h3)"
      using k by (auto simp: kem_keypair_derand_heap_def split: bind_splits)
    have "ret = None" using indcpa_served(1) [OF assms(1) i] 2(1) assms(3) by (simp add: total_alloc split: if_splits)
    moreover have "in_use h3 = in_use h1" by (rule tidy_in_use [OF calmD [OF calm_indcpa(1) i]])
    then have "ret \<noteq> Some MLK_ERR_OUT_OF_MEMORY" if "check_pct_heap keygen_pct ca rand p s h3 = Some (ret, h5)" for p s ret h5
      using pct_served [OF assms(1) that] 2(1) assms(3) by (simp add: total_alloc split: if_splits)
    ultimately show ?thesis using k by (fastforce simp: kem_keypair_derand_heap_def i Let_def split: bind_splits if_splits)
  next
    case False
    then show ?thesis using 2(2) by (auto simp: rb)
  qed
qed (use assms(3) in \<open>simp add: total_alloc split: if_splits\<close>)

section \<open>The documented totals are necessary\<close>

text \<open>In an arena a function either has no room for its own buffers, or its body runs with them in use.\<close>

lemma short:
  assumes "in_use h \<le> cap" "room sizes = R"
    and "\<And>h1. in_use h1 = in_use h + R \<Longrightarrow> in_use h1 \<le> cap \<Longrightarrow> map_option fst (body h1) = Some oom"
  shows "map_option fst (with_buffers (arena cap) sizes oom body h) = Some oom"
  using with_buffers_arena [OF assms(1), of sizes oom body] assms(2,3) by metis

lemma fst_returns: "map_option fst res = Some r \<Longrightarrow> \<exists>h. res = Some (r, h)"
  by (cases res) auto

lemma indcpa_short:
  "in_use h \<le> cap \<Longrightarrow> cap < in_use h + 10112 \<Longrightarrow>
     map_option fst (indcpa_keypair_derand_heap (arena cap) pk sk coins h) = Some (Some MLK_ERR_OUT_OF_MEMORY, pk, sk)"
  "in_use h \<le> cap \<Longrightarrow> cap < in_use h + 13088 \<Longrightarrow>
     map_option fst (indcpa_enc_heap (arena cap) c m pk coins h) = Some (Some MLK_ERR_OUT_OF_MEMORY, c)"
  unfolding indcpa_keypair_derand_heap_def indcpa_enc_heap_def
  by (erule short [OF _ rooms(1)] short [OF _ rooms(2)]; simp)+

lemma enc_derand_short:
  assumes "in_use h \<le> cap" "cap < in_use h + 13216" "mlk_kem_check_pk pk = None"
  shows "map_option fst (kem_enc_derand_heap (arena cap) ct ss pk coins h) = Some (Some MLK_ERR_OUT_OF_MEMORY, ct, ss)"
  unfolding kem_enc_derand_heap_def Let_def
proof (rule short [OF assms(1) rooms(7)], goal_cases)
  case (1 h1)
  obtain ret h3 where c: "kem_check_pk_heap (arena cap) pk h1 = Some (ret, h3)" using check_returns(1) by (metis not_None_eq surj_pair)
  have u: "in_use h3 = in_use h1" by (rule tidy_in_use [OF calmD [OF calm_checks(1) c]])
  have "map_option fst (indcpa_enc_heap (arena cap) c m pk k h3) = Some (Some MLK_ERR_OUT_OF_MEMORY, c)" for c m k
    using indcpa_short(2) [of h3 cap c m pk k] u 1 assms(2) by simp
  then have "\<exists>h4. indcpa_enc_heap (arena cap) c m pk k h3 = Some ((Some MLK_ERR_OUT_OF_MEMORY, c), h4)" for c m k
    by (rule fst_returns)
  from this [of ct "take MLKEM_SYMBYTES (take MLKEM_SYMBYTES coins @ mlk_hash_h pk)"
      "drop MLKEM_SYMBYTES (mlk_hash_g (take MLKEM_SYMBYTES coins @ mlk_hash_h pk))"]
  obtain h4 where e: "indcpa_enc_heap (arena cap) ct (take MLKEM_SYMBYTES (take MLKEM_SYMBYTES coins @ mlk_hash_h pk)) pk
      (drop MLKEM_SYMBYTES (mlk_hash_g (take MLKEM_SYMBYTES coins @ mlk_hash_h pk))) h3 = Some ((Some MLK_ERR_OUT_OF_MEMORY, ct), h4)" ..
  have "ret = None \<or> ret = Some MLK_ERR_OUT_OF_MEMORY" using check_results(1) [OF c] assms(3) by auto
  then show ?case by (elim disjE) (simp_all add: c e del: take_append)
qed

lemma enc_short:
  assumes "in_use h \<le> cap" "cap < in_use h + 13248" "mlk_kem_check_pk pk = None" "fst (rand MLKEM_SYMBYTES) = 1"
  shows "map_option fst (kem_enc_heap (arena cap) rand ct ss pk h) = Some (Some MLK_ERR_OUT_OF_MEMORY, ct, ss)"
  unfolding kem_enc_heap_def Let_def
proof (rule short [OF assms(1) rooms(5)], goal_cases)
  case (1 h1)
  then show ?case using enc_derand_short [of h1 cap pk] assms by (cases "rand MLKEM_SYMBYTES") (simp add: randombytes_def)
qed

lemma dec_short:
  assumes "in_use h \<le> cap" "cap < in_use h + 14336" "mlk_kem_check_sk sk = None"
  shows "map_option fst (kem_dec_heap (arena cap) ss ct sk h) = Some (Some MLK_ERR_OUT_OF_MEMORY, ss)"
  unfolding kem_dec_heap_def Let_def
proof (rule short [OF assms(1) rooms(8)], goal_cases)
  case (1 h1)
  obtain ret h3 where c: "kem_check_sk_heap (arena cap) sk h1 = Some (ret, h3)" using check_returns(2) by (metis not_None_eq surj_pair)
  have u3: "in_use h3 = in_use h1" by (rule tidy_in_use [OF calmD [OF calm_checks(2) c]])
  obtain ret' m h4 where d: "indcpa_dec_heap (arena cap) [] ct (take MLKEM_INDCPA_SECRETKEYBYTES sk) h3 = Some ((ret', m), h4)"
    using check_returns(3) by (metis not_None_eq surj_pair)
  have u4: "in_use h4 = in_use h3" by (rule tidy_in_use [OF calmD [OF calm_indcpa(3) d]])
  have "map_option fst (indcpa_enc_heap (arena cap) c m pk k h4) = Some (Some MLK_ERR_OUT_OF_MEMORY, c)" for c m pk k
    using indcpa_short(2) [of h4 cap c m pk k] u3 u4 1 assms(2) by simp
  then have e: "\<exists>h5. indcpa_enc_heap (arena cap) c m pk k h4 = Some ((Some MLK_ERR_OUT_OF_MEMORY, c), h5)" for c m pk k
    by (rule fst_returns)
  let ?buf = "m @ take MLKEM_SYMBYTES (drop (MLKEM_INDCCA_SECRETKEYBYTES - 2 * MLKEM_SYMBYTES) sk)"
  obtain h5 where "indcpa_enc_heap (arena cap) [] (take MLKEM_SYMBYTES ?buf)
      (take MLKEM_INDCCA_PUBLICKEYBYTES (drop MLKEM_INDCPA_SECRETKEYBYTES sk)) (drop MLKEM_SYMBYTES (mlk_hash_g ?buf)) h4
      = Some ((Some MLK_ERR_OUT_OF_MEMORY, []), h5)" using e by blast
  moreover have "ret = None \<or> ret = Some MLK_ERR_OUT_OF_MEMORY" using check_results(2) [OF c] assms(3) by auto
  moreover have "ret' = None \<or> ret' = Some MLK_ERR_OUT_OF_MEMORY" using indcpa_results(3) [OF d] by auto
  ultimately show ?case by (elim disjE) (simp_all add: c d del: take_append)
qed

lemma keypair_short:
  assumes "in_use h \<le> cap" "cap < in_use h + MLK_TOTAL_ALLOC_768_KEYPAIR False" "fst (rand (2 * MLKEM_SYMBYTES)) = 1"
  shows "\<exists>out. map_option fst (kem_keypair_heap False (arena cap) rand pk sk h) = Some (Some MLK_ERR_OUT_OF_MEMORY, out)"
proof -
  obtain coins where rb: "randombytes rand (2 * MLKEM_SYMBYTES) = (0, coins)"
    using assms(3) by (cases "rand (2 * MLKEM_SYMBYTES)") (simp add: randombytes_def)
  have run: "map_option fst (kem_keypair_derand_heap False (arena cap) rand pk sk coins h1) = Some (Some MLK_ERR_OUT_OF_MEMORY, mlk_zeroize pk, mlk_zeroize sk)"
    if u: "in_use h1 = in_use h + 64" "in_use h1 \<le> cap" for h1
  proof -
    obtain h2 where "indcpa_keypair_derand_heap (arena cap) pk sk (take MLKEM_SYMBYTES coins) h1 = Some ((Some MLK_ERR_OUT_OF_MEMORY, pk, sk), h2)"
      using fst_returns [OF indcpa_short(1) [of h1 cap pk sk]] u assms(2) by (force simp: total_alloc)
    then show ?thesis by (simp add: kem_keypair_derand_heap_def)
  qed
  have body: "(\<lambda>h. let (rc, coins) = randombytes rand (2 * MLKEM_SYMBYTES)
            in if rc \<noteq> 0 then Some ((Some MLK_ERR_RNG_FAIL, pk, sk), h)
               else kem_keypair_derand_heap False (arena cap) rand pk sk coins h) = kem_keypair_derand_heap False (arena cap) rand pk sk coins"
    by (simp add: rb)
  show ?thesis
    unfolding kem_keypair_heap_def body
    using with_buffers_arena [OF assms(1), of "[2 * MLKEM_SYMBYTES]" "(Some MLK_ERR_OUT_OF_MEMORY, pk, sk)"
        "kem_keypair_derand_heap False (arena cap) rand pk sk coins"] run unfolding rooms by metis
qed

section \<open>A call ends exactly when the computation does\<close>

lemma enc_derand_diverges:
  assumes "kem_enc_derand_heap ca ct ss pk coins h = None"
  shows "mlk_kem_enc_derand pk coins = None"
  using with_buffers_None [OF assms [unfolded kem_enc_derand_heap_def Let_def]]
proof (elim exE, goal_cases)
  case (1 h1)
  obtain ret h3 where c: "kem_check_pk_heap ca pk h1 = Some (ret, h3)" using check_returns(1) by (metis not_None_eq surj_pair)
  have "ret = None" using 1 by (cases ret) (simp_all add: c)
  then have "mlk_kem_check_pk pk = None" using check_results(1) [OF c] by simp
  moreover have "mlk_indcpa_enc (take MLKEM_SYMBYTES (take MLKEM_SYMBYTES coins @ mlk_hash_h pk)) pk
      (drop MLKEM_SYMBYTES (mlk_hash_g (take MLKEM_SYMBYTES coins @ mlk_hash_h pk))) = None"
    using 1 \<open>ret = None\<close> by (intro indcpa_diverges(2)) (auto simp: c simp del: take_append split: bind_splits if_splits)
  ultimately show ?case by (simp add: mlk_kem_enc_derand_def del: take_append)
qed

lemma enc_diverges:
  assumes "kem_enc_heap ca rand ct ss pk h = None"
  shows "mlk_kem_enc rand pk = None"
proof -
  obtain h1 where "(let (rc, coins) = randombytes rand MLKEM_SYMBYTES
     in if rc \<noteq> 0 then Some ((Some MLK_ERR_RNG_FAIL, ct, ss), h1) else kem_enc_derand_heap ca ct ss pk coins h1) = None"
    using with_buffers_None [OF assms [unfolded kem_enc_heap_def]] by blast
  then show ?thesis
    using enc_derand_diverges by (cases "randombytes rand MLKEM_SYMBYTES") (auto simp: mlk_kem_enc_def split: if_splits)
qed

lemma dec_diverges:
  assumes "kem_dec_heap ca ss ct sk h = None"
  shows "mlk_kem_dec ct sk = None"
  using with_buffers_None [OF assms [unfolded kem_dec_heap_def Let_def]]
proof (elim exE, goal_cases)
  case (1 h1)
  obtain ret h3 where c: "kem_check_sk_heap ca sk h1 = Some (ret, h3)" using check_returns(2) by (metis not_None_eq surj_pair)
  have r: "ret = None" using 1 by (cases ret) (simp_all add: c)
  obtain ret' m h4 where d: "indcpa_dec_heap ca [] ct (take MLKEM_INDCPA_SECRETKEYBYTES sk) h3 = Some ((ret', m), h4)"
    using check_returns(3) by (metis not_None_eq surj_pair)
  have r': "ret' = None" using 1 r by (cases ret') (simp_all add: c d)
  define buf where "buf = m @ take MLKEM_SYMBYTES (drop (MLKEM_INDCCA_SECRETKEYBYTES - 2 * MLKEM_SYMBYTES) sk)"
  have m: "m = mlk_indcpa_dec ct (take MLKEM_INDCPA_SECRETKEYBYTES sk)" using indcpa_results(3) [OF d] r' by simp
  have "mlk_kem_check_sk sk = None" using check_results(2) [OF c] r by simp
  moreover have "mlk_indcpa_enc (take MLKEM_SYMBYTES buf) (take MLKEM_INDCCA_PUBLICKEYBYTES (drop MLKEM_INDCPA_SECRETKEYBYTES sk))
      (drop MLKEM_SYMBYTES (mlk_hash_g buf)) = None"
    using 1 r r' by (intro indcpa_diverges(2)) (auto simp: c d simp del: take_append simp flip: buf_def split: bind_splits if_splits)
  ultimately show ?case by (simp add: mlk_kem_dec_def Let_def buf_def m del: take_append)
qed

lemma pct_diverges:
  assumes "check_pct_heap True ca rand pk sk h = None"
  shows "mlk_check_pct_enabled rand pk sk = None"
proof -
  have "with_buffers ca [MLKEM_INDCCA_CIPHERTEXTBYTES, MLKEM_SSBYTES, MLKEM_SSBYTES] (Some MLK_ERR_OUT_OF_MEMORY)
          (\<lambda>h. do {
             ((ret, ct, ss_enc), h) \<leftarrow> kem_enc_heap ca rand [] [] pk h;
             if ret \<noteq> None then Some (ret, h)
             else do {
               ((ret, ss_dec), h) \<leftarrow> kem_dec_heap ca [] ct sk h;
               if ret \<noteq> None then Some (ret, h)
               else Some (if mlk_ct_memcmp ss_enc ss_dec \<noteq> 0 then Some MLK_ERR_PCT_FAIL else None, h) } }) h = None"
    using assms by (auto simp: check_pct_heap_def split: bind_splits)
  from with_buffers_None [OF this] show ?thesis
  proof (elim exE, goal_cases)
    case (1 h1)
    show ?case
    proof (cases "kem_enc_heap ca rand [] [] pk h1")
      case None
      then show ?thesis by (simp add: mlk_check_pct_enabled_def enc_diverges)
    next
      case (Some x)
      obtain ret ct ss h2 where x: "x = ((ret, ct, ss), h2)" by (metis surj_pair)
      have "ret = None" using 1 by (cases ret) (simp_all add: Some x)
      then have "mlk_kem_enc rand pk = Some (Inr (ct, ss))" using enc_agrees [OF Some [unfolded x]] by (simp add: agrees_def)
      moreover have "mlk_kem_dec ct sk = None"
        using 1 \<open>ret = None\<close> by (intro dec_diverges) (auto simp: Some x split: bind_splits if_splits)
      ultimately show ?thesis by (simp add: mlk_check_pct_enabled_def)
    qed
  qed
qed

lemma keypair_diverges:
  assumes "kem_keypair_heap keygen_pct ca rand pk sk h = None"
  shows "kem_keypair_model keygen_pct rand = None"
proof -
  obtain rc coins where rb: "randombytes rand (2 * MLKEM_SYMBYTES) = (rc, coins)" by fastforce
  obtain h1 where body: "(let (rc, coins) = randombytes rand (2 * MLKEM_SYMBYTES)
            in if rc \<noteq> 0 then Some ((Some MLK_ERR_RNG_FAIL, pk, sk), h1)
               else kem_keypair_derand_heap keygen_pct ca rand pk sk coins h1) = None"
    using with_buffers_None [OF assms [unfolded kem_keypair_heap_def]] by blast
  then have rc: "rc = 0" and k: "kem_keypair_derand_heap keygen_pct ca rand pk sk coins h1 = None" by (auto simp: rb split: if_splits)
  show ?thesis
  proof (cases "indcpa_keypair_derand_heap ca pk sk (take MLKEM_SYMBYTES coins) h1")
    case None
    then show ?thesis
      using indcpa_diverges(1) by (simp add: kem_keypair_model_def mlk_kem_keypair_def rb rc mlk_kem_keypair_derand_def)
  next
    case (Some x)
    obtain ret pk1 sk1 h2 where x: "x = ((ret, pk1, sk1), h2)" by (metis surj_pair)
    have ret: "ret = None" using k by (cases ret) (simp_all add: kem_keypair_derand_heap_def Some x)
    then have i: "mlk_indcpa_keypair_derand (take MLKEM_SYMBYTES coins) = Some (pk1, sk1)" using indcpa_results(1) [OF Some [unfolded x]] by simp
    define sk2 where "sk2 = ((sk1 @ pk1) @ mlk_hash_h pk1) @ take MLKEM_SYMBYTES (drop MLKEM_SYMBYTES coins)"
    have c: "check_pct_heap keygen_pct ca rand pk1 sk2 h2 = None"
      using k by (auto simp: kem_keypair_derand_heap_def Let_def Some x ret sk2_def simp del: append_assoc split: bind_splits)
    then have keygen_pct by (auto simp: check_pct_heap_def split: if_splits)
    moreover from this have "mlk_check_pct_enabled rand pk1 sk2 = None" using c pct_diverges [of ca rand pk1 sk2 h2] by simp
    moreover have "mlk_kem_keypair rand = Some (Inr (pk1, sk2))"
      by (simp add: mlk_kem_keypair_def rb rc mlk_kem_keypair_derand_def i mlk_check_pct_def sk2_def)
    ultimately show ?thesis by (simp add: kem_keypair_model_def)
  qed
qed

section \<open>The contracts of the entry points\<close>

definition array_unchanged_or_zeroized_u8 :: "bytes \<Rightarrow> bytes \<Rightarrow> nat \<Rightarrow> bool" where
  "array_unchanged_or_zeroized_u8 old arr N \<longleftrightarrow> (\<forall>i < N. arr ! i = old ! i) \<or> (\<forall>i < N. arr ! i = 0)"

definition kem_keypair_ensures :: "ret \<Rightarrow> bytes \<times> bytes \<Rightarrow> bytes \<times> bytes \<Rightarrow> bool" where
  "kem_keypair_ensures return_value old new \<longleftrightarrow>
     return_value \<in> {None, Some MLK_ERR_PCT_FAIL, Some MLK_ERR_OUT_OF_MEMORY, Some MLK_ERR_RNG_FAIL} \<and>
     (return_value \<noteq> None \<longrightarrow> array_unchanged_or_zeroized_u8 (fst old) (fst new) MLKEM_INDCCA_PUBLICKEYBYTES) \<and>
     (return_value \<noteq> None \<longrightarrow> array_unchanged_or_zeroized_u8 (snd old) (snd new) MLKEM_INDCCA_SECRETKEYBYTES)"

definition kem_enc_ensures :: "ret \<Rightarrow> bytes \<times> bytes \<Rightarrow> bytes \<times> bytes \<Rightarrow> bool" where
  "kem_enc_ensures return_value old new \<longleftrightarrow>
     return_value \<in> {None, Some MLK_ERR_INVALID_PK, Some MLK_ERR_OUT_OF_MEMORY, Some MLK_ERR_RNG_FAIL} \<and>
     (return_value \<noteq> None \<longrightarrow> array_unchanged_or_zeroized_u8 (fst old) (fst new) MLKEM_INDCCA_CIPHERTEXTBYTES) \<and>
     (return_value \<noteq> None \<longrightarrow> array_unchanged_or_zeroized_u8 (snd old) (snd new) MLKEM_SSBYTES)"

definition kem_dec_ensures :: "ret \<Rightarrow> bytes \<Rightarrow> bytes \<Rightarrow> bool" where
  "kem_dec_ensures return_value old new \<longleftrightarrow>
     return_value \<in> {None, Some MLK_ERR_INVALID_SK, Some MLK_ERR_OUT_OF_MEMORY} \<and>
     (return_value \<noteq> None \<longrightarrow> array_unchanged_or_zeroized_u8 old new MLKEM_SSBYTES)"

definition kem_check_pk_ensures :: "ret \<Rightarrow> bool" where
  "kem_check_pk_ensures return_value \<longleftrightarrow> return_value \<in> {None, Some MLK_ERR_INVALID_PK, Some MLK_ERR_OUT_OF_MEMORY}"

definition kem_check_sk_ensures :: "ret \<Rightarrow> bool" where
  "kem_check_sk_ensures return_value \<longleftrightarrow> return_value \<in> {None, Some MLK_ERR_INVALID_SK, Some MLK_ERR_OUT_OF_MEMORY}"

definition kem_keypair_derand_ensures :: "ret \<Rightarrow> bytes \<times> bytes \<Rightarrow> bytes \<times> bytes \<Rightarrow> bool" where
  "kem_keypair_derand_ensures return_value old new \<longleftrightarrow>
     return_value \<in> {None, Some MLK_ERR_PCT_FAIL, Some MLK_ERR_OUT_OF_MEMORY, Some MLK_ERR_RNG_FAIL} \<and>
     (return_value \<noteq> None \<longrightarrow> array_unchanged_or_zeroized_u8 (fst old) (fst new) MLKEM_INDCCA_PUBLICKEYBYTES) \<and>
     (return_value \<noteq> None \<longrightarrow> array_unchanged_or_zeroized_u8 (snd old) (snd new) MLKEM_INDCCA_SECRETKEYBYTES)"

definition kem_enc_derand_ensures :: "ret \<Rightarrow> bytes \<times> bytes \<Rightarrow> bytes \<times> bytes \<Rightarrow> bool" where
  "kem_enc_derand_ensures return_value old new \<longleftrightarrow>
     return_value \<in> {None, Some MLK_ERR_INVALID_PK, Some MLK_ERR_OUT_OF_MEMORY} \<and>
     (return_value \<noteq> None \<longrightarrow> array_unchanged_or_zeroized_u8 (fst old) (fst new) MLKEM_INDCCA_CIPHERTEXTBYTES) \<and>
     (return_value \<noteq> None \<longrightarrow> array_unchanged_or_zeroized_u8 (snd old) (snd new) MLKEM_SSBYTES)"

definition indcpa_keypair_derand_ensures :: "ret \<Rightarrow> bytes \<times> bytes \<Rightarrow> bytes \<times> bytes \<Rightarrow> bool" where
  "indcpa_keypair_derand_ensures return_value old new \<longleftrightarrow>
     return_value \<in> {None, Some MLK_ERR_OUT_OF_MEMORY} \<and>
     (return_value \<noteq> None \<longrightarrow> array_unchanged_or_zeroized_u8 (fst old) (fst new) MLKEM_INDCPA_PUBLICKEYBYTES) \<and>
     (return_value \<noteq> None \<longrightarrow> array_unchanged_or_zeroized_u8 (snd old) (snd new) MLKEM_INDCPA_SECRETKEYBYTES)"

definition indcpa_enc_ensures :: "ret \<Rightarrow> bytes \<Rightarrow> bytes \<Rightarrow> bool" where
  "indcpa_enc_ensures return_value old new \<longleftrightarrow>
     return_value \<in> {None, Some MLK_ERR_OUT_OF_MEMORY} \<and>
     (return_value \<noteq> None \<longrightarrow> array_unchanged_or_zeroized_u8 old new MLKEM_INDCPA_BYTES)"

definition indcpa_dec_ensures :: "ret \<Rightarrow> bytes \<Rightarrow> bytes \<Rightarrow> bool" where
  "indcpa_dec_ensures return_value old new \<longleftrightarrow>
     return_value \<in> {None, Some MLK_ERR_OUT_OF_MEMORY} \<and>
     (return_value \<noteq> None \<longrightarrow> array_unchanged_or_zeroized_u8 old new MLKEM_INDCPA_MSGBYTES)"

lemma unchanged_or_zeroized [simp]:
  "array_unchanged_or_zeroized_u8 old old N" "array_unchanged_or_zeroized_u8 old (replicate N 0) N"
  by (simp_all add: array_unchanged_or_zeroized_u8_def)

text \<open>The calls below the randomised ones.\<close>

lemma inner_contracts:
  "indcpa_keypair_derand_heap ca pk sk coins h = Some ((ret, out2), h') \<Longrightarrow> indcpa_keypair_derand_ensures ret (pk, sk) out2"
  "indcpa_enc_heap ca c m pk coins h = Some ((ret, out), h') \<Longrightarrow> indcpa_enc_ensures ret c out"
  "indcpa_dec_heap ca m c sk h = Some ((ret, out), h') \<Longrightarrow> indcpa_dec_ensures ret m out"
  "kem_check_pk_heap ca pk h = Some (ret, h') \<Longrightarrow> kem_check_pk_ensures ret"
  "kem_check_sk_heap ca sk h = Some (ret, h') \<Longrightarrow> kem_check_sk_ensures ret"
  "kem_enc_derand_heap ca ct ss pk coins h = Some ((ret, out2), h') \<Longrightarrow> kem_enc_derand_ensures ret (ct, ss) out2"
proof -
  show "indcpa_keypair_derand_ensures ret (pk, sk) out2" if r: "indcpa_keypair_derand_heap ca pk sk coins h = Some ((ret, out2), h')"
    using indcpa_results(1) [of ca pk sk coins h ret "fst out2" "snd out2" h'] r by (auto simp: indcpa_keypair_derand_ensures_def)
  show "indcpa_enc_ensures ret c out" if r: "indcpa_enc_heap ca c m pk coins h = Some ((ret, out), h')"
    using indcpa_results(2) [OF r] by (auto simp: indcpa_enc_ensures_def)
  show "indcpa_dec_ensures ret m out" if r: "indcpa_dec_heap ca m c sk h = Some ((ret, out), h')"
    using indcpa_results(3) [OF r] by (auto simp: indcpa_dec_ensures_def)
  show "kem_check_pk_ensures ret" if r: "kem_check_pk_heap ca pk h = Some (ret, h')"
    using check_results(1) [OF r] by (auto simp: kem_check_pk_ensures_def mlk_kem_check_pk_def Let_def split: if_splits)
  show "kem_check_sk_ensures ret" if r: "kem_check_sk_heap ca sk h = Some (ret, h')"
    using check_results(2) [OF r] by (auto simp: kem_check_sk_ensures_def mlk_kem_check_sk_def Let_def split: if_splits)
  have model: "mlk_kem_enc_derand pk coins = Some (Inl err) \<Longrightarrow> err = MLK_ERR_INVALID_PK" for err
    by (auto simp: mlk_kem_enc_derand_def mlk_kem_check_pk_def Let_def split: if_splits option.splits bind_splits)
  show "kem_enc_derand_ensures ret (ct, ss) out2" if r: "kem_enc_derand_heap ca ct ss pk coins h = Some ((ret, out2), h')"
    using enc_derand_agrees [OF r] model by (auto simp: agrees_def kem_enc_derand_ensures_def split: option.splits)
qed

lemma keypair_derand_contract:
  assumes "kem_keypair_derand_heap keygen_pct ca rand pk sk coins h = Some ((ret, pk', sk'), h')"
    and "length pk = MLKEM_INDCCA_PUBLICKEYBYTES" "length sk = MLKEM_INDCCA_SECRETKEYBYTES" "length coins = 2 * MLKEM_SYMBYTES"
  shows "kem_keypair_derand_ensures ret (pk, sk) (pk', sk')"
  using keypair_derand_result [OF assms]
  by (auto simp: kem_keypair_derand_ensures_def dest!: check_pct_contract split: if_splits)

text \<open>
  C23: The contracts of \<open>kem.h\<close> with any allocator: the return code is one of those documented, an output buffer
  holds on failure what it held or zeroes, on success the result is the one of the stack build, the buffers in use
  are those of the call, each wiped before its return, and the documented total is never exceeded.
\<close>

theorem kem_calls_meet_contract:
  assumes "kem_keypair_heap keygen_pct ca rand pk sk h = Some ((ret_kp, pk', sk'), h_kp)"
    and "kem_enc_heap ca rand ct ss pk_enc h = Some ((ret_enc, ct', ss'), h_enc)"
    and "kem_dec_heap ca ss_dec ct_dec sk_dec h = Some ((ret_dec, ss_dec'), h_dec)"
    and "length pk = MLKEM_INDCCA_PUBLICKEYBYTES" "length sk = MLKEM_INDCCA_SECRETKEYBYTES"
    and "length (snd (rand (2 * MLKEM_SYMBYTES))) = 2 * MLKEM_SYMBYTES"
  shows "kem_keypair_ensures ret_kp (pk, sk) (pk', sk') \<and> kem_enc_ensures ret_enc (ct, ss) (ct', ss') \<and> kem_dec_ensures ret_dec ss_dec ss_dec'
    \<and> (ret_kp = None \<longrightarrow> kem_keypair_model keygen_pct rand = Some (Inr (pk', sk')))
    \<and> (ret_enc = None \<longrightarrow> mlk_kem_enc rand pk_enc = Some (Inr (ct', ss')))
    \<and> (ret_dec = None \<longrightarrow> mlk_kem_dec ct_dec sk_dec = Some (Inr ss_dec'))
    \<and> tidy (MLK_TOTAL_ALLOC_768_KEYPAIR keygen_pct) h h_kp \<and> tidy MLK_TOTAL_ALLOC_768_ENCAPS h h_enc \<and> tidy MLK_TOTAL_ALLOC_768_DECAPS h h_dec"
proof -
  note kp = keypair_result [OF assms(1,4-6)] and enc = enc_agrees [OF assms(2)] and dec = dec_agrees [OF assms(3)]
  have model: "kem_keypair_model keygen_pct rand = Some (Inl err) \<Longrightarrow> err = MLK_ERR_RNG_FAIL \<or> err = MLK_ERR_PCT_FAIL" for err
    by (auto simp: kem_keypair_model_def mlk_kem_keypair_def mlk_kem_keypair_derand_def mlk_check_pct_def
        dest!: check_pct_contract split: bind_splits sum.splits prod.splits option.splits if_splits)
  have "kem_keypair_ensures ret_kp (pk, sk) (pk', sk')"
    using kp model by (auto simp: keypair_agrees_def kem_keypair_ensures_def split: option.splits)
  moreover have "kem_enc_ensures ret_enc (ct, ss) (ct', ss')"
    using enc by (auto simp: agrees_def kem_enc_ensures_def dest!: kem_enc_errors split: option.splits)
  moreover have "kem_dec_ensures ret_dec ss_dec ss_dec'"
    using dec by (auto simp: agrees_def kem_dec_ensures_def dest!: kem_dec_errors split: option.splits)
  ultimately show ?thesis
    using kp enc dec calmD [OF calm_keypair assms(1)] calmD [OF calm_enc assms(2)] calmD [OF calm_dec assms(3)]
    by (auto simp: keypair_agrees_def agrees_def total_alloc)
qed


text \<open>
  A call runs as the stack build when it does not end exactly when that one does not, and otherwise succeeds with
  the same outputs or fails with the same error.
\<close>

definition runs_as :: "((ret \<times> 'b) \<times> heap) option \<Rightarrow> 'b run \<Rightarrow> bool" where
  "runs_as res model \<longleftrightarrow>
     (case res of
        None \<Rightarrow> model = None
      | Some ((None, out), h) \<Rightarrow> model = Some (Inr out)
      | Some ((Some err, out), h) \<Rightarrow> model = Some (Inl err))"

definition out_of_memory :: "((ret \<times> 'b) \<times> heap) option \<Rightarrow> bool" where
  "out_of_memory res \<longleftrightarrow> map_option (fst o fst) res = Some (Some MLK_ERR_OUT_OF_MEMORY)"

text \<open>Any allocator that serves every request within the documented total, the stack among them, is enough.\<close>

theorem ample_runs_as:
  assumes "ample ca cap"
  shows "MLK_TOTAL_ALLOC_768_ENCAPS \<le> cap \<Longrightarrow> runs_as (kem_enc_heap ca rand ct ss pk []) (mlk_kem_enc rand pk)"
    and "MLK_TOTAL_ALLOC_768_DECAPS \<le> cap \<Longrightarrow> runs_as (kem_dec_heap ca ss ct sk []) (mlk_kem_dec ct sk)"
    and "MLK_TOTAL_ALLOC_768_KEYPAIR keygen_pct \<le> cap \<Longrightarrow> length pk = MLKEM_INDCCA_PUBLICKEYBYTES \<Longrightarrow>
       length sk = MLKEM_INDCCA_SECRETKEYBYTES \<Longrightarrow> length (snd (rand (2 * MLKEM_SYMBYTES))) = 2 * MLKEM_SYMBYTES \<Longrightarrow>
       runs_as (kem_keypair_heap keygen_pct ca rand pk sk []) (kem_keypair_model keygen_pct rand)"
proof -
  have u: "in_use [] = 0" by (simp add: in_use_def)
  show "runs_as (kem_enc_heap ca rand ct ss pk []) (mlk_kem_enc rand pk)" if cap: "MLK_TOTAL_ALLOC_768_ENCAPS \<le> cap"
  proof (cases "kem_enc_heap ca rand ct ss pk []")
    case None
    then show ?thesis by (simp add: runs_as_def enc_diverges)
  next
    case (Some x)
    obtain ret out h where x: "x = ((ret, out), h)" by (metis surj_pair)
    show ?thesis using enc_agrees [OF Some [unfolded x]] enc_served [OF assms Some [unfolded x]] cap
      by (auto simp: Some x runs_as_def agrees_def total_alloc u split: option.splits)
  qed
  show "runs_as (kem_dec_heap ca ss ct sk []) (mlk_kem_dec ct sk)" if cap: "MLK_TOTAL_ALLOC_768_DECAPS \<le> cap"
  proof (cases "kem_dec_heap ca ss ct sk []")
    case None
    then show ?thesis by (simp add: runs_as_def dec_diverges)
  next
    case (Some x)
    obtain ret out h where x: "x = ((ret, out), h)" by (metis surj_pair)
    show ?thesis using dec_agrees [OF Some [unfolded x]] dec_served [OF assms Some [unfolded x]] cap
      by (auto simp: Some x runs_as_def agrees_def total_alloc u split: option.splits)
  qed
  show "runs_as (kem_keypair_heap keygen_pct ca rand pk sk []) (kem_keypair_model keygen_pct rand)"
    if cap: "MLK_TOTAL_ALLOC_768_KEYPAIR keygen_pct \<le> cap" and len: "length pk = MLKEM_INDCCA_PUBLICKEYBYTES"
       "length sk = MLKEM_INDCCA_SECRETKEYBYTES" "length (snd (rand (2 * MLKEM_SYMBYTES))) = 2 * MLKEM_SYMBYTES"
  proof (cases "kem_keypair_heap keygen_pct ca rand pk sk []")
    case None
    then show ?thesis by (simp add: runs_as_def keypair_diverges)
  next
    case (Some x)
    obtain ret out h where x: "x = ((ret, out), h)" by (metis surj_pair)
    show ?thesis using keypair_result [OF Some [unfolded x] len] keypair_served [OF assms Some [unfolded x]] cap
      by (auto simp: Some x runs_as_def keypair_agrees_def u split: option.splits)
  qed
qed

lemma arena_empty: "in_use [] \<le> cap"
  by (simp add: in_use_def)

text \<open>
  C25: The totals \<open>MLK_TOTAL_ALLOC_768_*\<close> of \<open>mlkem_native.h\<close> are the least that suffice. In an empty arena of \<open>cap\<close>
  bytes, with 32-byte blocks, a call whose inputs are valid fails for lack of memory exactly when \<open>cap\<close> is below the
  documented total, and otherwise runs as the build that allocates on the stack.
\<close>

theorem kem_total_alloc:
  assumes "fst (rand MLKEM_SYMBYTES) = 1" "fst (rand (2 * MLKEM_SYMBYTES)) = 1"
    and "length (snd (rand (2 * MLKEM_SYMBYTES))) = 2 * MLKEM_SYMBYTES"
    and "length pk = MLKEM_INDCCA_PUBLICKEYBYTES" "length sk = MLKEM_INDCCA_SECRETKEYBYTES"
    and "mlk_kem_check_pk pk_enc = None" "mlk_kem_check_sk sk_dec = None"
  shows "(out_of_memory (kem_keypair_heap False (arena cap) rand pk sk []) \<longleftrightarrow> cap < MLK_TOTAL_ALLOC_768_KEYPAIR_NO_PCT) \<and>
    (out_of_memory (kem_enc_heap (arena cap) rand ct ss pk_enc []) \<longleftrightarrow> cap < MLK_TOTAL_ALLOC_768_ENCAPS) \<and>
    (out_of_memory (kem_dec_heap (arena cap) ss_dec ct_dec sk_dec []) \<longleftrightarrow> cap < MLK_TOTAL_ALLOC_768_DECAPS) \<and>
    (MLK_TOTAL_ALLOC_768_KEYPAIR keygen_pct \<le> cap \<longrightarrow>
       runs_as (kem_keypair_heap keygen_pct (arena cap) rand pk sk []) (kem_keypair_model keygen_pct rand)) \<and>
    (MLK_TOTAL_ALLOC_768_ENCAPS \<le> cap \<longrightarrow> runs_as (kem_enc_heap (arena cap) rand ct ss pk_enc []) (mlk_kem_enc rand pk_enc)) \<and>
    (MLK_TOTAL_ALLOC_768_DECAPS \<le> cap \<longrightarrow> runs_as (kem_dec_heap (arena cap) ss_dec ct_dec sk_dec []) (mlk_kem_dec ct_dec sk_dec))"
proof -
  have oom: "out_of_memory res \<longleftrightarrow> (\<exists>out h. res = Some ((Some MLK_ERR_OUT_OF_MEMORY, out), h))" for res :: "((ret \<times> 'x) \<times> heap) option"
    by (cases res) (auto simp: out_of_memory_def)
  have u: "in_use [] = 0" by (simp add: in_use_def)
  have "out_of_memory (kem_keypair_heap False (arena cap) rand pk sk []) \<longleftrightarrow> cap < MLK_TOTAL_ALLOC_768_KEYPAIR_NO_PCT"
    using keypair_short [where rand = rand, OF arena_empty, of cap pk sk] keypair_served [OF ample_arena, of False cap rand pk sk "[]"] assms(2)
    unfolding oom u by (force simp: total_alloc)
  moreover have "out_of_memory (kem_enc_heap (arena cap) rand ct ss pk_enc []) \<longleftrightarrow> cap < MLK_TOTAL_ALLOC_768_ENCAPS"
    using enc_short [where rand = rand, OF arena_empty, of cap pk_enc ct ss] enc_served [OF ample_arena, of cap rand ct ss pk_enc "[]"] assms(1,6)
    unfolding oom u by (force simp: total_alloc)
  moreover have "out_of_memory (kem_dec_heap (arena cap) ss_dec ct_dec sk_dec []) \<longleftrightarrow> cap < MLK_TOTAL_ALLOC_768_DECAPS"
    using dec_short [OF arena_empty, of cap sk_dec ss_dec ct_dec] dec_served [OF ample_arena, of cap ss_dec ct_dec sk_dec "[]"] assms(7)
    unfolding oom u by (force simp: total_alloc)
  ultimately show ?thesis
    using ample_runs_as [OF ample_arena] assms(3-5) by blast
qed

text \<open>Keys that pass the checks, for the witnesses: the public key of zeroes, and a secret key with its hash.\<close>

definition zero_pk :: bytes where
  "zero_pk = mlk_polyvec_tobytes (replicate MLKEM_K (replicate MLKEM_N 0)) @ replicate 32 0"
definition zero_sk :: bytes where "zero_sk = replicate 1152 0 @ zero_pk @ mlk_hash_h zero_pk @ replicate 32 0"

lemma zero_keys: "mlk_kem_check_pk zero_pk = None" "mlk_kem_check_sk zero_sk = None"
proof -
  let ?v = "replicate MLKEM_K (replicate MLKEM_N 0) :: polyvec"
  have v: "polyvec_all canonical ?v" by (auto simp: polyvec_all_def canonical_def MLKEM_Q_def)
  have "polyvec_all canonical (mlk_polyvec_frombytes zero_pk)"
    unfolding zero_pk_def polyvec_frombytes_tobytes [OF v] by (rule v)
  moreover have "length zero_pk = MLKEM_INDCCA_PUBLICKEYBYTES" by (simp add: zero_pk_def mlk_sizes del: replicate.simps)
  ultimately show "mlk_kem_check_pk zero_pk = None" by (simp add: kem_check_pk_spec)
  have "length zero_sk = 2400" "dk_h zero_sk = mlk_hash_h zero_pk" "dk_ek zero_sk = zero_pk"
    by (simp_all add: zero_sk_def zero_pk_def dk_h_def dk_ek_def del: replicate.simps)
  then show "mlk_kem_check_sk zero_sk = None" by (simp add: kem_check_sk)
qed

lemma kem_total_alloc_witness:
  "out_of_memory (kem_dec_heap (arena 14335) [] [] zero_sk []) \<and>
   \<not> out_of_memory (kem_enc_heap (arena 14335) (\<lambda>n. (1, replicate n 7)) [] [] zero_pk [])"
  using kem_total_alloc [where rand = "\<lambda>n. (1, replicate n 7)" and pk = "replicate 1184 1" and sk = "replicate 2400 1" and cap = 14335,
      OF _ _ _ _ _ zero_keys] by (simp add: mlk_sizes total_alloc del: replicate.simps)

lemma kem_calls_meet_contract_witness:
  "\<exists>pk sk h. kem_keypair_heap False (arena 10175) (\<lambda>n. (1, replicate n 7)) (replicate 1184 1) (replicate 2400 1) [] = Some ((Some MLK_ERR_OUT_OF_MEMORY, pk, sk), h)
     \<and> kem_keypair_ensures (Some MLK_ERR_OUT_OF_MEMORY) (replicate 1184 1, replicate 2400 1) (pk, sk) \<and> tidy 10176 [] h"
proof -
  let ?r = "\<lambda>n. (1, replicate n 7)" let ?p = "replicate 1184 1" let ?s = "replicate 2400 1"
  obtain pk sk h where kp: "kem_keypair_heap False (arena 10175) ?r ?p ?s [] = Some ((Some MLK_ERR_OUT_OF_MEMORY, pk, sk), h)"
    using keypair_short [OF arena_empty, of 10175 ?r ?p ?s] by (auto simp: total_alloc in_use_def)
  obtain he where e: "kem_enc_heap (arena 10175) ?r [] [] zero_pk [] = Some ((Some MLK_ERR_OUT_OF_MEMORY, [], []), he)"
    using fst_returns [OF enc_short [OF arena_empty _ zero_keys(1), of 10175 ?r "[]" "[]"]] by (auto simp: in_use_def)
  obtain hd where d: "kem_dec_heap (arena 10175) [] [] zero_sk [] = Some ((Some MLK_ERR_OUT_OF_MEMORY, []), hd)"
    using fst_returns [OF dec_short [OF arena_empty _ zero_keys(2), of 10175 "[]" "[]"]] by (auto simp: in_use_def)
  show ?thesis
    using kem_calls_meet_contract [OF kp e d] kp by (simp add: mlk_sizes total_alloc del: replicate.simps)
qed

end
