(* ===== verification/Mlk_Contracts.thy ===== *)
theory Mlk_Contracts
  imports Mlk_Pct
begin

text \<open>
  The contracts in the headers of \<open>mlkem_native/src\<close>: the bounds that every arithmetic function requires of its
  arguments and ensures of its results, written there for the CBMC model checker and, in a build with \<open>MLKEM_DEBUG\<close>, checked
  while it runs (\<open>cbmc.h\<close>, \<open>debug.h\<close>, \<open>debug.c\<close>). A contract is the pair of the two conditions; those on
  memory regions (\<open>memory_no_alias\<close>, \<open>assigns\<close>) have no counterpart where buffers are values. The lemmas show that every
  function meets its contract, and that key generation, encryption and decryption of \<open>indcpa.c\<close> never call one
  outside it, whatever the bytes of the key and of the ciphertext.
\<close>

section \<open>Bounds assertions\<close>

definition array_bound :: "int list \<Rightarrow> nat \<Rightarrow> nat \<Rightarrow> int \<Rightarrow> int \<Rightarrow> bool" where
  "array_bound arr qvar_lb qvar_ub value_lb value_ub \<longleftrightarrow>
     (\<forall>qvar \<in> {qvar_lb..<qvar_ub}. value_lb \<le> arr ! qvar \<and> arr ! qvar < value_ub)"

definition array_abs_bound :: "int list \<Rightarrow> nat \<Rightarrow> nat \<Rightarrow> int \<Rightarrow> bool" where
  "array_abs_bound arr lb ub k \<longleftrightarrow> array_bound arr lb ub (- k + 1) k"

text \<open>
  The run-time checks of \<open>debug.c\<close>: what is printed, and whether the process ends with \<open>exit(1)\<close>.
  The file name and the line of the messages are left out.
\<close>

datatype debug_message = Assertion_failed int | Out_of_bounds nat int int int

type_synonym debug = "debug_message list \<times> bool"

definition mlk_debug_check_assert :: "int \<Rightarrow> debug" where
  "mlk_debug_check_assert val = (if val = 0 then ([Assertion_failed val], True) else ([], False))"

definition mlk_debug_check_bounds :: "int list \<Rightarrow> nat \<Rightarrow> int \<Rightarrow> int \<Rightarrow> debug" where
  "mlk_debug_check_bounds ptr len lower_bound_exclusive upper_bound_exclusive =
     (let (out, err) = foldl (\<lambda>(out, err) i.
            let val = ptr ! i
            in if \<not> (val > lower_bound_exclusive \<and> val < upper_bound_exclusive)
               then (out @ [Out_of_bounds i val lower_bound_exclusive upper_bound_exclusive], True)
               else (out, err)) ([], False) [0..<len]
      in (out, err))"

definition mlk_assert_bound :: "int list \<Rightarrow> nat \<Rightarrow> int \<Rightarrow> int \<Rightarrow> debug" where
  "mlk_assert_bound ptr len value_lb value_ub = mlk_debug_check_bounds ptr len (value_lb - 1) value_ub"

definition mlk_assert_abs_bound :: "int list \<Rightarrow> nat \<Rightarrow> int \<Rightarrow> debug" where
  "mlk_assert_abs_bound ptr len value_abs_bd = mlk_assert_bound ptr len (- value_abs_bd + 1) value_abs_bd"

lemma check_bounds:
  "mlk_debug_check_bounds ptr len lo hi =
     (map (\<lambda>i. Out_of_bounds i (ptr ! i) lo hi) (filter (\<lambda>i. \<not> (lo < ptr ! i \<and> ptr ! i < hi)) [0..<len]),
      \<exists>i < len. \<not> (lo < ptr ! i \<and> ptr ! i < hi))"
  by (induction len) (auto simp: mlk_debug_check_bounds_def Let_def less_Suc_eq)

lemma array_abs_bound_iff: "array_abs_bound arr lb ub k \<longleftrightarrow> (\<forall>j \<in> {lb..<ub}. \<bar>arr ! j\<bar> < k)"
proof -
  have "- k + 1 \<le> x \<and> x < k \<longleftrightarrow> \<bar>x\<bar> < k" for x :: int by arith
  then show ?thesis by (simp only: array_abs_bound_def array_bound_def)
qed

text \<open>The run-time check and the condition of the contract are the same: the process ends exactly when a bound is violated.\<close>

theorem debug_checks_bound:
  "snd (mlk_assert_bound ptr len lb ub) \<longleftrightarrow> \<not> array_bound ptr 0 len lb ub"
  "snd (mlk_assert_abs_bound ptr len bd) \<longleftrightarrow> \<not> array_abs_bound ptr 0 len bd"
  "fst (mlk_assert_bound ptr len lb ub) = [] \<longleftrightarrow> array_bound ptr 0 len lb ub"
proof -
  have e: "l - 1 < x \<longleftrightarrow> l \<le> x" for l x :: int by auto
  have a: "snd (mlk_assert_bound ptr len lb ub) \<longleftrightarrow> \<not> array_bound ptr 0 len lb ub" for lb ub
    by (auto simp: mlk_assert_bound_def check_bounds array_bound_def e)
  then show "snd (mlk_assert_bound ptr len lb ub) \<longleftrightarrow> \<not> array_bound ptr 0 len lb ub" .
  show "snd (mlk_assert_abs_bound ptr len bd) \<longleftrightarrow> \<not> array_abs_bound ptr 0 len bd"
    unfolding mlk_assert_abs_bound_def array_abs_bound_def by (rule a)
  show "fst (mlk_assert_bound ptr len lb ub) = [] \<longleftrightarrow> array_bound ptr 0 len lb ub"
    by (auto simp: mlk_assert_bound_def check_bounds array_bound_def e filter_empty_conv)
qed

lemma array_bound_set: "length p = n \<Longrightarrow> array_bound p 0 n lb ub \<longleftrightarrow> (\<forall>x \<in> set p. lb \<le> x \<and> x < ub)"
  by (auto simp: array_bound_def all_set_conv_all_nth)

lemma array_abs_bound_set: "length p = n \<Longrightarrow> array_abs_bound p 0 n k \<longleftrightarrow> abs_bound k p"
  by (auto simp: array_abs_bound_def array_bound_set abs_bound_def)

lemma array_bound_mono: "array_bound p lb ub l h \<Longrightarrow> l' \<le> l \<Longrightarrow> h \<le> h' \<Longrightarrow> array_bound p lb ub l' h'"
  by (fastforce simp: array_bound_def)

section \<open>Contracts\<close>

type_synonym ('a, 'b) contract = "('a \<Rightarrow> bool) \<times> ('a \<Rightarrow> 'b \<Rightarrow> bool)"

text \<open>A function meets a contract on the arguments of its C type.\<close>

definition meets :: "('a \<Rightarrow> 'b) \<Rightarrow> ('a, 'b) contract \<Rightarrow> ('a \<Rightarrow> bool) \<Rightarrow> bool" where
  "meets f C type \<longleftrightarrow> (\<forall>x. type x \<longrightarrow> fst C x \<longrightarrow> snd C x (f x))"

text \<open>A call in a build that checks contracts: \<open>None\<close> is the end of the process.\<close>

definition checked :: "('a, 'b) contract \<Rightarrow> ('a \<Rightarrow> 'b) \<Rightarrow> 'a \<Rightarrow> 'b option" where
  "checked C f x = (if fst C x then let r = f x in if snd C x r then Some r else None else None)"

lemma checked_meets: "meets f C type \<Longrightarrow> type x \<Longrightarrow> fst C x \<Longrightarrow> checked C f x = Some (f x)"
  by (simp add: meets_def checked_def)

subsection \<open>poly.h and poly.c\<close>

definition montgomery_reduce_contract :: "(int, int) contract" where
  "montgomery_reduce_contract = (\<lambda>a. a < 2147483647 - push_bit 15 1 * MLKEM_Q \<and> a > - (2147483647 - push_bit 15 1 * MLKEM_Q), \<lambda>a r. True)"

definition fqmul_contract :: "(int \<times> int, int) contract" where
  "fqmul_contract = (\<lambda>(a, b). b > - MLKEM_Q_HALF \<and> b < MLKEM_Q_HALF, \<lambda>_ r. r > - MLKEM_Q \<and> r < MLKEM_Q)"

definition barrett_reduce_contract :: "(int, int) contract" where
  "barrett_reduce_contract = (\<lambda>a. True, \<lambda>a r. r > - MLKEM_Q_HALF \<and> r < MLKEM_Q_HALF)"

definition scalar_signed_to_unsigned_q_contract :: "(int, int) contract" where
  "scalar_signed_to_unsigned_q_contract =
     (\<lambda>c. c > - MLKEM_Q \<and> c < MLKEM_Q, \<lambda>c r. r \<ge> 0 \<and> r < MLKEM_Q \<and> r = c + (if c < 0 then 1 else 0) * MLKEM_Q)"

definition poly_tomont_contract :: "(poly, poly) contract" where
  "poly_tomont_contract = (\<lambda>r. True, \<lambda>_ r. array_abs_bound r 0 MLKEM_N MLKEM_Q)"

definition poly_reduce_contract :: "(poly, poly) contract" where
  "poly_reduce_contract = (\<lambda>r. True, \<lambda>_ r. array_bound r 0 MLKEM_N 0 MLKEM_Q)"

definition poly_add_contract :: "(poly \<times> poly, poly) contract" where
  "poly_add_contract =
     (\<lambda>(r, b). (\<forall>k0 \<in> {0..<MLKEM_N}. r ! k0 + b ! k0 \<le> 32767) \<and> (\<forall>k1 \<in> {0..<MLKEM_N}. r ! k1 + b ! k1 \<ge> - 32768),
      \<lambda>(r, b) r'. \<forall>k \<in> {0..<MLKEM_N}. r' ! k = r ! k + b ! k)"

definition poly_sub_contract :: "(poly \<times> poly, poly) contract" where
  "poly_sub_contract =
     (\<lambda>(r, b). (\<forall>k0 \<in> {0..<MLKEM_N}. r ! k0 - b ! k0 \<le> 32767) \<and> (\<forall>k1 \<in> {0..<MLKEM_N}. r ! k1 - b ! k1 \<ge> - 32768),
      \<lambda>(r, b) r'. \<forall>k \<in> {0..<MLKEM_N}. r' ! k = r ! k - b ! k)"

definition poly_ntt_contract :: "(poly, poly) contract" where
  "poly_ntt_contract = (\<lambda>r. array_abs_bound r 0 MLKEM_N MLKEM_Q, \<lambda>_ r. array_abs_bound r 0 MLKEM_N MLK_NTT_BOUND)"

definition poly_invntt_tomont_contract :: "(poly, poly) contract" where
  "poly_invntt_tomont_contract = (\<lambda>r. True, \<lambda>_ r. array_abs_bound r 0 MLKEM_N MLK_INVNTT_BOUND)"

definition ntt_butterfly_block_contract :: "int \<Rightarrow> (poly \<times> int \<times> nat \<times> nat, poly) contract" where
  "ntt_butterfly_block_contract bound =
     (\<lambda>(r, zeta, start, len).
        start < MLKEM_N \<and> 1 \<le> len \<and> len \<le> MLKEM_N div 2 \<and> start + 2 * len \<le> MLKEM_N \<and>
        0 \<le> bound \<and> bound < 32767 - MLKEM_Q \<and> - MLKEM_Q_HALF < zeta \<and> zeta < MLKEM_Q_HALF \<and>
        array_abs_bound r 0 start (bound + MLKEM_Q) \<and> array_abs_bound r start MLKEM_N bound,
      \<lambda>(r, zeta, start, len) r'.
        array_abs_bound r' 0 (start + 2 * len) (bound + MLKEM_Q) \<and> array_abs_bound r' (start + 2 * len) MLKEM_N bound)"

definition ntt_layer_contract :: "(poly \<times> nat, poly) contract" where
  "ntt_layer_contract =
     (\<lambda>(r, layer). 1 \<le> layer \<and> layer \<le> 7 \<and> array_abs_bound r 0 MLKEM_N (int layer * MLKEM_Q),
      \<lambda>(r, layer) r'. array_abs_bound r' 0 MLKEM_N ((int layer + 1) * MLKEM_Q))"

definition invntt_layer_contract :: "(poly \<times> nat, poly) contract" where
  "invntt_layer_contract =
     (\<lambda>(r, layer). 1 \<le> layer \<and> layer \<le> 7 \<and> array_abs_bound r 0 MLKEM_N MLKEM_Q,
      \<lambda>(r, layer) r'. array_abs_bound r' 0 MLKEM_N MLKEM_Q)"

text \<open>The C types: a 16-bit integer, an array of 256 of them, a pair of such arrays.\<close>

lemma meets_scalar:
  "meets (\<lambda>(a, b). mlk_fqmul a b) fqmul_contract (\<lambda>(a, b). is_i16 a \<and> is_i16 b)"
  "meets mlk_barrett_reduce barrett_reduce_contract is_i16"
  "meets mlk_scalar_signed_to_unsigned_q scalar_signed_to_unsigned_q_contract is_i16"
proof -
  show "meets (\<lambda>(a, b). mlk_fqmul a b) fqmul_contract (\<lambda>(a, b). is_i16 a \<and> is_i16 b)"
    using fqmul(2) by (fastforce simp: meets_def fqmul_contract_def mlk_q abs_less_iff)
  show "meets mlk_barrett_reduce barrett_reduce_contract is_i16"
    using barrett_reduce(2) by (fastforce simp: meets_def barrett_reduce_contract_def mlk_q)
  show "meets mlk_scalar_signed_to_unsigned_q scalar_signed_to_unsigned_q_contract is_i16"
    unfolding meets_def scalar_signed_to_unsigned_q_contract_def
  proof (intro allI impI)
    fix c assume "is_i16 c" and "fst (\<lambda>c. c > - MLKEM_Q \<and> c < MLKEM_Q, \<lambda>c r. r \<ge> 0 \<and> r < MLKEM_Q \<and> r = c + (if c < 0 then 1 else 0) * MLKEM_Q) c"
    then have c: "- 3329 < c" "c < 3329" by (simp_all add: MLKEM_Q_def)
    then have "c mod 3329 = (if c < 0 then c + 3329 else c)" using mod_pos_pos_trivial [of "c + 3329" 3329] by auto
    then show "snd (\<lambda>c. c > - MLKEM_Q \<and> c < MLKEM_Q, \<lambda>c r. r \<ge> 0 \<and> r < MLKEM_Q \<and> r = c + (if c < 0 then 1 else 0) * MLKEM_Q) c (mlk_scalar_signed_to_unsigned_q c)"
      using signed_to_unsigned_q [of c] c by (simp add: MLKEM_Q_def)
  qed
qed

lemma coeffs16_abs: "coeffs16 p \<Longrightarrow> array_abs_bound p 0 MLKEM_N k \<longleftrightarrow> abs_bound k p"
  by (simp add: coeffs16_def array_abs_bound_set)

lemma meets_poly:
  "meets mlk_poly_tomont poly_tomont_contract coeffs16"
  "meets mlk_poly_reduce poly_reduce_contract coeffs16"
  "meets mlk_poly_ntt poly_ntt_contract coeffs16"
  "meets mlk_poly_invntt_tomont poly_invntt_tomont_contract coeffs16"
proof -
  show "meets mlk_poly_tomont poly_tomont_contract coeffs16"
    using poly_tomont(1,2) by (auto simp: meets_def poly_tomont_contract_def array_abs_bound_set MLKEM_N_def MLKEM_Q_def)
  show "meets mlk_poly_reduce poly_reduce_contract coeffs16"
    using poly_reduce_canonical by (auto simp: meets_def poly_reduce_contract_def canonical_def array_bound_set)
  show "meets mlk_poly_ntt poly_ntt_contract coeffs16"
    using poly_ntt(1,2)
    by (auto simp: meets_def poly_ntt_contract_def coeffs16_abs array_abs_bound_set coeffs16_def MLKEM_N_def MLKEM_Q_def MLK_NTT_BOUND_def)
  have "abs_bound 26632 (mlk_poly_invntt_tomont p)" if "coeffs16 p" for p
    using invntt_eval(2) [of p] that by (auto simp: coeffs16_def MLKEM_N_def abs_bound_def)
  then show "meets mlk_poly_invntt_tomont poly_invntt_tomont_contract coeffs16"
    using invntt_eval(1)
    by (auto simp: meets_def poly_invntt_tomont_contract_def array_abs_bound_set coeffs16_def MLKEM_N_def MLKEM_Q_def MLK_INVNTT_BOUND_def)
qed

lemma meets_add_sub:
  "meets (\<lambda>(r, b). mlk_poly_add r b) poly_add_contract (\<lambda>(r, b). coeffs16 r \<and> coeffs16 b)"
  "meets (\<lambda>(r, b). mlk_poly_sub r b) poly_sub_contract (\<lambda>(r, b). coeffs16 r \<and> coeffs16 b)"
  by (auto simp: meets_def poly_add_contract_def poly_sub_contract_def mlk_poly_add_def mlk_poly_sub_def coeffs16_def MLKEM_N_def
      is_i16_def intro!: to_i16_id)

lemma meets_layers:
  "meets (\<lambda>(r, l). mlk_ntt_layer r l) ntt_layer_contract (\<lambda>(r, l). coeffs16 r)"
  "meets (\<lambda>(r, l). mlk_invntt_layer r l) invntt_layer_contract (\<lambda>(r, l). coeffs16 r)"
proof -
  show "meets (\<lambda>(r, l). mlk_ntt_layer r l) ntt_layer_contract (\<lambda>(r, l). coeffs16 r)"
    unfolding meets_def
  proof (clarify, goal_cases)
    case (1 r l)
    then have r: "length r = 256" "1 \<le> l" "l \<le> 7" "abs_bound (int l * 3329) r"
      by (simp_all add: ntt_layer_contract_def coeffs16_abs coeffs16_def MLKEM_N_def MLKEM_Q_def array_abs_bound_set)
    then have "int l * 3329 \<le> 7 * 3329" by simp
    from ntt_layer_bound [OF r this] show ?case
      by (simp add: ntt_layer_contract_def array_abs_bound_set MLKEM_N_def MLKEM_Q_def algebra_simps)
  qed
  show "meets (\<lambda>(r, l). mlk_invntt_layer r l) invntt_layer_contract (\<lambda>(r, l). coeffs16 r)"
    unfolding meets_def
  proof (clarify, goal_cases)
    case (1 r l)
    then have r: "length r = 256" "abs_bound 3329 r" "set [l] \<subseteq> {1..7}"
      by (simp_all add: invntt_layer_contract_def coeffs16_abs coeffs16_def MLKEM_N_def MLKEM_Q_def array_abs_bound_set)
    from invntt_layers_bound [OF r] show ?case
      by (simp add: invntt_layer_contract_def array_abs_bound_set MLKEM_N_def MLKEM_Q_def)
  qed
qed

lemma meets_butterfly_block:
  "meets (\<lambda>(r, zeta, start, len). mlk_ntt_butterfly_block r zeta start len) (ntt_butterfly_block_contract bound) (\<lambda>(r, _). coeffs16 r)"
  unfolding meets_def
proof (clarify, goal_cases)
  case (1 r z s len)
  have c: "coeffs16 r" and len: "0 < len" "s + 2 * len \<le> 256" and b: "0 \<le> bound" "bound < 29438" and z: "\<bar>z\<bar> < 1665"
    and lo: "\<And>j. j < s \<Longrightarrow> \<bar>r ! j\<bar> < bound + 3329" and hi: "\<And>j. s \<le> j \<Longrightarrow> j < 256 \<Longrightarrow> \<bar>r ! j\<bar> < bound"
    using 1 by (auto simp: ntt_butterfly_block_contract_def array_abs_bound_iff mlk_q MLKEM_N_def)
  have r: "length r = 256" using c by (simp add: coeffs16_def MLKEM_N_def)
  let ?A = "\<lambda>x y. to_i16 (x + mlk_fqmul y z)" and ?B = "\<lambda>x y. to_i16 (x - mlk_fqmul y z)"
  have step: "mlk_ntt_butterfly z len = pair_step ?A ?B len"
    by (intro ext) (auto simp: mlk_ntt_butterfly_def pair_step_def Let_def list_update_swap len)
  have n: "mlk_ntt_butterfly_block r z s len ! j =
    (if s \<le> j \<and> j < s + len then ?A (r ! j) (r ! (j + len))
     else if s + len \<le> j \<and> j < s + len + len then ?B (r ! (j - len)) (r ! j) else r ! j)" if "j < 256" for j
    unfolding mlk_ntt_butterfly_block_def step
    by (rule nth_pair_steps) (use len r that in auto)
  have f: "\<bar>mlk_fqmul y z\<bar> < 3329" if "y \<in> set r" for y
    using fqmul(2) [OF _ z] c that by (simp add: coeffs16_def)
  have out: "\<bar>?A x y\<bar> < bound + 3329 \<and> \<bar>?B x y\<bar> < bound + 3329" if "\<bar>x\<bar> < bound" "y \<in> set r" for x y
  proof -
    have "\<bar>x + mlk_fqmul y z\<bar> < bound + 3329" "\<bar>x - mlk_fqmul y z\<bar> < bound + 3329" using f [OF that(2)] that(1) by linarith+
    then show ?thesis using b(2) by (simp add: to_i16_id is_i16_def abs_less_iff)
  qed
  have low: "\<bar>mlk_ntt_butterfly_block r z s len ! j\<bar> < bound + 3329" if "j < s + 2 * len" for j
  proof -
    have "j < 256" using that len by simp
    note n = n [OF this]
    consider "j < s" | "s \<le> j \<and> j < s + len" | "s + len \<le> j" by linarith
    then show ?thesis
    proof cases
      case 1
      then show ?thesis using n lo by simp
    next
      case 2
      then show ?thesis using n out [OF hi nth_mem, of j "j + len"] that len r by simp
    next
      case 3
      then show ?thesis using n out [OF hi nth_mem, of "j - len" j] that len r by simp
    qed
  qed
  have "\<bar>mlk_ntt_butterfly_block r z s len ! j\<bar> < bound" if "s + 2 * len \<le> j" "j < 256" for j
    using n [of j] hi [of j] that by simp
  with low show ?case
    by (simp add: ntt_butterfly_block_contract_def array_abs_bound_iff mlk_q MLKEM_N_def)
qed

subsection \<open>compress.h\<close>

definition scalar_compress_contract :: "nat \<Rightarrow> (int, 'w :: len word) contract" where
  "scalar_compress_contract d =
     (\<lambda>u. 0 \<le> u \<and> u \<le> MLKEM_Q - 1,
      \<lambda>u r. uint r < 2 ^ d \<and> uint r = ((u * 2 ^ d + MLKEM_Q div 2) div MLKEM_Q) mod 2 ^ d)"

definition scalar_decompress_contract :: "nat \<Rightarrow> ('w :: len word, int) contract" where
  "scalar_decompress_contract d = (\<lambda>u. 0 \<le> uint u \<and> uint u < 2 ^ d, \<lambda>u r. 0 \<le> r \<and> r \<le> MLKEM_Q - 1)"

definition poly_compress_contract :: "(poly, bytes) contract" where
  "poly_compress_contract = (\<lambda>a. array_bound a 0 MLKEM_N 0 MLKEM_Q, \<lambda>a r. True)"

definition poly_decompress_contract :: "(bytes, poly) contract" where
  "poly_decompress_contract = (\<lambda>a. True, \<lambda>a r. array_bound r 0 MLKEM_N 0 MLKEM_Q)"

definition poly_tobytes_contract :: "(poly, bytes) contract" where
  "poly_tobytes_contract = (\<lambda>a. array_bound a 0 MLKEM_N 0 MLKEM_Q, \<lambda>a r. True)"

definition poly_frombytes_contract :: "(bytes, poly) contract" where
  "poly_frombytes_contract = (\<lambda>a. True, \<lambda>a r. array_bound r 0 MLKEM_N 0 MLKEM_UINT12_LIMIT)"

definition poly_frommsg_contract :: "(bytes, poly) contract" where
  "poly_frommsg_contract = (\<lambda>msg. True, \<lambda>msg r. array_bound r 0 MLKEM_N 0 MLKEM_Q)"

definition poly_tomsg_contract :: "(poly, bytes) contract" where
  "poly_tomsg_contract = (\<lambda>r. array_bound r 0 MLKEM_N 0 MLKEM_Q, \<lambda>r msg. True)"

lemma meets_scalar_compress:
  "meets mlk_scalar_compress_d1 (scalar_compress_contract 1) is_i16"
  "meets mlk_scalar_compress_d4 (scalar_compress_contract 4) is_i16"
  "meets mlk_scalar_compress_d5 (scalar_compress_contract 5) is_i16"
  "meets mlk_scalar_compress_d10 (scalar_compress_contract 10) is_i16"
  "meets mlk_scalar_compress_d11 (scalar_compress_contract 11) is_i16"
  using scalar_compress by (auto simp: meets_def scalar_compress_contract_def compress_q_def MLKEM_Q_def)

lemma decompress_range:
  assumes "uint u < 2 ^ d" "0 < d" "d \<le> 11"
  shows "0 \<le> decompress_q d (uint u) \<and> decompress_q d (uint u) \<le> 3328"
  using compress_decompress_q(2,3) [of d "uint u"] assms by simp

lemma meets_scalar_decompress:
  "meets mlk_scalar_decompress_d4 (scalar_decompress_contract 4) (\<lambda>u. True)"
  "meets mlk_scalar_decompress_d5 (scalar_decompress_contract 5) (\<lambda>u. True)"
  "meets mlk_scalar_decompress_d10 (scalar_decompress_contract 10) (\<lambda>u. True)"
  "meets mlk_scalar_decompress_d11 (scalar_decompress_contract 11) (\<lambda>u. True)"
  using decompress_range [where d = 4] decompress_range [where d = 5] decompress_range [where d = 10] decompress_range [where d = 11]
  by (auto simp: meets_def scalar_decompress_contract_def scalar_decompress MLKEM_Q_def)

text \<open>The masks of decompression keep every field within its width, whatever the bytes.\<close>

lemma mask_width:
  "uint (w AND 0xF :: byte) < 2 ^ 4" "uint (0x1F AND w :: byte) < 2 ^ 5" "uint (0x3FF AND v :: u16) < 2 ^ 10" "uint (0x7FF AND v :: u16) < 2 ^ 11"
proof -
  have m: "w AND 0xF = take_bit 4 w" "0x1F AND w = take_bit 5 w" "0x3FF AND v = take_bit 10 v" "0x7FF AND v = take_bit 11 v"
    by (simp_all add: take_bit_eq_mask mask_eq_exp_minus_1 and.commute)
  show "uint (w AND 0xF) < 2 ^ 4" "uint (0x1F AND w) < 2 ^ 5" "uint (0x3FF AND v) < 2 ^ 10" "uint (0x7FF AND v) < 2 ^ 11"
    unfolding m unsigned_take_bit_eq by (rule take_bit_int_less_exp)+
qed

lemma decompress_fields:
  "c \<in> set (mlk_poly_decompress_d4 a) \<Longrightarrow> \<exists>u. uint u < 2 ^ 4 \<and> c = mlk_scalar_decompress_d4 u"
  "c \<in> set (mlk_poly_decompress_d5 a) \<Longrightarrow> \<exists>u. uint u < 2 ^ 5 \<and> c = mlk_scalar_decompress_d5 u"
  "c \<in> set (mlk_poly_decompress_d10 a) \<Longrightarrow> \<exists>u. uint u < 2 ^ 10 \<and> c = mlk_scalar_decompress_d10 u"
  "c \<in> set (mlk_poly_decompress_d11 a) \<Longrightarrow> \<exists>u. uint u < 2 ^ 11 \<and> c = mlk_scalar_decompress_d11 u"
proof -
  show "\<exists>u. uint u < 2 ^ 4 \<and> c = mlk_scalar_decompress_d4 u" if c: "c \<in> set (mlk_poly_decompress_d4 a)"
    using c unfolding mlk_poly_decompress_d4_def set_concat set_map by (elim UN_E imageE) (use mask_width(1) in auto)
  show "\<exists>u. uint u < 2 ^ 5 \<and> c = mlk_scalar_decompress_d5 u" if c: "c \<in> set (mlk_poly_decompress_d5 a)"
    using c unfolding mlk_poly_decompress_d5_def decompress_d5_block_def Let_def set_concat set_map
    by (elim UN_E imageE) (use mask_width(2) in auto)
  show "\<exists>u. uint u < 2 ^ 10 \<and> c = mlk_scalar_decompress_d10 u" if c: "c \<in> set (mlk_poly_decompress_d10 a)"
    using c unfolding mlk_poly_decompress_d10_def decompress_d10_block_def Let_def set_concat set_map
    by (elim UN_E imageE) (use mask_width(3) in auto)
  show "\<exists>u. uint u < 2 ^ 11 \<and> c = mlk_scalar_decompress_d11 u" if c: "c \<in> set (mlk_poly_decompress_d11 a)"
    using c unfolding mlk_poly_decompress_d11_def decompress_d11_block_def Let_def set_concat set_map
    by (elim UN_E imageE) (use mask_width(4) in auto)
qed

lemma length_decompress:
  "length (mlk_poly_decompress_d4 a) = 256" "length (mlk_poly_decompress_d5 a) = 256"
  "length (mlk_poly_decompress_d10 a) = 256" "length (mlk_poly_decompress_d11 a) = 256"
proof -
  show "length (mlk_poly_decompress_d4 a) = 256"
    unfolding mlk_poly_decompress_d4_def by (subst length_concat_blocks [where w = 2]) (auto simp: MLKEM_N_def)
  show "length (mlk_poly_decompress_d5 a) = 256"
    unfolding mlk_poly_decompress_d5_def by (subst length_concat_blocks [where w = 8]) (auto simp: MLKEM_N_def decompress_d5_block_def Let_def)
  show "length (mlk_poly_decompress_d10 a) = 256"
    unfolding mlk_poly_decompress_d10_def by (subst length_concat_blocks [where w = 4]) (auto simp: MLKEM_N_def decompress_d10_block_def Let_def)
  show "length (mlk_poly_decompress_d11 a) = 256"
    unfolding mlk_poly_decompress_d11_def by (subst length_concat_blocks [where w = 8]) (auto simp: MLKEM_N_def decompress_d11_block_def Let_def)
qed

lemma decompress_canonical:
  "canonical (mlk_poly_decompress_d4 a)" "canonical (mlk_poly_decompress_d5 a)"
  "canonical (mlk_poly_decompress_d10 a)" "canonical (mlk_poly_decompress_d11 a)"
proof -
  have r: "0 \<le> c \<and> c < 3329" if "\<exists>u. uint u < 2 ^ d \<and> c = f u" "meets f (scalar_decompress_contract d) (\<lambda>u. True)" for c d f
    using that by (auto simp: meets_def scalar_decompress_contract_def MLKEM_Q_def)
  show "canonical (mlk_poly_decompress_d4 a)" "canonical (mlk_poly_decompress_d5 a)"
    "canonical (mlk_poly_decompress_d10 a)" "canonical (mlk_poly_decompress_d11 a)"
    using r [OF decompress_fields(1) meets_scalar_decompress(1)] r [OF decompress_fields(2) meets_scalar_decompress(2)]
      r [OF decompress_fields(3) meets_scalar_decompress(3)] r [OF decompress_fields(4) meets_scalar_decompress(4)]
    by (auto simp: canonical_def MLKEM_N_def MLKEM_Q_def length_decompress)
qed

lemma canonical_iff: "length p = 256 \<Longrightarrow> canonical p \<longleftrightarrow> array_bound p 0 MLKEM_N 0 MLKEM_Q"
  by (simp add: canonical_def array_bound_set MLKEM_N_def)

lemma canonical_array_bound: "canonical p \<Longrightarrow> array_bound p 0 MLKEM_N 0 MLKEM_Q"
  by (simp add: canonical_def array_bound_set)

lemma frommsg_canonical: "canonical (mlk_poly_frommsg m)"
proof -
  have "0 \<le> c \<and> c < 3329" if "c \<in> set (mlk_poly_frommsg m)" for c
    using that by (auto simp: mlk_poly_frommsg_def frommsg_coeff split: if_splits)
  moreover have "length (mlk_poly_frommsg m) = 256" using frommsg_reduced by (simp add: reduced_def)
  ultimately show ?thesis by (simp add: canonical_def MLKEM_N_def MLKEM_Q_def)
qed

lemma meets_compress:
  "meets mlk_poly_decompress_d4 poly_decompress_contract (\<lambda>a. True)" "meets mlk_poly_decompress_d5 poly_decompress_contract (\<lambda>a. True)"
  "meets mlk_poly_decompress_d10 poly_decompress_contract (\<lambda>a. True)" "meets mlk_poly_decompress_d11 poly_decompress_contract (\<lambda>a. True)"
  "meets mlk_poly_frombytes poly_frombytes_contract (\<lambda>a. length a = MLKEM_POLYBYTES)"
  "meets mlk_poly_frommsg poly_frommsg_contract (\<lambda>msg. True)"
  using coeffs12_frombytes
  by (auto simp: meets_def poly_decompress_contract_def poly_frombytes_contract_def poly_frommsg_contract_def
      decompress_canonical frommsg_canonical canonical_array_bound coeffs12_def array_bound_set MLKEM_POLYBYTES_def)

subsection \<open>poly_k.h, sampling.h and indcpa.h\<close>

text \<open>The two-dimensional bounds: every polynomial of a vector.\<close>

definition polyvec_bound :: "polyvec \<Rightarrow> int \<Rightarrow> int \<Rightarrow> bool" where
  "polyvec_bound v value_lb value_ub \<longleftrightarrow> (\<forall>k0 \<in> {0..<MLKEM_K}. array_bound (v ! k0) 0 MLKEM_N value_lb value_ub)"

definition polyvec_abs_bound :: "polyvec \<Rightarrow> int \<Rightarrow> bool" where
  "polyvec_abs_bound v k \<longleftrightarrow> (\<forall>k0 \<in> {0..<MLKEM_K}. array_abs_bound (v ! k0) 0 MLKEM_N k)"

definition poly_compress_du_contract :: "(poly, bytes) contract" where
  "poly_compress_du_contract = (\<lambda>a. array_bound a 0 MLKEM_N 0 MLKEM_Q, \<lambda>a r. True)"

definition poly_decompress_du_contract :: "(bytes, poly) contract" where
  "poly_decompress_du_contract = (\<lambda>a. True, \<lambda>a r. array_bound r 0 MLKEM_N 0 MLKEM_Q)"

definition poly_compress_dv_contract :: "(poly, bytes) contract" where
  "poly_compress_dv_contract = (\<lambda>a. array_bound a 0 MLKEM_N 0 MLKEM_Q, \<lambda>a r. True)"

definition poly_decompress_dv_contract :: "(bytes, poly) contract" where
  "poly_decompress_dv_contract = (\<lambda>a. True, \<lambda>a r. array_bound r 0 MLKEM_N 0 MLKEM_Q)"

definition polyvec_compress_du_contract :: "(polyvec, bytes) contract" where
  "polyvec_compress_du_contract = (\<lambda>a. polyvec_bound a 0 MLKEM_Q, \<lambda>a r. True)"

definition polyvec_decompress_du_contract :: "(bytes, polyvec) contract" where
  "polyvec_decompress_du_contract = (\<lambda>a. True, \<lambda>a r. polyvec_bound r 0 MLKEM_Q)"

definition polyvec_tobytes_contract :: "(polyvec, bytes) contract" where
  "polyvec_tobytes_contract = (\<lambda>a. polyvec_bound a 0 MLKEM_Q, \<lambda>a r. True)"

definition polyvec_frombytes_contract :: "(bytes, polyvec) contract" where
  "polyvec_frombytes_contract = (\<lambda>a. True, \<lambda>a r. polyvec_bound r 0 MLKEM_UINT12_LIMIT)"

definition polyvec_ntt_contract :: "(polyvec, polyvec) contract" where
  "polyvec_ntt_contract = (\<lambda>r. polyvec_abs_bound r MLKEM_Q, \<lambda>_ r. polyvec_abs_bound r MLK_NTT_BOUND)"

definition polyvec_invntt_tomont_contract :: "(polyvec, polyvec) contract" where
  "polyvec_invntt_tomont_contract = (\<lambda>r. True, \<lambda>_ r. polyvec_abs_bound r MLK_INVNTT_BOUND)"

definition polyvec_basemul_acc_montgomery_cached_contract :: "(polyvec \<times> polyvec \<times> mulcache list, poly) contract" where
  "polyvec_basemul_acc_montgomery_cached_contract = (\<lambda>(a, b, b_cache). polyvec_bound a 0 MLKEM_UINT12_LIMIT, \<lambda>_ r. True)"

definition polyvec_reduce_contract :: "(polyvec, polyvec) contract" where
  "polyvec_reduce_contract = (\<lambda>r. True, \<lambda>_ r. polyvec_bound r 0 MLKEM_Q)"

definition polyvec_add_contract :: "(polyvec \<times> polyvec, polyvec) contract" where
  "polyvec_add_contract =
     (\<lambda>(r, b). (\<forall>j0 \<in> {0..<MLKEM_K}. \<forall>k0 \<in> {0..<MLKEM_N}. r ! j0 ! k0 + b ! j0 ! k0 \<le> 32767) \<and>
               (\<forall>j1 \<in> {0..<MLKEM_K}. \<forall>k1 \<in> {0..<MLKEM_N}. r ! j1 ! k1 + b ! j1 ! k1 \<ge> - 32768),
      \<lambda>_ r. True)"

definition polyvec_tomont_contract :: "(polyvec, polyvec) contract" where
  "polyvec_tomont_contract = (\<lambda>r. True, \<lambda>_ r. polyvec_abs_bound r MLKEM_Q)"

definition poly_getnoise_eta1_4x_contract :: "(bool \<times> bytes \<times> byte \<times> byte \<times> byte \<times> byte, poly list) contract" where
  "poly_getnoise_eta1_4x_contract =
     (\<lambda>_. True,
      \<lambda>(r3, _) r. array_abs_bound (r ! 0) 0 MLKEM_N (int MLKEM_ETA1 + 1) \<and> array_abs_bound (r ! 1) 0 MLKEM_N (int MLKEM_ETA1 + 1) \<and>
        array_abs_bound (r ! 2) 0 MLKEM_N (int MLKEM_ETA1 + 1) \<and> (r3 \<longrightarrow> array_abs_bound (r ! 3) 0 MLKEM_N (int MLKEM_ETA1 + 1)))"

definition poly_getnoise_eta2_contract :: "(bytes \<times> byte, poly) contract" where
  "poly_getnoise_eta2_contract = (\<lambda>_. True, \<lambda>_ r. array_abs_bound r 0 MLKEM_N (int MLKEM_ETA2 + 1))"

definition poly_getnoise_eta1122_4x_contract :: "(bytes \<times> byte \<times> byte \<times> byte \<times> byte, poly \<times> poly \<times> poly \<times> poly) contract" where
  "poly_getnoise_eta1122_4x_contract =
     (\<lambda>_. True,
      \<lambda>_ (r0, r1, r2, r3). array_abs_bound r0 0 MLKEM_N (3 + 1) \<and> array_abs_bound r1 0 MLKEM_N (3 + 1) \<and>
        array_abs_bound r2 0 MLKEM_N (int MLKEM_ETA2 + 1) \<and> array_abs_bound r3 0 MLKEM_N (int MLKEM_ETA2 + 1))"

text \<open>The functions of \<open>sampling.c\<close> and \<open>mlk_gen_matrix\<close> may not return: the condition is on what they return.\<close>

definition rej_uniform_contract :: "(poly \<times> nat \<times> nat \<times> bytes \<times> nat, poly \<times> nat) contract" where
  "rej_uniform_contract =
     (\<lambda>(r, target, offset, buf, buflen). offset \<le> target \<and> target \<le> 4096 \<and> buflen \<le> 4096 \<and> buflen mod 3 = 0 \<and> array_bound r 0 offset 0 MLKEM_Q,
      \<lambda>(r, target, offset, buf, buflen) (r', n). offset \<le> n \<and> n \<le> target \<and> array_bound r' 0 n 0 MLKEM_Q)"

definition poly_rej_uniform_ensures :: "poly \<Rightarrow> bool" where
  "poly_rej_uniform_ensures entry \<longleftrightarrow> array_bound entry 0 MLKEM_N 0 MLKEM_Q"

definition poly_rej_uniform_x4_ensures :: "poly list \<Rightarrow> bool" where
  "poly_rej_uniform_x4_ensures vec \<longleftrightarrow>
     array_bound (vec ! 0) 0 MLKEM_N 0 MLKEM_Q \<and> array_bound (vec ! 1) 0 MLKEM_N 0 MLKEM_Q \<and>
     array_bound (vec ! 2) 0 MLKEM_N 0 MLKEM_Q \<and> array_bound (vec ! 3) 0 MLKEM_N 0 MLKEM_Q"

definition gen_matrix_ensures :: "polymat \<Rightarrow> bool" where
  "gen_matrix_ensures a \<longleftrightarrow> (\<forall>x \<in> {0..<MLKEM_K}. \<forall>y \<in> {0..<MLKEM_K}. array_bound (a ! x ! y) 0 MLKEM_N 0 MLKEM_Q)"

definition matvec_mul_contract :: "(polymat \<times> polyvec \<times> mulcache list, polyvec) contract" where
  "matvec_mul_contract =
     (\<lambda>(a, v, vc). \<forall>k0 \<in> {0..<MLKEM_K}. \<forall>k1 \<in> {0..<MLKEM_K}. array_bound (a ! k0 ! k1) 0 MLKEM_N 0 MLKEM_UINT12_LIMIT, \<lambda>_ out. True)"

definition keypair_getnoise_eta1_contract :: "(bytes, polyvec \<times> polyvec) contract" where
  "keypair_getnoise_eta1_contract =
     (\<lambda>seed. True, \<lambda>_ (pv, e). polyvec_abs_bound pv (int MLKEM_ETA1 + 1) \<and> polyvec_abs_bound e (int MLKEM_ETA1 + 1))"

definition enc_getnoise_eta1_eta2_contract :: "(bytes, polyvec \<times> polyvec \<times> poly) contract" where
  "enc_getnoise_eta1_eta2_contract =
     (\<lambda>coins. True,
      \<lambda>_ (sp, ep, epp). polyvec_abs_bound sp (int MLKEM_ETA1 + 1) \<and> polyvec_abs_bound ep (int MLKEM_ETA2 + 1) \<and>
        array_abs_bound epp 0 MLKEM_N (int MLKEM_ETA2 + 1))"

text \<open>The bounds of a well-formed polynomial or vector, by the predicates of the other theories.\<close>

lemma poly_bounds:
  "coeffs12 p \<Longrightarrow> array_bound p 0 MLKEM_N 0 MLKEM_UINT12_LIMIT"
  "small p \<Longrightarrow> array_abs_bound p 0 MLKEM_N 3"
  "reduced p \<Longrightarrow> array_abs_bound p 0 MLKEM_N MLKEM_Q"
proof -
  show "array_bound p 0 MLKEM_N 0 MLKEM_UINT12_LIMIT" if "coeffs12 p" using that by (simp add: coeffs12_def array_bound_set)
  show "array_abs_bound p 0 MLKEM_N 3" if "small p" using that by (fastforce simp: small_def array_abs_bound_set abs_bound_def)
  show "array_abs_bound p 0 MLKEM_N MLKEM_Q" if "reduced p" using that by (simp add: reduced_def array_abs_bound_set MLKEM_N_def MLKEM_Q_def)
qed

lemma polyvec_bounds:
  "polyvec_all canonical v \<Longrightarrow> polyvec_bound v 0 MLKEM_Q"
  "polyvec_all coeffs12 v \<Longrightarrow> polyvec_bound v 0 MLKEM_UINT12_LIMIT"
  "polyvec_all small v \<Longrightarrow> polyvec_abs_bound v 3"
  "polyvec_all reduced v \<Longrightarrow> polyvec_abs_bound v MLKEM_Q"
  using poly_bounds canonical_array_bound by (auto simp: polyvec_bound_def polyvec_abs_bound_def dest: polyvec_all_nth)

text \<open>A function applied to every component of a vector.\<close>

lemma map_K: "k < MLKEM_K \<Longrightarrow> map f [0..<MLKEM_K] ! k = f k"
  by simp

lemma meets_polyvec:
  "meets mlk_polyvec_ntt polyvec_ntt_contract (polyvec_all coeffs16)"
  "meets mlk_polyvec_invntt_tomont polyvec_invntt_tomont_contract (polyvec_all coeffs16)"
  "meets mlk_polyvec_reduce polyvec_reduce_contract (polyvec_all coeffs16)"
  "meets mlk_polyvec_tomont polyvec_tomont_contract (polyvec_all coeffs16)"
  using meets_poly
  by (auto simp: meets_def polyvec_ntt_contract_def polyvec_invntt_tomont_contract_def polyvec_reduce_contract_def polyvec_tomont_contract_def
      poly_ntt_contract_def poly_invntt_tomont_contract_def poly_reduce_contract_def poly_tomont_contract_def
      mlk_polyvec_ntt_def mlk_polyvec_invntt_tomont_def mlk_polyvec_reduce_def mlk_polyvec_tomont_def
      polyvec_bound_def polyvec_abs_bound_def dest: polyvec_all_nth)

lemma decompress_du_canonical: "polyvec_all canonical (mlk_polyvec_decompress_du a)"
  by (rule polyvec_allI) (simp_all add: mlk_polyvec_decompress_du_def mlk_poly_decompress_du_def decompress_canonical)

lemma meets_polyvec_bytes:
  "meets mlk_poly_decompress_du poly_decompress_du_contract (\<lambda>a. True)"
  "meets mlk_poly_decompress_dv poly_decompress_dv_contract (\<lambda>a. True)"
  "meets mlk_polyvec_decompress_du polyvec_decompress_du_contract (\<lambda>a. True)"
  "meets mlk_polyvec_frombytes polyvec_frombytes_contract (\<lambda>a. MLKEM_POLYVECBYTES \<le> length a)"
  using polyvec_frombytes decompress_du_canonical
  by (auto simp: meets_def poly_decompress_du_contract_def poly_decompress_dv_contract_def polyvec_decompress_du_contract_def
      polyvec_frombytes_contract_def mlk_poly_decompress_du_def mlk_poly_decompress_dv_def decompress_canonical canonical_array_bound
      polyvec_bounds MLKEM_POLYVECBYTES_def MLKEM_POLYBYTES_def MLKEM_K_def)

lemma meets_noise:
  "meets (\<lambda>(r3, seed, n0, n1, n2, n3). mlk_poly_getnoise_eta1_4x r3 seed n0 n1 n2 n3) poly_getnoise_eta1_4x_contract
     (\<lambda>(r3, seed, _). length seed = MLKEM_SYMBYTES)"
  "meets (\<lambda>(seed, n). mlk_poly_getnoise_eta2 seed n) poly_getnoise_eta2_contract (\<lambda>(seed, _). length seed = MLKEM_SYMBYTES)"
  "meets (\<lambda>(seed, n0, n1, n2, n3). mlk_poly_getnoise_eta1122_4x seed n0 n1 n2 n3) poly_getnoise_eta1122_4x_contract
     (\<lambda>(seed, _). length seed = MLKEM_SYMBYTES)"
proof -
  have n: "array_abs_bound (noise_poly eta seed c) 0 MLKEM_N (int eta + 1)" for eta seed c
    using noise_poly_small [of eta seed c] by (fastforce simp: array_abs_bound_set abs_bound_def)
  show "meets (\<lambda>(r3, seed, n0, n1, n2, n3). mlk_poly_getnoise_eta1_4x r3 seed n0 n1 n2 n3) poly_getnoise_eta1_4x_contract
     (\<lambda>(r3, seed, _). length seed = MLKEM_SYMBYTES)"
    using n [of 2] by (auto simp: meets_def poly_getnoise_eta1_4x_contract_def getnoise_eta1_4x_spec MLKEM_ETA1_def)
  show "meets (\<lambda>(seed, n). mlk_poly_getnoise_eta2 seed n) poly_getnoise_eta2_contract (\<lambda>(seed, _). length seed = MLKEM_SYMBYTES)"
    using n [of 2] getnoise_others_spec by (auto simp: meets_def poly_getnoise_eta2_contract_def MLKEM_ETA2_def)
  show "meets (\<lambda>(seed, n0, n1, n2, n3). mlk_poly_getnoise_eta1122_4x seed n0 n1 n2 n3) poly_getnoise_eta1122_4x_contract
     (\<lambda>(seed, _). length seed = MLKEM_SYMBYTES)"
    using n [of 2] n [of 3] getnoise_others_spec by (auto simp: meets_def poly_getnoise_eta1122_4x_contract_def MLKEM_ETA2_def)
qed

lemma meets_indcpa_noise:
  "meets mlk_keypair_getnoise_eta1 keypair_getnoise_eta1_contract (\<lambda>seed. length seed = MLKEM_SYMBYTES)"
  "meets mlk_enc_getnoise_eta1_eta2 enc_getnoise_eta1_eta2_contract (\<lambda>coins. length coins = MLKEM_SYMBYTES)"
proof -
  show "meets mlk_keypair_getnoise_eta1 keypair_getnoise_eta1_contract (\<lambda>seed. length seed = MLKEM_SYMBYTES)"
    using keypair_noise polyvec_bounds(3)
    by (auto simp: meets_def keypair_getnoise_eta1_contract_def MLKEM_ETA1_def MLKEM_SYMBYTES_def split_beta)
  show "meets mlk_enc_getnoise_eta1_eta2 enc_getnoise_eta1_eta2_contract (\<lambda>coins. length coins = MLKEM_SYMBYTES)"
    unfolding meets_def
  proof (intro allI impI)
    fix coins :: bytes assume "length coins = MLKEM_SYMBYTES"
    then have l: "length coins = 32" by (simp add: MLKEM_SYMBYTES_def)
    obtain r e1 e2 where e: "mlk_enc_getnoise_eta1_eta2 coins = (r, e1, e2)" by (metis prod_cases3)
    show "snd enc_getnoise_eta1_eta2_contract coins (mlk_enc_getnoise_eta1_eta2 coins)"
      using enc_noise [OF l e] polyvec_bounds(3) poly_bounds(2) by (simp add: enc_getnoise_eta1_eta2_contract_def e MLKEM_ETA1_def MLKEM_ETA2_def)
  qed
qed

text \<open>Rejection sampling: the entries it fills are candidates below q.\<close>

lemma rej_uniform_range:
  assumes c: "offset \<le> target" "array_bound r 0 offset 0 MLKEM_Q" "target \<le> length r" "buflen = length buf"
  shows "snd rej_uniform_contract (r, target, offset, buf, buflen) (mlk_rej_uniform r target offset buf buflen)"
proof -
  obtain r' n where rn: "rej_uniform_loop r target offset buf 0 (length buf) = (r', n)" by fastforce
  have "filled target (take offset r) (r, offset)" using c by (simp add: filled_def min_def)
  from rej_uniform_loop_spec [OF this order.refl, where buf = buf and pos = 0]
  have f: "filled target (take offset r @ accepted buf) (r', n)" by (simp add: rn)
  have len: "length (take offset r @ accepted buf) = offset + length (accepted buf)" using c by simp
  have n: "n = min target (offset + length (accepted buf))" and t: "take n r' = take target (take offset r @ accepted buf)"
    using f unfolding filled_def len fst_conv snd_conv by blast+
  have "0 \<le> r' ! i \<and> r' ! i < MLKEM_Q" if i: "i < n" for i
  proof -
    have "r' ! i = (take offset r @ accepted buf) ! i" using i t n by (metis min_less_iff_conj nth_take)
    also have "\<dots> \<in> set (take offset r @ accepted buf)" using i n c by (intro nth_mem) simp
    finally have "r' ! i \<in> set (take offset r) \<or> r' ! i \<in> set (accepted buf)" by auto
    moreover have "0 \<le> x \<and> x < MLKEM_Q" if "x \<in> set (take offset r)" for x
      using that c(2) by (auto simp: in_set_conv_nth array_bound_def)
    ultimately show ?thesis using accepted_range by blast
  qed
  then show ?thesis using n c(1,4) by (simp add: rej_uniform_contract_def mlk_rej_uniform_def rn array_bound_def)
qed

lemma meets_rej_uniform:
  "meets (\<lambda>(r, target, offset, buf, buflen). mlk_rej_uniform r target offset buf buflen) rej_uniform_contract
     (\<lambda>(r, target, offset, buf, buflen). target \<le> length r \<and> length buf = buflen)"
  unfolding meets_def using rej_uniform_range by (auto simp: rej_uniform_contract_def split del: if_split)

lemma rej_uniform_ensures:
  assumes "length entry = MLKEM_N" "mlk_poly_rej_uniform entry seed = Some p"
  shows "poly_rej_uniform_ensures p"
proof -
  have "length entry = 256" using assms(1) by (simp add: MLKEM_N_def)
  then have "canonical p" using assms(2) unfolding rej_uniform_iff [OF \<open>length entry = 256\<close>]
    by (auto simp: canonical_def MLKEM_N_def Let_def dest!: in_set_takeD accepted_range)
  then show ?thesis by (simp add: poly_rej_uniform_ensures_def canonical_array_bound)
qed

lemma rej_uniform_x4_ensures:
  assumes "length vec = 4" "\<forall>v \<in> set vec. length v = MLKEM_N" "length seeds = 4" "\<forall>d \<in> set seeds. length d = MLKEM_SYMBYTES + 2"
    and "mlk_poly_rej_uniform_x4 vec seeds = Some ps"
  shows "poly_rej_uniform_x4_ensures ps"
proof -
  have "\<forall>i < 4. mlk_poly_rej_uniform (vec ! i) (seeds ! i) = Some (ps ! i)"
    using rej_uniform_x4_iff [OF assms(1-4)] assms(5) by blast
  then have "array_bound (ps ! i) 0 MLKEM_N 0 MLKEM_Q" if "i < 4" for i
    using rej_uniform_ensures [of "vec ! i" "seeds ! i" "ps ! i"] that assms(1,2) by (simp add: poly_rej_uniform_ensures_def)
  then show ?thesis by (simp add: poly_rej_uniform_x4_ensures_def)
qed

section \<open>The encryption scheme with every contract checked\<close>

text \<open>
  The functions of \<open>indcpa.c\<close> with each call checked against its contract, before and after. \<open>None\<close> is a call that
  does not return, \<open>Some None\<close> one that ends the process at a violated contract.
\<close>

definition mlk_indcpa_keypair_derand_checked :: "bytes \<Rightarrow> (bytes \<times> bytes) option option" where
  "mlk_indcpa_keypair_derand_checked coins =
     (let coins_with_domain_separator = take MLKEM_SYMBYTES coins @ [of_nat MLKEM_K];
          buf = mlk_hash_g coins_with_domain_separator;
          publicseed = take MLKEM_SYMBYTES buf;
          noiseseed = drop MLKEM_SYMBYTES buf
      in do {
        a \<leftarrow> mlk_gen_matrix fresh_polymat publicseed False;
        Some (if \<not> gen_matrix_ensures a then None else do {
          (skpv, e) \<leftarrow> checked keypair_getnoise_eta1_contract mlk_keypair_getnoise_eta1 noiseseed;
          skpv \<leftarrow> checked polyvec_ntt_contract mlk_polyvec_ntt skpv;
          e \<leftarrow> checked polyvec_ntt_contract mlk_polyvec_ntt e;
          let skpv_cache = mlk_polyvec_mulcache_compute skpv;
          pkpv \<leftarrow> checked matvec_mul_contract (\<lambda>(a, v, vc). mlk_matvec_mul a v vc) (a, skpv, skpv_cache);
          pkpv \<leftarrow> checked polyvec_tomont_contract mlk_polyvec_tomont pkpv;
          pkpv \<leftarrow> checked polyvec_add_contract (\<lambda>(r, b). mlk_polyvec_add r b) (pkpv, e);
          pkpv \<leftarrow> checked polyvec_reduce_contract mlk_polyvec_reduce pkpv;
          skpv \<leftarrow> checked polyvec_reduce_contract mlk_polyvec_reduce skpv;
          sk \<leftarrow> checked polyvec_tobytes_contract mlk_pack_sk skpv;
          pk \<leftarrow> checked polyvec_tobytes_contract (\<lambda>v. mlk_pack_pk v publicseed) pkpv;
          Some (pk, sk) }) })"

definition mlk_indcpa_enc_checked :: "bytes \<Rightarrow> bytes \<Rightarrow> bytes \<Rightarrow> bytes option option" where
  "mlk_indcpa_enc_checked m pk coins =
     (case do {
          pkpv \<leftarrow> checked polyvec_frombytes_contract mlk_polyvec_frombytes pk;
          let seed = snd (mlk_unpack_pk pk);
          k \<leftarrow> checked poly_frommsg_contract mlk_poly_frommsg m;
          Some (pkpv, seed, k) } of
        None \<Rightarrow> Some None
      | Some (pkpv, seed, k) \<Rightarrow> do {
        at \<leftarrow> mlk_gen_matrix fresh_polymat seed True;
        Some (if \<not> gen_matrix_ensures at then None else do {
          (sp, ep, epp) \<leftarrow> checked enc_getnoise_eta1_eta2_contract mlk_enc_getnoise_eta1_eta2 coins;
          sp \<leftarrow> checked polyvec_ntt_contract mlk_polyvec_ntt sp;
          let sp_cache = mlk_polyvec_mulcache_compute sp;
          b \<leftarrow> checked matvec_mul_contract (\<lambda>(a, v, vc). mlk_matvec_mul a v vc) (at, sp, sp_cache);
          v \<leftarrow> checked polyvec_basemul_acc_montgomery_cached_contract
                 (\<lambda>(a, b, b_cache). mlk_polyvec_basemul_acc_montgomery_cached a b b_cache) (pkpv, sp, sp_cache);
          b \<leftarrow> checked polyvec_invntt_tomont_contract mlk_polyvec_invntt_tomont b;
          v \<leftarrow> checked poly_invntt_tomont_contract mlk_poly_invntt_tomont v;
          b \<leftarrow> checked polyvec_add_contract (\<lambda>(r, b). mlk_polyvec_add r b) (b, ep);
          v \<leftarrow> checked poly_add_contract (\<lambda>(r, b). mlk_poly_add r b) (v, epp);
          v \<leftarrow> checked poly_add_contract (\<lambda>(r, b). mlk_poly_add r b) (v, k);
          b \<leftarrow> checked polyvec_reduce_contract mlk_polyvec_reduce b;
          v \<leftarrow> checked poly_reduce_contract mlk_poly_reduce v;
          cu \<leftarrow> checked polyvec_compress_du_contract mlk_polyvec_compress_du b;
          cv \<leftarrow> checked poly_compress_dv_contract mlk_poly_compress_dv v;
          Some (cu @ cv) }) })"

definition mlk_indcpa_dec_checked :: "bytes \<Rightarrow> bytes \<Rightarrow> bytes option" where
  "mlk_indcpa_dec_checked c sk =
     do { b \<leftarrow> checked polyvec_decompress_du_contract mlk_polyvec_decompress_du c;
          v \<leftarrow> checked poly_decompress_dv_contract mlk_poly_decompress_dv
                 (take MLKEM_POLYCOMPRESSEDBYTES_DV (drop MLKEM_POLYVECCOMPRESSEDBYTES_DU c));
          skpv \<leftarrow> checked polyvec_frombytes_contract mlk_unpack_sk sk;
          b \<leftarrow> checked polyvec_ntt_contract mlk_polyvec_ntt b;
          let b_cache = mlk_polyvec_mulcache_compute b;
          sb \<leftarrow> checked polyvec_basemul_acc_montgomery_cached_contract
                  (\<lambda>(a, b, b_cache). mlk_polyvec_basemul_acc_montgomery_cached a b b_cache) (skpv, b, b_cache);
          sb \<leftarrow> checked poly_invntt_tomont_contract mlk_poly_invntt_tomont sb;
          v \<leftarrow> checked poly_sub_contract (\<lambda>(r, b). mlk_poly_sub r b) (v, sb);
          v \<leftarrow> checked poly_reduce_contract mlk_poly_reduce v;
          checked poly_tomsg_contract mlk_poly_tomsg v }"

text \<open>The modulus check of \<open>kem.c\<close>.\<close>

definition mlk_kem_check_pk_checked :: "bytes \<Rightarrow> mlk_err option option" where
  "mlk_kem_check_pk_checked pk =
     do { p \<leftarrow> checked polyvec_frombytes_contract mlk_polyvec_frombytes pk;
          p \<leftarrow> checked polyvec_reduce_contract mlk_polyvec_reduce p;
          p_reencoded \<leftarrow> checked polyvec_tobytes_contract mlk_polyvec_tobytes p;
          Some (if mlk_ct_memcmp (take MLKEM_POLYVECBYTES pk) p_reencoded \<noteq> 0 then Some MLK_ERR_INVALID_PK else None) }"

text \<open>The calls, each with the bounds that its caller has established.\<close>

lemma small_coeffs16: "small p \<Longrightarrow> coeffs16 p"
  by (fastforce simp: small_def coeffs16_def is_i16_def)

lemma reduced_coeffs16: "reduced p \<Longrightarrow> coeffs16 p"
  by (auto simp: reduced_def intro: coeffs16I)

lemma canonical_coeffs16: "canonical p \<Longrightarrow> coeffs16 p"
  by (rule reduced_coeffs16 [OF canonical_reduced])

lemma call_ntt: "polyvec_all reduced v \<Longrightarrow> checked polyvec_ntt_contract mlk_polyvec_ntt v = Some (mlk_polyvec_ntt v)"
  by (rule checked_meets [OF meets_polyvec(1)])
    (auto simp: polyvec_ntt_contract_def intro: polyvec_bounds(4) polyvec_mono reduced_coeffs16)

lemma call_polyvec:
  assumes "polyvec_all coeffs16 v"
  shows "checked polyvec_invntt_tomont_contract mlk_polyvec_invntt_tomont v = Some (mlk_polyvec_invntt_tomont v)"
    and "checked polyvec_reduce_contract mlk_polyvec_reduce v = Some (mlk_polyvec_reduce v)"
    and "checked polyvec_tomont_contract mlk_polyvec_tomont v = Some (mlk_polyvec_tomont v)"
  using checked_meets [OF meets_polyvec(2) assms] checked_meets [OF meets_polyvec(3) assms] checked_meets [OF meets_polyvec(4) assms]
  by (simp_all add: polyvec_invntt_tomont_contract_def polyvec_reduce_contract_def polyvec_tomont_contract_def)

lemma call_poly:
  assumes "coeffs16 p"
  shows "checked poly_invntt_tomont_contract mlk_poly_invntt_tomont p = Some (mlk_poly_invntt_tomont p)"
    and "checked poly_reduce_contract mlk_poly_reduce p = Some (mlk_poly_reduce p)"
  using checked_meets [OF meets_poly(4) assms] checked_meets [OF meets_poly(2) assms]
  by (simp_all add: poly_invntt_tomont_contract_def poly_reduce_contract_def)

lemma call_pack:
  "polyvec_all canonical v \<Longrightarrow> checked polyvec_tobytes_contract f v = Some (f v)"
  "polyvec_all canonical v \<Longrightarrow> checked polyvec_compress_du_contract g v = Some (g v)"
  "canonical p \<Longrightarrow> checked poly_compress_dv_contract h p = Some (h p)"
  "canonical p \<Longrightarrow> checked poly_tomsg_contract h p = Some (h p)"
  by (simp_all add: checked_def polyvec_tobytes_contract_def polyvec_compress_du_contract_def poly_compress_dv_contract_def
      poly_tomsg_contract_def polyvec_bounds canonical_array_bound)

lemma call_unpack:
  "1152 \<le> length a \<Longrightarrow> checked polyvec_frombytes_contract mlk_polyvec_frombytes a = Some (mlk_polyvec_frombytes a)"
  "1152 \<le> length a \<Longrightarrow> checked polyvec_frombytes_contract mlk_unpack_sk a = Some (mlk_unpack_sk a)"
  "checked polyvec_decompress_du_contract mlk_polyvec_decompress_du a = Some (mlk_polyvec_decompress_du a)"
  "checked poly_decompress_dv_contract mlk_poly_decompress_dv a = Some (mlk_poly_decompress_dv a)"
  "checked poly_frommsg_contract mlk_poly_frommsg a = Some (mlk_poly_frommsg a)"
  using polyvec_bounds(2) [OF polyvec_frombytes [of a]] polyvec_bounds(1) [OF decompress_du_canonical [of a]]
    canonical_array_bound [OF decompress_canonical(1) [of a]] canonical_array_bound [OF frommsg_canonical [of a]]
  by (simp_all add: checked_def polyvec_frombytes_contract_def polyvec_decompress_du_contract_def poly_decompress_dv_contract_def
      poly_frommsg_contract_def mlk_unpack_sk_def mlk_poly_decompress_dv_def)

lemma call_mul:
  "(\<And>i. i < MLKEM_K \<Longrightarrow> polyvec_all coeffs12 (a ! i)) \<Longrightarrow> checked matvec_mul_contract f (a, v, vc) = Some (f (a, v, vc))"
  "polyvec_all coeffs12 b \<Longrightarrow> checked polyvec_basemul_acc_montgomery_cached_contract g (b, v, vc) = Some (g (b, v, vc))"
  using polyvec_bounds(2)
  by (auto simp: checked_def matvec_mul_contract_def polyvec_basemul_acc_montgomery_cached_contract_def polyvec_bound_def)

text \<open>Sums that fit.\<close>

lemma sum_fits:
  assumes "length p = 256" "abs_bound A p" "length r = 256" "abs_bound B r" "A + B \<le> 32769" "k < 256"
  shows "p ! k + r ! k \<le> 32767 \<and> p ! k + r ! k \<ge> - 32768 \<and> p ! k - r ! k \<le> 32767 \<and> p ! k - r ! k \<ge> - 32768"
  using abs_bound_nth [OF assms(2), of k] abs_bound_nth [OF assms(4), of k] assms(1,3,5,6) by (auto simp: abs_less_iff)

lemma call_add:
  assumes "length p = 256" "abs_bound A p" "length r = 256" "abs_bound B r" "A + B \<le> 32769"
  shows "checked poly_add_contract (\<lambda>(r, b). mlk_poly_add r b) (p, r) = Some (mlk_poly_add p r)"
    and "checked poly_sub_contract (\<lambda>(r, b). mlk_poly_sub r b) (p, r) = Some (mlk_poly_sub p r)"
proof -
  have "A \<le> 32768 \<and> B \<le> 32768 \<or> p = [] \<or> r = []"
    using assms(1-5) abs_bound_nth [OF assms(2), of 0] abs_bound_nth [OF assms(4), of 0] by auto
  then have c: "coeffs16 p" "coeffs16 r" using assms(1-4) by (auto intro: coeffs16I)
  note f = sum_fits [OF assms]
  show "checked poly_add_contract (\<lambda>(r, b). mlk_poly_add r b) (p, r) = Some (mlk_poly_add p r)"
    using checked_meets [OF meets_add_sub(1), of "(p, r)"] c f by (simp add: poly_add_contract_def MLKEM_N_def)
  show "checked poly_sub_contract (\<lambda>(r, b). mlk_poly_sub r b) (p, r) = Some (mlk_poly_sub p r)"
    using checked_meets [OF meets_add_sub(2), of "(p, r)"] c f by (simp add: poly_sub_contract_def MLKEM_N_def)
qed

lemma call_polyvec_add:
  assumes "\<And>k. k < MLKEM_K \<Longrightarrow> length (v ! k) = 256 \<and> abs_bound A (v ! k) \<and> length (w ! k) = 256 \<and> abs_bound B (w ! k)" "A + B \<le> 32769"
  shows "checked polyvec_add_contract (\<lambda>(r, b). mlk_polyvec_add r b) (v, w) = Some (mlk_polyvec_add v w)"
  using sum_fits [where A = A and B = B] assms by (simp add: checked_def polyvec_add_contract_def MLKEM_N_def)

lemma gen_matrix_canonical:
  assumes "length seed = MLKEM_SYMBYTES" "mlk_gen_matrix fresh_polymat seed transposed = Some a"
  shows "mat_canonical a" and "gen_matrix_ensures a"
proof -
  have f: "mat_shape fresh_polymat" by (simp add: mat_shape_def fresh_polymat_def)
  note a = assms(2) [unfolded gen_matrix_iff [OF f assms(1)]]
  have c: "canonical (a ! i ! j)" if "i < MLKEM_K" "j < MLKEM_K" for i j
  proof -
    have "Some (a ! i ! j) = (if transposed then sample_ntt seed j i else sample_ntt seed i j)" using a that by blast
    then show ?thesis by (cases transposed) (auto intro: sample_ntt_canonical dest: sym)
  qed
  then show "mat_canonical a" using a by (auto simp: mat_canonical_def intro!: polyvec_allI)
  show "gen_matrix_ensures a" using c by (auto simp: gen_matrix_ensures_def intro: canonical_array_bound)
qed

lemma mat_coeffs12: "mat_canonical a \<Longrightarrow> i < MLKEM_K \<Longrightarrow> polyvec_all coeffs12 (a ! i)"
  by (auto simp: mat_canonical_def intro: polyvec_mono canonical_coeffs12)

lemma matvec_coeffs16:
  assumes "mat_canonical a" "polyvec_all coeffs16 v"
  shows "polyvec_all coeffs16 (mlk_matvec_mul a v (mlk_polyvec_mulcache_compute v))"
  by (rule polyvec_allI) (use basemul_zq(1) [OF mat_coeffs12 [OF assms(1)] assms(2)] in \<open>auto simp: mlk_matvec_mul_def\<close>)

lemma add_coeffs16:
  assumes "length p = 256" "abs_bound A p" "length r = 256" "abs_bound B r" "A + B \<le> 32768"
  shows "coeffs16 (mlk_poly_add p r)"
  by (rule coeffs16I) (use poly_add [OF assms(1-4)] assms(5) in auto)

lemma polyvec_add_coeffs16:
  assumes "\<And>k. k < MLKEM_K \<Longrightarrow> length (v ! k) = 256 \<and> abs_bound A (v ! k) \<and> length (w ! k) = 256 \<and> abs_bound B (w ! k)" "A + B \<le> 32768"
  shows "polyvec_all coeffs16 (mlk_polyvec_add v w)"
  by (rule polyvec_allI) (use add_coeffs16 [where A = A and B = B] assms in \<open>auto simp: mlk_polyvec_add_def\<close>)

lemma polyvec_reduce_canonical: "polyvec_all coeffs16 v \<Longrightarrow> polyvec_all canonical (mlk_polyvec_reduce v)"
  by (rule polyvec_allI) (auto simp: mlk_polyvec_reduce_def intro: poly_reduce_canonical polyvec_all_nth)

lemma invntt_bound:
  assumes "coeffs16 p"
  shows "length (mlk_poly_invntt_tomont p) = 256" "abs_bound 3329 (mlk_poly_invntt_tomont p)"
  using invntt_eval(1,2) [of p] assms by (simp_all add: coeffs16_def MLKEM_N_def)

theorem keypair_checked:
  "mlk_indcpa_keypair_derand_checked coins = map_option Some (mlk_indcpa_keypair_derand coins)"
proof -
  define buf where "buf = mlk_hash_g (take MLKEM_SYMBYTES coins @ [of_nat MLKEM_K])"
  let ?rho = "take MLKEM_SYMBYTES buf" and ?sigma = "drop MLKEM_SYMBYTES buf"
  have l: "length ?rho = MLKEM_SYMBYTES" "length ?sigma = MLKEM_SYMBYTES" "length ?sigma = 32"
    by (simp_all add: buf_def MLKEM_SYMBYTES_def)
  obtain s e where se: "mlk_keypair_getnoise_eta1 ?sigma = (s, e)" by fastforce
  have n: "polyvec_all reduced s" "polyvec_all reduced e"
    using keypair_noise [OF l(3)] by (auto simp: se intro: polyvec_mono small_reduced)
  let ?s = "mlk_polyvec_ntt s" and ?e = "mlk_polyvec_ntt e"
  have noise: "checked keypair_getnoise_eta1_contract mlk_keypair_getnoise_eta1 ?sigma = Some (s, e)"
    using checked_meets [OF meets_indcpa_noise(1) l(2)] by (simp add: keypair_getnoise_eta1_contract_def se)
  show ?thesis
  proof (cases "mlk_gen_matrix fresh_polymat ?rho False")
    case None
    then show ?thesis
      by (simp add: mlk_indcpa_keypair_derand_checked_def mlk_indcpa_keypair_derand_def Let_def flip: buf_def)
  next
    case (Some a)
    note m = gen_matrix_canonical [OF l(1) Some]
    let ?t = "mlk_matvec_mul a ?s (mlk_polyvec_mulcache_compute ?s)"
    note s16 = polyvec_ntt(1) [OF n(1)] and t16 = matvec_coeffs16 [OF m(1) polyvec_ntt(1) [OF n(1)]]
    let ?p = "mlk_polyvec_tomont ?t"
    have sum: "length (?p ! k) = 256 \<and> abs_bound 3329 (?p ! k) \<and> length (?e ! k) = 256 \<and> abs_bound 26632 (?e ! k)" if "k < MLKEM_K" for k
      using poly_tomont(1,2) [OF polyvec_all_nth [OF t16 that]] polyvec_ntt(3) [OF n(2) that] that by (simp add: mlk_polyvec_tomont_def)
    have add: "checked polyvec_add_contract (\<lambda>(r, b). mlk_polyvec_add r b) (?p, ?e) = Some (mlk_polyvec_add ?p ?e)"
      by (rule call_polyvec_add [OF sum]) simp_all
    have a16: "polyvec_all coeffs16 (mlk_polyvec_add ?p ?e)" by (rule polyvec_add_coeffs16 [OF sum]) simp_all
    show ?thesis
      by (simp add: mlk_indcpa_keypair_derand_checked_def mlk_indcpa_keypair_derand_def Let_def Some m noise se call_ntt n
          call_mul mat_coeffs12 call_polyvec t16 add a16 s16 call_pack polyvec_reduce_canonical flip: buf_def)
  qed
qed

theorem enc_checked:
  assumes "length pk = MLKEM_INDCPA_PUBLICKEYBYTES" "length coins = MLKEM_SYMBYTES"
  shows "mlk_indcpa_enc_checked m pk coins = map_option Some (mlk_indcpa_enc m pk coins)"
proof -
  let ?t = "mlk_polyvec_frombytes pk" and ?k = "mlk_poly_frommsg m"
  have pk: "1152 \<le> length pk" and c: "length coins = 32" using assms by (simp_all add: mlk_sizes)
  obtain seed where u: "mlk_unpack_pk pk = (?t, seed)" and seed: "length seed = MLKEM_SYMBYTES"
    using assms(1) by (simp add: mlk_unpack_pk_def mlk_sizes)
  obtain r e1 e2 where n: "mlk_enc_getnoise_eta1_eta2 coins = (r, e1, e2)" by (metis prod_cases3)
  note small = enc_noise [OF c n]
  have rr: "polyvec_all reduced r" by (rule polyvec_mono [OF small(1) small_reduced])
  have noise: "checked enc_getnoise_eta1_eta2_contract mlk_enc_getnoise_eta1_eta2 coins = Some (r, e1, e2)"
    using checked_meets [OF meets_indcpa_noise(2) assms(2)] by (simp add: enc_getnoise_eta1_eta2_contract_def n)
  show ?thesis
  proof (cases "mlk_gen_matrix fresh_polymat seed True")
    case None
    then show ?thesis by (simp add: mlk_indcpa_enc_checked_def mlk_indcpa_enc_def u call_unpack pk Let_def)
  next
    case (Some a)
    note mat = gen_matrix_canonical [OF seed Some]
    let ?r = "mlk_polyvec_ntt r"
    let ?b = "mlk_matvec_mul a ?r (mlk_polyvec_mulcache_compute ?r)"
    let ?v = "mlk_polyvec_basemul_acc_montgomery_cached ?t ?r (mlk_polyvec_mulcache_compute ?r)"
    note r16 = polyvec_ntt(1) [OF rr]
    note b16 = matvec_coeffs16 [OF mat(1) r16] and v16 = basemul_zq(1) [OF polyvec_frombytes [OF pk] r16]
    let ?bi = "mlk_polyvec_invntt_tomont ?b" and ?vi = "mlk_poly_invntt_tomont ?v"
    have sum: "length (?bi ! k) = 256 \<and> abs_bound 3329 (?bi ! k) \<and> length (e1 ! k) = 256 \<and> abs_bound 3329 (e1 ! k)" if "k < MLKEM_K" for k
      using invntt_bound [OF polyvec_all_nth [OF b16 that]] small_reduced [OF polyvec_all_nth [OF small(2) that]] that
      by (simp add: mlk_polyvec_invntt_tomont_def reduced_def)
    have add: "checked polyvec_add_contract (\<lambda>(r, b). mlk_polyvec_add r b) (?bi, e1) = Some (mlk_polyvec_add ?bi e1)"
      by (rule call_polyvec_add [OF sum]) simp_all
    have u16: "polyvec_all coeffs16 (mlk_polyvec_add ?bi e1)" by (rule polyvec_add_coeffs16 [OF sum]) simp_all
    note vi = invntt_bound [OF v16]
    have e2: "length e2 = 256" "abs_bound 3329 e2" using small_reduced [OF small(3)] by (simp_all add: reduced_def)
    have k: "length ?k = 256" "abs_bound 3329 ?k" using canonical_reduced [OF frommsg_canonical] by (simp_all add: reduced_def)
    note v1 = poly_add(1,2) [OF vi e2, simplified]
    have add1: "checked poly_add_contract (\<lambda>(r, b). mlk_poly_add r b) (?vi, e2) = Some (mlk_poly_add ?vi e2)"
      by (rule call_add(1) [OF vi e2]) simp
    have add2: "checked poly_add_contract (\<lambda>(r, b). mlk_poly_add r b) (mlk_poly_add ?vi e2, ?k) = Some (mlk_poly_add (mlk_poly_add ?vi e2) ?k)"
      by (rule call_add(1) [OF v1 k]) simp
    have w16: "coeffs16 (mlk_poly_add (mlk_poly_add ?vi e2) ?k)" by (rule add_coeffs16 [OF v1 k]) simp
    show ?thesis
      by (simp add: mlk_indcpa_enc_checked_def mlk_indcpa_enc_def u call_unpack pk Let_def Some mat noise n call_ntt rr
          call_mul mat_coeffs12 polyvec_frombytes call_polyvec b16 call_poly v16 add u16 add1 add2 w16 call_pack
          polyvec_reduce_canonical poly_reduce_canonical mlk_pack_ciphertext_def)
  qed
qed

theorem dec_checked:
  assumes "MLKEM_INDCPA_SECRETKEYBYTES \<le> length sk"
  shows "mlk_indcpa_dec_checked c sk = Some (mlk_indcpa_dec c sk)"
proof -
  let ?b = "mlk_polyvec_decompress_du c" and ?s = "mlk_unpack_sk sk"
  let ?v = "mlk_poly_decompress_dv (take MLKEM_POLYCOMPRESSEDBYTES_DV (drop MLKEM_POLYVECCOMPRESSEDBYTES_DU c))"
  have sk: "1152 \<le> length sk" using assms by (simp add: mlk_sizes)
  have s12: "polyvec_all coeffs12 ?s" using polyvec_frombytes [OF sk] by (simp add: mlk_unpack_sk_def)
  have br: "polyvec_all reduced ?b" by (rule polyvec_mono [OF decompress_du_canonical canonical_reduced])
  let ?w = "mlk_polyvec_ntt ?b"
  let ?y = "mlk_polyvec_basemul_acc_montgomery_cached ?s ?w (mlk_polyvec_mulcache_compute ?w)"
  note y16 = basemul_zq(1) [OF s12 polyvec_ntt(1) [OF br]]
  note y = invntt_bound [OF y16]
  have v: "length ?v = 256" "abs_bound 3329 ?v"
    using canonical_reduced [OF decompress_canonical(1)] by (simp_all add: reduced_def mlk_poly_decompress_dv_def)
  have sub: "checked poly_sub_contract (\<lambda>(r, b). mlk_poly_sub r b) (?v, mlk_poly_invntt_tomont ?y) = Some (mlk_poly_sub ?v (mlk_poly_invntt_tomont ?y))"
    by (rule call_add(2) [OF v y]) simp
  have d16: "coeffs16 (mlk_poly_sub ?v (mlk_poly_invntt_tomont ?y))" by (rule poly_sub(1) [OF v y]) simp
  show ?thesis
    by (simp add: mlk_indcpa_dec_checked_def mlk_indcpa_dec_def mlk_unpack_ciphertext_def call_unpack sk Let_def call_ntt br call_mul s12
        call_poly y16 sub d16 call_pack poly_reduce_canonical)
qed

theorem check_pk_checked:
  assumes "MLKEM_POLYVECBYTES \<le> length pk"
  shows "mlk_kem_check_pk_checked pk = Some (mlk_kem_check_pk pk)"
proof -
  have pk: "1152 \<le> length pk" using assms by (simp add: mlk_sizes)
  have p16: "polyvec_all coeffs16 (mlk_polyvec_frombytes pk)" by (rule polyvec_mono [OF polyvec_frombytes [OF pk] coeffs12_16])
  show ?thesis
    by (simp add: mlk_kem_check_pk_checked_def mlk_kem_check_pk_def call_unpack pk call_polyvec p16 call_pack polyvec_reduce_canonical Let_def)
qed

text \<open>The two places that call Montgomery reduction: a product with a canonical factor, and the accumulators of the scalar product.\<close>

lemma montgomery_calls:
  "is_i16 x \<Longrightarrow> fst fqmul_contract (x, z) \<Longrightarrow> fst montgomery_reduce_contract (x * z)"
  "polyvec_all coeffs12 a \<Longrightarrow> polyvec_all coeffs16 b \<Longrightarrow> i < 128 \<Longrightarrow>
     (let (t0, t1) = foldl (basemul_acc a b (mlk_polyvec_mulcache_compute b) i) (0, 0) [0..<MLKEM_K]
      in fst montgomery_reduce_contract t0 \<and> fst montgomery_reduce_contract t1)"
proof -
  have m: "fst montgomery_reduce_contract y" if "\<bar>y\<bar> \<le> 805109760" for y
    using that by (auto simp: montgomery_reduce_contract_def MLKEM_Q_def push_bit_int_def abs_le_iff)
  show "fst montgomery_reduce_contract (x * z)" if "is_i16 x" "fst fqmul_contract (x, z)"
  proof (rule m)
    have "\<bar>x * z\<bar> \<le> 32768 * 1664"
      unfolding abs_mult using that by (intro mult_mono) (auto simp: is_i16_def fqmul_contract_def mlk_q)
    then show "\<bar>x * z\<bar> \<le> 805109760" by simp
  qed
  show "let (t0, t1) = foldl (basemul_acc a b (mlk_polyvec_mulcache_compute b) i) (0, 0) [0..<MLKEM_K]
      in fst montgomery_reduce_contract t0 \<and> fst montgomery_reduce_contract t1"
    if "polyvec_all coeffs12 a" "polyvec_all coeffs16 b" "i < 128"
  proof -
    note acc = basemul_accumulate [OF that order.refl]
    have K: "int MLKEM_K * (2 * 4095 * 32768) = 805109760" by (simp add: MLKEM_K_def)
    show ?thesis unfolding acc(1) Let_def prod.case by (intro conjI m acc(2,3) [unfolded K])
  qed
qed

text \<open>
  C24: No contract of the arithmetic is ever violated. For every public key, secret key and ciphertext of the right length,
  valid or not, and all coins, each call that key generation, encryption, decryption and the modulus check make satisfies
  what the callee requires and ensures, no sum of coefficients overflows 16 bits, and the checked functions compute what
  the unchecked ones do; they end the process never.
\<close>

theorem kpke_never_violates_contract:
  assumes "length pk = MLKEM_INDCPA_PUBLICKEYBYTES" "length sk = MLKEM_INDCPA_SECRETKEYBYTES" "length coins = MLKEM_SYMBYTES"
  shows "mlk_indcpa_keypair_derand_checked coins = map_option Some (mlk_indcpa_keypair_derand coins)
    \<and> mlk_indcpa_enc_checked m pk coins = map_option Some (mlk_indcpa_enc m pk coins)
    \<and> mlk_indcpa_dec_checked c sk = Some (mlk_indcpa_dec c sk)
    \<and> mlk_kem_check_pk_checked pk = Some (mlk_kem_check_pk pk)"
  using assms by (intro conjI keypair_checked enc_checked dec_checked check_pk_checked) (simp_all add: mlk_sizes)

lemma kpke_never_violates_contract_witness:
  "mlk_indcpa_dec_checked (replicate 1088 0xFF) (replicate 1152 0xFF) = Some (mlk_indcpa_dec (replicate 1088 0xFF) (replicate 1152 0xFF)) \<and>
   mlk_indcpa_enc_checked (replicate 32 1) (replicate 1184 0xFF) (replicate 32 2)
     = map_option Some (mlk_indcpa_enc (replicate 32 1) (replicate 1184 0xFF) (replicate 32 2))"
  using kpke_never_violates_contract [of "replicate 1184 0xFF" "replicate 1152 0xFF" "replicate 32 2"] by (simp add: mlk_sizes del: replicate.simps)

end
